(* ===== verification/Rtc_Prelude.thy ===== *)
theory Rtc_Prelude
  imports Main "HOL-Library.Word" "HOL-Library.Monad_Syntax"
begin

text \<open>
  Shared vocabulary of the development.

  \<^item> The fixed-width integer types of the C++ sources (\<open>uint8_t\<close> to \<open>uint64_t\<close>) are words;
    a signed type of the same width is the same word read with \<open>sint\<close>.
  \<^item> A byte buffer (\<open>uint8_t*\<close> with the bytes that may be touched from it on) is a list of
    bytes. Reading or writing past its end is undefined behaviour in C++ and a failed
    \<open>RTC_DCHECK\<close>/\<open>RTC_CHECK\<close> aborts the process: both are the value \<open>None\<close> of the
    \<open>option\<close> monad, so a theorem that an operation returns \<open>Some\<close> is also a proof that it
    stays inside its buffer and trips no assertion.
  \<^item> \<open>overlay\<close> is the effect of a run of consecutive writes; the codec proofs turn every
    sequence of byte stores into one \<open>overlay\<close>.
\<close>

unbundle bit_operations_syntax

type_synonym u8 = "8 word"
type_synonym u16 = "16 word"
type_synonym u32 = "32 word"
type_synonym u64 = "64 word"
type_synonym bytes = "8 word list"

named_theorems mem_simps \<open>buffer accesses inside the buffer\<close>
named_theorems wire_simps \<open>wire layouts of the packet types\<close>

subsection \<open>Assertions and buffer accesses\<close>

definition dcheck :: "bool \<Rightarrow> unit option" where
  "dcheck b = (if b then Some () else None)"

definition get_byte :: "bytes \<Rightarrow> nat \<Rightarrow> u8 option" where
  "get_byte m i = (if i < length m then Some (m ! i) else None)"

definition put_byte :: "bytes \<Rightarrow> nat \<Rightarrow> u8 \<Rightarrow> bytes option" where
  "put_byte m i b = (if i < length m then Some (m[i := b]) else None)"

definition overlay :: "'a list \<Rightarrow> nat \<Rightarrow> 'a list \<Rightarrow> 'a list" where
  "overlay m i xs = take i m @ xs @ drop (i + length xs) m"

lemma dcheck_True [simp]: "dcheck True = Some ()"
  by (simp add: dcheck_def)

lemma dcheck_False [simp]: "dcheck False = None"
  by (simp add: dcheck_def)

lemma dcheck_bind_Some: "(dcheck b \<bind> f) = Some x \<longleftrightarrow> b \<and> f () = Some x"
  by (simp add: dcheck_def)

lemma get_byte_in [mem_simps]: "i < length m \<Longrightarrow> get_byte m i = Some (m ! i)"
  by (simp add: get_byte_def)

lemma get_byte_Some_iff: "get_byte m i = Some b \<longleftrightarrow> i < length m \<and> b = m ! i"
  by (auto simp: get_byte_def)

lemma length_overlay [simp]:
  "i + length xs \<le> length m \<Longrightarrow> length (overlay m i xs) = length m"
  by (simp add: overlay_def)

lemma overlay_Nil [simp]: "overlay m i [] = m"
  by (simp add: overlay_def)

lemma overlay_at_end_append:
  assumes "i \<le> length m"
  shows "overlay (overlay m i xs) (i + length xs) ys = overlay m i (xs @ ys)"
  using assms by (simp add: overlay_def ac_simps)

lemma overlay_append_left:
  assumes "i \<le> length m" "j = i + length xs"
  shows "overlay (overlay m i xs) j ys = overlay m i (xs @ ys)"
  using overlay_at_end_append [OF assms(1)] assms(2) by simp

lemma put_byte_overlay:
  "i < length m \<Longrightarrow> put_byte m i b = Some (overlay m i [b])"
  by (simp add: put_byte_def overlay_def upd_conv_take_nth_drop)

lemma drop_overlay:
  "i \<le> length m \<Longrightarrow> drop i (overlay m i xs) = xs @ drop (i + length xs) m"
  by (simp add: overlay_def)

lemma take_overlay:
  "i \<le> length m \<Longrightarrow> take (i + length xs) (overlay m i xs) = take i m @ xs"
  by (simp add: overlay_def)

lemma take_overlay_before:
  "i \<le> length m \<Longrightarrow> j \<le> i \<Longrightarrow> take j (overlay m i xs) = take j m"
  by (simp add: overlay_def min_def)

lemma nth_overlay_outside:
  assumes "i + length xs \<le> length m" "j < length m" "j < i \<or> i + length xs \<le> j"
  shows "overlay m i xs ! j = m ! j"
  using assms by (auto simp: overlay_def nth_append min_def)

lemma overlay_whole: "length xs = length m \<Longrightarrow> overlay m 0 xs = xs"
  by (simp add: overlay_def)

lemma get_byte_append_left:
  "i < length xs \<Longrightarrow> get_byte (xs @ ys) i = get_byte xs i"
  by (simp add: get_byte_def nth_append)

lemma get_byte_append_right:
  "length xs \<le> i \<Longrightarrow> get_byte (xs @ ys) i = get_byte ys (i - length xs)"
  by (auto simp: get_byte_def nth_append)

lemma get_byte_drop: "get_byte (drop n m) i = get_byte m (n + i)"
  by (auto simp: get_byte_def add.commute less_diff_conv)

text \<open>\<open>memcpy\<close>/\<open>memset\<close> into a buffer, and a run of bytes read out of it.\<close>

definition memcpy :: "bytes \<Rightarrow> nat \<Rightarrow> bytes \<Rightarrow> bytes option" where
  "memcpy m p xs = (if p + length xs \<le> length m then Some (overlay m p xs) else None)"

definition get_bytes :: "bytes \<Rightarrow> nat \<Rightarrow> nat \<Rightarrow> bytes option" where
  "get_bytes m p n = (if p + n \<le> length m then Some (take n (drop p m)) else None)"

lemma memcpy_in [mem_simps]: "p + length xs \<le> length m \<Longrightarrow> memcpy m p xs = Some (overlay m p xs)"
  by (simp add: memcpy_def)

lemma get_bytes_in: "p + n \<le> length m \<Longrightarrow> get_bytes m p n = Some (take n (drop p m))"
  by (simp add: get_bytes_def)

lemma get_bytes_hit:
  "p = length xs \<Longrightarrow> n = length ys \<Longrightarrow> get_bytes (xs @ ys @ zs) p n = Some ys"
  by (simp add: get_bytes_def)

subsection \<open>Generic facts on lists and numbers\<close>

text \<open>\<open>a - b\<close> on \<open>size_t\<close>, which is 64 bits wide and wraps.\<close>

definition size_t_sub :: "nat \<Rightarrow> nat \<Rightarrow> nat" where
  "size_t_sub a b = (if b \<le> a then a - b else a + 2 ^ 64 - b)"

lemma size_t_sub_le [simp]: "b \<le> a \<Longrightarrow> size_t_sub a b = a - b"
  by (simp add: size_t_sub_def)

text \<open>Signed 32- and 64-bit arithmetic: overflow is undefined behaviour.\<close>

definition i32 :: "int \<Rightarrow> int option" where
  "i32 x = (if - (2 ^ 31) \<le> x \<and> x < 2 ^ 31 then Some x else None)"

definition i64 :: "int \<Rightarrow> int option" where
  "i64 x = (if - (2 ^ 63) \<le> x \<and> x < 2 ^ 63 then Some x else None)"

lemma sum_list_map_const: "sum_list (map (\<lambda>_. c) xs) = length xs * (c::nat)"
  by (induction xs) auto

lemma length_concat_const:
  "(\<And>x. x \<in> set xs \<Longrightarrow> length (f x) = n) \<Longrightarrow> length (concat (map f xs)) = n * length xs"
  by (induction xs) auto

lemma list_all_append_iff: "list_all P (xs @ ys) \<longleftrightarrow> list_all P xs \<and> list_all P ys"
  by simp

subsection \<open>Generic facts on words\<close>

lemma unat_ucast_up:
  "LENGTH('a) \<le> LENGTH('b) \<Longrightarrow> unat (ucast (w :: 'a::len word) :: 'b::len word) = unat w"
proof -
  assume "LENGTH('a) \<le> LENGTH('b)"
  moreover have "unat w < 2 ^ LENGTH('a)" by (rule unsigned_less)
  ultimately have "unat w < 2 ^ LENGTH('b)"
    by (meson less_le_trans one_le_numeral power_increasing)
  then show ?thesis by (simp add: unsigned_ucast_eq take_bit_nat_eq_self)
qed

lemma unat_u8_less: "unat (w :: u8) < 256"
proof -
  have "unat w < 2 ^ LENGTH(8)" by (rule unsigned_less)
  then show ?thesis by simp
qed

lemma unat_u16_less: "unat (w :: u16) < 65536"
proof -
  have "unat w < 2 ^ LENGTH(16)" by (rule unsigned_less)
  then show ?thesis by simp
qed

lemma unat_u32_less: "unat (w :: u32) < 2 ^ 32"
proof -
  have "unat w < 2 ^ LENGTH(32)" by (rule unsigned_less)
  then show ?thesis by simp
qed

lemma unat_u64_less: "unat (w :: u64) < 2 ^ 64"
proof -
  have "unat w < 2 ^ LENGTH(64)" by (rule unsigned_less)
  then show ?thesis by simp
qed

text \<open>Packing two fields into a word and reading the upper one back.\<close>

lemma drop_bit_push_or:
  assumes "\<And>n. bit d n \<Longrightarrow> n + k < LENGTH('a)" "\<And>n. bit c n \<Longrightarrow> n < k"
  shows "drop_bit k (push_bit k d OR c) = (d :: 'a::len word)"
  by (rule bit_word_eqI) (use assms in \<open>auto simp: bit_simps ac_simps\<close>)

lemma bit_less_of_unat_less:
  assumes "unat (w :: 'a::len word) < 2 ^ k" "bit w n"
  shows "n < k"
proof (rule ccontr)
  assume "\<not> n < k"
  have "take_bit k w = w"
    using assms(1) by (simp add: word_unat_eq_iff unsigned_take_bit_eq take_bit_nat_eq_self)
  with assms(2) \<open>\<not> n < k\<close> show False by (metis bit_take_bit_iff)
qed

end
