(* ===== verification/Byte_Io.thy ===== *)
theory Byte_Io
  imports Rtc_Prelude
begin

text \<open>
  The byte-order helpers of \<open>src/src/myrtc/rtp_rtcp/byte_io.h\<close>.

  \<open>ByteReader<T, B>\<close> and \<open>ByteWriter<T, B>\<close> move the \<open>B\<close> low bytes of an integer of type \<open>T\<close>
  between a register and a buffer. The generic templates are loops over the bytes
  (\<open>InternalReadBigEndian\<close>, \<open>WriteBigEndian\<close>, \<dots>); the header also has hand-unrolled
  specialisations for 1, 2, 4 and 8 bytes, and signed variants that sign-extend a partial
  width by hand. The theory models all of them, shows that the unrolled specialisations agree
  with the loops, and that reading what was written gives the value back.
\<close>

subsection \<open>The generic unsigned templates\<close>

function InternalReadBigEndian :: "nat \<Rightarrow> bytes \<Rightarrow> nat \<Rightarrow> nat \<Rightarrow> 'a::len word \<Rightarrow> 'a word option" where
  "InternalReadBigEndian B m p i val =
     (if i < B then
        do { d \<leftarrow> get_byte m (p + i);
             InternalReadBigEndian B m p (Suc i) (val OR push_bit ((B - 1 - i) * 8) (ucast d)) }
      else Some val)"
  by pat_completeness auto
termination
  by (relation "measure (\<lambda>(B, m, p, i, val). B - i)") auto

function InternalReadLittleEndian :: "nat \<Rightarrow> bytes \<Rightarrow> nat \<Rightarrow> nat \<Rightarrow> 'a::len word \<Rightarrow> 'a word option" where
  "InternalReadLittleEndian B m p i val =
     (if i < B then
        do { d \<leftarrow> get_byte m (p + i);
             InternalReadLittleEndian B m p (Suc i) (val OR push_bit (i * 8) (ucast d)) }
      else Some val)"
  by pat_completeness auto
termination
  by (relation "measure (\<lambda>(B, m, p, i, val). B - i)") auto

function WriteBigEndian_loop :: "nat \<Rightarrow> bytes \<Rightarrow> nat \<Rightarrow> nat \<Rightarrow> 'a::len word \<Rightarrow> bytes option" where
  "WriteBigEndian_loop B m p i val =
     (if i < B then
        do { m \<leftarrow> put_byte m (p + i) (ucast (drop_bit ((B - 1 - i) * 8) val));
             WriteBigEndian_loop B m p (Suc i) val }
      else Some m)"
  by pat_completeness auto
termination
  by (relation "measure (\<lambda>(B, m, p, i, val). B - i)") auto

function WriteLittleEndian_loop :: "nat \<Rightarrow> bytes \<Rightarrow> nat \<Rightarrow> nat \<Rightarrow> 'a::len word \<Rightarrow> bytes option" where
  "WriteLittleEndian_loop B m p i val =
     (if i < B then
        do { m \<leftarrow> put_byte m (p + i) (ucast (drop_bit (i * 8) val));
             WriteLittleEndian_loop B m p (Suc i) val }
      else Some m)"
  by pat_completeness auto
termination
  by (relation "measure (\<lambda>(B, m, p, i, val). B - i)") auto

declare InternalReadBigEndian.simps [simp del] InternalReadLittleEndian.simps [simp del]
  WriteBigEndian_loop.simps [simp del] WriteLittleEndian_loop.simps [simp del]

definition ReadBigEndian :: "nat \<Rightarrow> bytes \<Rightarrow> nat \<Rightarrow> 'a::len word option" where
  "ReadBigEndian B m p = InternalReadBigEndian B m p 0 0"

definition ReadLittleEndian :: "nat \<Rightarrow> bytes \<Rightarrow> nat \<Rightarrow> 'a::len word option" where
  "ReadLittleEndian B m p = InternalReadLittleEndian B m p 0 0"

definition WriteBigEndian :: "nat \<Rightarrow> bytes \<Rightarrow> nat \<Rightarrow> 'a::len word \<Rightarrow> bytes option" where
  "WriteBigEndian B m p val = WriteBigEndian_loop B m p 0 val"

definition WriteLittleEndian :: "nat \<Rightarrow> bytes \<Rightarrow> nat \<Rightarrow> 'a::len word \<Rightarrow> bytes option" where
  "WriteLittleEndian B m p val = WriteLittleEndian_loop B m p 0 val"

subsection \<open>The unrolled specialisations\<close>

definition Read8 :: "bytes \<Rightarrow> nat \<Rightarrow> u8 option" where
  "Read8 m p = get_byte m p"

definition Write8 :: "bytes \<Rightarrow> nat \<Rightarrow> u8 \<Rightarrow> bytes option" where
  "Write8 m p val = put_byte m p val"

definition ReadBE16 :: "bytes \<Rightarrow> nat \<Rightarrow> u16 option" where
  "ReadBE16 m p =
     do { d0 \<leftarrow> get_byte m p; d1 \<leftarrow> get_byte m (p + 1);
          Some (push_bit 8 (ucast d0) OR ucast d1) }"

definition ReadLE16 :: "bytes \<Rightarrow> nat \<Rightarrow> u16 option" where
  "ReadLE16 m p =
     do { d0 \<leftarrow> get_byte m p; d1 \<leftarrow> get_byte m (p + 1);
          Some (ucast d0 OR push_bit 8 (ucast d1)) }"

definition WriteBE16 :: "bytes \<Rightarrow> nat \<Rightarrow> u16 \<Rightarrow> bytes option" where
  "WriteBE16 m p val =
     do { m \<leftarrow> put_byte m p (ucast (drop_bit 8 val)); put_byte m (p + 1) (ucast val) }"

definition WriteLE16 :: "bytes \<Rightarrow> nat \<Rightarrow> u16 \<Rightarrow> bytes option" where
  "WriteLE16 m p val =
     do { m \<leftarrow> put_byte m p (ucast val); put_byte m (p + 1) (ucast (drop_bit 8 val)) }"

definition ReadBE32 :: "bytes \<Rightarrow> nat \<Rightarrow> u32 option" where
  "ReadBE32 m p =
     do { d0 \<leftarrow> get_byte m p; d1 \<leftarrow> get_byte m (p + 1);
          d2 \<leftarrow> get_byte m (p + 2); d3 \<leftarrow> get_byte m (p + 3);
          Some (push_bit 24 (ucast d0) OR push_bit 16 (ucast d1) OR push_bit 8 (ucast d2)
                OR ucast d3) }"

definition ReadLE32 :: "bytes \<Rightarrow> nat \<Rightarrow> u32 option" where
  "ReadLE32 m p =
     do { d0 \<leftarrow> get_byte m p; d1 \<leftarrow> get_byte m (p + 1);
          d2 \<leftarrow> get_byte m (p + 2); d3 \<leftarrow> get_byte m (p + 3);
          Some (ucast d0 OR push_bit 8 (ucast d1) OR push_bit 16 (ucast d2)
                OR push_bit 24 (ucast d3)) }"

definition WriteBE32 :: "bytes \<Rightarrow> nat \<Rightarrow> u32 \<Rightarrow> bytes option" where
  "WriteBE32 m p val =
     do { m \<leftarrow> put_byte m p (ucast (drop_bit 24 val));
          m \<leftarrow> put_byte m (p + 1) (ucast (drop_bit 16 val));
          m \<leftarrow> put_byte m (p + 2) (ucast (drop_bit 8 val));
          put_byte m (p + 3) (ucast val) }"

definition WriteLE32 :: "bytes \<Rightarrow> nat \<Rightarrow> u32 \<Rightarrow> bytes option" where
  "WriteLE32 m p val =
     do { m \<leftarrow> put_byte m p (ucast val);
          m \<leftarrow> put_byte m (p + 1) (ucast (drop_bit 8 val));
          m \<leftarrow> put_byte m (p + 2) (ucast (drop_bit 16 val));
          put_byte m (p + 3) (ucast (drop_bit 24 val)) }"

definition ReadBE64 :: "bytes \<Rightarrow> nat \<Rightarrow> u64 option" where
  "ReadBE64 m p =
     do { d0 \<leftarrow> get_byte m p; d1 \<leftarrow> get_byte m (p + 1);
          d2 \<leftarrow> get_byte m (p + 2); d3 \<leftarrow> get_byte m (p + 3);
          d4 \<leftarrow> get_byte m (p + 4); d5 \<leftarrow> get_byte m (p + 5);
          d6 \<leftarrow> get_byte m (p + 6); d7 \<leftarrow> get_byte m (p + 7);
          Some (push_bit 56 (ucast d0) OR push_bit 48 (ucast d1) OR push_bit 40 (ucast d2)
                OR push_bit 32 (ucast d3) OR push_bit 24 (ucast d4) OR push_bit 16 (ucast d5)
                OR push_bit 8 (ucast d6) OR ucast d7) }"

definition WriteBE64 :: "bytes \<Rightarrow> nat \<Rightarrow> u64 \<Rightarrow> bytes option" where
  "WriteBE64 m p val =
     do { m \<leftarrow> put_byte m p (ucast (drop_bit 56 val));
          m \<leftarrow> put_byte m (p + 1) (ucast (drop_bit 48 val));
          m \<leftarrow> put_byte m (p + 2) (ucast (drop_bit 40 val));
          m \<leftarrow> put_byte m (p + 3) (ucast (drop_bit 32 val));
          m \<leftarrow> put_byte m (p + 4) (ucast (drop_bit 24 val));
          m \<leftarrow> put_byte m (p + 5) (ucast (drop_bit 16 val));
          m \<leftarrow> put_byte m (p + 6) (ucast (drop_bit 8 val));
          put_byte m (p + 7) (ucast val) }"

definition ReadLE64 :: "bytes \<Rightarrow> nat \<Rightarrow> u64 option" where
  "ReadLE64 m p =
     do { d0 \<leftarrow> get_byte m p; d1 \<leftarrow> get_byte m (p + 1);
          d2 \<leftarrow> get_byte m (p + 2); d3 \<leftarrow> get_byte m (p + 3);
          d4 \<leftarrow> get_byte m (p + 4); d5 \<leftarrow> get_byte m (p + 5);
          d6 \<leftarrow> get_byte m (p + 6); d7 \<leftarrow> get_byte m (p + 7);
          Some (ucast d0 OR push_bit 8 (ucast d1) OR push_bit 16 (ucast d2)
                OR push_bit 24 (ucast d3) OR push_bit 32 (ucast d4) OR push_bit 40 (ucast d5)
                OR push_bit 48 (ucast d6) OR push_bit 56 (ucast d7)) }"

definition WriteLE64 :: "bytes \<Rightarrow> nat \<Rightarrow> u64 \<Rightarrow> bytes option" where
  "WriteLE64 m p val =
     do { m \<leftarrow> put_byte m p (ucast val);
          m \<leftarrow> put_byte m (p + 1) (ucast (drop_bit 8 val));
          m \<leftarrow> put_byte m (p + 2) (ucast (drop_bit 16 val));
          m \<leftarrow> put_byte m (p + 3) (ucast (drop_bit 24 val));
          m \<leftarrow> put_byte m (p + 4) (ucast (drop_bit 32 val));
          m \<leftarrow> put_byte m (p + 5) (ucast (drop_bit 40 val));
          m \<leftarrow> put_byte m (p + 6) (ucast (drop_bit 48 val));
          put_byte m (p + 7) (ucast (drop_bit 56 val)) }"

subsection \<open>The signed variants\<close>

text \<open>
  \<open>SignExtend\<close> is called for \<open>T = int32_t\<close> with \<open>B < sizeof(T)\<close> only, so the model is at
  that width. A signed value is the word of the same width; \<open>ReinterpretAsSigned\<close> masks the
  top bit out and in again, and \<open>ReinterpretAsUnsigned\<close> is a cast.
\<close>

definition SignExtend :: "nat \<Rightarrow> u32 \<Rightarrow> u32" where
  "SignExtend B val =
     (let kMsb = (ucast (drop_bit ((B - 1) * 8) val) :: u8) in
      if kMsb AND 0x80 \<noteq> 0
      then (let kUsedBitsMask = push_bit ((B mod 4) * 8) 1 - 1 in NOT kUsedBitsMask OR val)
      else val)"

definition ReinterpretAsSigned :: "'a::len word \<Rightarrow> 'a word" where
  "ReinterpretAsSigned unsigned_val =
     (let kHighestBitMask = push_bit (LENGTH('a) - 1) 1 in
      if unsigned_val AND kHighestBitMask \<noteq> 0
      then (unsigned_val AND NOT kHighestBitMask) OR kHighestBitMask
      else unsigned_val)"

definition ReadSignedBE24 :: "bytes \<Rightarrow> nat \<Rightarrow> u32 option" where
  "ReadSignedBE24 m p =
     do { unsigned_val \<leftarrow> ReadBigEndian 3 m p;
          Some (ReinterpretAsSigned (SignExtend 3 unsigned_val)) }"

definition ReadSignedBE16 :: "bytes \<Rightarrow> nat \<Rightarrow> u16 option" where
  "ReadSignedBE16 m p =
     do { unsigned_val \<leftarrow> ReadBE16 m p; Some (ReinterpretAsSigned unsigned_val) }"

definition WriteSignedBE24 :: "bytes \<Rightarrow> nat \<Rightarrow> u32 \<Rightarrow> bytes option" where
  "WriteSignedBE24 m p val = WriteBigEndian 3 m p val"

definition WriteSignedBE16 :: "bytes \<Rightarrow> nat \<Rightarrow> u16 \<Rightarrow> bytes option" where
  "WriteSignedBE16 m p val = WriteBE16 m p val"

subsection \<open>What the loops do to the buffer\<close>

text \<open>\<open>be_bytes B v\<close> is the big-endian layout of the \<open>B\<close> low bytes of \<open>v\<close>; \<open>le_bytes\<close> the
  little-endian one.\<close>

definition be_bytes :: "nat \<Rightarrow> 'a::len word \<Rightarrow> bytes" where
  "be_bytes B v = map (\<lambda>i. ucast (drop_bit ((B - 1 - i) * 8) v)) [0..<B]"

definition le_bytes :: "nat \<Rightarrow> 'a::len word \<Rightarrow> bytes" where
  "le_bytes B v = map (\<lambda>i. ucast (drop_bit (i * 8) v)) [0..<B]"

lemma length_be_bytes [simp]: "length (be_bytes B v) = B"
  by (simp add: be_bytes_def)

lemma length_le_bytes [simp]: "length (le_bytes B v) = B"
  by (simp add: le_bytes_def)

lemma le_bytes_rev: "le_bytes B v = rev (be_bytes B v)"
  by (rule nth_equalityI) (simp_all add: le_bytes_def be_bytes_def rev_nth)

lemma WriteBigEndian_loop_overlay:
  "p + B \<le> length m \<Longrightarrow> i \<le> B \<Longrightarrow>
   WriteBigEndian_loop B m p i val
     = Some (overlay m (p + i) (map (\<lambda>j. ucast (drop_bit ((B - 1 - j) * 8) val)) [i..<B]))"
proof (induction B m p i val rule: WriteBigEndian_loop.induct)
  case (1 B m p i val)
  show ?case
  proof (cases "i < B")
    case True
    let ?b = "ucast (drop_bit ((B - 1 - i) * 8) val) :: u8"
    have put: "put_byte m (p + i) ?b = Some (overlay m (p + i) [?b])"
      using 1 True by (intro put_byte_overlay) simp
    have len: "length (overlay m (p + i) [?b]) = length m"
      using 1 True by simp
    have "WriteBigEndian_loop B (overlay m (p + i) [?b]) p (Suc i) val
        = Some (overlay (overlay m (p + i) [?b]) (p + Suc i)
            (map (\<lambda>j. ucast (drop_bit ((B - 1 - j) * 8) val)) [Suc i..<B]))"
      using "1.IH" [OF True put] 1 True by simp
    also have "\<dots> = Some (overlay m (p + i)
        (map (\<lambda>j. ucast (drop_bit ((B - 1 - j) * 8) val)) [i..<B]))"
      using 1 True by (simp add: overlay_append_left upt_conv_Cons)
    finally show ?thesis
      using True put by (subst WriteBigEndian_loop.simps) simp
  next
    case False
    with 1 show ?thesis by (subst WriteBigEndian_loop.simps) simp
  qed
qed

lemma WriteLittleEndian_loop_overlay:
  "p + B \<le> length m \<Longrightarrow> i \<le> B \<Longrightarrow>
   WriteLittleEndian_loop B m p i val
     = Some (overlay m (p + i) (map (\<lambda>j. ucast (drop_bit (j * 8) val)) [i..<B]))"
proof (induction B m p i val rule: WriteLittleEndian_loop.induct)
  case (1 B m p i val)
  show ?case
  proof (cases "i < B")
    case True
    let ?b = "ucast (drop_bit (i * 8) val) :: u8"
    have put: "put_byte m (p + i) ?b = Some (overlay m (p + i) [?b])"
      using 1 True by (intro put_byte_overlay) simp
    have len: "length (overlay m (p + i) [?b]) = length m"
      using 1 True by simp
    have "WriteLittleEndian_loop B (overlay m (p + i) [?b]) p (Suc i) val
        = Some (overlay (overlay m (p + i) [?b]) (p + Suc i)
            (map (\<lambda>j. ucast (drop_bit (j * 8) val)) [Suc i..<B]))"
      using "1.IH" [OF True put] 1 True by simp
    also have "\<dots> = Some (overlay m (p + i) (map (\<lambda>j. ucast (drop_bit (j * 8) val)) [i..<B]))"
      using 1 True by (simp add: overlay_append_left upt_conv_Cons)
    finally show ?thesis
      using True put by (subst WriteLittleEndian_loop.simps) simp
  next
    case False
    with 1 show ?thesis by (subst WriteLittleEndian_loop.simps) simp
  qed
qed

lemma WriteBigEndian_eq [mem_simps]:
  "p + B \<le> length m \<Longrightarrow> WriteBigEndian B m p val = Some (overlay m p (be_bytes B val))"
  by (simp add: WriteBigEndian_def WriteBigEndian_loop_overlay be_bytes_def)

lemma WriteLittleEndian_eq [mem_simps]:
  "p + B \<le> length m \<Longrightarrow> WriteLittleEndian B m p val = Some (overlay m p (le_bytes B val))"
  by (simp add: WriteLittleEndian_def WriteLittleEndian_loop_overlay le_bytes_def)

lemma InternalReadBigEndian_bit:
  "p + B \<le> length m \<Longrightarrow> \<exists>r. InternalReadBigEndian B m p i val = Some (r :: 'a::len word) \<and>
     (\<forall>n < LENGTH('a). bit r n \<longleftrightarrow> bit val n \<or>
        (\<exists>j. i \<le> j \<and> j < B \<and> (B - 1 - j) * 8 \<le> n \<and> bit (m ! (p + j)) (n - (B - 1 - j) * 8)))"
proof (induction B m p i val rule: InternalReadBigEndian.induct)
  case (1 B m p i val)
  show ?case
  proof (cases "i < B")
    case True
    let ?d = "m ! (p + i)"
    let ?v = "val OR push_bit ((B - 1 - i) * 8) (ucast ?d)"
    have get: "get_byte m (p + i) = Some ?d"
      using 1 True by (simp add: get_byte_def)
    obtain r where r: "InternalReadBigEndian B m p (Suc i) ?v = Some r"
      and bits: "\<forall>n < LENGTH('a). bit r n \<longleftrightarrow> bit ?v n \<or>
        (\<exists>j. Suc i \<le> j \<and> j < B \<and> (B - 1 - j) * 8 \<le> n \<and> bit (m ! (p + j)) (n - (B - 1 - j) * 8))"
      using "1.IH" [OF True get] "1.prems" by blast
    have "InternalReadBigEndian B m p i val = Some r"
      using True get r by (subst InternalReadBigEndian.simps) simp
    moreover have "bit r n \<longleftrightarrow> bit val n \<or>
        (\<exists>j. i \<le> j \<and> j < B \<and> (B - 1 - j) * 8 \<le> n \<and> bit (m ! (p + j)) (n - (B - 1 - j) * 8))"
      if "n < LENGTH('a)" for n
    proof -
      have "bit ?v n \<longleftrightarrow> bit val n \<or> ((B - 1 - i) * 8 \<le> n \<and> bit ?d (n - (B - 1 - i) * 8))"
        using that by (auto simp: bit_simps dest: bit_imp_le_length)
      with bits that True show ?thesis
        by (metis Suc_leD le_antisym not_less_eq_eq)
    qed
    ultimately show ?thesis by blast
  next
    case False
    then show ?thesis by (subst InternalReadBigEndian.simps) auto
  qed
qed

lemma InternalReadLittleEndian_bit:
  "p + B \<le> length m \<Longrightarrow> \<exists>r. InternalReadLittleEndian B m p i val = Some (r :: 'a::len word) \<and>
     (\<forall>n < LENGTH('a). bit r n \<longleftrightarrow> bit val n \<or>
        (\<exists>j. i \<le> j \<and> j < B \<and> j * 8 \<le> n \<and> bit (m ! (p + j)) (n - j * 8)))"
proof (induction B m p i val rule: InternalReadLittleEndian.induct)
  case (1 B m p i val)
  show ?case
  proof (cases "i < B")
    case True
    let ?d = "m ! (p + i)"
    let ?v = "val OR push_bit (i * 8) (ucast ?d)"
    have get: "get_byte m (p + i) = Some ?d"
      using 1 True by (simp add: get_byte_def)
    obtain r where r: "InternalReadLittleEndian B m p (Suc i) ?v = Some r"
      and bits: "\<forall>n < LENGTH('a). bit r n \<longleftrightarrow> bit ?v n \<or>
        (\<exists>j. Suc i \<le> j \<and> j < B \<and> j * 8 \<le> n \<and> bit (m ! (p + j)) (n - j * 8))"
      using "1.IH" [OF True get] "1.prems" by blast
    have "InternalReadLittleEndian B m p i val = Some r"
      using True get r by (subst InternalReadLittleEndian.simps) simp
    moreover have "bit r n \<longleftrightarrow> bit val n \<or>
        (\<exists>j. i \<le> j \<and> j < B \<and> j * 8 \<le> n \<and> bit (m ! (p + j)) (n - j * 8))"
      if "n < LENGTH('a)" for n
    proof -
      have "bit ?v n \<longleftrightarrow> bit val n \<or> (i * 8 \<le> n \<and> bit ?d (n - i * 8))"
        using that by (auto simp: bit_simps dest: bit_imp_le_length)
      with bits that True show ?thesis
        by (metis Suc_leD le_antisym not_less_eq_eq)
    qed
    ultimately show ?thesis by blast
  next
    case False
    then show ?thesis by (subst InternalReadLittleEndian.simps) auto
  qed
qed

lemma bit_be_bytes_nth:
  "j < B \<Longrightarrow> bit (be_bytes B v ! j) n \<longleftrightarrow> n < 8 \<and> bit v ((B - 1 - j) * 8 + n)"
  by (auto simp: be_bytes_def bit_simps dest: bit_imp_le_length)

lemma bit_le_bytes_nth:
  "j < B \<Longrightarrow> bit (le_bytes B v ! j) n \<longleftrightarrow> n < 8 \<and> bit v (j * 8 + n)"
  by (auto simp: le_bytes_def bit_simps dest: bit_imp_le_length)

lemma byte_index_exists:
  "(\<exists>j < B. j * 8 \<le> n \<and> n - j * 8 < 8) \<longleftrightarrow> n < 8 * (B::nat)"
proof
  assume "n < 8 * B"
  then have "n div 8 < B \<and> n div 8 * 8 \<le> n \<and> n - n div 8 * 8 < 8" by auto
  then show "\<exists>j < B. j * 8 \<le> n \<and> n - j * 8 < 8" by blast
next
  assume "\<exists>j < B. j * 8 \<le> n \<and> n - j * 8 < 8"
  then show "n < 8 * B" by auto
qed

lemma byte_index_exists_be:
  "(\<exists>j < B. (B - 1 - j) * 8 \<le> n \<and> n - (B - 1 - j) * 8 < 8) \<longleftrightarrow> n < 8 * (B::nat)"
proof -
  have "(\<exists>j < B. (B - 1 - j) * 8 \<le> n \<and> n - (B - 1 - j) * 8 < 8)
      \<longleftrightarrow> (\<exists>k < B. k * 8 \<le> n \<and> n - k * 8 < 8)"
  proof safe
    fix j assume "j < B" "(B - 1 - j) * 8 \<le> n" "n - (B - 1 - j) * 8 < 8"
    then show "\<exists>k < B. k * 8 \<le> n \<and> n - k * 8 < 8"
      by (intro exI [of _ "B - 1 - j"]) auto
  next
    fix k assume "k < B" "k * 8 \<le> n" "n - k * 8 < 8"
    then show "\<exists>j < B. (B - 1 - j) * 8 \<le> n \<and> n - (B - 1 - j) * 8 < 8"
      by (intro exI [of _ "B - 1 - k"]) auto
  qed
  then show ?thesis by (simp only: byte_index_exists)
qed

lemma ReadBigEndian_be_bytes:
  "ReadBigEndian B (xs @ be_bytes B v @ ys) (length xs) = Some (take_bit (8 * B) (v :: 'a::len word))"
proof -
  let ?m = "xs @ be_bytes B v @ ys"
  obtain r :: "'a word" where r: "InternalReadBigEndian B ?m (length xs) 0 0 = Some r"
    and bits: "\<forall>n < LENGTH('a). bit r n \<longleftrightarrow>
      (\<exists>j < B. (B - 1 - j) * 8 \<le> n \<and> bit (?m ! (length xs + j)) (n - (B - 1 - j) * 8))"
    using InternalReadBigEndian_bit [of "length xs" B ?m 0 0] by auto
  have "r = take_bit (8 * B) v"
  proof (rule bit_word_eqI)
    fix n assume n: "n < LENGTH('a)"
    have nth: "j < B \<Longrightarrow> ?m ! (length xs + j) = be_bytes B v ! j" for j
      by (simp add: nth_append)
    have "bit r n \<longleftrightarrow> (\<exists>j < B. (B - 1 - j) * 8 \<le> n \<and> n - (B - 1 - j) * 8 < 8) \<and> bit v n"
      using bits n nth by (auto simp: bit_be_bytes_nth)
    then show "bit r n \<longleftrightarrow> bit (take_bit (8 * B) v) n"
      by (simp only: byte_index_exists_be) (auto simp: bit_take_bit_iff)
  qed
  with r show ?thesis by (simp add: ReadBigEndian_def)
qed

lemma ReadLittleEndian_le_bytes:
  "ReadLittleEndian B (xs @ le_bytes B v @ ys) (length xs) = Some (take_bit (8 * B) (v :: 'a::len word))"
proof -
  let ?m = "xs @ le_bytes B v @ ys"
  obtain r :: "'a word" where r: "InternalReadLittleEndian B ?m (length xs) 0 0 = Some r"
    and bits: "\<forall>n < LENGTH('a). bit r n \<longleftrightarrow>
      (\<exists>j < B. j * 8 \<le> n \<and> bit (?m ! (length xs + j)) (n - j * 8))"
    using InternalReadLittleEndian_bit [of "length xs" B ?m 0 0] by auto
  have "r = take_bit (8 * B) v"
  proof (rule bit_word_eqI)
    fix n assume n: "n < LENGTH('a)"
    have nth: "j < B \<Longrightarrow> ?m ! (length xs + j) = le_bytes B v ! j" for j
      by (simp add: nth_append)
    have "bit r n \<longleftrightarrow> (\<exists>j < B. j * 8 \<le> n \<and> n - j * 8 < 8) \<and> bit v n"
      using bits n nth by (auto simp: bit_le_bytes_nth)
    then show "bit r n \<longleftrightarrow> bit (take_bit (8 * B) v) n"
      by (simp only: byte_index_exists) (auto simp: bit_take_bit_iff)
  qed
  with r show ?thesis by (simp add: ReadLittleEndian_def)
qed

subsection \<open>The unrolled specialisations agree with the loops\<close>

lemmas loop_unfold = ReadBigEndian_def InternalReadBigEndian.simps
  ReadLittleEndian_def InternalReadLittleEndian.simps
  WriteBigEndian_def WriteBigEndian_loop.simps
  WriteLittleEndian_def WriteLittleEndian_loop.simps

lemma ReadBE16_generic: "ReadBE16 m p = ReadBigEndian 2 m p"
  by (simp add: ReadBE16_def loop_unfold)

lemma ReadLE16_generic: "ReadLE16 m p = ReadLittleEndian 2 m p"
  by (simp add: ReadLE16_def loop_unfold)

lemma ReadBE32_generic: "ReadBE32 m p = ReadBigEndian 4 m p"
  by (simp add: ReadBE32_def loop_unfold numeral_3_eq_3 numeral_2_eq_2 or.assoc)

lemma ReadLE32_generic: "ReadLE32 m p = ReadLittleEndian 4 m p"
  by (simp add: ReadLE32_def loop_unfold numeral_3_eq_3 numeral_2_eq_2 or.assoc)

lemma WriteBE16_generic: "WriteBE16 m p v = WriteBigEndian 2 m p v"
  by (simp add: WriteBE16_def loop_unfold)

lemma WriteLE16_generic: "WriteLE16 m p v = WriteLittleEndian 2 m p v"
  by (simp add: WriteLE16_def loop_unfold)

lemma WriteBE32_generic: "WriteBE32 m p v = WriteBigEndian 4 m p v"
  by (simp add: WriteBE32_def loop_unfold numeral_3_eq_3 numeral_2_eq_2)

lemma WriteLE32_generic: "WriteLE32 m p v = WriteLittleEndian 4 m p v"
  by (simp add: WriteLE32_def loop_unfold numeral_3_eq_3 numeral_2_eq_2)

lemma ReadBE64_generic: "ReadBE64 m p = ReadBigEndian 8 m p"
  by (simp add: ReadBE64_def loop_unfold eval_nat_numeral or.assoc)

lemma ReadLE64_generic: "ReadLE64 m p = ReadLittleEndian 8 m p"
  by (simp add: ReadLE64_def loop_unfold eval_nat_numeral or.assoc)

lemma WriteBE64_generic: "WriteBE64 m p v = WriteBigEndian 8 m p v"
  by (simp add: WriteBE64_def loop_unfold eval_nat_numeral)

lemma WriteLE64_generic: "WriteLE64 m p v = WriteLittleEndian 8 m p v"
  by (simp add: WriteLE64_def loop_unfold eval_nat_numeral)

lemma Read8_generic: "Read8 m p = ReadBigEndian 1 m p" "Read8 m p = ReadLittleEndian 1 m p"
  by (simp_all add: Read8_def loop_unfold)

lemma Write8_generic: "Write8 m p v = WriteBigEndian 1 m p v" "Write8 m p v = WriteLittleEndian 1 m p v"
  by (simp_all add: Write8_def loop_unfold)

subsection \<open>Sign extension\<close>

lemma ReinterpretAsSigned_id [simp]: "ReinterpretAsSigned (v :: 'a::len word) = v"
proof -
  have "v AND push_bit (LENGTH('a) - 1) 1 \<noteq> 0 \<Longrightarrow> bit v (LENGTH('a) - 1)"
  proof (rule ccontr)
    assume nz: "v AND push_bit (LENGTH('a) - 1) 1 \<noteq> 0" and nb: "\<not> bit v (LENGTH('a) - 1)"
    have "v AND push_bit (LENGTH('a) - 1) 1 = 0"
      by (rule bit_word_eqI) (use nb in \<open>auto simp: bit_simps\<close>)
    with nz show False ..
  qed
  then have "v AND push_bit (LENGTH('a) - 1) 1 \<noteq> 0 \<Longrightarrow>
      (v AND NOT (push_bit (LENGTH('a) - 1) 1)) OR push_bit (LENGTH('a) - 1) 1 = v"
    by (intro bit_word_eqI) (auto simp: bit_simps)
  then show ?thesis by (simp add: ReinterpretAsSigned_def Let_def)
qed

lemma and_0x80_eq: "(b :: u8) AND 0x80 \<noteq> 0 \<longleftrightarrow> bit b 7"
proof -
  have "(0x80 :: u8) = push_bit 7 1" by simp
  then have "bit (b AND 0x80) n \<longleftrightarrow> n = 7 \<and> bit b 7" for n
    by (simp only: bit_and_iff bit_push_bit_iff bit_1_iff) auto
  then show ?thesis by (metis bit_0_eq bit_eq_iff bot_apply bot_bool_def)
qed

lemma bit_SignExtend3:
  "n < 32 \<Longrightarrow> bit (SignExtend 3 (take_bit 24 v)) n \<longleftrightarrow> (if n < 24 then bit v n else bit v 23)"
proof -
  assume n: "n < 32"
  have msb: "bit (ucast (drop_bit 16 (take_bit 24 v)) :: u8) 7 \<longleftrightarrow> bit v 23"
    by (simp add: bit_simps)
  have mask: "(push_bit 24 1 - 1 :: u32) = mask 24"
    by (simp add: mask_eq_decr_exp)
  show ?thesis
  proof (cases "bit v 23")
    case True
    with msb mask n show ?thesis
      by (auto simp: SignExtend_def and_0x80_eq Let_def bit_simps simp del: push_bit_of_1)
  next
    case False
    with msb n show ?thesis
      by (auto simp: SignExtend_def and_0x80_eq Let_def bit_simps)
  qed
qed

lemma SignExtend3_signed_take_bit: "SignExtend 3 (take_bit 24 v) = signed_take_bit 23 v"
proof (rule bit_word_eqI)
  fix n assume "n < LENGTH(32)"
  then have n: "n < 32" by simp
  consider "n < 23" | "n = 23" | "23 < n" by linarith
  then show "bit (SignExtend 3 (take_bit 24 v)) n \<longleftrightarrow> bit (signed_take_bit 23 v) n"
    using n by cases (auto simp: bit_SignExtend3 bit_simps min_def)
qed

lemma sint_signed_take_bit_23: "sint (signed_take_bit 23 (v :: u32)) = signed_take_bit 23 (sint v)"
  by (rule bit_eqI) (simp add: bit_simps min_def)

lemma signed_take_bit_23_iff:
  "signed_take_bit 23 (v :: u32) = v \<longleftrightarrow> - (2 ^ 23) \<le> sint v \<and> sint v < 2 ^ 23"
proof -
  have "signed_take_bit 23 v = v \<longleftrightarrow> sint (signed_take_bit 23 v) = sint v"
    by (auto dest: arg_cong [of _ _ sint] simp: word_eq_iff_signed)
  also have "sint (signed_take_bit 23 v) = signed_take_bit 23 (sint v)"
    by (rule sint_signed_take_bit_23)
  also have "signed_take_bit 23 (sint v) = sint v \<longleftrightarrow> - (2 ^ 23) \<le> sint v \<and> sint v < 2 ^ 23"
    by (simp add: signed_take_bit_int_eq_self_iff)
  finally show ?thesis .
qed

subsection \<open>Rules for the codecs\<close>

lemma InternalReadBigEndian_drop:
  "InternalReadBigEndian B (drop n m) p i val = InternalReadBigEndian B m (n + p) i val"
proof (induction B "drop n m" p i val rule: InternalReadBigEndian.induct)
  case (1 B p i val)
  then show ?case
    by (subst (1 2) InternalReadBigEndian.simps)
       (auto simp: get_byte_drop add.assoc intro!: Option.bind_cong [OF refl])
qed

lemma ReadBigEndian_drop: "ReadBigEndian B (drop n m) p = ReadBigEndian B m (n + p)"
  by (simp add: ReadBigEndian_def InternalReadBigEndian_drop)

lemma ReadBigEndian_in:
  "p + B \<le> length m \<Longrightarrow> \<exists>v. ReadBigEndian B m p = Some v"
  using InternalReadBigEndian_bit [of p B m 0 0] by (auto simp: ReadBigEndian_def)

lemma ReadBigEndian_append:
  "length xs \<le> p \<Longrightarrow>
   ReadBigEndian B (xs @ ys) p = (ReadBigEndian B ys (p - length xs) :: 'a::len word option)"
  using ReadBigEndian_drop [where 'a = 'a, of B "length xs" "xs @ ys" "p - length xs"] by simp

lemmas ReadBE_generic = ReadBE16_generic ReadBE32_generic ReadBE64_generic
lemmas WriteBE_generic = WriteBE16_generic WriteBE32_generic WriteBE64_generic

lemma ReadBE16_append [simp]:
  "length xs \<le> p \<Longrightarrow> ReadBE16 (xs @ ys) p = ReadBE16 ys (p - length xs)"
  by (simp add: ReadBE_generic ReadBigEndian_append)

lemma ReadBE32_append [simp]:
  "length xs \<le> p \<Longrightarrow> ReadBE32 (xs @ ys) p = ReadBE32 ys (p - length xs)"
  by (simp add: ReadBE_generic ReadBigEndian_append)

lemma ReadBE64_append [simp]:
  "length xs \<le> p \<Longrightarrow> ReadBE64 (xs @ ys) p = ReadBE64 ys (p - length xs)"
  by (simp add: ReadBE_generic ReadBigEndian_append)

lemma ReadBE16_Cons [simp]: "0 < p \<Longrightarrow> ReadBE16 (x # ys) p = ReadBE16 ys (p - 1)"
  using ReadBE16_append [of "[x]" p ys] by simp

lemma ReadBE32_Cons [simp]: "0 < p \<Longrightarrow> ReadBE32 (x # ys) p = ReadBE32 ys (p - 1)"
  using ReadBE32_append [of "[x]" p ys] by simp

lemma ReadBE64_Cons [simp]: "0 < p \<Longrightarrow> ReadBE64 (x # ys) p = ReadBE64 ys (p - 1)"
  using ReadBE64_append [of "[x]" p ys] by simp

lemma ReadBE16_hit [simp]: "ReadBE16 (be_bytes 2 v @ ys) 0 = Some v"
  using ReadBigEndian_be_bytes [of 2 "[]" v ys] by (simp add: ReadBE_generic take_bit_word_eq_self)

lemma ReadBE32_hit [simp]: "ReadBE32 (be_bytes 4 v @ ys) 0 = Some v"
  using ReadBigEndian_be_bytes [of 4 "[]" v ys] by (simp add: ReadBE_generic take_bit_word_eq_self)

lemma ReadBE64_hit [simp]: "ReadBE64 (be_bytes 8 v @ ys) 0 = Some v"
  using ReadBigEndian_be_bytes [of 8 "[]" v ys] by (simp add: ReadBE_generic take_bit_word_eq_self)

lemma ReadBE16_hit_end [simp]: "ReadBE16 (be_bytes 2 v) 0 = Some v"
  using ReadBE16_hit [of v "[]"] by simp

lemma ReadBE32_hit_end [simp]: "ReadBE32 (be_bytes 4 v) 0 = Some v"
  using ReadBE32_hit [of v "[]"] by simp

lemma ReadBE16_drop: "ReadBE16 (drop n m) p = ReadBE16 m (n + p)"
  by (simp add: ReadBE_generic ReadBigEndian_drop)

lemma ReadBE32_drop: "ReadBE32 (drop n m) p = ReadBE32 m (n + p)"
  by (simp add: ReadBE_generic ReadBigEndian_drop)

lemma ReadBE16_in: "p + 2 \<le> length m \<Longrightarrow> \<exists>v. ReadBE16 m p = Some v"
  by (simp add: ReadBE_generic ReadBigEndian_in)

lemma ReadBE32_in: "p + 4 \<le> length m \<Longrightarrow> \<exists>v. ReadBE32 m p = Some v"
  by (simp add: ReadBE_generic ReadBigEndian_in)

lemma ReadBE64_in: "p + 8 \<le> length m \<Longrightarrow> \<exists>v. ReadBE64 m p = Some v"
  by (simp add: ReadBE_generic ReadBigEndian_in)

lemma ReadSignedBE16_eq: "ReadSignedBE16 m p = ReadBE16 m p"
  by (cases "ReadBE16 m p") (simp_all add: ReadSignedBE16_def)

lemma ReadSignedBE24_append [simp]:
  "length xs \<le> p \<Longrightarrow> ReadSignedBE24 (xs @ ys) p = ReadSignedBE24 ys (p - length xs)"
  by (simp add: ReadSignedBE24_def ReadBigEndian_append)

lemma ReadSignedBE24_Cons [simp]:
  "0 < p \<Longrightarrow> ReadSignedBE24 (x # ys) p = ReadSignedBE24 ys (p - 1)"
  using ReadSignedBE24_append [of "[x]" p ys] by simp

lemma ReadSignedBE24_hit [simp]:
  "ReadSignedBE24 (be_bytes 3 v @ ys) 0 = Some (signed_take_bit 23 v)"
  using ReadBigEndian_be_bytes [of 3 "[]" v ys]
  by (simp add: ReadSignedBE24_def SignExtend3_signed_take_bit)

lemma ReadSignedBE24_in: "p + 3 \<le> length m \<Longrightarrow> \<exists>v. ReadSignedBE24 m p = Some v"
  using ReadBigEndian_in [where 'a = 32, of p 3 m] by (auto simp: ReadSignedBE24_def)

lemma Write8_overlay [mem_simps]:
  "p < length m \<Longrightarrow> Write8 m p v = Some (overlay m p [v])"
  by (simp add: Write8_def put_byte_overlay)

lemma WriteBE16_overlay [mem_simps]:
  "p + 2 \<le> length m \<Longrightarrow> WriteBE16 m p v = Some (overlay m p (be_bytes 2 v))"
  by (simp add: WriteBE_generic mem_simps)

lemma WriteBE32_overlay [mem_simps]:
  "p + 4 \<le> length m \<Longrightarrow> WriteBE32 m p v = Some (overlay m p (be_bytes 4 v))"
  by (simp add: WriteBE_generic mem_simps)

lemma WriteBE64_overlay [mem_simps]:
  "p + 8 \<le> length m \<Longrightarrow> WriteBE64 m p v = Some (overlay m p (be_bytes 8 v))"
  by (simp add: WriteBE_generic mem_simps)

lemma WriteSignedBE24_overlay [mem_simps]:
  "p + 3 \<le> length m \<Longrightarrow> WriteSignedBE24 m p v = Some (overlay m p (be_bytes 3 v))"
  by (simp add: WriteSignedBE24_def mem_simps)

lemma WriteSignedBE16_overlay [mem_simps]:
  "p + 2 \<le> length m \<Longrightarrow> WriteSignedBE16 m p v = Some (overlay m p (be_bytes 2 v))"
  by (simp add: WriteSignedBE16_def mem_simps)

declare put_byte_overlay [mem_simps]


subsection \<open>Properties\<close>

text \<open>C25: what is written is read back, in both byte orders and for every number of bytes: the
  value's \<open>B\<close> low bytes come back, the buffer keeps its size and no byte outside the \<open>B\<close> written
  ones changes.\<close>

theorem byte_io_roundtrip:
  fixes v :: "'a::len word"
  assumes "p + B \<le> length m"
  shows "\<exists>m_be m_le. WriteBigEndian B m p v = Some m_be \<and> WriteLittleEndian B m p v = Some m_le \<and>
    ReadBigEndian B m_be p = Some (take_bit (8 * B) v) \<and>
    ReadLittleEndian B m_le p = Some (take_bit (8 * B) v) \<and>
    length m_be = length m \<and> length m_le = length m \<and>
    list_all (\<lambda>i. i < p \<or> p + B \<le> i \<longrightarrow> m_be ! i = m ! i \<and> m_le ! i = m ! i) [0..<length m]"
proof -
  have "ReadBigEndian B (overlay m p (be_bytes B v)) p = Some (take_bit (8 * B) v)"
    using ReadBigEndian_be_bytes [of B "take p m" v "drop (p + B) m"] assms
    by (simp add: overlay_def)
  moreover have "ReadLittleEndian B (overlay m p (le_bytes B v)) p = Some (take_bit (8 * B) v)"
    using ReadLittleEndian_le_bytes [of B "take p m" v "drop (p + B) m"] assms
    by (simp add: overlay_def)
  ultimately show ?thesis
    using assms by (simp add: mem_simps list_all_iff nth_overlay_outside)
qed

theorem byte_io_roundtrip_witness:
  "\<exists>m_be m_le. WriteBigEndian 3 [9, 9, 9, 9, 9] 1 (0xABCDEF :: u32) = Some m_be \<and>
    WriteLittleEndian 3 [9, 9, 9, 9, 9] 1 (0xABCDEF :: u32) = Some m_le \<and>
    ReadBigEndian 3 m_be 1 = Some (take_bit (8 * 3) (0xABCDEF :: u32)) \<and>
    ReadLittleEndian 3 m_le 1 = Some (take_bit (8 * 3) (0xABCDEF :: u32)) \<and>
    length m_be = length [9, 9, 9, 9, 9 :: u8] \<and> length m_le = length [9, 9, 9, 9, 9 :: u8] \<and>
    list_all (\<lambda>i. i < 1 \<or> 1 + 3 \<le> i \<longrightarrow>
      m_be ! i = [9, 9, 9, 9, 9] ! i \<and> m_le ! i = [9, 9, 9, 9, 9] ! i) [0..<length [9, 9, 9, 9, 9 :: u8]]"
  by (rule byte_io_roundtrip) simp

text \<open>C26: the unrolled specialisations for 1, 2, 4 and 8 bytes compute what the generic loops
  compute, on every buffer and position, out-of-range accesses included.\<close>

theorem specialisations_agree_with_loops:
  "Read8 m p = ReadBigEndian 1 m p \<and> Read8 m p = ReadLittleEndian 1 m p \<and>
   Write8 m p v1 = WriteBigEndian 1 m p v1 \<and> Write8 m p v1 = WriteLittleEndian 1 m p v1 \<and>
   ReadBE16 m p = ReadBigEndian 2 m p \<and> ReadLE16 m p = ReadLittleEndian 2 m p \<and>
   ReadBE32 m p = ReadBigEndian 4 m p \<and> ReadLE32 m p = ReadLittleEndian 4 m p \<and>
   ReadBE64 m p = ReadBigEndian 8 m p \<and> ReadLE64 m p = ReadLittleEndian 8 m p \<and>
   WriteBE16 m p v2 = WriteBigEndian 2 m p v2 \<and> WriteLE16 m p v2 = WriteLittleEndian 2 m p v2 \<and>
   WriteBE32 m p v4 = WriteBigEndian 4 m p v4 \<and> WriteLE32 m p v4 = WriteLittleEndian 4 m p v4 \<and>
   WriteBE64 m p v8 = WriteBigEndian 8 m p v8 \<and> WriteLE64 m p v8 = WriteLittleEndian 8 m p v8"
  by (intro conjI Read8_generic Write8_generic) (simp_all add: ReadBE16_generic ReadLE16_generic ReadBE32_generic
      ReadLE32_generic ReadBE64_generic ReadLE64_generic WriteBE16_generic WriteLE16_generic
      WriteBE32_generic WriteLE32_generic WriteBE64_generic WriteLE64_generic)

text \<open>The 24-bit signed fields (cumulative loss, reference time) survive the wire exactly
  when the value fits 24 bits; a value outside is read back sign-extended from its low 24 bits,
  so never as itself.\<close>

lemma signed24_roundtrip_iff:
  assumes "p + 3 \<le> length m"
  shows "\<exists>m'. WriteSignedBE24 m p v = Some m' \<and>
    (ReadSignedBE24 m' p = Some v \<longleftrightarrow> - (2 ^ 23) \<le> sint v \<and> sint v < 2 ^ 23)"
proof -
  have "ReadSignedBE24 (overlay m p (be_bytes 3 v)) p = Some (signed_take_bit 23 v)"
    using assms by (simp add: overlay_def)
  then show ?thesis
    using assms by (simp add: mem_simps signed_take_bit_23_iff [simplified])
qed

end
