(* ===== verification/Rtcp_Header.thy ===== *)
theory Rtcp_Header
  imports Byte_Io
begin

text \<open>
  The RTCP framing shared by all packet types:
  \<open>src/src/myrtc/rtp_rtcp/common_header.{h,cc}\<close> (parsing the 4-byte common header) and
  \<open>src/src/myrtc/rtp_rtcp/rtcp_packet.{h,cc}\<close> (writing it, the \<open>Build\<close> entry points and the
  callback that ships a full buffer).

  A parse method returns \<open>bool\<close> and updates the object in place, also on some of its failing
  paths; the model takes the old object and returns the new one with the flag. A \<open>Create\<close>
  method works on the state \<open>out_buffer\<close>: the caller's buffer, the position \<open>*index\<close> in it and
  the packets handed to the \<open>PacketReadyCallback\<close> so far. The flag \<open>cb\<close> of a \<open>Create\<close> says
  whether a callback was passed (\<open>Build()\<close> passes \<open>nullptr\<close>).
\<close>

subsection \<open>\<open>CommonHeader\<close>\<close>

text \<open>\<open>payload_\<close> is a pointer into the parsed buffer; the model keeps the bytes from that
  address on.\<close>

record common_header =
  ch_packet_type :: u8
  ch_count_or_format :: u8
  ch_padding_size :: u8
  ch_payload_size :: u32
  ch_payload :: bytes

definition kHeaderSizeBytes :: nat where "kHeaderSizeBytes = 4"

definition CommonHeader_init :: common_header where
  "CommonHeader_init = \<lparr>ch_packet_type = 0, ch_count_or_format = 0, ch_padding_size = 0,
     ch_payload_size = 0, ch_payload = []\<rparr>"

definition CommonHeader_Parse ::
  "common_header \<Rightarrow> bytes \<Rightarrow> nat \<Rightarrow> (common_header \<times> bool) option" where
  "CommonHeader_Parse h buffer size_bytes =
     (if size_bytes < kHeaderSizeBytes then Some (h, False)
      else do {
        b0 \<leftarrow> get_byte buffer 0;
        if drop_bit 6 b0 \<noteq> 2 then Some (h, False)
        else do {
          let has_padding = (b0 AND 0x20 \<noteq> 0);
          b1 \<leftarrow> get_byte buffer 1;
          len \<leftarrow> ReadBE16 buffer 2;
          let h1 = h\<lparr>ch_count_or_format := b0 AND 0x1F, ch_packet_type := b1,
                     ch_payload_size := ucast len * 4, ch_payload := drop kHeaderSizeBytes buffer,
                     ch_padding_size := 0\<rparr>;
          if size_bytes < kHeaderSizeBytes + unat (ch_payload_size h1) then Some (h1, False)
          else if has_padding then
            (if ch_payload_size h1 = 0 then Some (h1, False)
             else do {
               pad \<leftarrow> get_byte (ch_payload h1) (unat (ch_payload_size h1) - 1);
               let h2 = h1\<lparr>ch_padding_size := pad\<rparr>;
               if pad = 0 then Some (h2, False)
               else if ucast pad > ch_payload_size h2 then Some (h2, False)
               else Some (h2\<lparr>ch_payload_size := ch_payload_size h2 - ucast pad\<rparr>, True) })
          else Some (h1, True) } })"

definition packet_size :: "common_header \<Rightarrow> nat" where
  "packet_size h = kHeaderSizeBytes + unat (ch_payload_size h) + unat (ch_padding_size h)"

definition NextPacket :: "common_header \<Rightarrow> bytes" where
  "NextPacket h = drop (unat (ch_payload_size h) + unat (ch_padding_size h)) (ch_payload h)"

subsection \<open>\<open>RtcpPacket\<close>\<close>

record out_buffer =
  out_packet :: bytes
  out_index :: nat
  out_sent :: "bytes list"

type_synonym creator = "bool \<Rightarrow> nat \<Rightarrow> out_buffer \<Rightarrow> (out_buffer \<times> bool) option"

definition kHeaderLength :: nat where "kHeaderLength = 4"

definition IP_PACKET_SIZE :: nat where "IP_PACKET_SIZE = 1500"

definition OnBufferFull :: "bool \<Rightarrow> out_buffer \<Rightarrow> (out_buffer \<times> bool) option" where
  "OnBufferFull cb b =
     (if out_index b = 0 then Some (b, False)
      else do {
        dcheck cb;
        Some (b\<lparr>out_sent := out_sent b @ [take (out_index b) (out_packet b)], out_index := 0\<rparr>,
              True) })"

definition HeaderLength :: "nat \<Rightarrow> nat option" where
  "HeaderLength length_in_bytes =
     do { dcheck (length_in_bytes > 0);
          dcheck (length_in_bytes mod 4 = 0);
          Some ((length_in_bytes - kHeaderLength) div 4) }"

definition CreateHeader_padding ::
  "nat \<Rightarrow> u8 \<Rightarrow> nat \<Rightarrow> bool \<Rightarrow> bytes \<Rightarrow> nat \<Rightarrow> (bytes \<times> nat) option" where
  "CreateHeader_padding count_or_format packet_type len padding buffer pos =
     do { dcheck (len \<le> 0xffff);
          dcheck (count_or_format \<le> 0x1f);
          let kVersionBits = push_bit 6 (2 :: u8);
          let padding_bit = (if padding then push_bit 5 (1 :: u8) else 0);
          buffer \<leftarrow> put_byte buffer (pos + 0) (kVersionBits OR padding_bit OR of_nat count_or_format);
          buffer \<leftarrow> put_byte buffer (pos + 1) packet_type;
          buffer \<leftarrow> put_byte buffer (pos + 2) (of_nat (drop_bit 8 len AND 0xff));
          buffer \<leftarrow> put_byte buffer (pos + 3) (of_nat (len AND 0xff));
          Some (buffer, pos + kHeaderLength) }"

definition CreateHeader :: "nat \<Rightarrow> u8 \<Rightarrow> nat \<Rightarrow> bytes \<Rightarrow> nat \<Rightarrow> (bytes \<times> nat) option" where
  "CreateHeader count_or_format packet_type len buffer pos =
     CreateHeader_padding count_or_format packet_type len False buffer pos"

text \<open>\<open>Build()\<close>: the buffer is allocated with \<open>BlockLength()\<close> bytes, whose initial content
  \<open>garbage\<close> is not specified; both assertions guard the subclass's \<open>BlockLength\<close>.\<close>

definition Build :: "nat \<Rightarrow> creator \<Rightarrow> bytes \<Rightarrow> bytes option" where
  "Build block_length create garbage =
     do { let packet = take block_length garbage;
          (b, created) \<leftarrow> create False (length packet)
             \<lparr>out_packet = packet, out_index = 0, out_sent = []\<rparr>;
          dcheck created;
          dcheck (out_index b = length (out_packet b));
          Some (out_packet b) }"

text \<open>\<open>Build(max_length, callback)\<close>: returns the flag and what the callback was called with.\<close>

definition Build_callback :: "creator \<Rightarrow> nat \<Rightarrow> bytes \<Rightarrow> (bool \<times> bytes list) option" where
  "Build_callback create max_length garbage =
     do { dcheck (max_length \<le> IP_PACKET_SIZE);
          (b, created) \<leftarrow> create True max_length
             \<lparr>out_packet = take IP_PACKET_SIZE garbage, out_index = 0, out_sent = []\<rparr>;
          if \<not> created then Some (False, out_sent b)
          else do {
            (b, sent) \<leftarrow> OnBufferFull True b;
            Some (sent, out_sent b) } }"

text \<open>The prologue of nearly every \<open>Create\<close>:
  \<open>while (*index + BlockLength() > max_length) { if (!OnBufferFull(\<dots>)) return false; }\<close>\<close>

function reserve :: "nat \<Rightarrow> creator" where
  "reserve block_length cb max_length b =
     (if out_index b + block_length > max_length then
        (case OnBufferFull cb b of
           None \<Rightarrow> None
         | Some (b', ok) \<Rightarrow> if ok then reserve block_length cb max_length b' else Some (b', False))
      else Some (b, True))"
  by pat_completeness auto
termination
  by (relation "measure (\<lambda>(l, cb, m, b). out_index b)")
     (auto simp: OnBufferFull_def dcheck_def split: if_splits)

declare reserve.simps [simp del]

subsection \<open>The header on the wire\<close>

definition header_byte0 :: "nat \<Rightarrow> bool \<Rightarrow> u8" where
  "header_byte0 c padding =
     push_bit 6 2 OR (if padding then push_bit 5 1 else 0) OR of_nat c"

definition header_wire :: "nat \<Rightarrow> u8 \<Rightarrow> nat \<Rightarrow> bool \<Rightarrow> bytes" where
  "header_wire c pt len padding = header_byte0 c padding # pt # be_bytes 2 (of_nat len :: u16)"

lemma length_header_wire [simp]: "length (header_wire c pt len padding) = 4"
  by (simp add: header_wire_def)

lemma header_byte0_all:
  "\<forall>c \<in> set [0..<32]. \<forall>p \<in> {True, False}.
     drop_bit 6 (header_byte0 c p) = 2 \<and> (header_byte0 c p AND 0x20 \<noteq> 0) = p \<and>
     header_byte0 c p AND 0x1F = of_nat c"
  by code_simp

lemma header_byte0_fields:
  assumes "c \<le> 31"
  shows "drop_bit 6 (header_byte0 c p) = 2"
    and "header_byte0 c p AND 0x20 \<noteq> 0 \<longleftrightarrow> p"
    and "header_byte0 c p AND 0x1F = of_nat c"
proof -
  have "c \<in> set [0..<32]" "p \<in> {True, False}" using assms by auto
  with header_byte0_all show "drop_bit 6 (header_byte0 c p) = 2"
    "header_byte0 c p AND 0x20 \<noteq> 0 \<longleftrightarrow> p" "header_byte0 c p AND 0x1F = of_nat c"
    by blast+
qed

lemma be_bytes_2_of_nat:
  "be_bytes 2 (of_nat n :: u16) = [of_nat (drop_bit 8 n AND 0xff), of_nat (n AND 0xff)]"
proof -
  have ff: "(0xff :: nat) = mask 8" by (simp add: mask_eq_exp_minus_1)
  have "(ucast (drop_bit 8 (of_nat n :: u16)) :: u8) = of_nat (drop_bit 8 n AND 0xff)"
    unfolding ff by (rule bit_word_eqI) (auto simp: bit_simps)
  moreover have "(ucast (of_nat n :: u16) :: u8) = of_nat (n AND 0xff)"
    unfolding ff by (rule bit_word_eqI) (auto simp: bit_simps)
  ultimately show ?thesis by (simp add: be_bytes_def upt_rec)
qed

lemma CreateHeader_padding_overlay [mem_simps]:
  assumes "len \<le> 0xffff" "c \<le> 0x1f" "pos + 4 \<le> length m"
  shows "CreateHeader_padding c pt len padding m pos
       = Some (overlay m pos (header_wire c pt len padding), pos + 4)"
  using assms
  by (simp add: CreateHeader_padding_def mem_simps overlay_append_left header_wire_def
      header_byte0_def be_bytes_2_of_nat kHeaderLength_def Let_def)

lemma CreateHeader_overlay [mem_simps]:
  assumes "len \<le> 0xffff" "c \<le> 0x1f" "pos + 4 \<le> length m"
  shows "CreateHeader c pt len m pos = Some (overlay m pos (header_wire c pt len False), pos + 4)"
  using assms by (simp add: CreateHeader_def mem_simps)

subsection \<open>Parsing the header\<close>

lemma unat_payload_size: "unat (ucast (len :: u16) * 4 :: u32) = 4 * unat len"
proof -
  have "unat len < 65536" by (rule unat_u16_less)
  then show ?thesis by (simp add: unat_word_ariths unat_ucast_up)
qed

lemma unat_4_len [simp]: "len \<le> 0xffff \<Longrightarrow> unat (4 * of_nat len :: u32) = 4 * len"
  by (simp add: unat_word_ariths unat_of_nat)

lemma payload_size_of_nat:
  "len \<le> 0xffff \<Longrightarrow> ucast (of_nat len :: u16) * (4 :: u32) = of_nat (4 * len)"
  by (simp add: word_unat_eq_iff unat_payload_size unat_of_nat)

lemma get_byte_header:
  "get_byte (header_wire c pt len p @ rest) 0 = Some (header_byte0 c p)"
  "get_byte (header_wire c pt len p @ rest) (Suc 0) = Some pt"
  "ReadBE16 (header_wire c pt len p @ rest) 2 = Some (of_nat len)"
  by (simp_all add: header_wire_def get_byte_def)

lemma CommonHeader_Parse_wire:
  assumes "c \<le> 31" "len \<le> 0xffff" "4 + 4 * len \<le> sz"
  shows "CommonHeader_Parse h (header_wire c pt len False @ rest) sz
     = Some (h\<lparr>ch_packet_type := pt, ch_count_or_format := of_nat c, ch_padding_size := 0,
                ch_payload_size := of_nat (4 * len), ch_payload := rest\<rparr>, True)"
  using assms header_byte0_fields [OF assms(1), of False]
  by (simp add: CommonHeader_Parse_def kHeaderSizeBytes_def get_byte_header payload_size_of_nat
      unat_of_nat Let_def)

lemma CommonHeader_Parse_wire_padded:
  assumes "c \<le> 31" "len \<le> 0xffff" "4 + 4 * len \<le> sz" "4 * len \<le> length rest"
    and "0 < len" "rest ! (4 * len - 1) = of_nat pad" "0 < pad" "pad \<le> 4 * len" "pad < 256"
  shows "CommonHeader_Parse h (header_wire c pt len True @ rest) sz
     = Some (h\<lparr>ch_packet_type := pt, ch_count_or_format := of_nat c, ch_padding_size := of_nat pad,
                ch_payload_size := of_nat (4 * len - pad), ch_payload := rest\<rparr>, True)"
proof -
  have u: "unat (of_nat (4 * len) :: u32) = 4 * len" "unat (of_nat pad :: u8) = pad"
    "unat (of_nat pad :: u32) = pad"
    using assms by (simp_all add: unat_of_nat del: of_nat_mult)
  have nz: "(of_nat (4 * len) :: u32) \<noteq> 0" "(of_nat pad :: u8) \<noteq> 0"
    using u assms by (auto simp: word_unat_eq_iff simp del: of_nat_mult)
  have uc: "(ucast (of_nat pad :: u8) :: u32) = of_nat pad"
    using assms by (simp add: word_unat_eq_iff unat_of_nat unat_ucast_up)
  have le: "\<not> (of_nat (4 * len) < (of_nat pad :: u32))"
    using u assms by (simp add: word_less_nat_alt del: of_nat_mult)
  have sub: "of_nat (4 * len) - of_nat pad = (of_nat (4 * len - pad) :: u32)"
    using assms by (simp add: of_nat_diff)
  have get: "get_byte rest (4 * len - 1) = Some (of_nat pad)"
    using assms by (simp add: get_byte_def)
  show ?thesis
    using assms(1-3) header_byte0_fields [OF assms(1), of True] u nz uc le sub get
    by (simp add: CommonHeader_Parse_def kHeaderSizeBytes_def get_byte_header payload_size_of_nat
        Let_def del: of_nat_mult)
qed

lemma get_byte_ex: "i < length m \<Longrightarrow> \<exists>b. get_byte m i = Some b"
  by (simp add: get_byte_def)

lemma CommonHeader_Parse_total:
  assumes "sz \<le> length buffer"
  shows "\<exists>h' ok. CommonHeader_Parse h buffer sz = Some (h', ok)"
proof (cases "sz < 4")
  case True
  then show ?thesis by (auto simp: CommonHeader_Parse_def kHeaderSizeBytes_def)
next
  case False
  with assms have len: "4 \<le> length buffer" by simp
  obtain b0 b1 n where rd: "get_byte buffer 0 = Some b0" "get_byte buffer (Suc 0) = Some b1"
    "ReadBE16 buffer 2 = Some n"
    using len ReadBE16_in [of 2 buffer] get_byte_ex [of 0 buffer]
      get_byte_ex [of "Suc 0" buffer] by force
  show ?thesis
  proof (cases "4 + 4 * unat n \<le> sz \<and> 0 < unat n")
    case True
    then obtain p where "get_byte (drop 4 buffer) (4 * unat n - Suc 0) = Some p"
      using assms get_byte_ex [of "4 * unat n - Suc 0" "drop 4 buffer"] by fastforce
    with rd show ?thesis
      by (auto simp: CommonHeader_Parse_def kHeaderSizeBytes_def unat_payload_size Let_def)
  next
    case nz: False
    then have "\<not> 4 + 4 * unat n \<le> sz \<or> ucast n * (4 :: u32) = 0"
      by (auto simp: unat_eq_0)
    with rd False show ?thesis
      by (auto simp: CommonHeader_Parse_def kHeaderSizeBytes_def unat_payload_size Let_def)
  qed
qed

text \<open>What a successful parse guarantees: the payload and the padding lie in the given bytes,
  the next packet starts right behind them, at a multiple of four.\<close>

definition header_ok :: "common_header \<Rightarrow> bytes \<Rightarrow> nat \<Rightarrow> bool" where
  "header_ok h buffer sz \<longleftrightarrow>
     ch_payload h = drop 4 buffer \<and> packet_size h \<le> sz \<and> packet_size h mod 4 = 0 \<and>
     4 \<le> packet_size h \<and> NextPacket h = drop (packet_size h) buffer \<and>
     unat (ch_count_or_format h) < 32"

lemma and_1F_less: "unat (b AND 0x1F :: u8) < 32"
proof -
  have "b AND 0x1F \<le> 0x1F" by (rule word_and_le1)
  then show ?thesis by (simp add: word_le_nat_alt)
qed

lemma CommonHeader_Parse_ok:
  assumes "CommonHeader_Parse h buffer sz = Some (h', True)"
  shows "header_ok h' buffer sz"
proof -
  from assms have "\<exists>b0 n pad. get_byte buffer 0 = Some b0 \<and> ReadBE16 buffer 2 = Some n \<and>
    ch_padding_size h' = pad \<and> 4 + 4 * unat n \<le> sz \<and> ucast pad \<le> (ucast n * 4 :: u32) \<and>
    ch_count_or_format h' = b0 AND 0x1F \<and> ch_payload h' = drop 4 buffer \<and>
    ch_payload_size h' = ucast n * 4 - ucast pad"
    by (auto simp: CommonHeader_Parse_def kHeaderSizeBytes_def unat_payload_size Let_def
        linorder_not_less split: if_splits bind_splits)
  then obtain b0 and n :: u16 and pad where h: "ch_padding_size h' = pad" "4 + 4 * unat n \<le> sz"
    "ucast pad \<le> (ucast n * 4 :: u32)" "ch_count_or_format h' = b0 AND 0x1F"
    "ch_payload h' = drop 4 buffer" "ch_payload_size h' = ucast n * 4 - ucast pad"
    by blast
  have "unat pad \<le> 4 * unat n"
    using h(3) by (simp add: word_le_nat_alt unat_payload_size unat_ucast_up)
  moreover have "unat (ch_payload_size h') = 4 * unat n - unat pad"
    using h(3,6) by (simp add: unat_sub unat_payload_size unat_ucast_up)
  ultimately show ?thesis
    using h by (simp add: header_ok_def packet_size_def NextPacket_def kHeaderSizeBytes_def
        and_1F_less add.commute)
qed

subsection \<open>Making room in the output buffer\<close>

definition flush :: "out_buffer \<Rightarrow> out_buffer" where
  "flush b = b\<lparr>out_sent := out_sent b @ [take (out_index b) (out_packet b)], out_index := 0\<rparr>"

lemma flush_simps [simp]:
  "out_index (flush b) = 0" "out_packet (flush b) = out_packet b"
  "out_sent (flush b) = out_sent b @ [take (out_index b) (out_packet b)]"
  by (simp_all add: flush_def)

lemma OnBufferFull_flush:
  "0 < out_index b \<Longrightarrow> OnBufferFull True b = Some (flush b, True)"
  by (simp add: OnBufferFull_def flush_def)

lemma OnBufferFull_empty: "out_index b = 0 \<Longrightarrow> OnBufferFull cb b = Some (b, False)"
  by (simp add: OnBufferFull_def)

lemma reserve_fits [simp]:
  "out_index b + n \<le> max_length \<Longrightarrow> reserve n cb max_length b = Some (b, True)"
  by (subst reserve.simps) simp

lemma reserve_empty [simp]:
  "out_index b = 0 \<Longrightarrow> max_length < n \<Longrightarrow> reserve n cb max_length b = Some (b, False)"
  by (subst reserve.simps) (simp add: OnBufferFull_empty)

lemma reserve_full:
  "max_length < out_index b + n \<Longrightarrow> 0 < out_index b \<Longrightarrow>
   reserve n True max_length b = Some (flush b, n \<le> max_length)"
  by (subst reserve.simps) (cases "n \<le> max_length"; simp add: OnBufferFull_flush)

lemma reserve_full_no_callback:
  "max_length < out_index b + n \<Longrightarrow> 0 < out_index b \<Longrightarrow> reserve n False max_length b = None"
  by (subst reserve.simps) (simp add: OnBufferFull_def)

lemma HeaderLength_eq: "4 \<le> n \<Longrightarrow> n mod 4 = 0 \<Longrightarrow> HeaderLength n = Some ((n - 4) div 4)"
  by (simp add: HeaderLength_def kHeaderLength_def)

subsection \<open>The contract of a packet type\<close>

text \<open>
  \<open>out_ok\<close> is what a caller of \<open>Create\<close> keeps: the position is inside the first \<open>max_length\<close>
  bytes of a buffer of at least that size, and no packet longer than \<open>max_length\<close> was shipped.
  \<open>out_stream\<close> is everything produced so far: the shipped packets followed by what is
  pending in the buffer.
\<close>

definition out_ok :: "nat \<Rightarrow> out_buffer \<Rightarrow> bool" where
  "out_ok max_length b \<longleftrightarrow>
     out_index b \<le> max_length \<and> max_length \<le> length (out_packet b) \<and>
     (\<forall>p \<in> set (out_sent b). length p \<le> max_length)"

definition out_stream :: "out_buffer \<Rightarrow> bytes" where
  "out_stream b = concat (out_sent b) @ take (out_index b) (out_packet b)"

definition out_append :: "out_buffer \<Rightarrow> bytes \<Rightarrow> out_buffer" where
  "out_append b xs =
     b\<lparr>out_packet := overlay (out_packet b) (out_index b) xs, out_index := out_index b + length xs\<rparr>"

lemma out_append_simps [simp]:
  "out_index (out_append b xs) = out_index b + length xs"
  "out_packet (out_append b xs) = overlay (out_packet b) (out_index b) xs"
  "out_sent (out_append b xs) = out_sent b"
  by (simp_all add: out_append_def)

lemma out_append_append:
  "out_index b \<le> length (out_packet b) \<Longrightarrow>
   out_append (out_append b xs) ys = out_append b (xs @ ys)"
  by (simp add: out_append_def overlay_append_left add.assoc)

lemma out_stream_append:
  "out_index b \<le> length (out_packet b) \<Longrightarrow> out_stream (out_append b xs) = out_stream b @ xs"
  by (simp add: out_stream_def take_overlay)

lemma out_stream_flush: "out_stream (flush b) = out_stream b"
  by (simp add: out_stream_def)

lemma out_ok_flush: "out_ok max_length b \<Longrightarrow> out_ok max_length (flush b)"
  by (auto simp: out_ok_def)

lemma out_ok_append:
  "out_ok max_length b \<Longrightarrow> out_index b + length xs \<le> max_length \<Longrightarrow> out_ok max_length (out_append b xs)"
  by (auto simp: out_ok_def)

text \<open>
  \<open>rtcp_writer\<close>: what \<open>Build\<close> relies on. \<open>wire p\<close> is the packet's layout as the RFC draws it,
  \<open>valid p\<close> the state the setters keep. \<open>rtcp_unfragmented\<close>: the packet types whose \<open>Create\<close>
  starts with the \<open>OnBufferFull\<close> loop and never splits a packet.
\<close>

locale rtcp_writer =
  fixes BlockLength :: "'p \<Rightarrow> nat"
    and Create :: "'p \<Rightarrow> creator"
    and wire :: "'p \<Rightarrow> bytes"
    and valid :: "'p \<Rightarrow> bool"
  assumes length_wire: "valid p \<Longrightarrow> length (wire p) = BlockLength p"
    and block_pos: "valid p \<Longrightarrow> 0 < BlockLength p"
    and create_fits: "valid p \<Longrightarrow> out_index b + BlockLength p \<le> max_length \<Longrightarrow>
      max_length \<le> length (out_packet b) \<Longrightarrow>
      Create p cb max_length b = Some (out_append b (wire p), True)"
begin

lemma Build_wire:
  assumes "valid p" "BlockLength p \<le> length garbage"
  shows "Build (BlockLength p) (Create p) garbage = Some (wire p)"
  using assms length_wire [of p]
  by (simp add: Build_def create_fits overlay_whole)

lemma Build_callback_wire:
  assumes "valid p" "BlockLength p \<le> max_length" "max_length \<le> IP_PACKET_SIZE"
    and "IP_PACKET_SIZE \<le> length garbage"
  shows "Build_callback (Create p) max_length garbage = Some (True, [wire p])"
proof -
  let ?b = "\<lparr>out_packet = take IP_PACKET_SIZE garbage, out_index = 0, out_sent = []\<rparr>"
  have "Create p True max_length ?b = Some (out_append ?b (wire p), True)"
    using assms by (intro create_fits) auto
  moreover have "OnBufferFull True (out_append ?b (wire p)) = Some (flush (out_append ?b (wire p)), True)"
    using assms block_pos [of p] length_wire [of p] by (intro OnBufferFull_flush) simp
  ultimately show ?thesis
    using assms length_wire [of p]
    by (simp add: Build_callback_def overlay_def)
qed

end

locale rtcp_unfragmented = rtcp_writer +
  assumes create_full: "valid p \<Longrightarrow> max_length < out_index b + BlockLength p \<Longrightarrow>
      max_length \<le> length (out_packet b) \<Longrightarrow>
      Create p True max_length b =
        (if out_index b = 0 then Some (b, False)
         else if BlockLength p \<le> max_length then Some (out_append (flush b) (wire p), True)
         else Some (flush b, False))"
begin

text \<open>As long as the packet fits into an empty buffer, \<open>Create\<close> succeeds and appends the whole
  packet to the output, shipping what was pending first when there is no room for it.\<close>

lemma create_stream:
  assumes "valid p" "BlockLength p \<le> max_length" "out_ok max_length b"
  shows "\<exists>b'. Create p True max_length b = Some (b', True) \<and> out_ok max_length b' \<and>
           out_stream b' = out_stream b @ wire p"
proof (cases "out_index b + BlockLength p \<le> max_length")
  case True
  with assms length_wire [of p] show ?thesis
    by (intro exI [of _ "out_append b (wire p)"])
       (auto simp: create_fits out_ok_def intro!: out_stream_append)
next
  case False
  with assms length_wire [of p] show ?thesis
    by (intro exI [of _ "out_append (flush b) (wire p)"])
       (auto simp: create_full out_ok_def out_stream_append out_stream_flush)
qed

lemma Build_callback_too_big:
  assumes "valid p" "max_length < BlockLength p" "max_length \<le> IP_PACKET_SIZE"
    and "IP_PACKET_SIZE \<le> length garbage"
  shows "Build_callback (Create p) max_length garbage = Some (False, [])"
  using assms by (simp add: Build_callback_def create_full)

end

text \<open>The rule behind all interpretations of \<open>rtcp_unfragmented\<close>: a \<open>Create\<close> that is the
  prologue followed by a body that appends the wire layout.\<close>

lemma rtcp_unfragmented_dcheckI:
  assumes len: "\<And>p. valid p \<Longrightarrow> length (wire p) = BL p"
    and pos: "\<And>p. valid p \<Longrightarrow> 0 < BL p"
    and create: "\<And>p cb max_length b. valid p \<Longrightarrow> Create p cb max_length b =
      do { dcheck (pre p);
           (b, ok) \<leftarrow> reserve (BL p) cb max_length b;
           if \<not> ok then Some (b, False) else body p b }"
    and pre: "\<And>p. valid p \<Longrightarrow> pre p"
    and body: "\<And>p b. valid p \<Longrightarrow> out_index b + BL p \<le> length (out_packet b) \<Longrightarrow>
      body p b = Some (out_append b (wire p), True)"
  shows "rtcp_unfragmented BL Create wire valid"
proof
  fix p cb max_length and b :: out_buffer
  assume "valid p" "out_index b + BL p \<le> max_length" "max_length \<le> length (out_packet b)"
  then show "Create p cb max_length b = Some (out_append b (wire p), True)"
    by (simp add: create pre body)
next
  fix p max_length and b :: out_buffer
  assume p: "valid p" "max_length < out_index b + BL p" "max_length \<le> length (out_packet b)"
  show "Create p True max_length b =
      (if out_index b = 0 then Some (b, False)
       else if BL p \<le> max_length then Some (out_append (flush b) (wire p), True)
       else Some (flush b, False))"
  proof (cases "out_index b = 0")
    case True
    with p show ?thesis by (simp add: create pre)
  next
    case False
    with p show ?thesis by (simp add: create pre reserve_full body)
  qed
qed (use len pos in auto)

lemma rtcp_unfragmentedI:
  assumes "\<And>p. valid p \<Longrightarrow> length (wire p) = BL p" "\<And>p. valid p \<Longrightarrow> 0 < BL p"
    and "\<And>p cb max_length b. valid p \<Longrightarrow> Create p cb max_length b =
      do { (b, ok) \<leftarrow> reserve (BL p) cb max_length b;
           if \<not> ok then Some (b, False) else body p b }"
    and "\<And>p b. valid p \<Longrightarrow> out_index b + BL p \<le> length (out_packet b) \<Longrightarrow>
      body p b = Some (out_append b (wire p), True)"
  shows "rtcp_unfragmented BL Create wire valid"
  by (rule rtcp_unfragmented_dcheckI [where pre = "\<lambda>_. True" and body = body])
     (simp_all add: assms)

lemma header_ok_payload:
  "header_ok h buffer sz \<Longrightarrow> sz \<le> length buffer \<Longrightarrow>
   unat (ch_payload_size h) + unat (ch_padding_size h) \<le> length (ch_payload h)"
  by (auto simp: header_ok_def packet_size_def kHeaderSizeBytes_def)

lemma header_ok_payload_size:
  "header_ok h buffer sz \<Longrightarrow> sz \<le> length buffer \<Longrightarrow>
   unat (ch_payload_size h) \<le> length (ch_payload h)"
  using header_ok_payload by fastforce

text \<open>
  \<open>rtcp_codec\<close> adds the reading side: \<open>matches\<close> is the type (and feedback format) a
  dispatcher has checked before it calls \<open>Parse\<close>, \<open>decoded p0 p\<close> the object a receiver ends up
  with when it parses a sent \<open>p\<close> into the object \<open>p0\<close> (\<open>p\<close> itself but for packet types whose wire
  format rounds or leaves a field out).
\<close>

locale rtcp_codec = rtcp_writer BlockLength Create wire valid
  for BlockLength :: "'p \<Rightarrow> nat" and Create :: "'p \<Rightarrow> creator" and wire :: "'p \<Rightarrow> bytes"
    and valid :: "'p \<Rightarrow> bool" +
  fixes Parse :: "'p \<Rightarrow> common_header \<Rightarrow> ('p \<times> bool) option"
    and matches :: "common_header \<Rightarrow> bool"
    and decoded :: "'p \<Rightarrow> 'p \<Rightarrow> 'p"
  assumes parse_wire: "valid p \<Longrightarrow> length (wire p @ rest) \<le> sz \<Longrightarrow>
      \<exists>h. CommonHeader_Parse h0 (wire p @ rest) sz = Some (h, True) \<and> matches h \<and>
          NextPacket h = rest \<and> Parse p0 h = Some (decoded p0 p, True)"
    and parse_safe: "header_ok h buffer sz \<Longrightarrow> sz \<le> length buffer \<Longrightarrow> matches h \<Longrightarrow>
      \<exists>p' ok. Parse p h = Some (p', ok)"
begin

lemma build_parse:
  assumes "valid p" "BlockLength p \<le> length garbage"
  shows "\<exists>packet h. Build (BlockLength p) (Create p) garbage = Some packet \<and>
      length packet = BlockLength p \<and>
      CommonHeader_Parse h0 packet (length packet) = Some (h, True) \<and> matches h \<and>
      Parse p0 h = Some (decoded p0 p, True)"
  using Build_wire [OF assms] length_wire [OF assms(1)] parse_wire [OF assms(1), of "[]" "length (wire p)"]
  by auto

end

text \<open>The rule behind the \<open>parse_wire\<close> laws of the packet types without padding: a wire layout
  that is a header and a body of \<open>len\<close> 32-bit words.\<close>

lemma parse_wireI:
  assumes "length (wire @ rest) \<le> sz"
    and "wire = header_wire c pt len False @ body" "c \<le> 31" "len \<le> 0xffff" "length body = 4 * len"
    and "\<And>h. ch_packet_type h = pt \<Longrightarrow> ch_count_or_format h = of_nat c \<Longrightarrow>
      unat (ch_count_or_format h) = c \<Longrightarrow> unat (ch_payload_size h) = 4 * len \<Longrightarrow>
      ch_payload h = body @ rest \<Longrightarrow> matches h \<and> parse h = Some (q, True)"
  shows "\<exists>h. CommonHeader_Parse h0 (wire @ rest) sz = Some (h, True) \<and> matches h \<and>
      NextPacket h = rest \<and> parse h = Some (q, True)"
proof -
  let ?h = "h0\<lparr>ch_packet_type := pt, ch_count_or_format := of_nat c, ch_padding_size := 0,
    ch_payload_size := of_nat (4 * len), ch_payload := body @ rest\<rparr>"
  have u: "unat (of_nat c :: u8) = c" "unat (of_nat (4 * len) :: u32) = 4 * len"
    using assms(3,4) by (simp_all add: unat_of_nat del: of_nat_mult)
  have "CommonHeader_Parse h0 (wire @ rest) sz = Some (?h, True)"
    using assms(1-5) CommonHeader_Parse_wire [of c len sz h0 pt "body @ rest"] by simp
  moreover have "matches ?h \<and> parse ?h = Some (q, True)"
    by (rule assms(6)) (simp_all add: u del: of_nat_mult)
  moreover have "NextPacket ?h = rest"
    using u(2) assms(5) by (simp add: NextPacket_def del: of_nat_mult)
  ultimately show ?thesis by blast
qed

lemmas create_simps = overlay_append_left out_append_def HeaderLength_eq

text \<open>The base class's \<open>sender_ssrc_\<close>: a record the packet types extend, as the classes derive
  from \<open>RtcpPacket\<close>.\<close>

record rtcp_packet =
  sender_ssrc :: u32

end
