(* ===== verification/Rtcp_Reports.thy ===== *)
theory Rtcp_Reports
  imports Rtcp_Header
begin

text \<open>
  Sender and receiver reports: \<open>report_block.{h,cc}\<close>, \<open>sender_report.{h,cc}\<close>,
  \<open>receiver_report.{h,cc}\<close> under \<open>src/src/myrtc/rtp_rtcp/\<close> and the NTP time stamp of
  \<open>src/src/myrtc/rtc_base/ntp_time.h\<close>.
\<close>

subsection \<open>\<open>NtpTime\<close>\<close>

definition kFractionsPerSecond :: u64 where "kFractionsPerSecond = 0x100000000"

definition NtpTime_Set :: "u32 \<Rightarrow> u32 \<Rightarrow> u64" where
  "NtpTime_Set secs frac = ucast secs * kFractionsPerSecond + ucast frac"

definition NtpTime_seconds :: "u64 \<Rightarrow> u32" where
  "NtpTime_seconds v = ucast (v div kFractionsPerSecond)"

definition NtpTime_fractions :: "u64 \<Rightarrow> u32" where
  "NtpTime_fractions v = ucast (v mod kFractionsPerSecond)"

lemma unat_NtpTime_Set: "unat (NtpTime_Set s f) = unat s * 2 ^ 32 + unat f"
proof -
  have "unat s * 2 ^ 32 + unat f < 2 ^ 64"
    using unat_u32_less [of s] unat_u32_less [of f] by simp
  then show ?thesis
    by (simp add: NtpTime_Set_def kFractionsPerSecond_def unat_word_ariths unat_ucast_up)
qed

lemma NtpTime_seconds_Set [simp]: "NtpTime_seconds (NtpTime_Set s f) = s"
proof -
  have "unat (NtpTime_Set s f div kFractionsPerSecond) = unat s"
    using unat_u32_less [of f]
    by (simp add: unat_div unat_NtpTime_Set kFractionsPerSecond_def)
  then show ?thesis
    by (simp add: NtpTime_seconds_def word_unat_eq_iff unsigned_ucast_eq take_bit_nat_eq_self
        unat_u32_less [simplified])
qed

lemma NtpTime_fractions_Set [simp]: "NtpTime_fractions (NtpTime_Set s f) = f"
proof -
  have "unat (NtpTime_Set s f mod kFractionsPerSecond) = unat f"
    using unat_u32_less [of f]
    by (simp add: unat_mod unat_NtpTime_Set kFractionsPerSecond_def)
  then show ?thesis
    by (simp add: NtpTime_fractions_def word_unat_eq_iff unsigned_ucast_eq take_bit_nat_eq_self
        unat_u32_less [simplified])
qed

lemma NtpTime_Set_split [simp]: "NtpTime_Set (NtpTime_seconds v) (NtpTime_fractions v) = v"
proof -
  have lt: "unat v < 2 ^ 32 * 2 ^ 32" using unsigned_less [of v] by simp
  have s: "unat (NtpTime_seconds v) = unat v div 2 ^ 32"
    using lt by (simp add: NtpTime_seconds_def unsigned_ucast_eq unat_div kFractionsPerSecond_def
        take_bit_nat_eq_self less_mult_imp_div_less)
  have f: "unat (NtpTime_fractions v) = unat v mod 2 ^ 32"
    by (simp add: NtpTime_fractions_def unsigned_ucast_eq unat_mod kFractionsPerSecond_def
        take_bit_nat_eq_self)
  show ?thesis
    by (simp only: word_unat_eq_iff unat_NtpTime_Set s f) simp
qed

subsection \<open>\<open>ReportBlock\<close>\<close>

record report_block =
  source_ssrc :: u32
  fraction_lost :: u8
  cumulative_lost_signed :: u32
  extended_high_seq_num :: u32
  jitter :: u32
  last_sr :: u32
  delay_since_last_sr :: u32

definition ReportBlock_kLength :: nat where "ReportBlock_kLength = 24"

definition ReportBlock_init :: report_block where
  "ReportBlock_init = \<lparr>source_ssrc = 0, fraction_lost = 0, cumulative_lost_signed = 0,
     extended_high_seq_num = 0, jitter = 0, last_sr = 0, delay_since_last_sr = 0\<rparr>"

definition ReportBlock_Parse ::
  "report_block \<Rightarrow> bytes \<Rightarrow> nat \<Rightarrow> nat \<Rightarrow> (report_block \<times> bool) option" where
  "ReportBlock_Parse rb buffer p len =
     (if len < ReportBlock_kLength then Some (rb, False)
      else do {
        v0 \<leftarrow> ReadBE32 buffer (p + 0);
        v4 \<leftarrow> get_byte buffer (p + 4);
        v5 \<leftarrow> ReadSignedBE24 buffer (p + 5);
        v8 \<leftarrow> ReadBE32 buffer (p + 8);
        v12 \<leftarrow> ReadBE32 buffer (p + 12);
        v16 \<leftarrow> ReadBE32 buffer (p + 16);
        v20 \<leftarrow> ReadBE32 buffer (p + 20);
        Some (rb\<lparr>source_ssrc := v0, fraction_lost := v4, cumulative_lost_signed := v5,
                 extended_high_seq_num := v8, jitter := v12, last_sr := v16,
                 delay_since_last_sr := v20\<rparr>, True) })"

definition ReportBlock_Create :: "report_block \<Rightarrow> bytes \<Rightarrow> nat \<Rightarrow> bytes option" where
  "ReportBlock_Create rb buffer p =
     do { dcheck (sint (cumulative_lost_signed rb) < 2 ^ 23);
          buffer \<leftarrow> WriteBE32 buffer (p + 0) (source_ssrc rb);
          buffer \<leftarrow> Write8 buffer (p + 4) (fraction_lost rb);
          buffer \<leftarrow> WriteSignedBE24 buffer (p + 5) (cumulative_lost_signed rb);
          buffer \<leftarrow> WriteBE32 buffer (p + 8) (extended_high_seq_num rb);
          buffer \<leftarrow> WriteBE32 buffer (p + 12) (jitter rb);
          buffer \<leftarrow> WriteBE32 buffer (p + 16) (last_sr rb);
          WriteBE32 buffer (p + 20) (delay_since_last_sr rb) }"

definition SetCumulativeLost :: "report_block \<Rightarrow> u32 \<Rightarrow> report_block \<times> bool" where
  "SetCumulativeLost rb lost =
     (if sint lost \<ge> 2 ^ 23 \<or> sint lost < - (2 ^ 23) then (rb, False)
      else (rb\<lparr>cumulative_lost_signed := lost\<rparr>, True))"

definition cumulative_lost :: "report_block \<Rightarrow> u32" where
  "cumulative_lost rb =
     (if sint (cumulative_lost_signed rb) < 0 then 0 else cumulative_lost_signed rb)"

definition report_block_wire :: "report_block \<Rightarrow> bytes" where
  "report_block_wire rb = be_bytes 4 (source_ssrc rb) @ [fraction_lost rb]
     @ be_bytes 3 (cumulative_lost_signed rb) @ be_bytes 4 (extended_high_seq_num rb)
     @ be_bytes 4 (jitter rb) @ be_bytes 4 (last_sr rb) @ be_bytes 4 (delay_since_last_sr rb)"

text \<open>The state \<open>SetCumulativeLost\<close> keeps: a signed 24-bit value.\<close>

definition report_block_valid :: "report_block \<Rightarrow> bool" where
  "report_block_valid rb \<longleftrightarrow>
     - (2 ^ 23) \<le> sint (cumulative_lost_signed rb) \<and> sint (cumulative_lost_signed rb) < 2 ^ 23"

lemma length_report_block_wire [simp]: "length (report_block_wire rb) = 24"
  by (simp add: report_block_wire_def)

lemma SetCumulativeLost_valid:
  "report_block_valid rb \<Longrightarrow> report_block_valid (fst (SetCumulativeLost rb v))"
  by (auto simp: SetCumulativeLost_def report_block_valid_def)

lemma ReportBlock_Create_overlay [mem_simps]:
  assumes "report_block_valid rb" "p + 24 \<le> length m"
  shows "ReportBlock_Create rb m p = Some (overlay m p (report_block_wire rb))"
  using assms
  by (simp add: ReportBlock_Create_def report_block_valid_def mem_simps overlay_append_left
      report_block_wire_def)

lemma ReportBlock_Parse_wire:
  assumes "report_block_valid rb" "24 \<le> len" "p = length xs"
  shows "ReportBlock_Parse rb0 (xs @ report_block_wire rb @ ys) p len = Some (rb, True)"
proof -
  have "signed_take_bit 23 (cumulative_lost_signed rb) = cumulative_lost_signed rb"
    using assms by (simp add: signed_take_bit_23_iff report_block_valid_def)
  moreover have "get_byte (xs @ report_block_wire rb @ ys) (p + 4) = Some (fraction_lost rb)"
    using assms by (simp add: get_byte_def nth_append report_block_wire_def)
  ultimately show ?thesis
    using assms
    by (simp add: ReportBlock_Parse_def ReportBlock_kLength_def report_block_wire_def)
qed

subsection \<open>Lists of report blocks\<close>

text \<open>\<open>report_blocks_.resize(n)\<close> keeps the old blocks and default-constructs the rest; the
  parse loop then overwrites each of them. \<open>checked\<close> tells the sender report's loop, which
  asserts the result of each block's \<open>Parse\<close>, from the receiver report's, which ignores it.\<close>

definition vector_resize :: "nat \<Rightarrow> 'a \<Rightarrow> 'a list \<Rightarrow> 'a list" where
  "vector_resize n d xs = take n xs @ replicate (n - length xs) d"

lemma length_vector_resize [simp]: "length (vector_resize n d xs) = n"
  by (simp add: vector_resize_def)

fun parse_report_blocks ::
  "bool \<Rightarrow> report_block list \<Rightarrow> bytes \<Rightarrow> nat \<Rightarrow> (report_block list \<times> nat) option" where
  "parse_report_blocks checked [] m next_block = Some ([], next_block)"
| "parse_report_blocks checked (rb # rbs) m next_block =
     do { (rb', ok) \<leftarrow> ReportBlock_Parse rb m next_block ReportBlock_kLength;
          dcheck (checked \<longrightarrow> ok);
          (rbs', e) \<leftarrow> parse_report_blocks checked rbs m (next_block + ReportBlock_kLength);
          Some (rb' # rbs', e) }"

fun create_report_blocks :: "report_block list \<Rightarrow> bytes \<Rightarrow> nat \<Rightarrow> (bytes \<times> nat) option" where
  "create_report_blocks [] m index = Some (m, index)"
| "create_report_blocks (rb # rbs) m index =
     do { m \<leftarrow> ReportBlock_Create rb m index;
          create_report_blocks rbs m (index + ReportBlock_kLength) }"

abbreviation report_blocks_wire :: "report_block list \<Rightarrow> bytes" where
  "report_blocks_wire rbs \<equiv> concat (map report_block_wire rbs)"

lemma length_report_blocks_wire [simp]: "length (report_blocks_wire rbs) = 24 * length rbs"
  by (rule length_concat_const) simp

lemma create_report_blocks_overlay [mem_simps]:
  "list_all report_block_valid rbs \<Longrightarrow> index + 24 * length rbs \<le> length m \<Longrightarrow>
   create_report_blocks rbs m index
     = Some (overlay m index (report_blocks_wire rbs), index + 24 * length rbs)"
  by (induction rbs arbitrary: m index)
     (simp_all add: mem_simps ReportBlock_kLength_def overlay_append_left)

lemma parse_report_blocks_wire:
  "list_all report_block_valid rbs \<Longrightarrow> length rbs0 = length rbs \<Longrightarrow> p = length xs \<Longrightarrow>
   parse_report_blocks checked rbs0 (xs @ report_blocks_wire rbs @ ys) p
     = Some (rbs, p + 24 * length rbs)"
proof (induction rbs arbitrary: rbs0 xs p)
  case Nil
  then show ?case by simp
next
  case (Cons rb rbs)
  then obtain rb0 rbs1 where rbs0: "rbs0 = rb0 # rbs1" by (cases rbs0) auto
  have "ReportBlock_Parse rb0 (xs @ report_block_wire rb @ report_blocks_wire rbs @ ys) p
      ReportBlock_kLength = Some (rb, True)"
    using Cons.prems by (intro ReportBlock_Parse_wire) (simp_all add: ReportBlock_kLength_def)
  moreover have "parse_report_blocks checked rbs1
      ((xs @ report_block_wire rb) @ report_blocks_wire rbs @ ys) (p + 24)
        = Some (rbs, p + 24 + 24 * length rbs)"
    using Cons.prems rbs0 by (intro Cons.IH) simp_all
  ultimately show ?case
    by (simp add: rbs0 ReportBlock_kLength_def)
qed

lemma parse_report_blocks_total:
  "p + 24 * length rbs \<le> length m \<Longrightarrow>
   \<exists>rbs'. parse_report_blocks checked rbs m p = Some (rbs', p + 24 * length rbs) \<and>
          length rbs' = length rbs"
proof (induction rbs arbitrary: p)
  case Nil
  then show ?case by simp
next
  case (Cons rb rbs)
  then have len: "p + 24 \<le> length m" by simp
  have "\<exists>rb'. ReportBlock_Parse rb m p ReportBlock_kLength = Some (rb', True)"
    using len ReadBE32_in [of p m] get_byte_ex [of "p + 4" m] ReadSignedBE24_in [of "p + 5" m]
      ReadBE32_in [of "p + 8" m] ReadBE32_in [of "p + 12" m] ReadBE32_in [of "p + 16" m]
      ReadBE32_in [of "p + 20" m]
    by (auto simp: ReportBlock_Parse_def ReportBlock_kLength_def)
  moreover have "\<exists>rbs'. parse_report_blocks checked rbs m (p + 24)
      = Some (rbs', p + 24 + 24 * length rbs) \<and> length rbs' = length rbs"
    using Cons.prems by (intro Cons.IH) simp
  ultimately show ?case by (auto simp: ReportBlock_kLength_def)
qed

subsection \<open>\<open>SenderReport\<close>\<close>

record sender_report = rtcp_packet +
  ntp :: u64
  rtp_timestamp :: u32
  sender_packet_count :: u32
  sender_octet_count :: u32
  sr_report_blocks :: "report_block list"

definition SenderReport_kPacketType :: u8 where "SenderReport_kPacketType = 200"
definition kMaxNumberOfReportBlocks :: nat where "kMaxNumberOfReportBlocks = 0x1f"
definition kSenderBaseLength :: nat where "kSenderBaseLength = 24"

definition SenderReport_init :: sender_report where
  "SenderReport_init = \<lparr>sender_ssrc = 0, ntp = 0, rtp_timestamp = 0, sender_packet_count = 0,
     sender_octet_count = 0, sr_report_blocks = []\<rparr>"

definition SenderReport_Parse ::
  "sender_report \<Rightarrow> common_header \<Rightarrow> (sender_report \<times> bool) option" where
  "SenderReport_Parse sr packet =
     do { dcheck (ch_packet_type packet = SenderReport_kPacketType);
          let report_block_count = unat (ch_count_or_format packet);
          if unat (ch_payload_size packet)
               < kSenderBaseLength + report_block_count * ReportBlock_kLength
          then Some (sr, False)
          else do {
            let payload = ch_payload packet;
            v0 \<leftarrow> ReadBE32 payload 0;
            secs \<leftarrow> ReadBE32 payload 4;
            frac \<leftarrow> ReadBE32 payload 8;
            v12 \<leftarrow> ReadBE32 payload 12;
            v16 \<leftarrow> ReadBE32 payload 16;
            v20 \<leftarrow> ReadBE32 payload 20;
            (blocks, next_block) \<leftarrow> parse_report_blocks True
               (vector_resize report_block_count ReportBlock_init (sr_report_blocks sr))
               payload kSenderBaseLength;
            dcheck (next_block \<le> unat (ch_payload_size packet));
            Some (sr\<lparr>sender_ssrc := v0, ntp := NtpTime_Set secs frac, rtp_timestamp := v12,
                     sender_packet_count := v16, sender_octet_count := v20,
                     sr_report_blocks := blocks\<rparr>, True) } }"

definition SenderReport_BlockLength :: "sender_report \<Rightarrow> nat" where
  "SenderReport_BlockLength sr =
     kHeaderLength + kSenderBaseLength + length (sr_report_blocks sr) * ReportBlock_kLength"

definition SenderReport_Create :: "sender_report \<Rightarrow> creator" where
  "SenderReport_Create sr cb max_length b =
     do { (b, ok) \<leftarrow> reserve (SenderReport_BlockLength sr) cb max_length b;
          if \<not> ok then Some (b, False)
          else do {
            let index_end = out_index b + SenderReport_BlockLength sr;
            hl \<leftarrow> HeaderLength (SenderReport_BlockLength sr);
            (packet, index) \<leftarrow> CreateHeader (length (sr_report_blocks sr)) SenderReport_kPacketType
               hl (out_packet b) (out_index b);
            packet \<leftarrow> WriteBE32 packet (index + 0) (sender_ssrc sr);
            packet \<leftarrow> WriteBE32 packet (index + 4) (NtpTime_seconds (ntp sr));
            packet \<leftarrow> WriteBE32 packet (index + 8) (NtpTime_fractions (ntp sr));
            packet \<leftarrow> WriteBE32 packet (index + 12) (rtp_timestamp sr);
            packet \<leftarrow> WriteBE32 packet (index + 16) (sender_packet_count sr);
            packet \<leftarrow> WriteBE32 packet (index + 20) (sender_octet_count sr);
            (packet, index) \<leftarrow> create_report_blocks (sr_report_blocks sr) packet
               (index + kSenderBaseLength);
            dcheck (index = index_end);
            Some (b\<lparr>out_packet := packet, out_index := index\<rparr>, True) } }"

definition SenderReport_AddReportBlock ::
  "sender_report \<Rightarrow> report_block \<Rightarrow> sender_report \<times> bool" where
  "SenderReport_AddReportBlock sr block =
     (if length (sr_report_blocks sr) \<ge> kMaxNumberOfReportBlocks then (sr, False)
      else (sr\<lparr>sr_report_blocks := sr_report_blocks sr @ [block]\<rparr>, True))"

definition SenderReport_SetReportBlocks ::
  "sender_report \<Rightarrow> report_block list \<Rightarrow> sender_report \<times> bool" where
  "SenderReport_SetReportBlocks sr blocks =
     (if length blocks > kMaxNumberOfReportBlocks then (sr, False)
      else (sr\<lparr>sr_report_blocks := blocks\<rparr>, True))"

definition sender_report_wire :: "sender_report \<Rightarrow> bytes" where
  "sender_report_wire sr =
     header_wire (length (sr_report_blocks sr)) 200 (6 + 6 * length (sr_report_blocks sr)) False
     @ be_bytes 4 (sender_ssrc sr)
     @ be_bytes 4 (NtpTime_seconds (ntp sr)) @ be_bytes 4 (NtpTime_fractions (ntp sr))
     @ be_bytes 4 (rtp_timestamp sr) @ be_bytes 4 (sender_packet_count sr)
     @ be_bytes 4 (sender_octet_count sr) @ report_blocks_wire (sr_report_blocks sr)"

definition sender_report_valid :: "sender_report \<Rightarrow> bool" where
  "sender_report_valid sr \<longleftrightarrow>
     length (sr_report_blocks sr) \<le> 31 \<and> list_all report_block_valid (sr_report_blocks sr)"

lemma length_sender_report_wire [simp]:
  "length (sender_report_wire sr) = SenderReport_BlockLength sr"
  by (simp add: sender_report_wire_def SenderReport_BlockLength_def kHeaderLength_def
      kSenderBaseLength_def ReportBlock_kLength_def)

lemma SenderReport_BlockLength_eq:
  "SenderReport_BlockLength sr = 28 + 24 * length (sr_report_blocks sr)"
  by (simp add: SenderReport_BlockLength_def kHeaderLength_def kSenderBaseLength_def
      ReportBlock_kLength_def)

interpretation sr: rtcp_unfragmented SenderReport_BlockLength SenderReport_Create
  sender_report_wire sender_report_valid
proof (rule rtcp_unfragmentedI [OF _ _ SenderReport_Create_def], goal_cases)
  case (3 sr b)
  then show ?case
    by (simp add: SenderReport_BlockLength_eq sender_report_valid_def mem_simps create_simps Let_def
        kSenderBaseLength_def sender_report_wire_def SenderReport_kPacketType_def)
qed (simp_all add: SenderReport_BlockLength_eq)

definition SenderReport_matches :: "common_header \<Rightarrow> bool" where
  "SenderReport_matches h \<longleftrightarrow> ch_packet_type h = SenderReport_kPacketType"

interpretation sr: rtcp_codec SenderReport_BlockLength SenderReport_Create sender_report_wire
  sender_report_valid SenderReport_Parse SenderReport_matches "\<lambda>_ p. p"
proof (unfold_locales, goal_cases)
  case (1 p rest sz h0 p0)
  let ?n = "length (sr_report_blocks p)"
  have n: "?n \<le> 31" "list_all report_block_valid (sr_report_blocks p)"
    using 1 by (auto simp: sender_report_valid_def)
  have pb: "parse_report_blocks True rbs0 (drop 4 (sender_report_wire p) @ rest) 24
      = Some (sr_report_blocks p, 24 + 24 * ?n)" if "length rbs0 = ?n" for rbs0
    using parse_report_blocks_wire [of "sr_report_blocks p" rbs0 24
        "take 24 (drop 4 (sender_report_wire p))" True rest] n that
    by (simp add: sender_report_wire_def)
  show ?case
    using n pb
    by (intro parse_wireI [OF 1(2), of ?n 200 "6 + 6 * ?n" "drop 4 (sender_report_wire p)"])
       (simp_all add: SenderReport_Parse_def SenderReport_matches_def kSenderBaseLength_def
          SenderReport_kPacketType_def ReportBlock_kLength_def sender_report_wire_def)
next
  case (2 h buffer sz p)
  let ?m = "ch_payload h" and ?n = "unat (ch_count_or_format h)"
  have ty: "ch_packet_type h = SenderReport_kPacketType"
    using 2 by (simp add: SenderReport_matches_def)
  show ?case
  proof (cases "unat (ch_payload_size h) < 24 + 24 * ?n")
    case True
    with ty show ?thesis
      by (auto simp: SenderReport_Parse_def kSenderBaseLength_def ReportBlock_kLength_def)
  next
    case False
    with header_ok_payload_size [OF 2(1,2)] have len: "24 + 24 * ?n \<le> length ?m" by simp
    obtain rbs where "parse_report_blocks True
        (vector_resize ?n ReportBlock_init (sr_report_blocks p)) ?m 24 = Some (rbs, 24 + 24 * ?n)"
      using parse_report_blocks_total [of 24 "vector_resize ?n ReportBlock_init (sr_report_blocks p)" ?m True]
        len by auto
    with False ty len ReadBE32_in [of 0 ?m] ReadBE32_in [of 4 ?m] ReadBE32_in [of 8 ?m]
      ReadBE32_in [of 12 ?m] ReadBE32_in [of 16 ?m] ReadBE32_in [of 20 ?m]
    show ?thesis
      by (auto simp: SenderReport_Parse_def kSenderBaseLength_def ReportBlock_kLength_def)
  qed
qed

subsection \<open>\<open>ReceiverReport\<close>\<close>

record receiver_report = rtcp_packet +
  rr_report_blocks :: "report_block list"

definition ReceiverReport_kPacketType :: u8 where "ReceiverReport_kPacketType = 201"
definition kRrBaseLength :: nat where "kRrBaseLength = 4"

definition ReceiverReport_init :: receiver_report where
  "ReceiverReport_init = \<lparr>sender_ssrc = 0, rr_report_blocks = []\<rparr>"

definition ReceiverReport_Parse ::
  "receiver_report \<Rightarrow> common_header \<Rightarrow> (receiver_report \<times> bool) option" where
  "ReceiverReport_Parse rr packet =
     do { dcheck (ch_packet_type packet = ReceiverReport_kPacketType);
          let report_blocks_count = unat (ch_count_or_format packet);
          if unat (ch_payload_size packet)
               < kRrBaseLength + report_blocks_count * ReportBlock_kLength
          then Some (rr, False)
          else do {
            v0 \<leftarrow> ReadBE32 (ch_payload packet) 0;
            (blocks, next_report_block) \<leftarrow> parse_report_blocks False
               (vector_resize report_blocks_count ReportBlock_init (rr_report_blocks rr))
               (ch_payload packet) kRrBaseLength;
            dcheck (next_report_block \<le> unat (ch_payload_size packet));
            Some (rr\<lparr>sender_ssrc := v0, rr_report_blocks := blocks\<rparr>, True) } }"

definition ReceiverReport_BlockLength :: "receiver_report \<Rightarrow> nat" where
  "ReceiverReport_BlockLength rr =
     kHeaderLength + kRrBaseLength + length (rr_report_blocks rr) * ReportBlock_kLength"

definition ReceiverReport_Create :: "receiver_report \<Rightarrow> creator" where
  "ReceiverReport_Create rr cb max_length b =
     do { (b, ok) \<leftarrow> reserve (ReceiverReport_BlockLength rr) cb max_length b;
          if \<not> ok then Some (b, False)
          else do {
            hl \<leftarrow> HeaderLength (ReceiverReport_BlockLength rr);
            (packet, index) \<leftarrow> CreateHeader (length (rr_report_blocks rr))
               ReceiverReport_kPacketType hl (out_packet b) (out_index b);
            packet \<leftarrow> WriteBE32 packet index (sender_ssrc rr);
            (packet, index) \<leftarrow> create_report_blocks (rr_report_blocks rr) packet
               (index + kRrBaseLength);
            Some (b\<lparr>out_packet := packet, out_index := index\<rparr>, True) } }"

definition ReceiverReport_AddReportBlock ::
  "receiver_report \<Rightarrow> report_block \<Rightarrow> receiver_report \<times> bool" where
  "ReceiverReport_AddReportBlock rr block =
     (if length (rr_report_blocks rr) \<ge> kMaxNumberOfReportBlocks then (rr, False)
      else (rr\<lparr>rr_report_blocks := rr_report_blocks rr @ [block]\<rparr>, True))"

definition ReceiverReport_SetReportBlocks ::
  "receiver_report \<Rightarrow> report_block list \<Rightarrow> receiver_report \<times> bool" where
  "ReceiverReport_SetReportBlocks rr blocks =
     (if length blocks > kMaxNumberOfReportBlocks then (rr, False)
      else (rr\<lparr>rr_report_blocks := blocks\<rparr>, True))"

definition receiver_report_wire :: "receiver_report \<Rightarrow> bytes" where
  "receiver_report_wire rr =
     header_wire (length (rr_report_blocks rr)) 201 (1 + 6 * length (rr_report_blocks rr)) False
     @ be_bytes 4 (sender_ssrc rr) @ report_blocks_wire (rr_report_blocks rr)"

definition receiver_report_valid :: "receiver_report \<Rightarrow> bool" where
  "receiver_report_valid rr \<longleftrightarrow>
     length (rr_report_blocks rr) \<le> 31 \<and> list_all report_block_valid (rr_report_blocks rr)"

definition ReceiverReport_matches :: "common_header \<Rightarrow> bool" where
  "ReceiverReport_matches h \<longleftrightarrow> ch_packet_type h = ReceiverReport_kPacketType"

lemma ReceiverReport_BlockLength_eq:
  "ReceiverReport_BlockLength rr = 8 + 24 * length (rr_report_blocks rr)"
  by (simp add: ReceiverReport_BlockLength_def kHeaderLength_def kRrBaseLength_def
      ReportBlock_kLength_def)

lemma length_receiver_report_wire [simp]:
  "length (receiver_report_wire rr) = ReceiverReport_BlockLength rr"
  by (simp add: receiver_report_wire_def ReceiverReport_BlockLength_eq)

interpretation rr: rtcp_unfragmented ReceiverReport_BlockLength ReceiverReport_Create
  receiver_report_wire receiver_report_valid
proof (rule rtcp_unfragmentedI [OF _ _ ReceiverReport_Create_def], goal_cases)
  case (3 rr b)
  then show ?case
    by (simp add: ReceiverReport_BlockLength_eq receiver_report_valid_def mem_simps create_simps
        kRrBaseLength_def receiver_report_wire_def ReceiverReport_kPacketType_def)
qed (simp_all add: ReceiverReport_BlockLength_eq)

interpretation rr: rtcp_codec ReceiverReport_BlockLength ReceiverReport_Create
  receiver_report_wire receiver_report_valid ReceiverReport_Parse ReceiverReport_matches "\<lambda>_ p. p"
proof (unfold_locales, goal_cases)
  case (1 p rest sz h0 p0)
  let ?n = "length (rr_report_blocks p)"
  have n: "?n \<le> 31" "list_all report_block_valid (rr_report_blocks p)"
    using 1 by (auto simp: receiver_report_valid_def)
  have pb: "parse_report_blocks False rbs0 (drop 4 (receiver_report_wire p) @ rest) 4
      = Some (rr_report_blocks p, 4 + 24 * ?n)" if "length rbs0 = ?n" for rbs0
    using parse_report_blocks_wire [of "rr_report_blocks p" rbs0 4
        "take 4 (drop 4 (receiver_report_wire p))" False rest] n that
    by (simp add: receiver_report_wire_def)
  show ?case
    using n pb
    by (intro parse_wireI [OF 1(2), of ?n 201 "1 + 6 * ?n" "drop 4 (receiver_report_wire p)"])
       (simp_all add: ReceiverReport_Parse_def ReceiverReport_matches_def kRrBaseLength_def
          ReceiverReport_kPacketType_def ReportBlock_kLength_def receiver_report_wire_def)
next
  case (2 h buffer sz p)
  let ?m = "ch_payload h" and ?n = "unat (ch_count_or_format h)"
  have ty: "ch_packet_type h = ReceiverReport_kPacketType"
    using 2 by (simp add: ReceiverReport_matches_def)
  show ?case
  proof (cases "unat (ch_payload_size h) < 4 + 24 * ?n")
    case True
    with ty show ?thesis
      by (auto simp: ReceiverReport_Parse_def kRrBaseLength_def ReportBlock_kLength_def)
  next
    case False
    with header_ok_payload_size [OF 2(1,2)] have len: "4 + 24 * ?n \<le> length ?m" by simp
    obtain rbs where "parse_report_blocks False
        (vector_resize ?n ReportBlock_init (rr_report_blocks p)) ?m 4 = Some (rbs, 4 + 24 * ?n)"
      using parse_report_blocks_total [of 4 "vector_resize ?n ReportBlock_init (rr_report_blocks p)" ?m False]
        len by auto
    with False ty len ReadBE32_in [of 0 ?m] show ?thesis
      by (auto simp: ReceiverReport_Parse_def kRrBaseLength_def ReportBlock_kLength_def)
  qed
qed

text \<open>The setters keep the reports valid: at most 31 blocks, the count field's capacity.\<close>

lemma report_setters_valid:
  "sender_report_valid sr \<Longrightarrow> report_block_valid rb \<Longrightarrow>
     sender_report_valid (fst (SenderReport_AddReportBlock sr rb))"
  "sender_report_valid sr \<Longrightarrow> list_all report_block_valid rbs \<Longrightarrow>
     sender_report_valid (fst (SenderReport_SetReportBlocks sr rbs))"
  "receiver_report_valid rr \<Longrightarrow> report_block_valid rb \<Longrightarrow>
     receiver_report_valid (fst (ReceiverReport_AddReportBlock rr rb))"
  "receiver_report_valid rr \<Longrightarrow> list_all report_block_valid rbs \<Longrightarrow>
     receiver_report_valid (fst (ReceiverReport_SetReportBlocks rr rbs))"
  by (auto simp: SenderReport_AddReportBlock_def SenderReport_SetReportBlocks_def
      ReceiverReport_AddReportBlock_def ReceiverReport_SetReportBlocks_def
      sender_report_valid_def receiver_report_valid_def kMaxNumberOfReportBlocks_def)



subsection \<open>Properties\<close>

text \<open>C24: a sender report with up to 31 valid report blocks is built in exactly
  \<open>BlockLength()\<close> bytes and parses back to the same report, whatever the state of the
  receiving object was.\<close>

theorem sender_report_build_parse:
  assumes "sender_report_valid sr" "SenderReport_BlockLength sr \<le> length garbage"
  shows "\<exists>packet h. Build (SenderReport_BlockLength sr) (SenderReport_Create sr) garbage = Some packet \<and>
    length packet = SenderReport_BlockLength sr \<and>
    CommonHeader_Parse h0 packet (length packet) = Some (h, True) \<and> SenderReport_matches h \<and>
    SenderReport_Parse sr0 h = Some (sr, True)"
  by (rule sr.build_parse [OF assms])

definition example_block :: report_block where
  "example_block = ReportBlock_init\<lparr>source_ssrc := 7, cumulative_lost_signed := - 3, jitter := 9\<rparr>"

definition example_sr :: sender_report where
  "example_sr = SenderReport_init\<lparr>sender_ssrc := 1, ntp := 0x123456789A, sr_report_blocks := [example_block]\<rparr>"

lemma example_block_valid: "report_block_valid example_block"
  by (simp add: example_block_def report_block_valid_def ReportBlock_init_def)

lemma example_sr_valid: "sender_report_valid example_sr" "SenderReport_BlockLength example_sr = 52"
  using example_block_valid
  by (simp_all add: example_sr_def sender_report_valid_def SenderReport_BlockLength_eq SenderReport_init_def)

theorem sender_report_build_parse_witness:
  "\<exists>packet h. Build (SenderReport_BlockLength example_sr) (SenderReport_Create example_sr)
      (replicate 52 0) = Some packet \<and>
    length packet = SenderReport_BlockLength example_sr \<and>
    CommonHeader_Parse CommonHeader_init packet (length packet) = Some (h, True) \<and>
    SenderReport_matches h \<and> SenderReport_Parse SenderReport_init h = Some (example_sr, True)"
  by (rule sender_report_build_parse) (simp_all add: example_sr_valid)

end
