(* ===== verification/Rtcp_Nack.thy ===== *)
theory Rtcp_Nack
  imports Rtcp_Reports
begin

text \<open>
  Transport feedback messages and the generic NACK: \<open>rtpfb.{h,cc}\<close> and \<open>nack.{h,cc}\<close> under
  \<open>src/src/myrtc/rtp_rtcp/\<close>. A NACK carries (packet seq, bitmask) items; \<open>Pack\<close> and \<open>Unpack\<close>
  translate between them and the list of lost sequence numbers, and \<open>Create\<close> splits a list that
  does not fit into several packets.
\<close>

subsection \<open>\<open>Rtpfb\<close>\<close>

record rtpfb = rtcp_packet +
  media_ssrc :: u32

definition Rtpfb_kPacketType :: u8 where "Rtpfb_kPacketType = 205"
definition kCommonFeedbackLength :: nat where "kCommonFeedbackLength = 8"

definition Rtpfb_ParseCommonFeedback ::
  "'a rtpfb_scheme \<Rightarrow> bytes \<Rightarrow> 'a rtpfb_scheme option" where
  "Rtpfb_ParseCommonFeedback fb payload =
     do { v0 \<leftarrow> ReadBE32 payload 0;
          v4 \<leftarrow> ReadBE32 payload 4;
          Some (fb\<lparr>sender_ssrc := v0, media_ssrc := v4\<rparr>) }"

definition Rtpfb_CreateCommonFeedback ::
  "'a rtpfb_scheme \<Rightarrow> bytes \<Rightarrow> nat \<Rightarrow> bytes option" where
  "Rtpfb_CreateCommonFeedback fb payload p =
     do { payload \<leftarrow> WriteBE32 payload (p + 0) (sender_ssrc fb);
          WriteBE32 payload (p + 4) (media_ssrc fb) }"

definition rtpfb_wire :: "'a rtpfb_scheme \<Rightarrow> bytes" where
  "rtpfb_wire fb = be_bytes 4 (sender_ssrc fb) @ be_bytes 4 (media_ssrc fb)"

lemma length_rtpfb_wire [simp]: "length (rtpfb_wire fb) = 8"
  by (simp add: rtpfb_wire_def)

lemma Rtpfb_CreateCommonFeedback_overlay [mem_simps]:
  "p + 8 \<le> length m \<Longrightarrow> Rtpfb_CreateCommonFeedback fb m p = Some (overlay m p (rtpfb_wire fb))"
  by (simp add: Rtpfb_CreateCommonFeedback_def mem_simps overlay_append_left rtpfb_wire_def)

lemma Rtpfb_ParseCommonFeedback_wire [simp]:
  "Rtpfb_ParseCommonFeedback fb0 (rtpfb_wire fb @ rest)
     = Some (fb0\<lparr>sender_ssrc := sender_ssrc fb, media_ssrc := media_ssrc fb\<rparr>)"
  by (simp add: Rtpfb_ParseCommonFeedback_def rtpfb_wire_def)

lemma Rtpfb_ParseCommonFeedback_total:
  "8 \<le> length m \<Longrightarrow> \<exists>a b. Rtpfb_ParseCommonFeedback fb m = Some (fb\<lparr>sender_ssrc := a, media_ssrc := b\<rparr>)"
  using ReadBE32_in [of 0 m] ReadBE32_in [of 4 m] by (auto simp: Rtpfb_ParseCommonFeedback_def; blast)

subsection \<open>\<open>Nack\<close>: packing the list of packet ids\<close>

record packed_nack =
  first_pid :: u16
  bitmask :: u16

record nack = rtpfb +
  packed :: "packed_nack list"
  packet_ids :: "u16 list"

definition Nack_kFeedbackMessageType :: nat where "Nack_kFeedbackMessageType = 1"
definition kNackItemLength :: nat where "kNackItemLength = 4"

definition Nack_init :: nack where
  "Nack_init = \<lparr>sender_ssrc = 0, media_ssrc = 0, packed = [], packet_ids = []\<rparr>"

text \<open>The inner loop of \<open>Pack\<close>: the ids that fit the 16 bits behind \<open>first_pid\<close>. Returns the
  bitmask and the ids from \<open>it\<close> on.\<close>

fun Pack_mask :: "u16 \<Rightarrow> u16 \<Rightarrow> u16 list \<Rightarrow> u16 \<times> u16 list" where
  "Pack_mask pid msk [] = (msk, [])"
| "Pack_mask pid msk (seq # ids) =
     (let shift = seq - pid - 1
      in if shift \<le> 15 then Pack_mask pid (msk OR push_bit (unat shift) 1) ids
         else (msk, seq # ids))"

lemma Pack_mask_suffix: "Pack_mask pid msk ids = (msk', rest) \<Longrightarrow> length rest \<le> length ids"
  by (induction pid msk ids rule: Pack_mask.induct) (auto simp: Let_def split: if_splits)

function Pack_loop :: "u16 list \<Rightarrow> packed_nack list" where
  "Pack_loop [] = []"
| "Pack_loop (seq # ids) =
     (case Pack_mask seq 0 ids of
        (msk, rest) \<Rightarrow> \<lparr>first_pid = seq, bitmask = msk\<rparr> # Pack_loop rest)"
  by pat_completeness auto
termination
  by (relation "measure length") (auto dest: sym Pack_mask_suffix simp: less_Suc_eq_le)

definition Pack :: "nack \<Rightarrow> nack option" where
  "Pack n =
     do { dcheck (packet_ids n \<noteq> []);
          dcheck (packed n = []);
          Some (n\<lparr>packed := Pack_loop (packet_ids n)\<rparr>) }"

definition SetPacketIds :: "nack \<Rightarrow> u16 list \<Rightarrow> nack option" where
  "SetPacketIds n nack_list =
     do { dcheck (packet_ids n = []);
          dcheck (packed n = []);
          Pack (n\<lparr>packet_ids := nack_list\<rparr>) }"

text \<open>The inner loop of \<open>Unpack\<close>; \<open>acc\<close> is \<open>packet_ids_\<close>.\<close>

function Unpack_mask :: "u16 \<Rightarrow> u16 \<Rightarrow> u16 list \<Rightarrow> u16 list" where
  "Unpack_mask msk pid acc =
     (if msk = 0 then acc
      else Unpack_mask (drop_bit 1 msk) (pid + 1) (if msk AND 1 \<noteq> 0 then acc @ [pid] else acc))"
  by pat_completeness auto
termination
proof (relation "measure (\<lambda>(msk, pid, acc). unat msk)", simp, goal_cases)
  case (1 msk pid acc)
  then have "0 < unat msk" by (simp add: unat_gt_0)
  moreover have "unat (drop_bit 1 msk) = unat msk div 2"
    by (simp add: drop_bit_Suc unat_div)
  ultimately show ?case by simp
qed

declare Unpack_mask.simps [simp del]

fun Unpack_loop :: "packed_nack list \<Rightarrow> u16 list \<Rightarrow> u16 list" where
  "Unpack_loop [] acc = acc"
| "Unpack_loop (item # items) acc =
     Unpack_loop items (Unpack_mask (bitmask item) (first_pid item + 1) (acc @ [first_pid item]))"

definition Unpack :: "nack \<Rightarrow> nack option" where
  "Unpack n =
     do { dcheck (packet_ids n = []);
          dcheck (packed n \<noteq> []);
          Some (n\<lparr>packet_ids := Unpack_loop (packed n) []\<rparr>) }"

subsection \<open>What packing keeps\<close>

definition mask_ids :: "u16 \<Rightarrow> u16 \<Rightarrow> u16 list" where
  "mask_ids pid msk = map (\<lambda>i. pid + of_nat i) (filter (bit msk) [0..<16])"

definition item_ids :: "packed_nack \<Rightarrow> u16 list" where
  "item_ids item = first_pid item # mask_ids (first_pid item + 1) (bitmask item)"

lemma Unpack_mask_bits:
  "(\<And>i. n \<le> i \<Longrightarrow> \<not> bit msk i) \<Longrightarrow>
   Unpack_mask msk pid acc = acc @ map (\<lambda>i. pid + of_nat i) (filter (bit msk) [0..<n])"
proof (induction n arbitrary: msk pid acc)
  case 0
  then have "msk = 0" by (intro bit_word_eqI) auto
  then show ?case by (simp add: Unpack_mask.simps)
next
  case (Suc n)
  show ?case
  proof (cases "msk = 0")
    case True
    then show ?thesis by (simp add: Unpack_mask.simps)
  next
    case False
    have "Unpack_mask (drop_bit 1 msk) (pid + 1) acc'
        = acc' @ map (\<lambda>i. pid + 1 + of_nat i) (filter (bit (drop_bit 1 msk)) [0..<n])" for acc'
      using Suc.prems by (intro Suc.IH) (simp add: bit_drop_bit_eq)
    moreover have "msk AND 1 \<noteq> 0 \<longleftrightarrow> bit msk 0"
      by (simp add: and_one_eq odd_iff_mod_2_eq_one bit_0 flip: mod_2_eq_odd)
    moreover have "[0..<Suc n] = 0 # map Suc [0..<n]"
      by (simp only: upt_conv_Cons map_Suc_upt)
    ultimately show ?thesis
      using False
      by (subst Unpack_mask.simps) (simp add: filter_map comp_def bit_drop_bit_eq algebra_simps)
  qed
qed

lemma Unpack_mask_eq: "Unpack_mask msk pid acc = acc @ mask_ids pid msk"
  unfolding mask_ids_def by (rule Unpack_mask_bits) (auto dest: bit_imp_le_length)

lemma Unpack_loop_eq: "Unpack_loop items acc = acc @ concat (map item_ids items)"
  by (induction items arbitrary: acc) (simp_all add: Unpack_mask_eq item_ids_def)


text \<open>The ids the inner loop of \<open>Pack\<close> takes are those whose distance fits the mask, and each
  sets its bit.\<close>

lemma Pack_mask_taken:
  assumes "Pack_mask pid msk ids = (msk', rest)"
  shows "\<exists>taken. ids = taken @ rest \<and> (\<forall>x \<in> set taken. unat (x - pid - 1) < 16) \<and>
    (\<forall>i. bit msk' i \<longleftrightarrow> bit msk i \<or> i \<in> (\<lambda>x. unat (x - pid - 1)) ` set taken)"
  using assms
proof (induction pid msk ids rule: Pack_mask.induct)
  case (1 pid msk)
  then show ?case by simp
next
  case (2 pid msk seq ids)
  let ?shift = "seq - pid - 1"
  show ?case
  proof (cases "?shift \<le> 15")
    case True
    with 2 obtain taken where t: "ids = taken @ rest"
      "\<forall>x \<in> set taken. unat (x - pid - 1) < 16"
      "\<forall>i. bit msk' i \<longleftrightarrow> bit (msk OR push_bit (unat ?shift) 1) i \<or>
             i \<in> (\<lambda>x. unat (x - pid - 1)) ` set taken"
      by (auto simp: Let_def)
    have lt: "unat ?shift < 16" using True by (simp add: word_le_nat_alt)
    then have "bit (msk OR push_bit (unat ?shift) 1) i \<longleftrightarrow> bit msk i \<or> i = unat ?shift" for i
      by (auto simp: bit_simps)
    with t lt show ?thesis by (intro exI [of _ "seq # taken"]) auto
  next
    case False
    with 2 show ?thesis by (auto simp: Let_def)
  qed
qed

lemma mask_ids_set:
  assumes "\<forall>x \<in> set taken. unat (x - pid - 1) < 16"
    and "\<forall>i. bit msk i \<longleftrightarrow> i \<in> (\<lambda>x. unat (x - pid - 1)) ` set taken"
  shows "set (mask_ids (pid + 1) msk) = set taken"
proof -
  have "{i. i < 16 \<and> bit msk i} = (\<lambda>x. unat (x - pid - 1)) ` set taken"
    using assms by auto
  then have "set (mask_ids (pid + 1) msk)
      = (\<lambda>i. pid + 1 + of_nat i) ` (\<lambda>x. unat (x - pid - 1)) ` set taken"
    unfolding mask_ids_def set_map set_filter atLeast_upt [symmetric] by (simp add: conj_commute)
  then show ?thesis by (simp add: image_image)
qed

lemma mask_ids_list:
  assumes "\<forall>x \<in> set taken. unat (x - pid - 1) < 16"
    and "\<forall>i. bit msk i \<longleftrightarrow> i \<in> (\<lambda>x. unat (x - pid - 1)) ` set taken"
    and "sorted_wrt (<) (map (\<lambda>x. unat (x - pid - 1)) taken)"
  shows "mask_ids (pid + 1) msk = taken"
proof -
  let ?f = "\<lambda>x. unat (x - pid - 1)"
  have "filter (bit msk) [0..<16] = map ?f taken"
  proof (rule sorted_distinct_set_unique)
    show "set (filter (bit msk) [0..<16]) = set (map ?f taken)"
      using assms(1,2) by auto
  qed (use assms(3) in \<open>auto simp: strict_sorted_iff sorted_filter [of "\<lambda>x. x", simplified]\<close>)
  then show ?thesis by (simp add: mask_ids_def comp_def)
qed

text \<open>Sequence numbers in ascending (wrap-around) order, as the NACK sender sorts them.\<close>

definition nack_ascending :: "u16 list \<Rightarrow> bool" where
  "nack_ascending ids \<longleftrightarrow> successively (\<lambda>a b. 0 < unat (b - a) \<and> unat (b - a) < 2 ^ 15) ids"

lemma unat_u16_step:
  assumes "unat (a - pid - 1 :: u16) < 16" "unat (b - a) < 2 ^ 15"
  shows "unat (b - pid - 1) = unat (a - pid - 1) + unat (b - a)"
proof -
  have "b - pid - 1 = (a - pid - 1) + (b - a)" by simp
  moreover have "unat ((a - pid - 1) + (b - a)) = unat (a - pid - 1) + unat (b - a)"
    using assms by (simp only: unat_word_ariths) simp
  ultimately show ?thesis by (simp only:)
qed

lemma ascending_taken:
  "nack_ascending taken \<Longrightarrow> \<forall>x \<in> set taken. unat (x - pid - 1) < 16 \<Longrightarrow>
   sorted_wrt (<) (map (\<lambda>x. unat (x - pid - 1)) taken)"
proof (induction taken)
  case (Cons a taken)
  show ?case
  proof (cases taken)
    case (Cons b r)
    have "unat (a - pid - 1) < unat (b - pid - 1)"
      using Cons.prems Cons unat_u16_step [of a pid b] by (simp add: nack_ascending_def)
    moreover have "sorted_wrt (<) (map (\<lambda>x. unat (x - pid - 1)) taken)"
      using Cons.IH Cons.prems Cons by (simp add: nack_ascending_def)
    ultimately show ?thesis using Cons by auto
  qed simp
qed simp

lemma nack_ascending_append: "nack_ascending (xs @ ys) \<Longrightarrow> nack_ascending xs \<and> nack_ascending ys"
  by (auto simp: nack_ascending_def successively_append_iff)

lemma Pack_loop_set: "set (concat (map item_ids (Pack_loop ids))) = set ids"
proof (induction ids rule: Pack_loop.induct)
  case (2 seq ids)
  obtain msk rest where m: "Pack_mask seq 0 ids = (msk, rest)" by fastforce
  obtain taken where t: "ids = taken @ rest" "\<forall>x \<in> set taken. unat (x - seq - 1) < 16"
    "\<forall>i. bit msk i \<longleftrightarrow> i \<in> (\<lambda>x. unat (x - seq - 1)) ` set taken"
    using Pack_mask_taken [OF m] by auto
  show ?case
    using 2 [OF m [symmetric]] t(1) mask_ids_set [OF t(2,3)] m by (simp add: item_ids_def)
qed simp

lemma Pack_loop_ids: "nack_ascending ids \<Longrightarrow> concat (map item_ids (Pack_loop ids)) = ids"
proof (induction ids rule: Pack_loop.induct)
  case (2 seq ids)
  obtain msk rest where m: "Pack_mask seq 0 ids = (msk, rest)" by fastforce
  obtain taken where t: "ids = taken @ rest" "\<forall>x \<in> set taken. unat (x - seq - 1) < 16"
    "\<forall>i. bit msk i \<longleftrightarrow> i \<in> (\<lambda>x. unat (x - seq - 1)) ` set taken"
    using Pack_mask_taken [OF m] by auto
  have asc: "nack_ascending taken" "nack_ascending rest"
    using "2.prems" t(1) nack_ascending_append [of "seq # taken" rest]
      nack_ascending_append [of "[seq]" taken] by auto
  have "mask_ids (seq + 1) msk = taken"
    using mask_ids_list [OF t(2,3) ascending_taken [OF asc(1) t(2)]] .
  then show ?case
    using "2.IH" [OF m [symmetric] asc(2)] t(1) m by (simp add: item_ids_def)
qed simp

lemma Pack_loop_length: "length (Pack_loop ids) \<le> length ids"
proof (induction ids rule: Pack_loop.induct)
  case (2 seq ids)
  obtain msk rest where m: "Pack_mask seq 0 ids = (msk, rest)" by fastforce
  with 2 [OF m [symmetric]] Pack_mask_suffix [OF m] show ?case by simp
qed simp

lemma Pack_loop_Nil_iff [simp]: "Pack_loop ids = [] \<longleftrightarrow> ids = []"
  by (cases ids) (auto split: prod.splits)


subsection \<open>\<open>Nack\<close>: parsing and creating\<close>

fun parse_nack_items :: "nat \<Rightarrow> bytes \<Rightarrow> nat \<Rightarrow> packed_nack list option" where
  "parse_nack_items 0 m next_nack = Some []"
| "parse_nack_items (Suc n) m next_nack =
     do { pid \<leftarrow> ReadBE16 m next_nack;
          bits \<leftarrow> ReadBE16 m (next_nack + 2);
          items \<leftarrow> parse_nack_items n m (next_nack + kNackItemLength);
          Some (\<lparr>first_pid = pid, bitmask = bits\<rparr> # items) }"

definition Nack_Parse :: "nack \<Rightarrow> common_header \<Rightarrow> (nack \<times> bool) option" where
  "Nack_Parse n packet =
     do { dcheck (ch_packet_type packet = Rtpfb_kPacketType);
          dcheck (unat (ch_count_or_format packet) = Nack_kFeedbackMessageType);
          if unat (ch_payload_size packet) < kCommonFeedbackLength + kNackItemLength
          then Some (n, False)
          else do {
            let nack_items = (unat (ch_payload_size packet) - kCommonFeedbackLength) div kNackItemLength;
            n \<leftarrow> Rtpfb_ParseCommonFeedback n (ch_payload packet);
            items \<leftarrow> parse_nack_items nack_items (ch_payload packet) kCommonFeedbackLength;
            n \<leftarrow> Unpack (n\<lparr>packet_ids := [], packed := items\<rparr>);
            Some (n, True) } }"

definition Nack_BlockLength :: "nack \<Rightarrow> nat" where
  "Nack_BlockLength n = kHeaderLength + kCommonFeedbackLength + length (packed n) * kNackItemLength"

definition kNackHeaderLength :: nat where
  "kNackHeaderLength = kHeaderLength + kCommonFeedbackLength"

fun create_nack_items :: "packed_nack list \<Rightarrow> bytes \<Rightarrow> nat \<Rightarrow> (bytes \<times> nat) option" where
  "create_nack_items [] m index = Some (m, index)"
| "create_nack_items (item # items) m index =
     do { m \<leftarrow> WriteBE16 m (index + 0) (first_pid item);
          m \<leftarrow> WriteBE16 m (index + 2) (bitmask item);
          create_nack_items items m (index + kNackItemLength) }"

text \<open>One iteration of the loop of \<open>Create\<close> that writes a packet with the next items.\<close>

definition create_nack_fragment ::
  "nack \<Rightarrow> packed_nack list \<Rightarrow> nat \<Rightarrow> out_buffer \<Rightarrow> out_buffer option" where
  "create_nack_fragment n items max_length b =
     do { let payload_size_bytes = kCommonFeedbackLength + length items * kNackItemLength;
          dcheck (payload_size_bytes mod 4 = 0);
          (packet, index) \<leftarrow> CreateHeader Nack_kFeedbackMessageType Rtpfb_kPacketType
             (payload_size_bytes div 4) (out_packet b) (out_index b);
          packet \<leftarrow> Rtpfb_CreateCommonFeedback n packet index;
          (packet, index) \<leftarrow> create_nack_items items packet (index + kCommonFeedbackLength);
          dcheck (index \<le> max_length);
          Some (b\<lparr>out_packet := packet, out_index := index\<rparr>) }"

definition num_nack_fields :: "nat \<Rightarrow> packed_nack list \<Rightarrow> nat" where
  "num_nack_fields bytes_left items =
     min ((bytes_left - kNackHeaderLength) div kNackItemLength) (length items)"

text \<open>The loop; \<open>items\<close> are those from \<open>nack_index\<close> on.\<close>

function create_nack_loop ::
  "nack \<Rightarrow> packed_nack list \<Rightarrow> bool \<Rightarrow> nat \<Rightarrow> out_buffer \<Rightarrow> (out_buffer \<times> bool) option" where
  "create_nack_loop n items cb max_length b =
     (if items = [] then Some (b, True)
      else let bytes_left = size_t_sub max_length (out_index b)
      in if bytes_left < kNackHeaderLength + kNackItemLength then
           (case OnBufferFull cb b of
              None \<Rightarrow> None
            | Some (b', ok) \<Rightarrow>
                if ok then create_nack_loop n items cb max_length b' else Some (b', False))
         else let k = num_nack_fields bytes_left items
         in case create_nack_fragment n (take k items) max_length b of
              None \<Rightarrow> None
            | Some b' \<Rightarrow> create_nack_loop n (drop k items) cb max_length b')"
  by pat_completeness auto
termination
  by (relation "measures [\<lambda>(n, items, cb, m, b). length items, \<lambda>(n, items, cb, m, b). out_index b]")
     (auto simp: OnBufferFull_def dcheck_def num_nack_fields_def kNackItemLength_def split: if_splits)

declare create_nack_loop.simps [simp del]

definition Nack_Create :: "nack \<Rightarrow> creator" where
  "Nack_Create n cb max_length b =
     do { dcheck (packed n \<noteq> []);
          create_nack_loop n (packed n) cb max_length b }"

definition nack_item_wire :: "packed_nack \<Rightarrow> bytes" where
  "nack_item_wire item = be_bytes 2 (first_pid item) @ be_bytes 2 (bitmask item)"

definition nack_fragment_wire :: "nack \<Rightarrow> packed_nack list \<Rightarrow> bytes" where
  "nack_fragment_wire n items =
     header_wire 1 205 (2 + length items) False @ rtpfb_wire n @ concat (map nack_item_wire items)"

abbreviation nack_wire :: "nack \<Rightarrow> bytes" where
  "nack_wire n \<equiv> nack_fragment_wire n (packed n)"

definition nack_valid :: "nack \<Rightarrow> bool" where
  "nack_valid n \<longleftrightarrow> packed n \<noteq> [] \<and> length (packed n) \<le> 0xffff - 2"

definition Nack_matches :: "common_header \<Rightarrow> bool" where
  "Nack_matches h \<longleftrightarrow> ch_packet_type h = 205 \<and> unat (ch_count_or_format h) = 1"

text \<open>A receiver recomputes the list of ids from the items.\<close>

definition nack_decoded :: "nack \<Rightarrow> nack" where
  "nack_decoded n = n\<lparr>packet_ids := concat (map item_ids (packed n))\<rparr>"

lemmas nack_consts = kCommonFeedbackLength_def kNackItemLength_def kNackHeaderLength_def
  kHeaderLength_def Rtpfb_kPacketType_def Nack_kFeedbackMessageType_def

lemma length_nack_items_wire [simp]: "length (concat (map nack_item_wire items)) = 4 * length items"
  by (rule length_concat_const) (simp add: nack_item_wire_def)

lemma length_nack_fragment_wire [simp]:
  "length (nack_fragment_wire n items) = 12 + 4 * length items"
  by (simp add: nack_fragment_wire_def)

lemma Nack_BlockLength_eq: "Nack_BlockLength n = 12 + 4 * length (packed n)"
  by (simp add: Nack_BlockLength_def nack_consts)

lemma create_nack_items_overlay [mem_simps]:
  "index + 4 * length items \<le> length m \<Longrightarrow>
   create_nack_items items m index
     = Some (overlay m index (concat (map nack_item_wire items)), index + 4 * length items)"
  by (induction items arbitrary: m index)
     (simp_all add: mem_simps nack_consts overlay_append_left nack_item_wire_def)

lemma create_nack_fragment_append:
  assumes "out_index b + 12 + 4 * length items \<le> max_length" "max_length \<le> length (out_packet b)"
    and "length items \<le> 0xffff - 2"
  shows "create_nack_fragment n items max_length b = Some (out_append b (nack_fragment_wire n items))"
  using assms
  by (simp add: create_nack_fragment_def nack_consts mem_simps create_simps nack_fragment_wire_def)

lemma parse_nack_items_wire:
  "p = length xs \<Longrightarrow>
   parse_nack_items (length items) (xs @ concat (map nack_item_wire items) @ ys) p = Some items"
proof (induction items arbitrary: xs p)
  case (Cons item items)
  have "parse_nack_items (length items)
      ((xs @ nack_item_wire item) @ concat (map nack_item_wire items) @ ys) (p + 4) = Some items"
    using Cons.prems by (intro Cons.IH) (simp add: nack_item_wire_def)
  with Cons.prems show ?case by (simp add: nack_consts nack_item_wire_def [of item])
qed simp

lemma parse_nack_items_total:
  "p + 4 * n \<le> length m \<Longrightarrow> \<exists>items. parse_nack_items n m p = Some items \<and> length items = n"
proof (induction n arbitrary: p)
  case (Suc n)
  then have "p + 4 + 4 * n \<le> length m" by simp
  then obtain items where "parse_nack_items n m (p + 4) = Some items" "length items = n"
    using Suc.IH by blast
  with Suc.prems show ?case
    using ReadBE16_in [of p m] ReadBE16_in [of "p + 2" m] by (auto simp: nack_consts)
qed simp


lemma create_nack_loop_fits:
  assumes "items \<noteq> []" "out_index b + 12 + 4 * length items \<le> max_length"
    and "max_length \<le> length (out_packet b)" "length items \<le> 0xffff - 2"
  shows "create_nack_loop n items cb max_length b
     = Some (out_append b (nack_fragment_wire n items), True)"
proof -
  have "num_nack_fields (max_length - out_index b) items = length items"
    using assms(2) by (simp add: num_nack_fields_def nack_consts)
  moreover have "\<not> max_length - out_index b < 16"
    using assms(1,2) by (cases items) auto
  ultimately show ?thesis
    using assms create_nack_fragment_append [OF assms(2-4)]
    by (subst create_nack_loop.simps) (simp add: nack_consts create_nack_loop.simps Let_def)
qed

interpretation nk: rtcp_codec Nack_BlockLength Nack_Create nack_wire nack_valid Nack_Parse
  Nack_matches "\<lambda>_. nack_decoded"
proof (unfold_locales, goal_cases)
  case (3 p b max_length cb)
  then show ?case
    by (simp add: Nack_Create_def nack_valid_def Nack_BlockLength_eq create_nack_loop_fits)
next
  case (4 p rest sz h0 p0)
  let ?n = "length (packed p)" and ?body = "drop 4 (nack_wire p)"
  have n: "packed p \<noteq> []" "?n \<le> 0xffff - 2" "0 < ?n"
    using 4 by (auto simp: nack_valid_def)
  have items: "parse_nack_items ?n (?body @ rest) 8 = Some (packed p)"
    using parse_nack_items_wire [of 8 "rtpfb_wire p" "packed p" rest]
    by (simp add: nack_fragment_wire_def)
  have fb: "Rtpfb_ParseCommonFeedback p0 (?body @ rest)
      = Some (p0\<lparr>sender_ssrc := sender_ssrc p, media_ssrc := media_ssrc p\<rparr>)"
    by (simp add: nack_fragment_wire_def)
  show ?case
  proof (rule parse_wireI [OF 4(2), of 1 205 "2 + ?n" ?body])
    fix h :: common_header
    assume "ch_packet_type h = 205" "unat (ch_count_or_format h) = 1"
      "unat (ch_payload_size h) = 4 * (2 + ?n)" "ch_payload h = ?body @ rest"
    with n items fb show "Nack_matches h \<and> Nack_Parse p0 h = Some (nack_decoded p, True)"
      by (simp add: Nack_matches_def Nack_Parse_def nack_consts Unpack_def Unpack_loop_eq
          nack_decoded_def Let_def)
  qed (use n in \<open>simp_all add: nack_fragment_wire_def\<close>)
next
  case (5 h buffer sz p)
  have m: "ch_packet_type h = 205" "unat (ch_count_or_format h) = 1"
    using 5 by (simp_all add: Nack_matches_def)
  show ?case
  proof (cases "unat (ch_payload_size h) < 12")
    case True
    with m show ?thesis by (auto simp: Nack_Parse_def nack_consts)
  next
    case False
    let ?k = "(unat (ch_payload_size h) - 8) div 4"
    have k: "0 < ?k" "8 + 4 * ?k \<le> length (ch_payload h)" "8 \<le> length (ch_payload h)"
      using False header_ok_payload_size [OF 5(1,2)] by auto
    obtain items where "parse_nack_items ?k (ch_payload h) 8 = Some items" "items \<noteq> []"
      using parse_nack_items_total [OF k(2)] k(1) by (metis length_0_conv less_not_refl)
    with False m Rtpfb_ParseCommonFeedback_total [OF k(3), of p] show ?thesis
      by (auto simp: Nack_Parse_def nack_consts Unpack_def Let_def)
  qed
qed (simp_all add: Nack_BlockLength_eq)

subsection \<open>Fragmentation\<close>

function nack_groups :: "nat \<Rightarrow> 'a list \<Rightarrow> 'a list list" where
  "nack_groups k xs = (if xs = [] \<or> k = 0 then [] else take k xs # nack_groups k (drop k xs))"
  by pat_completeness auto
termination by (relation "measure (\<lambda>(k, xs). length xs)") auto

declare nack_groups.simps [simp del]

lemma concat_groups: "0 < k \<Longrightarrow> concat (nack_groups k xs) = xs"
  by (induction k xs rule: nack_groups.induct) (subst nack_groups.simps, auto)

lemma groups_bounds: "g \<in> set (nack_groups k xs) \<Longrightarrow> g \<noteq> [] \<and> length g \<le> k"
proof (induction k xs rule: nack_groups.induct)
  case (1 k xs)
  then show ?case by (subst (asm) (2) nack_groups.simps) (auto split: if_splits)
qed

text \<open>From an empty buffer every packet but the last is filled: the items are cut into chunks of
  as many as fit.\<close>

lemma create_nack_loop_chunks:
  assumes "items \<noteq> []" "out_index b = 0" "16 \<le> max_length" "max_length \<le> length (out_packet b)"
    and "max_length \<le> IP_PACKET_SIZE"
  shows "\<exists>b'. create_nack_loop n items True max_length b = Some (b', True) \<and> 0 < out_index b' \<and>
    out_sent b' @ [take (out_index b') (out_packet b')]
      = out_sent b @ map (nack_fragment_wire n) (nack_groups ((max_length - 12) div 4) items)"
  using assms
proof (induction items arbitrary: b rule: length_induct)
  case (1 items)
  let ?k = "(max_length - 12) div 4"
  have k: "0 < ?k" "12 + 4 * ?k \<le> max_length" "max_length < 16 + 4 * ?k" "?k \<le> 0xffff - 2"
    using "1.prems" by (auto simp: IP_PACKET_SIZE_def)
  show ?case
  proof (cases "length items \<le> ?k")
    case True
    have "12 + 4 * length items \<le> max_length" using True k by simp
    with True k "1.prems" have "create_nack_loop n items True max_length b
        = Some (out_append b (nack_fragment_wire n items), True)"
      by (intro create_nack_loop_fits) auto
    moreover have "nack_groups ?k items = [items]"
      using True k "1.prems" by (subst nack_groups.simps) (simp add: nack_groups.simps)
    ultimately show ?thesis using "1.prems" by (simp add: overlay_def)
  next
    case False
    let ?b1 = "out_append b (nack_fragment_wire n (take ?k items))"
    have "create_nack_fragment n (take ?k items) max_length b = Some ?b1"
      using False k "1.prems" by (intro create_nack_fragment_append) auto
    moreover have "num_nack_fields max_length items = ?k"
      using False by (simp add: num_nack_fields_def nack_consts)
    ultimately have s1: "create_nack_loop n items True max_length b
        = create_nack_loop n (drop ?k items) True max_length ?b1"
      using "1.prems" by (subst create_nack_loop.simps) (simp add: nack_consts Let_def)
    have "max_length - (12 + 4 * ?k) < 16" using k by linarith
    then have s2: "create_nack_loop n (drop ?k items) True max_length ?b1
        = create_nack_loop n (drop ?k items) True max_length (flush ?b1)"
      using False k "1.prems"
      by (subst create_nack_loop.simps) (simp add: nack_consts OnBufferFull_flush Let_def)
    have "nack_groups ?k items = take ?k items # nack_groups ?k (drop ?k items)"
      using False k "1.prems" by (subst nack_groups.simps) simp
    moreover have "length (drop ?k items) < length items" "drop ?k items \<noteq> []"
      using False k by (auto intro!: diff_less)
    ultimately show ?thesis
      using "1.IH" [rule_format, of "drop ?k items" "flush ?b1"] False k "1.prems" s1 s2
      by (simp add: overlay_def)
  qed
qed


lemma Nack_Build_callback_chunks:
  assumes "packed n \<noteq> []" "16 \<le> max_length" "max_length \<le> IP_PACKET_SIZE"
    and "IP_PACKET_SIZE \<le> length garbage"
  shows "Build_callback (Nack_Create n) max_length garbage
     = Some (True, map (nack_fragment_wire n) (nack_groups ((max_length - 12) div 4) (packed n)))"
proof -
  let ?b = "\<lparr>out_packet = take IP_PACKET_SIZE garbage, out_index = 0, out_sent = []\<rparr>"
  obtain b' where b': "create_nack_loop n (packed n) True max_length ?b = Some (b', True)"
    "0 < out_index b'" "out_sent b' @ [take (out_index b') (out_packet b')]
      = map (nack_fragment_wire n) (nack_groups ((max_length - 12) div 4) (packed n))"
    using create_nack_loop_chunks [OF assms(1), of ?b max_length n] assms by auto
  then show ?thesis
    using assms by (simp add: Build_callback_def Nack_Create_def OnBufferFull_flush)
qed

lemma nack_fragment_wire_packed: "nack_fragment_wire n g = nack_wire (n\<lparr>packed := g\<rparr>)"
  by (simp add: nack_fragment_wire_def rtpfb_wire_def)

text \<open>What one received fragment says.\<close>

definition nack_received :: "nack \<Rightarrow> bytes \<Rightarrow> nack \<Rightarrow> bool" where
  "nack_received n packet r \<longleftrightarrow>
     (case CommonHeader_Parse CommonHeader_init packet (length packet) of
        Some (h, True) \<Rightarrow> Nack_matches h \<and> Nack_Parse Nack_init h = Some (r, True)
      | _ \<Rightarrow> False) \<and>
     sender_ssrc r = sender_ssrc n \<and> media_ssrc r = media_ssrc n"

lemma nack_received_fragment:
  assumes "g \<noteq> []" "length g \<le> 0xffff - 2"
  shows "nack_received n (nack_fragment_wire n g) (nack_decoded (n\<lparr>packed := g\<rparr>))"
  using nk.parse_wire [of "n\<lparr>packed := g\<rparr>" "[]" _ CommonHeader_init Nack_init] assms
  by (fastforce simp: nack_received_def nack_valid_def nack_fragment_wire_packed [of n g] nack_decoded_def)

lemma SetPacketIds_Some:
  "SetPacketIds n0 ids = Some n \<longleftrightarrow> packet_ids n0 = [] \<and> packed n0 = [] \<and> ids \<noteq> [] \<and>
     n = n0\<lparr>packet_ids := ids, packed := Pack_loop ids\<rparr>"
  by (auto simp: SetPacketIds_def Pack_def dcheck_bind_Some)

lemma concat_map_concat: "concat (map (\<lambda>g. concat (map f g)) gs) = concat (map f (concat gs))"
  by (induction gs) auto

text \<open>C19: a NACK of any size is delivered. Whatever the list of lost sequence numbers, as long as
  it is in ascending order, building it with a packet limit of at least 16 bytes succeeds; no
  packet is longer than the limit, every packet parses as a NACK with the same two SSRCs, and the
  ids read from the packets, in order, are exactly the list.\<close>

theorem nack_fragments_roundtrip:
  assumes "SetPacketIds n0 ids = Some n" "nack_ascending ids"
    and "16 \<le> max_length" "max_length \<le> IP_PACKET_SIZE" "IP_PACKET_SIZE \<le> length garbage"
  shows "\<exists>packets received. Build_callback (Nack_Create n) max_length garbage = Some (True, packets) \<and>
    list_all (\<lambda>p. length p \<le> max_length) packets \<and> list_all2 (nack_received n) packets received \<and>
    concat (map packet_ids received) = ids"
proof -
  let ?k = "(max_length - 12) div 4"
  let ?groups = "nack_groups ?k (packed n)"
  let ?received = "map (\<lambda>g. nack_decoded (n\<lparr>packed := g\<rparr>)) ?groups"
  have n: "packed n = Pack_loop ids" "packed n \<noteq> []"
    using assms(1) by (auto simp: SetPacketIds_Some)
  have k: "0 < ?k" "12 + 4 * ?k \<le> max_length" "?k \<le> 0xffff - 2"
    using assms(3,4) by (auto simp: IP_PACKET_SIZE_def)
  have "list_all (\<lambda>p. length p \<le> max_length) (map (nack_fragment_wire n) ?groups)"
    using k by (auto simp: list_all_iff dest!: groups_bounds)
  moreover have "list_all2 (nack_received n) (map (nack_fragment_wire n) ?groups) ?received"
    using k by (auto simp: list_all2_map1 list_all2_map2 list_all2_same
        intro!: nack_received_fragment dest!: groups_bounds)
  moreover have "concat (map packet_ids ?received) = ids"
    using k(1) n assms(2)
    by (simp add: comp_def nack_decoded_def concat_map_concat concat_groups Pack_loop_ids)
  ultimately show ?thesis
    using Nack_Build_callback_chunks [OF n(2) assms(3-5)] by blast
qed

theorem nack_fragments_roundtrip_witness:
  "\<exists>packets received. Build_callback (Nack_Create (the (SetPacketIds Nack_init [65535, 3, 40]))) 16
      (replicate 1500 0) = Some (True, packets) \<and>
    list_all (\<lambda>p. length p \<le> 16) packets \<and>
    list_all2 (nack_received (the (SetPacketIds Nack_init [65535, 3, 40]))) packets received \<and>
    concat (map packet_ids received) = [65535, 3, 40]"
proof (rule nack_fragments_roundtrip)
  show "SetPacketIds Nack_init [65535, 3, 40] = Some (the (SetPacketIds Nack_init [65535, 3, 40]))"
    by (simp add: SetPacketIds_def Pack_def Nack_init_def)
  show "nack_ascending [65535, 3, 40]" by (simp add: nack_ascending_def)
qed (simp_all add: IP_PACKET_SIZE_def)

text \<open>Packing loses no sequence number and invents none, for a list in any order (and with
  repetitions): the ids unpacked from the items are the same set.\<close>

lemma nack_pack_same_set:
  assumes "SetPacketIds n0 ids = Some n"
  shows "\<exists>r. Unpack (n\<lparr>packet_ids := []\<rparr>) = Some r \<and> set (packet_ids r) = set ids \<and>
    packed r = packed n \<and> length (packed r) \<le> length ids"
  using assms Pack_loop_set [of ids] Pack_loop_length [of ids]
  by (auto simp: SetPacketIds_Some Unpack_def Unpack_loop_eq)

end
