(* ===== verification/Rtcp_Psfb.thy ===== *)
theory Rtcp_Psfb
  imports Rtcp_Nack
begin

text \<open>
  Payload-specific feedback messages under \<open>src/src/myrtc/rtp_rtcp/\<close>: \<open>psfb\<close> (the common part),
  \<open>pli\<close> (picture loss), \<open>fir\<close> (full intra request), \<open>remb\<close> (receiver estimated bitrate),
  \<open>loss_notification\<close>, and the transport feedback message \<open>rapid_resync_request\<close>.
\<close>

subsection \<open>\<open>Psfb\<close>\<close>

record psfb = rtcp_packet +
  ps_media_ssrc :: u32

definition Psfb_kPacketType :: u8 where "Psfb_kPacketType = 206"
definition kAfbMessageType :: nat where "kAfbMessageType = 15"
definition Psfb_kCommonFeedbackLength :: nat where "Psfb_kCommonFeedbackLength = 8"

definition Psfb_ParseCommonFeedback :: "'a psfb_scheme \<Rightarrow> bytes \<Rightarrow> 'a psfb_scheme option" where
  "Psfb_ParseCommonFeedback fb payload =
     do { v0 \<leftarrow> ReadBE32 payload 0;
          v4 \<leftarrow> ReadBE32 payload 4;
          Some (fb\<lparr>sender_ssrc := v0, ps_media_ssrc := v4\<rparr>) }"

definition Psfb_CreateCommonFeedback :: "'a psfb_scheme \<Rightarrow> bytes \<Rightarrow> nat \<Rightarrow> bytes option" where
  "Psfb_CreateCommonFeedback fb payload p =
     do { payload \<leftarrow> WriteBE32 payload (p + 0) (sender_ssrc fb);
          WriteBE32 payload (p + 4) (ps_media_ssrc fb) }"

definition psfb_wire :: "'a psfb_scheme \<Rightarrow> bytes" where
  "psfb_wire fb = be_bytes 4 (sender_ssrc fb) @ be_bytes 4 (ps_media_ssrc fb)"

lemma length_psfb_wire [simp]: "length (psfb_wire fb) = 8"
  by (simp add: psfb_wire_def)

lemma Psfb_CreateCommonFeedback_overlay [mem_simps]:
  "p + 8 \<le> length m \<Longrightarrow> Psfb_CreateCommonFeedback fb m p = Some (overlay m p (psfb_wire fb))"
  by (simp add: Psfb_CreateCommonFeedback_def mem_simps overlay_append_left psfb_wire_def)

lemma Psfb_ParseCommonFeedback_wire [simp]:
  "Psfb_ParseCommonFeedback fb0 (psfb_wire fb @ rest)
     = Some (fb0\<lparr>sender_ssrc := sender_ssrc fb, ps_media_ssrc := ps_media_ssrc fb\<rparr>)"
  by (simp add: Psfb_ParseCommonFeedback_def psfb_wire_def)

lemma Psfb_ParseCommonFeedback_total:
  "8 \<le> length m \<Longrightarrow>
   \<exists>a b. Psfb_ParseCommonFeedback fb m = Some (fb\<lparr>sender_ssrc := a, ps_media_ssrc := b\<rparr>)"
  using ReadBE32_in [of 0 m] ReadBE32_in [of 4 m] by (auto simp: Psfb_ParseCommonFeedback_def; blast)

lemmas psfb_consts = Psfb_kPacketType_def kAfbMessageType_def Psfb_kCommonFeedbackLength_def
  kHeaderLength_def

subsection \<open>\<open>Pli\<close>\<close>

type_synonym pli = psfb

definition Pli_kFeedbackMessageType :: nat where "Pli_kFeedbackMessageType = 1"

definition Pli_init :: pli where "Pli_init = \<lparr>sender_ssrc = 0, ps_media_ssrc = 0\<rparr>"

definition Pli_Parse :: "pli \<Rightarrow> common_header \<Rightarrow> (pli \<times> bool) option" where
  "Pli_Parse pli packet =
     do { dcheck (ch_packet_type packet = Psfb_kPacketType);
          dcheck (unat (ch_count_or_format packet) = Pli_kFeedbackMessageType);
          if unat (ch_payload_size packet) < Psfb_kCommonFeedbackLength then Some (pli, False)
          else do {
            pli \<leftarrow> Psfb_ParseCommonFeedback pli (ch_payload packet);
            Some (pli, True) } }"

definition Pli_BlockLength :: "pli \<Rightarrow> nat" where
  "Pli_BlockLength pli = kHeaderLength + Psfb_kCommonFeedbackLength"

definition Pli_Create :: "pli \<Rightarrow> creator" where
  "Pli_Create pli cb max_length b =
     do { (b, ok) \<leftarrow> reserve (Pli_BlockLength pli) cb max_length b;
          if \<not> ok then Some (b, False)
          else do {
            hl \<leftarrow> HeaderLength (Pli_BlockLength pli);
            (packet, index) \<leftarrow> CreateHeader Pli_kFeedbackMessageType Psfb_kPacketType hl
               (out_packet b) (out_index b);
            packet \<leftarrow> Psfb_CreateCommonFeedback pli packet index;
            Some (b\<lparr>out_packet := packet, out_index := index + Psfb_kCommonFeedbackLength\<rparr>, True) } }"

definition pli_wire :: "pli \<Rightarrow> bytes" where
  "pli_wire pli = header_wire 1 206 2 False @ psfb_wire pli"

definition Pli_matches :: "common_header \<Rightarrow> bool" where
  "Pli_matches h \<longleftrightarrow> ch_packet_type h = 206 \<and> unat (ch_count_or_format h) = 1"

lemmas pli_consts = psfb_consts Pli_kFeedbackMessageType_def Pli_BlockLength_def

interpretation pli: rtcp_unfragmented Pli_BlockLength Pli_Create pli_wire "\<lambda>_. True"
proof (rule rtcp_unfragmentedI [OF _ _ Pli_Create_def], goal_cases)
  case (3 p b)
  then show ?case by (simp add: pli_consts mem_simps create_simps pli_wire_def)
qed (simp_all add: pli_consts pli_wire_def)

interpretation pli: rtcp_codec Pli_BlockLength Pli_Create pli_wire "\<lambda>_. True" Pli_Parse
  Pli_matches "\<lambda>_ p. p"
proof (unfold_locales, goal_cases)
  case (1 p rest sz h0 p0)
  show ?case
    by (intro parse_wireI [OF 1(2), of 1 206 2 "psfb_wire p"])
       (simp_all add: pli_wire_def Pli_matches_def Pli_Parse_def pli_consts)
next
  case (2 h buffer sz p)
  then show ?case
    using header_ok_payload_size [OF 2(1,2)] Psfb_ParseCommonFeedback_total [of "ch_payload h" p]
    by (cases "unat (ch_payload_size h) < 8") (auto simp: Pli_matches_def Pli_Parse_def pli_consts)
qed

subsection \<open>\<open>RapidResyncRequest\<close>\<close>

type_synonym rapid_resync_request = rtpfb

definition Rrr_kFeedbackMessageType :: nat where "Rrr_kFeedbackMessageType = 5"

definition RapidResyncRequest_init :: rapid_resync_request where
  "RapidResyncRequest_init = \<lparr>sender_ssrc = 0, media_ssrc = 0\<rparr>"

definition RapidResyncRequest_Parse ::
  "rapid_resync_request \<Rightarrow> common_header \<Rightarrow> (rapid_resync_request \<times> bool) option" where
  "RapidResyncRequest_Parse rrr packet =
     do { dcheck (ch_packet_type packet = Rtpfb_kPacketType);
          dcheck (unat (ch_count_or_format packet) = Rrr_kFeedbackMessageType);
          if unat (ch_payload_size packet) \<noteq> kCommonFeedbackLength then Some (rrr, False)
          else do {
            rrr \<leftarrow> Rtpfb_ParseCommonFeedback rrr (ch_payload packet);
            Some (rrr, True) } }"

definition RapidResyncRequest_BlockLength :: "rapid_resync_request \<Rightarrow> nat" where
  "RapidResyncRequest_BlockLength rrr = kHeaderLength + kCommonFeedbackLength"

definition RapidResyncRequest_Create :: "rapid_resync_request \<Rightarrow> creator" where
  "RapidResyncRequest_Create rrr cb max_length b =
     do { (b, ok) \<leftarrow> reserve (RapidResyncRequest_BlockLength rrr) cb max_length b;
          if \<not> ok then Some (b, False)
          else do {
            hl \<leftarrow> HeaderLength (RapidResyncRequest_BlockLength rrr);
            (packet, index) \<leftarrow> CreateHeader Rrr_kFeedbackMessageType Rtpfb_kPacketType hl
               (out_packet b) (out_index b);
            packet \<leftarrow> Rtpfb_CreateCommonFeedback rrr packet index;
            Some (b\<lparr>out_packet := packet, out_index := index + kCommonFeedbackLength\<rparr>, True) } }"

definition rrr_wire :: "rapid_resync_request \<Rightarrow> bytes" where
  "rrr_wire rrr = header_wire 5 205 2 False @ rtpfb_wire rrr"

definition Rrr_matches :: "common_header \<Rightarrow> bool" where
  "Rrr_matches h \<longleftrightarrow> ch_packet_type h = 205 \<and> unat (ch_count_or_format h) = 5"

lemmas rrr_consts = nack_consts Rrr_kFeedbackMessageType_def RapidResyncRequest_BlockLength_def

interpretation rrr: rtcp_unfragmented RapidResyncRequest_BlockLength RapidResyncRequest_Create
  rrr_wire "\<lambda>_. True"
proof (rule rtcp_unfragmentedI [OF _ _ RapidResyncRequest_Create_def], goal_cases)
  case (3 p b)
  then show ?case by (simp add: rrr_consts mem_simps create_simps rrr_wire_def)
qed (simp_all add: rrr_consts rrr_wire_def)

interpretation rrr: rtcp_codec RapidResyncRequest_BlockLength RapidResyncRequest_Create rrr_wire
  "\<lambda>_. True" RapidResyncRequest_Parse Rrr_matches "\<lambda>_ p. p"
proof (unfold_locales, goal_cases)
  case (1 p rest sz h0 p0)
  show ?case
    by (intro parse_wireI [OF 1(2), of 5 205 2 "rtpfb_wire p"])
       (simp_all add: rrr_wire_def Rrr_matches_def RapidResyncRequest_Parse_def rrr_consts)
next
  case (2 h buffer sz p)
  then show ?case
    using header_ok_payload_size [OF 2(1,2)] Rtpfb_ParseCommonFeedback_total [of "ch_payload h" p]
    by (cases "unat (ch_payload_size h) = 8")
       (auto simp: Rrr_matches_def RapidResyncRequest_Parse_def rrr_consts)
qed


subsection \<open>\<open>Fir\<close>\<close>

record fir_request =
  fir_ssrc :: u32
  fir_seq_nr :: u8

record fir = psfb +
  fir_items :: "fir_request list"

definition Fir_kFeedbackMessageType :: nat where "Fir_kFeedbackMessageType = 4"
definition kFciLength :: nat where "kFciLength = 8"

definition Fir_init :: fir where
  "Fir_init = \<lparr>sender_ssrc = 0, ps_media_ssrc = 0, fir_items = []\<rparr>"

definition AddRequestTo :: "fir \<Rightarrow> u32 \<Rightarrow> u8 \<Rightarrow> fir" where
  "AddRequestTo fir ssrc seq_num =
     fir\<lparr>fir_items := fir_items fir @ [\<lparr>fir_ssrc = ssrc, fir_seq_nr = seq_num\<rparr>]\<rparr>"

fun parse_fir_items :: "nat \<Rightarrow> bytes \<Rightarrow> nat \<Rightarrow> fir_request list option" where
  "parse_fir_items 0 m next_fci = Some []"
| "parse_fir_items (Suc n) m next_fci =
     do { ssrc \<leftarrow> ReadBE32 m next_fci;
          seq \<leftarrow> Read8 m (next_fci + 4);
          items \<leftarrow> parse_fir_items n m (next_fci + kFciLength);
          Some (\<lparr>fir_ssrc = ssrc, fir_seq_nr = seq\<rparr> # items) }"

definition Fir_Parse :: "fir \<Rightarrow> common_header \<Rightarrow> (fir \<times> bool) option" where
  "Fir_Parse fir packet =
     do { dcheck (ch_packet_type packet = Psfb_kPacketType);
          dcheck (unat (ch_count_or_format packet) = Fir_kFeedbackMessageType);
          let payload_size = unat (ch_payload_size packet);
          if payload_size < Psfb_kCommonFeedbackLength + kFciLength then Some (fir, False)
          else if (payload_size - Psfb_kCommonFeedbackLength) mod kFciLength \<noteq> 0 then Some (fir, False)
          else do {
            fir \<leftarrow> Psfb_ParseCommonFeedback fir (ch_payload packet);
            items \<leftarrow> parse_fir_items ((payload_size - Psfb_kCommonFeedbackLength) div kFciLength)
               (ch_payload packet) Psfb_kCommonFeedbackLength;
            Some (fir\<lparr>fir_items := items\<rparr>, True) } }"

definition Fir_BlockLength :: "fir \<Rightarrow> nat" where
  "Fir_BlockLength fir =
     kHeaderLength + Psfb_kCommonFeedbackLength + kFciLength * length (fir_items fir)"

fun create_fir_items :: "fir_request list \<Rightarrow> bytes \<Rightarrow> nat \<Rightarrow> (bytes \<times> nat) option" where
  "create_fir_items [] m index = Some (m, index)"
| "create_fir_items (r # rs) m index =
     do { m \<leftarrow> WriteBE32 m index (fir_ssrc r);
          m \<leftarrow> Write8 m (index + 4) (fir_seq_nr r);
          m \<leftarrow> WriteBigEndian 3 m (index + 5) (0 :: u32);
          create_fir_items rs m (index + kFciLength) }"

definition Fir_Create :: "fir \<Rightarrow> creator" where
  "Fir_Create fir cb max_length b =
     do { dcheck (fir_items fir \<noteq> []);
          (b, ok) \<leftarrow> reserve (Fir_BlockLength fir) cb max_length b;
          if \<not> ok then Some (b, False)
          else do {
            let index_end = out_index b + Fir_BlockLength fir;
            hl \<leftarrow> HeaderLength (Fir_BlockLength fir);
            (packet, index) \<leftarrow> CreateHeader Fir_kFeedbackMessageType Psfb_kPacketType hl
               (out_packet b) (out_index b);
            dcheck (ps_media_ssrc fir = 0);
            packet \<leftarrow> Psfb_CreateCommonFeedback fir packet index;
            (packet, index) \<leftarrow> create_fir_items (fir_items fir) packet
               (index + Psfb_kCommonFeedbackLength);
            dcheck (index = index_end);
            Some (b\<lparr>out_packet := packet, out_index := index\<rparr>, True) } }"

definition fir_item_wire :: "fir_request \<Rightarrow> bytes" where
  "fir_item_wire r = be_bytes 4 (fir_ssrc r) @ [fir_seq_nr r] @ be_bytes 3 (0 :: u32)"

abbreviation fir_items_wire :: "fir_request list \<Rightarrow> bytes" where
  "fir_items_wire rs \<equiv> concat (map fir_item_wire rs)"

definition fir_wire :: "fir \<Rightarrow> bytes" where
  "fir_wire fir = header_wire 4 206 (2 + 2 * length (fir_items fir)) False @ psfb_wire fir
     @ fir_items_wire (fir_items fir)"

definition fir_valid :: "fir \<Rightarrow> bool" where
  "fir_valid fir \<longleftrightarrow> fir_items fir \<noteq> [] \<and> ps_media_ssrc fir = 0 \<and> length (fir_items fir) \<le> 32766"

definition Fir_matches :: "common_header \<Rightarrow> bool" where
  "Fir_matches h \<longleftrightarrow> ch_packet_type h = 206 \<and> unat (ch_count_or_format h) = 4"

lemmas fir_consts = psfb_consts Fir_kFeedbackMessageType_def kFciLength_def

lemma Fir_BlockLength_eq: "Fir_BlockLength fir = 12 + 8 * length (fir_items fir)"
  by (simp add: Fir_BlockLength_def fir_consts)

lemma length_fir_items_wire [simp]: "length (fir_items_wire rs) = 8 * length rs"
  by (rule length_concat_const) (simp add: fir_item_wire_def)

lemma create_fir_items_overlay [mem_simps]:
  "index + 8 * length rs \<le> length m \<Longrightarrow>
   create_fir_items rs m index = Some (overlay m index (fir_items_wire rs), index + 8 * length rs)"
  by (induction rs arbitrary: m index)
     (simp_all add: mem_simps fir_consts overlay_append_left fir_item_wire_def)

lemma parse_fir_items_wire:
  "p = length xs \<Longrightarrow> parse_fir_items (length rs) (xs @ fir_items_wire rs @ ys) p = Some rs"
proof (induction rs arbitrary: xs p)
  case (Cons r rs)
  have "parse_fir_items (length rs) ((xs @ fir_item_wire r) @ fir_items_wire rs @ ys) (p + 8) = Some rs"
    using Cons.prems by (intro Cons.IH) (simp add: fir_item_wire_def)
  with Cons.prems show ?case
    by (simp add: fir_consts fir_item_wire_def [of r] Read8_def get_byte_append_right)
       (simp add: get_byte_def)
qed simp

lemma parse_fir_items_total:
  "p + 8 * n \<le> length m \<Longrightarrow> \<exists>items. parse_fir_items n m p = Some items"
proof (induction n arbitrary: p)
  case (Suc n)
  then have "p + 8 + 8 * n \<le> length m" by simp
  then obtain items where "parse_fir_items n m (p + 8) = Some items"
    using Suc.IH by blast
  with Suc.prems show ?case
    using ReadBE32_in [of p m] get_byte_ex [of "p + 4" m] by (auto simp: fir_consts Read8_def)
qed simp

interpretation fir: rtcp_unfragmented Fir_BlockLength Fir_Create fir_wire fir_valid
proof (rule rtcp_unfragmented_dcheckI [OF _ _ Fir_Create_def], goal_cases)
  case (4 p b)
  then show ?case
    by (simp add: Fir_BlockLength_eq fir_valid_def fir_consts mem_simps create_simps fir_wire_def)
qed (simp_all add: Fir_BlockLength_eq fir_wire_def fir_valid_def)

interpretation fir: rtcp_codec Fir_BlockLength Fir_Create fir_wire fir_valid Fir_Parse
  Fir_matches "\<lambda>_ p. p"
proof (unfold_locales, goal_cases)
  case (1 p rest sz h0 p0)
  let ?n = "length (fir_items p)" and ?body = "drop 4 (fir_wire p)"
  have n: "?n \<le> 32766" "0 < ?n" "fir_items p \<noteq> []" using 1 by (auto simp: fir_valid_def)
  have items: "parse_fir_items ?n (?body @ rest) 8 = Some (fir_items p)"
    using parse_fir_items_wire [of 8 "psfb_wire p" "fir_items p" rest] by (simp add: fir_wire_def)
  have fb: "Psfb_ParseCommonFeedback p0 (?body @ rest)
      = Some (p0\<lparr>sender_ssrc := sender_ssrc p, ps_media_ssrc := ps_media_ssrc p\<rparr>)"
    by (simp add: fir_wire_def)
  show ?case
  proof (rule parse_wireI [OF 1(2), of 4 206 "2 + 2 * ?n" ?body])
    fix h :: common_header
    assume "ch_packet_type h = 206" "unat (ch_count_or_format h) = 4"
      "unat (ch_payload_size h) = 4 * (2 + 2 * ?n)" "ch_payload h = ?body @ rest"
    with n items fb show "Fir_matches h \<and> Fir_Parse p0 h = Some (p, True)"
      by (simp add: Fir_matches_def Fir_Parse_def fir_consts Let_def)
  qed (use n in \<open>simp_all add: fir_wire_def\<close>)
next
  case (2 h buffer sz p)
  then have m: "ch_packet_type h = 206" "unat (ch_count_or_format h) = 4"
    by (simp_all add: Fir_matches_def)
  let ?s = "unat (ch_payload_size h)"
  show ?case
  proof (cases "?s < 16 \<or> (?s - 8) mod 8 \<noteq> 0")
    case True
    with m show ?thesis by (auto simp: Fir_Parse_def fir_consts Let_def)
  next
    case False
    have "8 + 8 * ((?s - 8) div 8) \<le> length (ch_payload h)" "8 \<le> length (ch_payload h)"
      using False header_ok_payload_size [OF 2(1,2)] by auto
    from parse_fir_items_total [OF this(1)] Psfb_ParseCommonFeedback_total [OF this(2), of p] False m
    show ?thesis by (auto simp: Fir_Parse_def fir_consts Let_def)
  qed
qed

subsection \<open>\<open>LossNotification\<close>\<close>

record loss_notification = psfb +
  last_decoded :: u16
  last_received :: u16
  decodability_flag :: bool

definition Lntf_kUniqueIdentifier :: u32 where "Lntf_kUniqueIdentifier = 0x4C4E5446"
definition kLossNotificationPayloadLength :: nat where "kLossNotificationPayloadLength = 8"

definition LossNotification_init :: loss_notification where
  "LossNotification_init = \<lparr>sender_ssrc = 0, ps_media_ssrc = 0, last_decoded = 0,
     last_received = 0, decodability_flag = False\<rparr>"

definition LossNotification_BlockLength :: "loss_notification \<Rightarrow> nat" where
  "LossNotification_BlockLength ln =
     kHeaderLength + Psfb_kCommonFeedbackLength + kLossNotificationPayloadLength"

definition LossNotification_Create :: "loss_notification \<Rightarrow> creator" where
  "LossNotification_Create ln cb max_length b =
     do { (b, ok) \<leftarrow> reserve (LossNotification_BlockLength ln) cb max_length b;
          if \<not> ok then Some (b, False)
          else do {
            let index_end = out_index b + LossNotification_BlockLength ln;
            hl \<leftarrow> HeaderLength (LossNotification_BlockLength ln);
            (packet, index) \<leftarrow> CreateHeader kAfbMessageType Psfb_kPacketType hl
               (out_packet b) (out_index b);
            packet \<leftarrow> Psfb_CreateCommonFeedback ln packet index;
            let index = index + Psfb_kCommonFeedbackLength;
            packet \<leftarrow> WriteBE32 packet index Lntf_kUniqueIdentifier;
            let index = index + 4;
            packet \<leftarrow> WriteBE16 packet index (last_decoded ln);
            let index = index + 2;
            let last_received_delta = last_received ln - last_decoded ln;
            dcheck (last_received_delta \<le> 0x7fff);
            let delta_and_decodability =
              push_bit 1 last_received_delta OR (if decodability_flag ln then 1 else 0);
            packet \<leftarrow> WriteBE16 packet index delta_and_decodability;
            let index = index + 2;
            dcheck (index_end = index);
            Some (b\<lparr>out_packet := packet, out_index := index\<rparr>, True) } }"

definition LossNotification_Parse ::
  "loss_notification \<Rightarrow> common_header \<Rightarrow> (loss_notification \<times> bool) option" where
  "LossNotification_Parse ln packet =
     do { dcheck (ch_packet_type packet = Psfb_kPacketType);
          dcheck (unat (ch_count_or_format packet) = kAfbMessageType);
          if unat (ch_payload_size packet) < Psfb_kCommonFeedbackLength + kLossNotificationPayloadLength
          then Some (ln, False)
          else do {
            ident \<leftarrow> ReadBE32 (ch_payload packet) 8;
            if ident \<noteq> Lntf_kUniqueIdentifier then Some (ln, False)
            else do {
              ln \<leftarrow> Psfb_ParseCommonFeedback ln (ch_payload packet);
              v12 \<leftarrow> ReadBE16 (ch_payload packet) 12;
              v14 \<leftarrow> ReadBE16 (ch_payload packet) 14;
              Some (ln\<lparr>last_decoded := v12, last_received := v12 + drop_bit 1 v14,
                       decodability_flag := (v14 AND 1 \<noteq> 0)\<rparr>, True) } } }"

definition LossNotification_Set ::
  "loss_notification \<Rightarrow> u16 \<Rightarrow> u16 \<Rightarrow> bool \<Rightarrow> loss_notification \<times> bool" where
  "LossNotification_Set ln decoded received flag =
     (if received - decoded > 0x7fff then (ln, False)
      else (ln\<lparr>last_received := received, last_decoded := decoded, decodability_flag := flag\<rparr>, True))"

definition lntf_delta :: "loss_notification \<Rightarrow> u16" where
  "lntf_delta ln = push_bit 1 (last_received ln - last_decoded ln) OR
     (if decodability_flag ln then 1 else 0)"

definition lntf_wire :: "loss_notification \<Rightarrow> bytes" where
  "lntf_wire ln = header_wire 15 206 4 False @ psfb_wire ln @ be_bytes 4 (0x4C4E5446 :: u32)
     @ be_bytes 2 (last_decoded ln) @ be_bytes 2 (lntf_delta ln)"

definition lntf_valid :: "loss_notification \<Rightarrow> bool" where
  "lntf_valid ln \<longleftrightarrow> last_received ln - last_decoded ln \<le> 0x7fff"

definition Afb_matches :: "common_header \<Rightarrow> bool" where
  "Afb_matches h \<longleftrightarrow> ch_packet_type h = 206 \<and> unat (ch_count_or_format h) = 15"

lemmas lntf_consts = psfb_consts Lntf_kUniqueIdentifier_def kLossNotificationPayloadLength_def
  LossNotification_BlockLength_def

lemma lntf_delta_fields:
  assumes "lntf_valid ln"
  shows "last_decoded ln + drop_bit 1 (lntf_delta ln) = last_received ln"
    and "lntf_delta ln AND 1 \<noteq> 0 \<longleftrightarrow> decodability_flag ln"
proof -
  let ?d = "last_received ln - last_decoded ln"
  have "unat ?d < 2 ^ 15"
    using assms by (simp add: lntf_valid_def word_le_nat_alt)
  from bit_less_of_unat_less [OF this] have "drop_bit 1 (lntf_delta ln) = ?d"
    unfolding lntf_delta_def
    by (intro drop_bit_push_or) (auto simp: bit_1_iff split: if_splits)
  then show "last_decoded ln + drop_bit 1 (lntf_delta ln) = last_received ln" by simp
  show "lntf_delta ln AND 1 \<noteq> 0 \<longleftrightarrow> decodability_flag ln"
    by (simp add: lntf_delta_def and_one_eq mod_2_eq_odd even_or_iff)
qed

interpretation lntf: rtcp_unfragmented LossNotification_BlockLength LossNotification_Create
  lntf_wire lntf_valid
proof (rule rtcp_unfragmentedI [OF _ _ LossNotification_Create_def], goal_cases)
  case (3 p b)
  then show ?case
    by (simp add: lntf_consts lntf_valid_def mem_simps create_simps lntf_wire_def lntf_delta_def Let_def)
qed (simp_all add: lntf_consts lntf_wire_def)

interpretation lntf: rtcp_codec LossNotification_BlockLength LossNotification_Create lntf_wire
  lntf_valid LossNotification_Parse Afb_matches "\<lambda>_ p. p"
proof (unfold_locales, goal_cases)
  case (1 p rest sz h0 p0)
  show ?case
    using lntf_delta_fields [OF 1(1)]
    by (intro parse_wireI [OF 1(2), of 15 206 4 "drop 4 (lntf_wire p)"])
       (simp_all add: lntf_wire_def Afb_matches_def LossNotification_Parse_def lntf_consts psfb_wire_def
          Psfb_ParseCommonFeedback_def)
next
  case (2 h buffer sz p)
  then show ?case
    using header_ok_payload_size [OF 2(1,2)] Psfb_ParseCommonFeedback_total [of "ch_payload h" p]
      ReadBE32_in [of 8 "ch_payload h"] ReadBE16_in [of 12 "ch_payload h"] ReadBE16_in [of 14 "ch_payload h"]
    by (cases "unat (ch_payload_size h) < 16")
       (auto simp: Afb_matches_def LossNotification_Parse_def lntf_consts)
qed


subsection \<open>Lists of 32-bit values\<close>

text \<open>The loops that read and write a run of SSRCs.\<close>

fun parse_ssrcs :: "nat \<Rightarrow> bytes \<Rightarrow> nat \<Rightarrow> u32 list option" where
  "parse_ssrcs 0 m next_ssrc = Some []"
| "parse_ssrcs (Suc n) m next_ssrc =
     do { ssrc \<leftarrow> ReadBE32 m next_ssrc;
          ssrcs \<leftarrow> parse_ssrcs n m (next_ssrc + 4);
          Some (ssrc # ssrcs) }"

fun create_ssrcs :: "u32 list \<Rightarrow> bytes \<Rightarrow> nat \<Rightarrow> (bytes \<times> nat) option" where
  "create_ssrcs [] m index = Some (m, index)"
| "create_ssrcs (ssrc # ssrcs) m index =
     do { m \<leftarrow> WriteBE32 m index ssrc;
          create_ssrcs ssrcs m (index + 4) }"

abbreviation ssrcs_wire :: "u32 list \<Rightarrow> bytes" where
  "ssrcs_wire ssrcs \<equiv> concat (map (be_bytes 4) ssrcs)"

lemma length_ssrcs_wire [simp]: "length (ssrcs_wire ssrcs) = 4 * length ssrcs"
  by (rule length_concat_const) simp

lemma create_ssrcs_overlay [mem_simps]:
  "index + 4 * length ssrcs \<le> length m \<Longrightarrow>
   create_ssrcs ssrcs m index = Some (overlay m index (ssrcs_wire ssrcs), index + 4 * length ssrcs)"
  by (induction ssrcs arbitrary: m index) (simp_all add: mem_simps overlay_append_left)

lemma parse_ssrcs_wire:
  "p = length xs \<Longrightarrow> parse_ssrcs (length ssrcs) (xs @ ssrcs_wire ssrcs @ ys) p = Some ssrcs"
proof (induction ssrcs arbitrary: xs p)
  case (Cons s ssrcs)
  have "parse_ssrcs (length ssrcs) ((xs @ be_bytes 4 s) @ ssrcs_wire ssrcs @ ys) (p + 4) = Some ssrcs"
    using Cons.prems by (intro Cons.IH) simp
  with Cons.prems show ?case by simp
qed simp

lemma parse_ssrcs_total: "p + 4 * n \<le> length m \<Longrightarrow> \<exists>ssrcs. parse_ssrcs n m p = Some ssrcs"
proof (induction n arbitrary: p)
  case (Suc n)
  then have "p + 4 + 4 * n \<le> length m" by simp
  then obtain ssrcs where "parse_ssrcs n m (p + 4) = Some ssrcs"
    using Suc.IH by blast
  with Suc.prems show ?case using ReadBE32_in [of p m] by auto
qed simp

subsection \<open>\<open>Remb\<close>\<close>

record remb = psfb +
  bitrate_bps :: u64
  remb_ssrcs :: "u32 list"

definition Remb_kMaxNumberOfSsrcs :: nat where "Remb_kMaxNumberOfSsrcs = 0xff"
definition Remb_kUniqueIdentifier :: u32 where "Remb_kUniqueIdentifier = 0x52454D42"
definition kMaxMantissa :: u64 where "kMaxMantissa = 0x3ffff"

definition Remb_init :: remb where
  "Remb_init = \<lparr>sender_ssrc = 0, ps_media_ssrc = 0, bitrate_bps = 0, remb_ssrcs = []\<rparr>"

definition Remb_Parse :: "remb \<Rightarrow> common_header \<Rightarrow> (remb \<times> bool) option" where
  "Remb_Parse remb packet =
     do { dcheck (ch_packet_type packet = Psfb_kPacketType);
          dcheck (unat (ch_count_or_format packet) = kAfbMessageType);
          if unat (ch_payload_size packet) < 16 then Some (remb, False)
          else do {
            let payload = ch_payload packet;
            ident \<leftarrow> ReadBE32 payload 8;
            if Remb_kUniqueIdentifier \<noteq> ident then Some (remb, False)
            else do {
              number_of_ssrcs \<leftarrow> get_byte payload 12;
              if unat (ch_payload_size packet)
                   \<noteq> Psfb_kCommonFeedbackLength + (2 + unat number_of_ssrcs) * 4
              then Some (remb, False)
              else do {
                remb \<leftarrow> Psfb_ParseCommonFeedback remb payload;
                b13 \<leftarrow> get_byte payload 13;
                v14 \<leftarrow> ReadBE16 payload 14;
                let exponenta = drop_bit 2 b13;
                let mantissa =
                  (ucast (push_bit 16 (ucast (b13 AND 0x03)) OR (ucast v14 :: u32)) :: u64);
                let bitrate = push_bit (unat exponenta) mantissa;
                let remb = remb\<lparr>bitrate_bps := bitrate\<rparr>;
                if drop_bit (unat exponenta) bitrate \<noteq> mantissa then Some (remb, False)
                else do {
                  ssrcs \<leftarrow> parse_ssrcs (unat number_of_ssrcs) payload 16;
                  Some (remb\<lparr>remb_ssrcs := ssrcs\<rparr>, True) } } } } }"

definition SetSsrcs :: "remb \<Rightarrow> u32 list \<Rightarrow> remb \<times> bool" where
  "SetSsrcs remb ssrcs =
     (if length ssrcs > Remb_kMaxNumberOfSsrcs then (remb, False)
      else (remb\<lparr>remb_ssrcs := ssrcs\<rparr>, True))"

definition Remb_BlockLength :: "remb \<Rightarrow> nat" where
  "Remb_BlockLength remb =
     kHeaderLength + Psfb_kCommonFeedbackLength + (2 + length (remb_ssrcs remb)) * 4"

text \<open>The loop that scales a bitrate down to a mantissa of a given size.\<close>

function bitrate_scale :: "u64 \<Rightarrow> u64 \<Rightarrow> 'e::len word \<Rightarrow> u64 \<times> 'e word" where
  "bitrate_scale max_mantissa mantissa exponenta =
     (if mantissa > max_mantissa
      then bitrate_scale max_mantissa (drop_bit 1 mantissa) (exponenta + 1)
      else (mantissa, exponenta))"
  by pat_completeness auto
termination
proof (relation "measure (\<lambda>(max_mantissa, mantissa, exponenta). unat mantissa)", simp, goal_cases)
  case (1 max_mantissa mantissa exponenta)
  then have "0 < unat mantissa" by (simp add: word_less_nat_alt)
  moreover have "unat (drop_bit 1 mantissa) = unat mantissa div 2"
    by (simp add: drop_bit_Suc unat_div)
  ultimately show ?case by simp
qed

declare bitrate_scale.simps [simp del]

definition Remb_Create :: "remb \<Rightarrow> creator" where
  "Remb_Create remb cb max_length b =
     do { (b, ok) \<leftarrow> reserve (Remb_BlockLength remb) cb max_length b;
          if \<not> ok then Some (b, False)
          else do {
            let index_end = out_index b + Remb_BlockLength remb;
            hl \<leftarrow> HeaderLength (Remb_BlockLength remb);
            (packet, index) \<leftarrow> CreateHeader kAfbMessageType Psfb_kPacketType hl
               (out_packet b) (out_index b);
            dcheck (0 = ps_media_ssrc remb);
            packet \<leftarrow> Psfb_CreateCommonFeedback remb packet index;
            let index = index + Psfb_kCommonFeedbackLength;
            packet \<leftarrow> WriteBE32 packet index Remb_kUniqueIdentifier;
            let index = index + 4;
            let (mantissa, exponenta) = bitrate_scale kMaxMantissa (bitrate_bps remb) (0 :: u8);
            packet \<leftarrow> put_byte packet index (of_nat (length (remb_ssrcs remb)));
            let index = index + 1;
            packet \<leftarrow> put_byte packet index
               (ucast (push_bit 2 (ucast exponenta) OR drop_bit 16 mantissa));
            let index = index + 1;
            packet \<leftarrow> WriteBE16 packet index (ucast (mantissa AND 0xffff));
            let index = index + 2;
            (packet, index) \<leftarrow> create_ssrcs (remb_ssrcs remb) packet index;
            dcheck (index_end = index);
            Some (b\<lparr>out_packet := packet, out_index := index\<rparr>, True) } }"

definition remb_wire :: "remb \<Rightarrow> bytes" where
  "remb_wire remb = header_wire 15 206 (4 + length (remb_ssrcs remb)) False @ psfb_wire remb
     @ be_bytes 4 (0x52454D42 :: u32)
     @ (case bitrate_scale kMaxMantissa (bitrate_bps remb) (0 :: u8) of (mantissa, exponenta) \<Rightarrow>
          [of_nat (length (remb_ssrcs remb)),
           ucast (push_bit 2 (ucast exponenta) OR drop_bit 16 mantissa)]
          @ be_bytes 2 (ucast (mantissa AND 0xffff) :: u16))
     @ ssrcs_wire (remb_ssrcs remb)"

definition remb_valid :: "remb \<Rightarrow> bool" where
  "remb_valid remb \<longleftrightarrow> ps_media_ssrc remb = 0 \<and> length (remb_ssrcs remb) \<le> 0xff"

text \<open>The bitrate a receiver reads: the scaled mantissa shifted back.\<close>

definition remb_rounded :: "u64 \<Rightarrow> u64" where
  "remb_rounded bitrate =
     (case bitrate_scale kMaxMantissa bitrate (0 :: u8) of (mantissa, exponenta) \<Rightarrow> push_bit (unat exponenta) mantissa)"

definition remb_decoded :: "remb \<Rightarrow> remb" where
  "remb_decoded remb = remb\<lparr>bitrate_bps := remb_rounded (bitrate_bps remb)\<rparr>"

lemmas remb_consts = psfb_consts Remb_kUniqueIdentifier_def Remb_kMaxNumberOfSsrcs_def

lemma Remb_BlockLength_eq: "Remb_BlockLength remb = 20 + 4 * length (remb_ssrcs remb)"
  by (simp add: Remb_BlockLength_def remb_consts)

lemma length_remb_wire: "length (remb_wire remb) = Remb_BlockLength remb"
  by (simp add: remb_wire_def Remb_BlockLength_eq split: prod.split)

interpretation remb: rtcp_unfragmented Remb_BlockLength Remb_Create remb_wire remb_valid
proof (rule rtcp_unfragmentedI [OF _ _ Remb_Create_def], goal_cases)
  case (3 p b)
  then show ?case
    by (simp add: Remb_BlockLength_eq remb_valid_def remb_consts mem_simps create_simps Let_def
        remb_wire_def split: prod.split)
qed (simp_all add: Remb_BlockLength_eq length_remb_wire)


lemma bitrate_scale_spec:
  assumes "unat max_mantissa = 2 ^ B - 1"
  shows "\<exists>k. bitrate_scale max_mantissa b e = (drop_bit k b, e + of_nat k) \<and>
    unat (drop_bit k b) < 2 ^ B \<and> (0 < k \<longrightarrow> 2 ^ B * 2 ^ (k - 1) \<le> unat b)"
  using assms
proof (induction max_mantissa b e rule: bitrate_scale.induct)
  case (1 max_mantissa b e)
  have half: "unat (drop_bit 1 b) = unat b div 2" by (simp add: drop_bit_Suc unat_div)
  have less: "b > max_mantissa \<longleftrightarrow> 2 ^ B \<le> unat b"
    using "1.prems" zero_less_power [of "2 :: nat" B] by (simp only: word_less_nat_alt) arith
  show ?case
  proof (cases "b > max_mantissa")
    case True
    obtain k where k: "bitrate_scale max_mantissa (drop_bit 1 b) (e + 1)
        = (drop_bit k (drop_bit 1 b), e + 1 + of_nat k)"
      "unat (drop_bit k (drop_bit 1 b)) < 2 ^ B"
      "0 < k \<longrightarrow> 2 ^ B * 2 ^ (k - 1) \<le> unat (drop_bit 1 b)"
      using "1.IH" [OF True "1.prems"] by blast
    have "2 ^ B * 2 ^ k \<le> unat b"
    proof (cases k)
      case 0
      with True less show ?thesis by simp
    next
      case (Suc j)
      with k(3) half show ?thesis by simp
    qed
    then show ?thesis
      using k(1,2) True by (subst bitrate_scale.simps) (intro exI [of _ "Suc k"], simp add: ac_simps)
  next
    case False
    with less show ?thesis by (subst bitrate_scale.simps) (intro exI [of _ 0], simp)
  qed
qed

lemma bitrate_scale_0:
  assumes "unat max_mantissa = 2 ^ B - 1" "0 < B" "B \<le> 64"
  obtains k where "bitrate_scale max_mantissa b (0 :: 'e::len word) = (drop_bit k b, of_nat k)" "B + k \<le> 64"
    "unat (drop_bit k b) < 2 ^ B" "0 < k \<longrightarrow> 2 ^ B * 2 ^ (k - 1) \<le> unat b"
proof -
  obtain k where k: "bitrate_scale max_mantissa b (0 :: 'e word) = (drop_bit k b, of_nat k)"
    "unat (drop_bit k b) < 2 ^ B" "0 < k \<longrightarrow> 2 ^ B * 2 ^ (k - 1) \<le> unat b"
    using bitrate_scale_spec [OF assms(1), of b "0 :: 'e word"] by auto
  have "B + k \<le> 64"
  proof (cases "0 < k")
    case True
    have "(2 :: nat) ^ (B + (k - 1)) < 2 ^ 64"
      using k(3) True le_less_trans [OF _ unat_u64_less [of b]] by (simp only: power_add simp_thms)
    then have "B + (k - 1) < 64" by (rule power_less_imp_less_exp [rotated]) simp
    then show ?thesis by simp
  qed (use assms(3) in simp)
  with k that show ?thesis by blast
qed

text \<open>Shifting the mantissa back loses less than one part in \<open>2 ^ (B - 1)\<close>.\<close>

lemma scaled_back:
  fixes b :: u64
  assumes "0 < B" "0 < k \<longrightarrow> 2 ^ B * 2 ^ (k - 1) \<le> unat b"
  defines "r \<equiv> push_bit k (drop_bit k b)"
  shows "unat r \<le> unat b \<and> 2 ^ (B - 1) * (unat b - unat r) \<le> unat b \<and> (unat b < 2 ^ B \<longrightarrow> r = b)"
proof -
  have lt: "unat b div 2 ^ k * 2 ^ k < 2 ^ 64"
    using unat_u64_less [of b] by (rule le_less_trans [OF div_times_less_eq_dividend])
  have u: "unat r = unat b div 2 ^ k * 2 ^ k"
  proof -
    have "unat r = take_bit 64 (push_bit k (drop_bit k (unat b)))"
      unfolding r_def using unat_u64_less [of b]
      by (simp add: unsigned_push_bit_eq unsigned_drop_bit_eq take_bit_nat_eq_self)
    also have "\<dots> = unat b div 2 ^ k * 2 ^ k"
      using lt by (simp add: push_bit_eq_mult drop_bit_eq_div take_bit_nat_eq_self)
    finally show ?thesis .
  qed
  then have diff: "unat b - unat r = unat b mod 2 ^ k"
    by (simp add: minus_div_mult_eq_mod)
  have "2 ^ (B - 1) * (unat b mod 2 ^ k) \<le> unat b"
  proof (cases k)
    case (Suc j)
    have "(2 :: nat) ^ (B - 1) * 2 ^ k = 2 ^ B * 2 ^ j"
      using Suc assms(1) by (cases B) simp_all
    moreover have "2 ^ B * 2 ^ j \<le> unat b" using assms(2) Suc by simp
    ultimately have "2 ^ (B - 1) * 2 ^ k \<le> unat b" by (simp only:)
    moreover have "unat b mod 2 ^ k < 2 ^ k" by simp
    ultimately show ?thesis by (meson le_trans less_imp_le mult_le_mono2)
  qed simp
  moreover have "unat b < 2 ^ B \<longrightarrow> r = b"
  proof
    assume "unat b < 2 ^ B"
    also have "(2 :: nat) ^ B \<le> 2 ^ B * 2 ^ (k - 1)" by simp
    finally have "k = 0" using assms(2) by fastforce
    then show "r = b" by (simp add: r_def)
  qed
  ultimately show ?thesis using u diff by simp
qed

lemma remb_scale_0:
  obtains k where "bitrate_scale kMaxMantissa b (0 :: u8) = (drop_bit k b, of_nat k)" "k \<le> 46"
    "unat (drop_bit k b) < 2 ^ 18" "0 < k \<longrightarrow> 2 ^ 18 * 2 ^ (k - 1) \<le> unat b"
proof (rule bitrate_scale_0 [where 'e = 8])
  show "unat kMaxMantissa = 2 ^ 18 - 1" by (simp add: kMaxMantissa_def)
qed (use that in simp_all)

text \<open>The exponent and the two parts of the mantissa are read back from their bytes.\<close>

lemma remb_fields:
  fixes m :: u64 and e :: u8
  assumes "unat e < 2 ^ 6" "unat m < 2 ^ 18"
  defines "b13 \<equiv> (ucast (push_bit 2 (ucast e) OR drop_bit 16 m) :: u8)"
  shows "drop_bit 2 b13 = e"
    and "(ucast (push_bit 16 (ucast (b13 AND 0x03)) OR (ucast (ucast (m AND 0xffff) :: u16) :: u32)) :: u64) = m"
proof -
  have m: "bit m n \<Longrightarrow> n < 18" and e: "bit e n \<Longrightarrow> n < 6" for n
    using bit_less_of_unat_less [OF assms(1)] bit_less_of_unat_less [OF assms(2)] by auto
  show "drop_bit 2 b13 = e"
  proof (rule bit_word_eqI)
    fix n assume "n < LENGTH(8)"
    then show "bit (drop_bit 2 b13) n = bit e n"
    using m [of "18 + n"] e [of n] by (auto simp: b13_def bit_simps)
  qed
  have c: "(0x03 :: u8) = mask 2" "(0xffff :: u64) = mask 16" by (simp_all add: mask_eq_exp_minus_1)
  show "(ucast (push_bit 16 (ucast (b13 AND 0x03)) OR (ucast (ucast (m AND 0xffff) :: u16) :: u32)) :: u64) = m"
    unfolding b13_def c
  proof (rule bit_word_eqI, goal_cases)
    case (1 n)
    then show ?case using m [of n] by (cases "n < 16") (auto simp: bit_simps)
  qed
qed

lemma drop_push_drop: "drop_bit k (push_bit k (drop_bit k (b :: 'a::len word))) = drop_bit k b"
  by (rule bit_word_eqI) (auto simp: bit_simps dest: bit_imp_le_length)

lemma unat_remb_rounded:
  "unat (remb_rounded b) \<le> unat b \<and> 2 ^ 17 * (unat b - unat (remb_rounded b)) \<le> unat b \<and>
   (unat b < 2 ^ 18 \<longrightarrow> remb_rounded b = b)"
proof -
  obtain k where k: "bitrate_scale kMaxMantissa b (0 :: u8) = (drop_bit k b, of_nat k)" "k \<le> 46"
    "0 < k \<longrightarrow> 2 ^ 18 * 2 ^ (k - 1) \<le> unat b"
    by (rule remb_scale_0)
  have "remb_rounded b = push_bit k (drop_bit k b)"
    using k(1,2) by (simp add: remb_rounded_def unat_of_nat)
  with scaled_back [OF _ k(3)] show ?thesis by simp
qed

interpretation remb: rtcp_codec Remb_BlockLength Remb_Create remb_wire remb_valid Remb_Parse
  Afb_matches "\<lambda>_. remb_decoded"
proof (unfold_locales, goal_cases)
  case (1 p rest sz h0 p0)
  let ?n = "length (remb_ssrcs p)" and ?body = "drop 4 (remb_wire p)"
  obtain k where k: "bitrate_scale kMaxMantissa (bitrate_bps p) (0 :: u8) = (drop_bit k (bitrate_bps p), of_nat k)" "k \<le> 46"
    "unat (drop_bit k (bitrate_bps p)) < 2 ^ 18"
    by (rule remb_scale_0)
  have uk: "unat (of_nat k :: u8) = k" using k(2) by (simp add: unat_of_nat)
  have n: "?n \<le> 0xff" "ps_media_ssrc p = 0" "unat (of_nat ?n :: u8) = ?n"
    using 1 by (simp_all add: remb_valid_def unat_of_nat)
  let ?b13 = "ucast (push_bit 2 (ucast (of_nat k :: u8)) OR drop_bit 16 (drop_bit k (bitrate_bps p))) :: u8"
  have body: "?body = psfb_wire p @ be_bytes 4 (0x52454D42 :: u32) @ [of_nat ?n, ?b13]
      @ be_bytes 2 (ucast (drop_bit k (bitrate_bps p) AND 0xffff) :: u16) @ ssrcs_wire (remb_ssrcs p)"
    by (simp add: remb_wire_def k(1))
  have fields: "drop_bit 2 ?b13 = of_nat k"
    "(ucast (push_bit 16 (ucast (?b13 AND 0x03)) OR
       (ucast (ucast (drop_bit k (bitrate_bps p) AND 0xffff) :: u16) :: u32)) :: u64)
     = drop_bit k (bitrate_bps p)"
    using remb_fields [of "of_nat k" "drop_bit k (bitrate_bps p)"] k(2,3) uk by simp_all
  have rd: "ReadBE32 (?body @ rest) 8 = Some 0x52454D42"
    "get_byte (?body @ rest) 12 = Some (of_nat ?n)" "get_byte (?body @ rest) 13 = Some ?b13"
    "ReadBE16 (?body @ rest) 14 = Some (ucast (drop_bit k (bitrate_bps p) AND 0xffff))"
    by (simp_all only: body) (simp_all add: get_byte_def nth_append)
  have ss: "parse_ssrcs ?n (?body @ rest) 16 = Some (remb_ssrcs p)"
    using parse_ssrcs_wire [of 16 "take 16 ?body" "remb_ssrcs p" rest] by (simp add: body)
  show ?case
  proof (rule parse_wireI [OF 1(2), of 15 206 "4 + ?n" ?body])
    fix h :: common_header
    assume "ch_packet_type h = 206" "unat (ch_count_or_format h) = 15"
      "unat (ch_payload_size h) = 4 * (4 + ?n)" "ch_payload h = ?body @ rest"
    moreover have "Psfb_ParseCommonFeedback p0 (?body @ rest)
        = Some (p0\<lparr>sender_ssrc := sender_ssrc p, ps_media_ssrc := ps_media_ssrc p\<rparr>)"
      by (simp add: body)
    ultimately show "Afb_matches h \<and> Remb_Parse p0 h = Some (remb_decoded p, True)"
      using n rd ss fields uk drop_push_drop [of k "bitrate_bps p"]
      by (simp add: Afb_matches_def Remb_Parse_def remb_consts Let_def remb_decoded_def
          remb_rounded_def k(1))
  qed (use n in \<open>simp_all add: remb_wire_def split: prod.split\<close>)
next
  case (2 h buffer sz p)
  let ?m = "ch_payload h"
  show ?case
  proof (cases "unat (ch_payload_size h) < 16")
    case True
    with 2 show ?thesis by (auto simp: Afb_matches_def Remb_Parse_def remb_consts)
  next
    case False
    then have len: "16 \<le> length ?m" using header_ok_payload_size [OF 2(1,2)] by simp
    obtain n where n: "get_byte ?m 12 = Some n" using get_byte_ex [of 12 ?m] len by auto
    have "unat (ch_payload_size h) = 8 + (2 + unat n) * 4 \<Longrightarrow> \<exists>ss. parse_ssrcs (unat n) ?m 16 = Some ss"
      using header_ok_payload_size [OF 2(1,2)] by (intro parse_ssrcs_total) simp
    moreover obtain ident b13 v14 x y where "ReadBE32 ?m 8 = Some ident" "get_byte ?m 13 = Some b13"
      "ReadBE16 ?m 14 = Some v14"
      "Psfb_ParseCommonFeedback p ?m = Some (p\<lparr>sender_ssrc := x, ps_media_ssrc := y\<rparr>)"
      using len ReadBE32_in [of 8 ?m] get_byte_ex [of 13 ?m] ReadBE16_in [of 14 ?m]
        Psfb_ParseCommonFeedback_total [of ?m p] by auto
    ultimately show ?thesis
      using 2(3) n False by (auto simp: Afb_matches_def Remb_Parse_def remb_consts Let_def ex_bool_eq)
  qed
qed


subsection \<open>Properties\<close>

text \<open>C28: the receiver of a REMB message gets the SSRCs and the sender unchanged and a bitrate that
  is never above the sent one and below it by less than one part in \<open>2 ^ 17\<close>; bitrates under
  \<open>2 ^ 18\<close> bit/s are exact. This holds for all 64-bit bitrates and up to 255 SSRCs.\<close>

theorem remb_roundtrip:
  assumes "remb_valid remb" "Remb_BlockLength remb \<le> length garbage"
  shows "\<exists>packet h r. Build (Remb_BlockLength remb) (Remb_Create remb) garbage = Some packet \<and>
    CommonHeader_Parse h0 packet (length packet) = Some (h, True) \<and>
    Remb_Parse remb0 h = Some (r, True) \<and>
    sender_ssrc r = sender_ssrc remb \<and> remb_ssrcs r = remb_ssrcs remb \<and>
    unat (bitrate_bps r) \<le> unat (bitrate_bps remb) \<and>
    2 ^ 17 * (unat (bitrate_bps remb) - unat (bitrate_bps r)) \<le> unat (bitrate_bps remb) \<and>
    (unat (bitrate_bps remb) < 2 ^ 18 \<longrightarrow> bitrate_bps r = bitrate_bps remb)"
proof -
  obtain packet h where "Build (Remb_BlockLength remb) (Remb_Create remb) garbage = Some packet"
    "CommonHeader_Parse h0 packet (length packet) = Some (h, True)"
    "Remb_Parse remb0 h = Some (remb_decoded remb, True)"
    using remb.build_parse [OF assms, of h0 remb0] by blast
  with unat_remb_rounded [of "bitrate_bps remb"] show ?thesis
    by (intro exI [of _ packet] exI [of _ h] exI [of _ "remb_decoded remb"])
       (simp add: remb_decoded_def)
qed

definition example_remb :: remb where
  "example_remb = Remb_init\<lparr>sender_ssrc := 1, bitrate_bps := 5000001, remb_ssrcs := [2, 3]\<rparr>"

theorem remb_roundtrip_witness:
  "\<exists>packet h r. Build (Remb_BlockLength example_remb) (Remb_Create example_remb) (replicate 28 0) = Some packet \<and>
    CommonHeader_Parse CommonHeader_init packet (length packet) = Some (h, True) \<and>
    Remb_Parse Remb_init h = Some (r, True) \<and>
    sender_ssrc r = sender_ssrc example_remb \<and> remb_ssrcs r = remb_ssrcs example_remb \<and>
    unat (bitrate_bps r) \<le> unat (bitrate_bps example_remb) \<and>
    2 ^ 17 * (unat (bitrate_bps example_remb) - unat (bitrate_bps r)) \<le> unat (bitrate_bps example_remb) \<and>
    (unat (bitrate_bps example_remb) < 2 ^ 18 \<longrightarrow> bitrate_bps r = bitrate_bps example_remb)"
  by (rule remb_roundtrip)
     (simp_all add: example_remb_def remb_valid_def Remb_BlockLength_eq Remb_init_def)

end
