(* ===== verification/Rtcp_Misc.thy ===== *)
theory Rtcp_Misc
  imports Rtcp_Psfb
begin

text \<open>
  The remaining session packets under \<open>src/src/myrtc/rtp_rtcp/\<close>: \<open>bye.{h,cc}\<close>, \<open>app.{h,cc}\<close>
  and \<open>sdes.{h,cc}\<close>. A \<open>std::string\<close> is its list of bytes.
\<close>

subsection \<open>\<open>Bye\<close>\<close>

record bye = rtcp_packet +
  csrcs :: "u32 list"
  reason :: bytes

definition Bye_kPacketType :: u8 where "Bye_kPacketType = 203"
definition kMaxNumberOfCsrcs :: nat where "kMaxNumberOfCsrcs = 0x1f - 1"

definition Bye_init :: bye where
  "Bye_init = \<lparr>sender_ssrc = 0, csrcs = [], reason = []\<rparr>"

definition Bye_Parse :: "bye \<Rightarrow> common_header \<Rightarrow> (bye \<times> bool) option" where
  "Bye_Parse bye packet =
     do { dcheck (ch_packet_type packet = Bye_kPacketType);
          let src_count = unat (ch_count_or_format packet);
          let payload_size = unat (ch_payload_size packet);
          if payload_size < 4 * src_count then Some (bye, False)
          else do {
            let payload = ch_payload packet;
            let has_reason = payload_size > 4 * src_count;
            reason_length \<leftarrow> (if has_reason then get_byte payload (4 * src_count) else Some 0);
            if has_reason \<and> payload_size - 4 * src_count < 1 + unat reason_length
            then Some (bye, False)
            else do {
              bye \<leftarrow> (if src_count = 0 then Some (bye\<lparr>sender_ssrc := 0, csrcs := []\<rparr>)
                     else do {
                       v0 \<leftarrow> ReadBE32 payload 0;
                       cs \<leftarrow> parse_ssrcs (src_count - 1) payload 4;
                       Some (bye\<lparr>sender_ssrc := v0, csrcs := cs\<rparr>) });
              r \<leftarrow> (if has_reason then get_bytes payload (4 * src_count + 1) (unat reason_length)
                   else Some []);
              Some (bye\<lparr>reason := r\<rparr>, True) } } }"

definition Bye_BlockLength :: "bye \<Rightarrow> nat" where
  "Bye_BlockLength bye =
     (let src_count = 1 + length (csrcs bye);
          reason_size_in_32bits = (if reason bye = [] then 0 else length (reason bye) div 4 + 1)
      in kHeaderLength + 4 * (src_count + reason_size_in_32bits))"

definition create_bye_reason :: "bytes \<Rightarrow> nat \<Rightarrow> bytes \<Rightarrow> nat \<Rightarrow> (bytes \<times> nat) option" where
  "create_bye_reason r index_end packet index =
     (if r = [] then Some (packet, index)
      else do {
        let reason_length = (of_nat (length r) :: u8);
        packet \<leftarrow> put_byte packet index reason_length;
        let index = index + 1;
        packet \<leftarrow> memcpy packet index (take (unat reason_length) r);
        let index = index + unat reason_length;
        let bytes_to_pad = size_t_sub index_end index;
        dcheck (bytes_to_pad \<le> 3);
        if bytes_to_pad > 0 then do {
          packet \<leftarrow> memcpy packet index (replicate bytes_to_pad 0);
          Some (packet, index + bytes_to_pad) }
        else Some (packet, index) })"

definition Bye_Create :: "bye \<Rightarrow> creator" where
  "Bye_Create bye cb max_length b =
     do { (b, ok) \<leftarrow> reserve (Bye_BlockLength bye) cb max_length b;
          if \<not> ok then Some (b, False)
          else do {
            let index_end = out_index b + Bye_BlockLength bye;
            hl \<leftarrow> HeaderLength (Bye_BlockLength bye);
            (packet, index) \<leftarrow> CreateHeader (1 + length (csrcs bye)) Bye_kPacketType hl
               (out_packet b) (out_index b);
            packet \<leftarrow> WriteBE32 packet index (sender_ssrc bye);
            (packet, index) \<leftarrow> create_ssrcs (csrcs bye) packet (index + 4);
            (packet, index) \<leftarrow> create_bye_reason (reason bye) index_end packet index;
            dcheck (index_end = index);
            Some (b\<lparr>out_packet := packet, out_index := index\<rparr>, True) } }"

definition SetCsrcs :: "bye \<Rightarrow> u32 list \<Rightarrow> bye \<times> bool" where
  "SetCsrcs bye cs =
     (if length cs > kMaxNumberOfCsrcs then (bye, False) else (bye\<lparr>csrcs := cs\<rparr>, True))"

definition SetReason :: "bye \<Rightarrow> bytes \<Rightarrow> bye option" where
  "SetReason bye r = do { dcheck (length r \<le> 0xff); Some (bye\<lparr>reason := r\<rparr>) }"

definition bye_reason_wire :: "bytes \<Rightarrow> bytes" where
  "bye_reason_wire r =
     (if r = [] then [] else of_nat (length r) # r @ replicate (3 - length r mod 4) 0)"

definition bye_wire :: "bye \<Rightarrow> bytes" where
  "bye_wire bye = header_wire (1 + length (csrcs bye)) 203
       (1 + length (csrcs bye) + length (bye_reason_wire (reason bye)) div 4) False
     @ be_bytes 4 (sender_ssrc bye) @ ssrcs_wire (csrcs bye) @ bye_reason_wire (reason bye)"

definition bye_valid :: "bye \<Rightarrow> bool" where
  "bye_valid bye \<longleftrightarrow> length (csrcs bye) \<le> 30 \<and> length (reason bye) \<le> 0xff"

definition Bye_matches :: "common_header \<Rightarrow> bool" where
  "Bye_matches h \<longleftrightarrow> ch_packet_type h = 203"

lemma length_bye_reason_wire:
  "length (bye_reason_wire r) = (if r = [] then 0 else 4 * (length r div 4 + 1))"
  by (simp add: bye_reason_wire_def) presburger

lemma Bye_BlockLength_eq:
  "Bye_BlockLength bye = 8 + 4 * length (csrcs bye) + length (bye_reason_wire (reason bye))"
  by (simp add: Bye_BlockLength_def length_bye_reason_wire kHeaderLength_def)

lemma bye_reason_div4 [simp]: "4 dvd length (bye_reason_wire r)"
  by (simp add: length_bye_reason_wire)

lemma bye_reason_wire_bound:
  assumes "length r \<le> 0xff"
  shows "length (bye_reason_wire r) \<le> 256"
proof -
  have "length r div 4 \<le> 63" using assms by linarith
  then show ?thesis by (simp add: length_bye_reason_wire)
qed

lemma create_bye_reason_overlay [mem_simps]:
  assumes "length r \<le> 0xff" "index + length (bye_reason_wire r) \<le> length m"
    and "index_end = index + length (bye_reason_wire r)"
  shows "create_bye_reason r index_end m index
     = Some (overlay m index (bye_reason_wire r), index + length (bye_reason_wire r))"
proof (cases "r = []")
  case True
  then show ?thesis by (simp add: create_bye_reason_def bye_reason_wire_def)
next
  case False
  have u: "unat (of_nat (length r) :: u8) = length r" using assms(1) by (simp add: unat_of_nat)
  have len: "length (bye_reason_wire r) = 1 + length r + (3 - length r mod 4)"
    using False by (simp add: bye_reason_wire_def)
  have pad: "size_t_sub index_end (index + 1 + length r) = 3 - length r mod 4"
    using assms(3) len by simp
  show ?thesis
    using False assms u pad len
    by (cases "length r mod 4 < 3")
       (simp_all add: create_bye_reason_def bye_reason_wire_def mem_simps overlay_append_left Let_def)
qed

interpretation bye: rtcp_unfragmented Bye_BlockLength Bye_Create bye_wire bye_valid
proof (rule rtcp_unfragmentedI [OF _ _ Bye_Create_def], goal_cases)
  case (3 p b)
  have "length (bye_reason_wire (reason p)) \<le> 256"
    using 3(1) by (simp add: bye_valid_def bye_reason_wire_bound)
  then have "length (bye_reason_wire (reason p)) div 4 \<le> 64" by linarith
  with 3 show ?case
    by (simp add: Bye_BlockLength_eq bye_valid_def mem_simps create_simps Let_def bye_wire_def
        Bye_kPacketType_def mod_add_eq dvd_imp_mod_0 div_add1_eq)
qed (simp_all add: Bye_BlockLength_eq bye_wire_def)

interpretation bye: rtcp_codec Bye_BlockLength Bye_Create bye_wire bye_valid Bye_Parse
  Bye_matches "\<lambda>_ p. p"
proof (unfold_locales, goal_cases)
  case (1 p rest sz h0 p0)
  let ?n = "length (csrcs p)" and ?r = "bye_reason_wire (reason p)"
  let ?body = "drop 4 (bye_wire p)"
  have v: "?n \<le> 30" "length (reason p) \<le> 0xff" using 1(1) by (simp_all add: bye_valid_def)
  have rl: "length ?r \<le> 256" "length ?r = 4 * (length ?r div 4)"
    using v(2) bye_reason_wire_bound by (auto simp: length_bye_reason_wire)
  have body: "?body = be_bytes 4 (sender_ssrc p) @ ssrcs_wire (csrcs p) @ ?r"
    by (simp add: bye_wire_def)
  have cs: "parse_ssrcs ?n (?body @ rest) 4 = Some (csrcs p)"
    using parse_ssrcs_wire [of 4 "be_bytes 4 (sender_ssrc p)" "csrcs p" "?r @ rest"]
    by (simp add: body)
  have u: "unat (of_nat (length (reason p)) :: u8) = length (reason p)"
    using v by (simp add: unat_of_nat)
  have rs: "get_byte (?body @ rest) (4 + 4 * ?n) = Some (of_nat (length (reason p)))"
    "get_bytes (?body @ rest) (4 + 4 * ?n + 1) (length (reason p)) = Some (reason p)"
    "length (reason p) < length ?r"
    if "reason p \<noteq> []"
    using that by (simp_all add: body bye_reason_wire_def get_byte_def nth_append get_bytes_def)
  show ?case
  proof (rule parse_wireI [OF 1(2), of "1 + ?n" 203 "1 + ?n + length ?r div 4" ?body])
    fix h :: common_header
    assume h: "ch_packet_type h = 203" "unat (ch_count_or_format h) = 1 + ?n"
      "unat (ch_payload_size h) = 4 * (1 + ?n + length ?r div 4)" "ch_payload h = ?body @ rest"
    have "ReadBE32 (?body @ rest) 0 = Some (sender_ssrc p)" by (simp add: body)
    then show "Bye_matches h \<and> Bye_Parse p0 h = Some (p, True)"
      using h cs rs u rl(2) v
      by (cases "reason p = []")
         (auto simp: Bye_matches_def Bye_Parse_def Bye_kPacketType_def Let_def bye_reason_wire_def
            simp flip: rl(2))
  qed (use v rl in \<open>simp_all add: bye_wire_def\<close>)
next
  case (2 h buffer sz p)
  let ?m = "ch_payload h" and ?c = "unat (ch_count_or_format h)" and ?s = "unat (ch_payload_size h)"
  have len: "?s \<le> length ?m" using header_ok_payload_size [OF 2(1,2)] .
  show ?case
  proof (cases "?s < 4 * ?c")
    case True
    with 2 show ?thesis by (auto simp: Bye_matches_def Bye_Parse_def Bye_kPacketType_def)
  next
    case False
    obtain r where r: "?s > 4 * ?c \<Longrightarrow> get_byte ?m (4 * ?c) = Some r"
      using len get_byte_ex [of "4 * ?c" ?m] by fastforce
    have "0 < ?c \<Longrightarrow> \<exists>v cs. ReadBE32 ?m 0 = Some v \<and> parse_ssrcs (?c - 1) ?m 4 = Some cs"
      using False len ReadBE32_in [of 0 ?m] parse_ssrcs_total [of 4 "?c - 1" ?m] by auto
    with False 2(3) r len show ?thesis
      by (auto simp: Bye_matches_def Bye_Parse_def Bye_kPacketType_def Let_def get_bytes_def
          ex_bool_eq)
  qed
qed


subsection \<open>\<open>App\<close>\<close>

record app = rtcp_packet +
  sub_type :: u8
  app_name :: u32
  app_data :: bytes

definition App_kPacketType :: u8 where "App_kPacketType = 204"
definition kAppBaseLength :: nat where "kAppBaseLength = 8"
definition kMaxDataSize :: nat where "kMaxDataSize = 0xffff * 4 - kAppBaseLength"

definition App_init :: app where
  "App_init = \<lparr>sender_ssrc = 0, sub_type = 0, app_name = 0, app_data = []\<rparr>"

definition App_Parse :: "app \<Rightarrow> common_header \<Rightarrow> (app \<times> bool) option" where
  "App_Parse app packet =
     do { dcheck (ch_packet_type packet = App_kPacketType);
          let payload_size = unat (ch_payload_size packet);
          if payload_size < kAppBaseLength then Some (app, False)
          else if payload_size mod 4 \<noteq> 0 then Some (app, False)
          else do {
            v0 \<leftarrow> ReadBE32 (ch_payload packet) 0;
            v4 \<leftarrow> ReadBE32 (ch_payload packet) 4;
            d \<leftarrow> get_bytes (ch_payload packet) kAppBaseLength (payload_size - kAppBaseLength);
            Some (app\<lparr>sub_type := ch_count_or_format packet, sender_ssrc := v0, app_name := v4,
                      app_data := d\<rparr>, True) } }"

definition SetSubType :: "app \<Rightarrow> u8 \<Rightarrow> app option" where
  "SetSubType app subtype = do { dcheck (subtype \<le> 0x1f); Some (app\<lparr>sub_type := subtype\<rparr>) }"

definition SetData :: "app \<Rightarrow> bytes \<Rightarrow> app option" where
  "SetData app d =
     do { dcheck (length d mod 4 = 0);
          dcheck (length d \<le> kMaxDataSize);
          Some (app\<lparr>app_data := d\<rparr>) }"

definition App_BlockLength :: "app \<Rightarrow> nat" where
  "App_BlockLength app = kHeaderLength + kAppBaseLength + length (app_data app)"

definition App_Create :: "app \<Rightarrow> creator" where
  "App_Create app cb max_length b =
     do { (b, ok) \<leftarrow> reserve (App_BlockLength app) cb max_length b;
          if \<not> ok then Some (b, False)
          else do {
            let index_end = out_index b + App_BlockLength app;
            hl \<leftarrow> HeaderLength (App_BlockLength app);
            (packet, index) \<leftarrow> CreateHeader (unat (sub_type app)) App_kPacketType hl
               (out_packet b) (out_index b);
            packet \<leftarrow> WriteBE32 packet (index + 0) (sender_ssrc app);
            packet \<leftarrow> WriteBE32 packet (index + 4) (app_name app);
            packet \<leftarrow> memcpy packet (index + 8) (app_data app);
            let index = index + (8 + length (app_data app));
            dcheck (index_end = index);
            Some (b\<lparr>out_packet := packet, out_index := index\<rparr>, True) } }"

definition app_wire :: "app \<Rightarrow> bytes" where
  "app_wire app = header_wire (unat (sub_type app)) 204 (2 + length (app_data app) div 4) False
     @ be_bytes 4 (sender_ssrc app) @ be_bytes 4 (app_name app) @ app_data app"

definition app_valid :: "app \<Rightarrow> bool" where
  "app_valid app \<longleftrightarrow> unat (sub_type app) \<le> 31 \<and> length (app_data app) mod 4 = 0 \<and>
     length (app_data app) \<le> 0xffff * 4 - 8"

definition App_matches :: "common_header \<Rightarrow> bool" where
  "App_matches h \<longleftrightarrow> ch_packet_type h = 204"

lemmas app_consts = App_kPacketType_def kAppBaseLength_def kHeaderLength_def App_BlockLength_def

lemma app_data_words:
  assumes "app_valid app"
  obtains k where "length (app_data app) = 4 * k" "2 + k \<le> 0xffff"
  using assms by (auto simp: app_valid_def mod_eq_0_iff_dvd elim!: dvdE)

interpretation app: rtcp_unfragmented App_BlockLength App_Create app_wire app_valid
proof (rule rtcp_unfragmentedI [OF _ _ App_Create_def], goal_cases)
  case (3 p b)
  obtain k where "length (app_data p) = 4 * k" "2 + k \<le> 0xffff"
    using app_data_words [OF 3(1)] .
  with 3 show ?case
    by (simp add: app_consts app_valid_def mem_simps create_simps Let_def app_wire_def)
qed (simp_all add: app_consts app_wire_def)

interpretation app: rtcp_codec App_BlockLength App_Create app_wire app_valid App_Parse
  App_matches "\<lambda>_ p. p"
proof (unfold_locales, goal_cases)
  case (1 p rest sz h0 p0)
  obtain k where k: "length (app_data p) = 4 * k" "2 + k \<le> 0xffff"
    using app_data_words [OF 1(1)] .
  show ?case
    using 1(1) k
    by (intro parse_wireI [OF 1(2), of "unat (sub_type p)" 204 "2 + k" "drop 4 (app_wire p)"])
       (simp_all add: app_wire_def app_valid_def App_matches_def App_Parse_def app_consts Let_def
          get_bytes_def)
next
  case (2 h buffer sz p)
  then show ?case
    using header_ok_payload_size [OF 2(1,2)] ReadBE32_in [of 0 "ch_payload h"]
      ReadBE32_in [of 4 "ch_payload h"]
    by (cases "unat (ch_payload_size h) < 8")
       (auto simp: App_matches_def App_Parse_def app_consts Let_def get_bytes_def ex_bool_eq)
qed

subsection \<open>\<open>Sdes\<close>\<close>

record sdes_chunk =
  chunk_ssrc :: u32
  cname :: bytes

record sdes = rtcp_packet +
  sdes_chunks :: "sdes_chunk list"
  block_length :: nat

definition Sdes_kPacketType :: u8 where "Sdes_kPacketType = 202"
definition kMaxNumberOfChunks :: nat where "kMaxNumberOfChunks = 0x1f"
definition kTerminatorTag :: u8 where "kTerminatorTag = 0"
definition kCnameTag :: u8 where "kCnameTag = 1"

definition sdes_chunk_init :: sdes_chunk where
  "sdes_chunk_init = \<lparr>chunk_ssrc = 0, cname = []\<rparr>"

definition ChunkSize :: "sdes_chunk \<Rightarrow> nat" where
  "ChunkSize chunk =
     (let chunk_payload_size = 4 + 1 + 1 + length (cname chunk);
          padding_size = 4 - chunk_payload_size mod 4
      in chunk_payload_size + padding_size)"

definition Sdes_init :: sdes where
  "Sdes_init = \<lparr>sender_ssrc = 0, sdes_chunks = [], block_length = kHeaderLength\<rparr>"

text \<open>The item loop of \<open>Parse\<close>: \<open>e\<close> is \<open>payload_end\<close>, \<open>p\<close> is \<open>looking_at\<close> and \<open>found\<close> the CNAME
  when \<open>cname_found\<close>. \<open>Some None\<close> is \<open>return false\<close>.\<close>

function sdes_items :: "bytes \<Rightarrow> nat \<Rightarrow> nat \<Rightarrow> bytes option \<Rightarrow> (bytes option \<times> nat) option option" where
  "sdes_items m e p found =
     (case get_byte m p of
        None \<Rightarrow> None
      | Some item_type \<Rightarrow>
          if item_type = kTerminatorTag then Some (Some (found, p + 1))
          else if p + 1 \<ge> e then Some None
          else (case get_byte m (p + 1) of
                  None \<Rightarrow> None
                | Some item_length \<Rightarrow>
                    if p + 2 + unat item_length + 1 > e then Some None
                    else if item_type = kCnameTag \<and> found \<noteq> None then Some None
                    else (case (if item_type = kCnameTag
                                then map_option Some (get_bytes m (p + 2) (unat item_length))
                                else Some found) of
                            None \<Rightarrow> None
                          | Some found' \<Rightarrow> sdes_items m e (p + 2 + unat item_length) found')))"
  by pat_completeness auto
termination by (relation "measure (\<lambda>(m, e, p, found). e - p)") auto

declare sdes_items.simps [simp del]

lemma sdes_items_advance:
  "sdes_items m e p found = Some (Some (found', p')) \<Longrightarrow> p < p'"
proof (induction "e - p" arbitrary: p found rule: less_induct)
  case less
  have ih: "p < p'" if "p + 2 + l + 1 \<le> e" "sdes_items m e (p + 2 + l) f = Some (Some (found', p'))" for l f
  proof -
    have "e - (p + 2 + l) < e - p" using that(1) by linarith
    from less.hyps [OF this that(2)] show ?thesis by simp
  qed
  from less.prems show ?case
    by (subst (asm) sdes_items.simps) (auto simp: linorder_not_less split: option.splits if_splits dest: ih [simplified])
qed

text \<open>The chunk loop: \<open>i\<close> of \<open>number_of_chunks\<close> chunks are done; a chunk without CNAME is
  skipped and \<open>number_of_chunks\<close> decreased.\<close>

function parse_sdes_chunks ::
  "bytes \<Rightarrow> nat \<Rightarrow> nat \<Rightarrow> nat \<Rightarrow> sdes_chunk list \<Rightarrow> nat \<Rightarrow> nat \<Rightarrow> (sdes_chunk list \<times> nat) option option" where
  "parse_sdes_chunks m e i n chunks bl p =
     (if i < n then
        if e < p + 8 then Some None
        else (case ReadBE32 m p of
          None \<Rightarrow> None
        | Some ssrc \<Rightarrow>
            let chunk = (chunks ! i)\<lparr>chunk_ssrc := ssrc\<rparr>
            in (case sdes_items m e (p + 4) None of
              None \<Rightarrow> None
            | Some None \<Rightarrow> Some None
            | Some (Some (Some c, p')) \<Rightarrow>
                let chunk = chunk\<lparr>cname := c\<rparr>
                in parse_sdes_chunks m e (i + 1) n (chunks[i := chunk]) (bl + ChunkSize chunk)
                     (p' + (e - p') mod 4)
            | Some (Some (None, p')) \<Rightarrow>
                parse_sdes_chunks m e i (n - 1)
                  (vector_resize (n - 1) sdes_chunk_init (chunks[i := chunk])) bl
                  (p' + (e - p') mod 4)))
      else Some (Some (chunks, bl)))"
  by pat_completeness auto
termination
  by (relation "measure (\<lambda>(m, e, i, n, chunks, bl, p). e - p)")
     (auto dest!: sdes_items_advance)

declare parse_sdes_chunks.simps [simp del]

definition Sdes_Parse :: "sdes \<Rightarrow> common_header \<Rightarrow> (sdes \<times> bool) option" where
  "Sdes_Parse sdes packet =
     do { dcheck (ch_packet_type packet = Sdes_kPacketType);
          let number_of_chunks = unat (ch_count_or_format packet);
          r \<leftarrow> parse_sdes_chunks (ch_payload packet) (unat (ch_payload_size packet)) 0
                number_of_chunks (replicate number_of_chunks sdes_chunk_init) kHeaderLength 0;
          (case r of
             None \<Rightarrow> Some (sdes, False)
           | Some (chunks, bl) \<Rightarrow> Some (sdes\<lparr>sdes_chunks := chunks, block_length := bl\<rparr>, True)) }"

definition AddCName :: "sdes \<Rightarrow> u32 \<Rightarrow> bytes \<Rightarrow> (sdes \<times> bool) option" where
  "AddCName sdes ssrc name =
     do { dcheck (length name \<le> 0xff);
          if length (sdes_chunks sdes) \<ge> kMaxNumberOfChunks then Some (sdes, False)
          else let chunk = \<lparr>chunk_ssrc = ssrc, cname = name\<rparr>
               in Some (sdes\<lparr>sdes_chunks := sdes_chunks sdes @ [chunk],
                            block_length := block_length sdes + ChunkSize chunk\<rparr>, True) }"

definition Sdes_BlockLength :: "sdes \<Rightarrow> nat" where
  "Sdes_BlockLength sdes = block_length sdes"

fun create_sdes_chunks :: "sdes_chunk list \<Rightarrow> bytes \<Rightarrow> nat \<Rightarrow> (bytes \<times> nat) option" where
  "create_sdes_chunks [] m index = Some (m, index)"
| "create_sdes_chunks (chunk # chunks) m index =
     do { m \<leftarrow> WriteBE32 m (index + 0) (chunk_ssrc chunk);
          m \<leftarrow> Write8 m (index + 4) kCnameTag;
          m \<leftarrow> Write8 m (index + 5) (of_nat (length (cname chunk)));
          m \<leftarrow> memcpy m (index + 6) (cname chunk);
          let index = index + (6 + length (cname chunk));
          let padding_size = 4 - (6 + length (cname chunk)) mod 4;
          m \<leftarrow> memcpy m index (replicate padding_size 0);
          create_sdes_chunks chunks m (index + padding_size) }"

definition Sdes_Create :: "sdes \<Rightarrow> creator" where
  "Sdes_Create sdes cb max_length b =
     do { (b, ok) \<leftarrow> reserve (Sdes_BlockLength sdes) cb max_length b;
          if \<not> ok then Some (b, False)
          else do {
            let index_end = out_index b + Sdes_BlockLength sdes;
            hl \<leftarrow> HeaderLength (Sdes_BlockLength sdes);
            (packet, index) \<leftarrow> CreateHeader (length (sdes_chunks sdes)) Sdes_kPacketType hl
               (out_packet b) (out_index b);
            (packet, index) \<leftarrow> create_sdes_chunks (sdes_chunks sdes) packet index;
            dcheck (index = index_end);
            Some (b\<lparr>out_packet := packet, out_index := index\<rparr>, True) } }"


definition sdes_chunk_wire :: "sdes_chunk \<Rightarrow> bytes" where
  "sdes_chunk_wire c = be_bytes 4 (chunk_ssrc c) @ [1, of_nat (length (cname c))] @ cname c
     @ replicate (4 - (6 + length (cname c)) mod 4) 0"

abbreviation sdes_chunks_wire :: "sdes_chunk list \<Rightarrow> bytes" where
  "sdes_chunks_wire cs \<equiv> concat (map sdes_chunk_wire cs)"

definition sdes_chunks_size :: "sdes_chunk list \<Rightarrow> nat" where
  "sdes_chunks_size cs = sum_list (map ChunkSize cs)"

definition sdes_wire :: "sdes \<Rightarrow> bytes" where
  "sdes_wire sdes = header_wire (length (sdes_chunks sdes)) 202
     (sdes_chunks_size (sdes_chunks sdes) div 4) False @ sdes_chunks_wire (sdes_chunks sdes)"

text \<open>What \<open>AddCName\<close> and \<open>Parse\<close> keep: the cached \<open>block_length_\<close> is the size of the chunks.\<close>

definition sdes_valid :: "sdes \<Rightarrow> bool" where
  "sdes_valid sdes \<longleftrightarrow> length (sdes_chunks sdes) \<le> 31 \<and>
     list_all (\<lambda>c. length (cname c) \<le> 0xff) (sdes_chunks sdes) \<and>
     block_length sdes = 4 + sdes_chunks_size (sdes_chunks sdes)"

definition Sdes_matches :: "common_header \<Rightarrow> bool" where
  "Sdes_matches h \<longleftrightarrow> ch_packet_type h = 202"

text \<open>\<open>sender_ssrc_\<close> of the base class is not on the wire.\<close>

definition sdes_decoded :: "u32 \<Rightarrow> sdes \<Rightarrow> sdes" where
  "sdes_decoded s sdes = sdes\<lparr>sender_ssrc := s\<rparr>"

lemmas sdes_consts = Sdes_kPacketType_def kTerminatorTag_def kCnameTag_def kHeaderLength_def
  Sdes_BlockLength_def

lemma ChunkSize_eq:
  "ChunkSize c = 6 + length (cname c) + (4 - (6 + length (cname c)) mod 4)"
  by (simp add: ChunkSize_def Let_def)

lemma ChunkSize_mod4 [simp]: "ChunkSize c mod 4 = 0"
  unfolding ChunkSize_eq by presburger

lemma ChunkSize_bounds: "length (cname c) \<le> 0xff \<Longrightarrow> 8 \<le> ChunkSize c \<and> ChunkSize c \<le> 264"
  unfolding ChunkSize_eq by presburger

lemma length_sdes_chunk_wire [simp]: "length (sdes_chunk_wire c) = ChunkSize c"
  by (simp add: sdes_chunk_wire_def ChunkSize_eq)

lemma length_sdes_chunks_wire [simp]: "length (sdes_chunks_wire cs) = sdes_chunks_size cs"
  by (induction cs) (simp_all add: sdes_chunks_size_def)

lemma sdes_chunks_size_mod4 [simp]: "sdes_chunks_size cs mod 4 = 0"
proof (induction cs)
  case (Cons c cs)
  then show ?case by (simp add: sdes_chunks_size_def mod_add_eq [symmetric, of "ChunkSize c"])
qed (simp add: sdes_chunks_size_def)

lemma sdes_chunks_size_bound:
  "list_all (\<lambda>c. length (cname c) \<le> 0xff) cs \<Longrightarrow> sdes_chunks_size cs \<le> 264 * length cs"
  using ChunkSize_bounds by (induction cs) (fastforce simp: sdes_chunks_size_def)+

lemma create_sdes_chunks_overlay [mem_simps]:
  "index + sdes_chunks_size cs \<le> length m \<Longrightarrow>
   create_sdes_chunks cs m index = Some (overlay m index (sdes_chunks_wire cs), index + sdes_chunks_size cs)"
proof (induction cs arbitrary: m index)
  case (Cons c cs)
  have size: "sdes_chunks_size (c # cs) = 6 + length (cname c) + (4 - (6 + length (cname c)) mod 4)
      + sdes_chunks_size cs"
    by (simp add: sdes_chunks_size_def ChunkSize_eq)
  have "create_sdes_chunks (c # cs) m index
      = create_sdes_chunks cs (overlay m index (sdes_chunk_wire c)) (index + ChunkSize c)"
    using Cons.prems size
    by (simp add: mem_simps sdes_consts overlay_append_left sdes_chunk_wire_def ChunkSize_eq Let_def
        add.assoc)
  with Cons.IH [of "index + ChunkSize c" "overlay m index (sdes_chunk_wire c)"] Cons.prems size
  show ?case by (simp add: overlay_append_left ChunkSize_eq add.assoc)
qed (simp add: sdes_chunks_size_def)

interpretation sdes: rtcp_unfragmented Sdes_BlockLength Sdes_Create sdes_wire sdes_valid
proof (rule rtcp_unfragmentedI [OF _ _ Sdes_Create_def], goal_cases)
  case (3 p b)
  have "sdes_chunks_size (sdes_chunks p) \<le> 8184"
    using 3(1) sdes_chunks_size_bound [of "sdes_chunks p"] by (simp add: sdes_valid_def)
  then have "sdes_chunks_size (sdes_chunks p) div 4 \<le> 2046" by linarith
  with 3 show ?case
    by (simp add: sdes_consts sdes_valid_def mem_simps create_simps Let_def sdes_wire_def mod_add_eq)
qed (simp_all add: sdes_consts sdes_wire_def sdes_valid_def)


text \<open>Reading one chunk: the CNAME item, then the terminator.\<close>

lemma sdes_items_wire:
  assumes "length c \<le> 0xff" "p = length xs" "p + 3 + length c \<le> e"
  shows "sdes_items (xs @ [1, of_nat (length c)] @ c @ 0 # ys) e p None = Some (Some (Some c, p + 3 + length c))"
proof -
  let ?m = "xs @ [1, of_nat (length c)] @ c @ 0 # ys"
  have u: "unat (of_nat (length c) :: u8) = length c" using assms(1) by (simp add: unat_of_nat)
  have "get_byte ?m p = Some 1" "get_byte ?m (p + 1) = Some (of_nat (length c))"
    "get_bytes ?m (p + 2) (length c) = Some c" "get_byte ?m (p + 2 + length c) = Some 0"
    using assms(2) by (simp_all add: get_byte_def nth_append get_bytes_def)
  moreover from this(4) have "sdes_items ?m e (p + 2 + length c) (Some c) = Some (Some (Some c, p + 3 + length c))"
    by (subst sdes_items.simps) (simp add: sdes_consts)
  ultimately show ?thesis
    using assms(3) u by (subst sdes_items.simps) (simp add: sdes_consts)
qed

lemma parse_sdes_chunks_wire:
  assumes "list_all (\<lambda>c. length (cname c) \<le> 0xff) todo" "p = length xs"
    and "p + sdes_chunks_size todo \<le> e" "(e - p) mod 4 = 0"
  shows "parse_sdes_chunks (xs @ sdes_chunks_wire todo @ ys) e (length finished)
      (length finished + length todo) (finished @ replicate (length todo) sdes_chunk_init) bl p
    = Some (Some (finished @ todo, bl + sdes_chunks_size todo))"
  using assms
proof (induction todo arbitrary: xs p finished bl)
  case Nil
  then show ?case by (subst parse_sdes_chunks.simps) (simp add: sdes_chunks_size_def)
next
  case (Cons c todo)
  let ?l = "length (cname c)" and ?pad = "4 - (6 + length (cname c)) mod 4"
  let ?m = "xs @ sdes_chunks_wire (c # todo) @ ys"
  let ?chunks = "finished @ replicate (length (c # todo)) sdes_chunk_init"
  have size: "sdes_chunks_size (c # todo) = ChunkSize c + sdes_chunks_size todo"
    by (simp add: sdes_chunks_size_def)
  have cl: "?l \<le> 0xff" using Cons.prems by simp
  have bounds: "p + ChunkSize c \<le> e" "8 \<le> ChunkSize c" "0 < ?pad"
    using Cons.prems size ChunkSize_bounds [OF cl] by auto
  have ssrc: "ReadBE32 ?m p = Some (chunk_ssrc c)"
    using Cons.prems by (simp add: sdes_chunk_wire_def)
  have "?m = (xs @ be_bytes 4 (chunk_ssrc c)) @ [1, of_nat ?l] @ cname c
      @ 0 # (replicate (?pad - 1) 0 @ sdes_chunks_wire todo @ ys)"
    using bounds(3) by (simp add: sdes_chunk_wire_def flip: replicate_Suc)
  then have items: "sdes_items ?m e (p + 4) None = Some (Some (Some (cname c), p + 7 + ?l))"
    using sdes_items_wire [OF cl, of "p + 4" "xs @ be_bytes 4 (chunk_ssrc c)" e] Cons.prems bounds
    by (simp add: ChunkSize_eq)
  have rem: "(e - (p + ChunkSize c)) mod 4 = 0"
    using Cons.prems(4) bounds(1) ChunkSize_mod4 [of c] by presburger
  have "e - (p + 7 + ?l) = (e - (p + ChunkSize c)) + (?pad - 1)" "?pad - 1 < 4"
    using bounds(1,3) by (auto simp: ChunkSize_eq)
  with rem have "(e - (p + 7 + ?l)) mod 4 = ?pad - 1"
    by (metis add.left_neutral mod_add_left_eq mod_less)
  then have adj: "p + 7 + ?l + (e - (p + 7 + ?l)) mod 4 = p + ChunkSize c"
    using bounds(3) unfolding ChunkSize_eq by linarith
  have eta: "sdes_chunk_init\<lparr>chunk_ssrc := chunk_ssrc c, cname := cname c\<rparr> = c" by simp
  have "parse_sdes_chunks ((xs @ sdes_chunk_wire c) @ sdes_chunks_wire todo @ ys) e (length (finished @ [c]))
      (length (finished @ [c]) + length todo) ((finished @ [c]) @ replicate (length todo) sdes_chunk_init)
      (bl + ChunkSize c) (p + ChunkSize c)
    = Some (Some ((finished @ [c]) @ todo, bl + ChunkSize c + sdes_chunks_size todo))"
  proof (rule Cons.IH)
    show "(e - (p + ChunkSize c)) mod 4 = 0" by (rule rem)
  qed (use Cons.prems size in simp_all)
  then show ?case
    using ssrc items adj bounds
    by (subst parse_sdes_chunks.simps) (simp add: size add.assoc Let_def eta)
qed


text \<open>Safety of the loops on arbitrary bytes.\<close>

lemma sdes_items_safe:
  "p < e \<Longrightarrow> e \<le> length m \<Longrightarrow>
   \<exists>r. sdes_items m e p found = Some r \<and> (\<forall>found' p'. r = Some (found', p') \<longrightarrow> p' \<le> e)"
proof (induction "e - p" arbitrary: p found rule: less_induct)
  case less
  obtain t where t: "get_byte m p = Some t" using less.prems get_byte_ex [of p m] by auto
  show ?case
  proof (cases "t = kTerminatorTag \<or> p + 1 \<ge> e")
    case True
    with t less.prems show ?thesis by (subst sdes_items.simps) auto
  next
    case False
    then obtain l where l: "get_byte m (p + 1) = Some l"
      using less.prems get_byte_ex [of "p + 1" m] by auto
    show ?thesis
    proof (cases "p + 2 + unat l + 1 > e \<or> t = kCnameTag \<and> found \<noteq> None")
      case True
      with t l False show ?thesis by (subst sdes_items.simps) auto
    next
      case ok: False
      then have "e - (p + 2 + unat l) < e - p" "p + 2 + unat l < e" using less.prems by linarith+
      from less.hyps [OF this less.prems(2)] ok t l False less.prems show ?thesis
        by (subst sdes_items.simps) (auto simp: get_bytes_def)
    qed
  qed
qed

lemma parse_sdes_chunks_safe:
  "p \<le> e \<Longrightarrow> e \<le> length m \<Longrightarrow> \<exists>r. parse_sdes_chunks m e i n cs bl p = Some r"
proof (induction m e i n cs bl p rule: parse_sdes_chunks.induct)
  case (1 m e i n cs bl p)
  show ?case
  proof (cases "i < n \<and> p + 8 \<le> e")
    case True
    then obtain ssrc where s: "ReadBE32 m p = Some ssrc"
      using "1.prems" ReadBE32_in [of p m] by auto
    obtain r where r: "sdes_items m e (p + 4) None = Some r" "\<forall>f p'. r = Some (f, p') \<longrightarrow> p' \<le> e"
      using sdes_items_safe [of "p + 4" e m None] True "1.prems" by auto
    have adj: "q \<le> e \<Longrightarrow> q + (e - q) mod 4 \<le> e" for q
      using mod_less_eq_dividend [of "e - q" 4] by linarith
    show ?thesis
    proof (cases r)
      case None
      with True s r show ?thesis by (subst parse_sdes_chunks.simps) (simp add: Let_def)
    next
      case (Some fp)
      then obtain f p' where f: "r = Some (f, p')" "p' \<le> e" using r(2) by (cases fp) auto
      have "\<not> e < p + 8" "i < n" using True by auto
      note ih = "1.IH" [OF this(2,1) s refl r(1) f(1) refl]
      show ?thesis
        using True s r f ih adj [OF f(2)] "1.prems"
        by (subst parse_sdes_chunks.simps) (auto simp: Let_def split: option.splits)
    qed
  next
    case False
    then show ?thesis by (subst parse_sdes_chunks.simps) auto
  qed
qed

interpretation sdes: rtcp_codec Sdes_BlockLength Sdes_Create sdes_wire sdes_valid Sdes_Parse
  Sdes_matches "\<lambda>p0. sdes_decoded (sender_ssrc p0)"
proof (unfold_locales, goal_cases)
  case (1 p rest sz h0 p0)
  let ?cs = "sdes_chunks p"
  have v: "length ?cs \<le> 31" "list_all (\<lambda>c. length (cname c) \<le> 0xff) ?cs"
    "block_length p = 4 + sdes_chunks_size ?cs"
    using 1(1) by (simp_all add: sdes_valid_def)
  have size: "sdes_chunks_size ?cs \<le> 8184"
    using v(1) sdes_chunks_size_bound [OF v(2)] by simp
  have w: "4 * (sdes_chunks_size ?cs div 4) = sdes_chunks_size ?cs"
    using sdes_chunks_size_mod4 [of ?cs] by presburger
  have "parse_sdes_chunks (sdes_chunks_wire ?cs @ rest) (sdes_chunks_size ?cs) 0 (length ?cs)
      (replicate (length ?cs) sdes_chunk_init) 4 0 = Some (Some (?cs, 4 + sdes_chunks_size ?cs))"
    using parse_sdes_chunks_wire [OF v(2), of 0 "[]" "sdes_chunks_size ?cs" rest "[]" 4] by simp
  with v size w show ?case
    by (intro parse_wireI [OF 1(2), of "length ?cs" 202 "sdes_chunks_size ?cs div 4"
          "sdes_chunks_wire ?cs"])
       (simp_all add: sdes_wire_def Sdes_matches_def Sdes_Parse_def sdes_consts sdes_decoded_def)
next
  case (2 h buffer sz p)
  let ?s = "unat (ch_payload_size h)" and ?n = "unat (ch_count_or_format h)"
  obtain r where "parse_sdes_chunks (ch_payload h) ?s 0 ?n (replicate ?n sdes_chunk_init) 4 0 = Some r"
    using parse_sdes_chunks_safe [OF _ header_ok_payload_size [OF 2(1,2)]] by blast
  with 2(3) show ?case
    by (cases r) (auto simp: Sdes_matches_def Sdes_Parse_def sdes_consts)
qed

end
