(* ===== verification/Rtcp_Tmmb.thy ===== *)
theory Rtcp_Tmmb
  imports Rtcp_Psfb
begin

text \<open>
  Temporary maximum media stream bitrate messages under \<open>src/src/myrtc/rtp_rtcp/\<close>:
  \<open>tmmb_item.{h,cc}\<close>, \<open>tmmbr.{h,cc}\<close> (request) and \<open>tmmbn.{h,cc}\<close> (notification). A bitrate is
  sent as a 6-bit exponent and a 17-bit mantissa.
\<close>

subsection \<open>\<open>TmmbItem\<close>\<close>

record tmmb_item =
  tmmb_ssrc :: u32
  tmmb_bitrate :: u64
  packet_overhead :: u16

definition TmmbItem_kLength :: nat where "TmmbItem_kLength = 8"
definition Tmmb_kMaxMantissa :: u64 where "Tmmb_kMaxMantissa = 0x1ffff"

definition TmmbItem_init :: tmmb_item where
  "TmmbItem_init = \<lparr>tmmb_ssrc = 0, tmmb_bitrate = 0, packet_overhead = 0\<rparr>"

definition TmmbItem_Parse :: "tmmb_item \<Rightarrow> bytes \<Rightarrow> nat \<Rightarrow> (tmmb_item \<times> bool) option" where
  "TmmbItem_Parse item buffer p =
     do { v0 \<leftarrow> ReadBE32 buffer (p + 0);
          compact \<leftarrow> ReadBE32 buffer (p + 4);
          let exponent = (ucast (drop_bit 26 compact) :: u8);
          let mantissa = (ucast (drop_bit 9 compact AND 0x1ffff) :: u64);
          let overhead = (ucast (compact AND 0x1ff) :: u16);
          let bitrate = push_bit (unat exponent) mantissa;
          let item = item\<lparr>tmmb_ssrc := v0, tmmb_bitrate := bitrate\<rparr>;
          if drop_bit (unat exponent) bitrate \<noteq> mantissa then Some (item, False)
          else Some (item\<lparr>packet_overhead := overhead\<rparr>, True) }"

definition tmmb_compact :: "tmmb_item \<Rightarrow> u32" where
  "tmmb_compact item =
     (case bitrate_scale Tmmb_kMaxMantissa (tmmb_bitrate item) (0 :: u32) of
        (mantissa, exponent) \<Rightarrow>
          ucast (ucast (push_bit 26 exponent) OR push_bit 9 mantissa OR (ucast (packet_overhead item) :: u64)))"

definition TmmbItem_Create :: "tmmb_item \<Rightarrow> bytes \<Rightarrow> nat \<Rightarrow> bytes option" where
  "TmmbItem_Create item buffer p =
     do { buffer \<leftarrow> WriteBE32 buffer (p + 0) (tmmb_ssrc item);
          WriteBE32 buffer (p + 4) (tmmb_compact item) }"

definition set_packet_overhead :: "tmmb_item \<Rightarrow> u16 \<Rightarrow> tmmb_item option" where
  "set_packet_overhead item overhead =
     do { dcheck (overhead \<le> 0x1ff); Some (item\<lparr>packet_overhead := overhead\<rparr>) }"

definition tmmb_item_wire :: "tmmb_item \<Rightarrow> bytes" where
  "tmmb_item_wire item = be_bytes 4 (tmmb_ssrc item) @ be_bytes 4 (tmmb_compact item)"

definition tmmb_item_valid :: "tmmb_item \<Rightarrow> bool" where
  "tmmb_item_valid item \<longleftrightarrow> packet_overhead item \<le> 0x1ff"

text \<open>The item a receiver reads: the bitrate rounded to a 17-bit mantissa.\<close>

definition tmmb_rounded :: "u64 \<Rightarrow> u64" where
  "tmmb_rounded b = (case bitrate_scale Tmmb_kMaxMantissa b (0 :: u32) of
     (mantissa, exponent) \<Rightarrow> push_bit (unat exponent) mantissa)"

definition tmmb_item_decoded :: "tmmb_item \<Rightarrow> tmmb_item" where
  "tmmb_item_decoded item = item\<lparr>tmmb_bitrate := tmmb_rounded (tmmb_bitrate item)\<rparr>"

lemma length_tmmb_item_wire [simp]: "length (tmmb_item_wire item) = 8"
  by (simp add: tmmb_item_wire_def)

lemma TmmbItem_Create_overlay [mem_simps]:
  "p + 8 \<le> length m \<Longrightarrow> TmmbItem_Create item m p = Some (overlay m p (tmmb_item_wire item))"
  by (simp add: TmmbItem_Create_def tmmb_item_wire_def mem_simps overlay_append_left)

lemma tmmb_scale_0:
  obtains k where "bitrate_scale Tmmb_kMaxMantissa b (0 :: u32) = (drop_bit k b, of_nat k)" "k \<le> 47"
    "unat (drop_bit k b) < 2 ^ 17" "0 < k \<longrightarrow> 2 ^ 17 * 2 ^ (k - 1) \<le> unat b"
proof (rule bitrate_scale_0 [where 'e = 32])
  show "unat Tmmb_kMaxMantissa = 2 ^ 17 - 1" by (simp add: Tmmb_kMaxMantissa_def)
qed (use that in simp_all)

lemma tmmb_fields:
  fixes e :: u32 and m :: u64 and ov :: u16
  assumes "unat e < 2 ^ 6" "unat m < 2 ^ 17" "unat ov < 2 ^ 9"
  defines "c \<equiv> (ucast (ucast (push_bit 26 e) OR push_bit 9 m OR (ucast ov :: u64)) :: u32)"
  shows "(ucast (drop_bit 26 c) :: u8) = ucast e"
    and "(ucast (drop_bit 9 c AND 0x1ffff) :: u64) = m"
    and "(ucast (c AND 0x1ff) :: u16) = ov"
proof -
  note m = bit_less_of_unat_less [OF assms(2)] and e = bit_less_of_unat_less [OF assms(1)]
    and ov = bit_less_of_unat_less [OF assms(3)]
  have c: "(0x1ffff :: u32) = mask 17" "(0x1ff :: u32) = mask 9" by (simp_all add: mask_eq_exp_minus_1)
  show "(ucast (drop_bit 26 c) :: u8) = ucast e"
  proof (rule bit_word_eqI)
    fix n assume "n < LENGTH(8)"
    then show "bit (ucast (drop_bit 26 c) :: u8) n = bit (ucast e :: u8) n"
      using m [of "17 + n"] e [of n] ov [of "26 + n"] by (auto simp: c_def bit_simps)
  qed
  show "(ucast (drop_bit 9 c AND 0x1ffff) :: u64) = m"
    unfolding c
  proof (rule bit_word_eqI)
    fix n assume "n < LENGTH(64)"
    then show "bit (ucast (drop_bit 9 c AND mask 17) :: u64) n = bit m n"
      using m [of n] ov [of "9 + n"] by (auto simp: c_def bit_simps)
  qed
  show "(ucast (c AND 0x1ff) :: u16) = ov"
    unfolding c
  proof (rule bit_word_eqI)
    fix n assume "n < LENGTH(16)"
    then show "bit (ucast (c AND mask 9) :: u16) n = bit ov n"
      using ov [of n] by (auto simp: c_def bit_simps)
  qed
qed

lemma TmmbItem_Parse_wire:
  assumes "tmmb_item_valid item" "p = length xs"
  shows "TmmbItem_Parse item0 (xs @ tmmb_item_wire item @ ys) p = Some (tmmb_item_decoded item, True)"
proof -
  obtain k where k: "bitrate_scale Tmmb_kMaxMantissa (tmmb_bitrate item) (0 :: u32)
      = (drop_bit k (tmmb_bitrate item), of_nat k)" "k \<le> 47"
    "unat (drop_bit k (tmmb_bitrate item)) < 2 ^ 17"
    by (rule tmmb_scale_0)
  have u: "unat (of_nat k :: u32) = k" "unat (ucast (of_nat k :: u32) :: u8) = k"
    using k(2) by (simp_all add: unat_of_nat unsigned_ucast_eq take_bit_nat_eq_self)
  have "unat (packet_overhead item) < 2 ^ 9"
    using assms(1) by (simp add: tmmb_item_valid_def word_le_nat_alt)
  note f = tmmb_fields [OF _ k(3) this, of "of_nat k"]
  show ?thesis
    using assms(2) k f u drop_push_drop [of k "tmmb_bitrate item"]
    by (simp add: TmmbItem_Parse_def tmmb_item_wire_def tmmb_compact_def tmmb_item_decoded_def
        tmmb_rounded_def Let_def)
qed

lemma unat_tmmb_rounded:
  "unat (tmmb_rounded b) \<le> unat b \<and> 2 ^ 16 * (unat b - unat (tmmb_rounded b)) \<le> unat b \<and>
   (unat b < 2 ^ 17 \<longrightarrow> tmmb_rounded b = b)"
proof -
  obtain k where k: "bitrate_scale Tmmb_kMaxMantissa b (0 :: u32) = (drop_bit k b, of_nat k)" "k \<le> 47"
    "0 < k \<longrightarrow> 2 ^ 17 * 2 ^ (k - 1) \<le> unat b"
    by (rule tmmb_scale_0)
  have "tmmb_rounded b = push_bit k (drop_bit k b)"
    using k(1,2) by (simp add: tmmb_rounded_def unat_of_nat)
  with scaled_back [OF _ k(3)] show ?thesis by simp
qed

subsection \<open>Lists of items\<close>

text \<open>The parse loop stops at the first item whose bitrate overflows; the items read so far and
  the failing one are changed, the rest keep their old values. The flag says whether all items
  were read.\<close>

fun parse_tmmb_items :: "tmmb_item list \<Rightarrow> bytes \<Rightarrow> nat \<Rightarrow> (tmmb_item list \<times> bool) option" where
  "parse_tmmb_items [] m next_item = Some ([], True)"
| "parse_tmmb_items (item # items) m next_item =
     do { (item', ok) \<leftarrow> TmmbItem_Parse item m next_item;
          if \<not> ok then Some (item' # items, False)
          else do {
            (items', oks) \<leftarrow> parse_tmmb_items items m (next_item + TmmbItem_kLength);
            Some (item' # items', oks) } }"

fun create_tmmb_items :: "tmmb_item list \<Rightarrow> bytes \<Rightarrow> nat \<Rightarrow> (bytes \<times> nat) option" where
  "create_tmmb_items [] m index = Some (m, index)"
| "create_tmmb_items (item # items) m index =
     do { m \<leftarrow> TmmbItem_Create item m index;
          create_tmmb_items items m (index + TmmbItem_kLength) }"

abbreviation tmmb_items_wire :: "tmmb_item list \<Rightarrow> bytes" where
  "tmmb_items_wire items \<equiv> concat (map tmmb_item_wire items)"

lemma length_tmmb_items_wire [simp]: "length (tmmb_items_wire items) = 8 * length items"
  by (rule length_concat_const) simp

lemma create_tmmb_items_overlay [mem_simps]:
  "index + 8 * length items \<le> length m \<Longrightarrow>
   create_tmmb_items items m index = Some (overlay m index (tmmb_items_wire items), index + 8 * length items)"
  by (induction items arbitrary: m index)
     (simp_all add: mem_simps TmmbItem_kLength_def overlay_append_left)

lemma parse_tmmb_items_wire:
  "list_all tmmb_item_valid items \<Longrightarrow> length items0 = length items \<Longrightarrow> p = length xs \<Longrightarrow>
   parse_tmmb_items items0 (xs @ tmmb_items_wire items @ ys) p = Some (map tmmb_item_decoded items, True)"
proof (induction items arbitrary: items0 xs p)
  case (Cons item items)
  then obtain i0 is0 where i0: "items0 = i0 # is0" by (cases items0) auto
  have "parse_tmmb_items is0 ((xs @ tmmb_item_wire item) @ tmmb_items_wire items @ ys) (p + 8)
      = Some (map tmmb_item_decoded items, True)"
    using Cons.prems i0 by (intro Cons.IH) simp_all
  with Cons.prems i0 TmmbItem_Parse_wire [of item p xs i0 "tmmb_items_wire items @ ys"] show ?case
    by (simp add: TmmbItem_kLength_def)
qed simp

lemma parse_tmmb_items_total:
  "p + 8 * length items \<le> length m \<Longrightarrow> \<exists>r. parse_tmmb_items items m p = Some r"
proof (induction items arbitrary: p)
  case (Cons item items)
  then have "p + 8 + 8 * length items \<le> length m" by simp
  then obtain r where "parse_tmmb_items items m (p + 8) = Some r"
    using Cons.IH by blast
  moreover have "TmmbItem_Parse item m p \<noteq> None"
    using Cons.prems ReadBE32_in [of p m] ReadBE32_in [of "p + 4" m]
    by (auto simp: TmmbItem_Parse_def Let_def)
  ultimately show ?case by (cases r) (auto simp: TmmbItem_kLength_def)
qed auto

subsection \<open>\<open>Tmmbr\<close> and \<open>Tmmbn\<close>\<close>

record tmmbr = rtpfb +
  tmmb_items :: "tmmb_item list"

type_synonym tmmbn = tmmbr

definition Tmmbr_kFeedbackMessageType :: nat where "Tmmbr_kFeedbackMessageType = 3"
definition Tmmbn_kFeedbackMessageType :: nat where "Tmmbn_kFeedbackMessageType = 4"

definition Tmmbr_init :: tmmbr where
  "Tmmbr_init = \<lparr>sender_ssrc = 0, media_ssrc = 0, tmmb_items = []\<rparr>"

definition Tmmbr_Parse :: "tmmbr \<Rightarrow> common_header \<Rightarrow> (tmmbr \<times> bool) option" where
  "Tmmbr_Parse t packet =
     do { dcheck (ch_packet_type packet = Rtpfb_kPacketType);
          dcheck (unat (ch_count_or_format packet) = Tmmbr_kFeedbackMessageType);
          let payload_size = unat (ch_payload_size packet);
          if payload_size < kCommonFeedbackLength + TmmbItem_kLength then Some (t, False)
          else do {
            let items_size_bytes = payload_size - kCommonFeedbackLength;
            if items_size_bytes mod TmmbItem_kLength \<noteq> 0 then Some (t, False)
            else do {
              t \<leftarrow> Rtpfb_ParseCommonFeedback t (ch_payload packet);
              (items, ok) \<leftarrow> parse_tmmb_items
                 (vector_resize (items_size_bytes div TmmbItem_kLength) TmmbItem_init (tmmb_items t))
                 (ch_payload packet) kCommonFeedbackLength;
              Some (t\<lparr>tmmb_items := items\<rparr>, ok) } } }"

definition Tmmbn_Parse :: "tmmbn \<Rightarrow> common_header \<Rightarrow> (tmmbn \<times> bool) option" where
  "Tmmbn_Parse t packet =
     do { dcheck (ch_packet_type packet = Rtpfb_kPacketType);
          dcheck (unat (ch_count_or_format packet) = Tmmbn_kFeedbackMessageType);
          let payload_size = unat (ch_payload_size packet);
          if payload_size < kCommonFeedbackLength then Some (t, False)
          else do {
            let items_size_bytes = payload_size - kCommonFeedbackLength;
            if items_size_bytes mod TmmbItem_kLength \<noteq> 0 then Some (t, False)
            else do {
              t \<leftarrow> Rtpfb_ParseCommonFeedback t (ch_payload packet);
              (items, ok) \<leftarrow> parse_tmmb_items
                 (vector_resize (items_size_bytes div TmmbItem_kLength) TmmbItem_init (tmmb_items t))
                 (ch_payload packet) kCommonFeedbackLength;
              Some (t\<lparr>tmmb_items := items\<rparr>, ok) } } }"

definition AddTmmbr :: "tmmbr \<Rightarrow> tmmb_item \<Rightarrow> tmmbr" where
  "AddTmmbr t item = t\<lparr>tmmb_items := tmmb_items t @ [item]\<rparr>"

definition Tmmbr_BlockLength :: "tmmbr \<Rightarrow> nat" where
  "Tmmbr_BlockLength t =
     kHeaderLength + kCommonFeedbackLength + TmmbItem_kLength * length (tmmb_items t)"

definition Tmmbr_Create :: "tmmbr \<Rightarrow> creator" where
  "Tmmbr_Create t cb max_length b =
     do { dcheck (tmmb_items t \<noteq> []);
          (b, ok) \<leftarrow> reserve (Tmmbr_BlockLength t) cb max_length b;
          if \<not> ok then Some (b, False)
          else do {
            let index_end = out_index b + Tmmbr_BlockLength t;
            hl \<leftarrow> HeaderLength (Tmmbr_BlockLength t);
            (packet, index) \<leftarrow> CreateHeader Tmmbr_kFeedbackMessageType Rtpfb_kPacketType hl
               (out_packet b) (out_index b);
            dcheck (0 = media_ssrc t);
            packet \<leftarrow> Rtpfb_CreateCommonFeedback t packet index;
            (packet, index) \<leftarrow> create_tmmb_items (tmmb_items t) packet (index + kCommonFeedbackLength);
            dcheck (index_end = index);
            Some (b\<lparr>out_packet := packet, out_index := index\<rparr>, True) } }"

definition Tmmbn_BlockLength :: "tmmbn \<Rightarrow> nat" where
  "Tmmbn_BlockLength t =
     kHeaderLength + kCommonFeedbackLength + TmmbItem_kLength * length (tmmb_items t)"

definition Tmmbn_Create :: "tmmbn \<Rightarrow> creator" where
  "Tmmbn_Create t cb max_length b =
     do { (b, ok) \<leftarrow> reserve (Tmmbn_BlockLength t) cb max_length b;
          if \<not> ok then Some (b, False)
          else do {
            let index_end = out_index b + Tmmbn_BlockLength t;
            hl \<leftarrow> HeaderLength (Tmmbn_BlockLength t);
            (packet, index) \<leftarrow> CreateHeader Tmmbn_kFeedbackMessageType Rtpfb_kPacketType hl
               (out_packet b) (out_index b);
            dcheck (0 = media_ssrc t);
            packet \<leftarrow> Rtpfb_CreateCommonFeedback t packet index;
            (packet, index) \<leftarrow> create_tmmb_items (tmmb_items t) packet (index + kCommonFeedbackLength);
            dcheck (index_end = index);
            Some (b\<lparr>out_packet := packet, out_index := index\<rparr>, True) } }"

definition tmmb_wire :: "nat \<Rightarrow> tmmbr \<Rightarrow> bytes" where
  "tmmb_wire fmt t = header_wire fmt 205 (2 + 2 * length (tmmb_items t)) False @ rtpfb_wire t
     @ tmmb_items_wire (tmmb_items t)"

definition tmmbn_valid :: "tmmbr \<Rightarrow> bool" where
  "tmmbn_valid t \<longleftrightarrow> media_ssrc t = 0 \<and> list_all tmmb_item_valid (tmmb_items t) \<and>
     length (tmmb_items t) \<le> 32766"

definition tmmbr_valid :: "tmmbr \<Rightarrow> bool" where
  "tmmbr_valid t \<longleftrightarrow> tmmbn_valid t \<and> tmmb_items t \<noteq> []"

definition tmmb_decoded :: "tmmbr \<Rightarrow> tmmbr" where
  "tmmb_decoded t = t\<lparr>tmmb_items := map tmmb_item_decoded (tmmb_items t)\<rparr>"

definition Tmmb_matches :: "nat \<Rightarrow> common_header \<Rightarrow> bool" where
  "Tmmb_matches fmt h \<longleftrightarrow> ch_packet_type h = 205 \<and> unat (ch_count_or_format h) = fmt"

lemmas tmmb_consts = nack_consts TmmbItem_kLength_def Tmmbr_kFeedbackMessageType_def
  Tmmbn_kFeedbackMessageType_def

lemma Tmmb_BlockLength_eq:
  "Tmmbr_BlockLength t = 12 + 8 * length (tmmb_items t)"
  "Tmmbn_BlockLength t = 12 + 8 * length (tmmb_items t)"
  by (simp_all add: Tmmbr_BlockLength_def Tmmbn_BlockLength_def tmmb_consts)

interpretation tmmbr: rtcp_unfragmented Tmmbr_BlockLength Tmmbr_Create "tmmb_wire 3" tmmbr_valid
proof (rule rtcp_unfragmented_dcheckI [OF _ _ Tmmbr_Create_def], goal_cases)
  case (4 p b)
  then show ?case
    by (simp add: Tmmb_BlockLength_eq tmmbr_valid_def tmmbn_valid_def tmmb_consts mem_simps
        create_simps tmmb_wire_def)
qed (simp_all add: Tmmb_BlockLength_eq tmmb_wire_def tmmbr_valid_def)

interpretation tmmbn: rtcp_unfragmented Tmmbn_BlockLength Tmmbn_Create "tmmb_wire 4" tmmbn_valid
proof (rule rtcp_unfragmentedI [OF _ _ Tmmbn_Create_def], goal_cases)
  case (3 p b)
  then show ?case
    by (simp add: Tmmb_BlockLength_eq tmmbn_valid_def tmmb_consts mem_simps create_simps tmmb_wire_def)
qed (simp_all add: Tmmb_BlockLength_eq tmmb_wire_def)

lemma tmmb_body_reads:
  assumes "tmmbn_valid p" "length items0 = length (tmmb_items p)"
  shows "parse_tmmb_items items0 (drop 4 (tmmb_wire fmt p) @ rest) 8
      = Some (map tmmb_item_decoded (tmmb_items p), True)"
    and "Rtpfb_ParseCommonFeedback p0 (drop 4 (tmmb_wire fmt p) @ rest)
      = Some (p0\<lparr>sender_ssrc := sender_ssrc p, media_ssrc := media_ssrc p\<rparr>)"
  using assms parse_tmmb_items_wire [of "tmmb_items p" items0 8 "rtpfb_wire p" rest]
  by (simp_all add: tmmb_wire_def tmmbn_valid_def)

lemma tmmb_parse_total:
  assumes "s \<le> length m" "8 \<le> s"
  shows "\<exists>t'. Rtpfb_ParseCommonFeedback t m = Some t' \<and>
    (\<exists>items ok. parse_tmmb_items (vector_resize ((s - 8) div 8) TmmbItem_init (tmmb_items t')) m 8
       = Some (items, ok))"
proof -
  obtain t' where "Rtpfb_ParseCommonFeedback t m = Some t'"
    using Rtpfb_ParseCommonFeedback_total [of m t] assms by auto
  moreover have "\<exists>r. parse_tmmb_items (vector_resize ((s - 8) div 8) TmmbItem_init (tmmb_items t')) m 8 = Some r"
    using assms by (intro parse_tmmb_items_total) auto
  ultimately show ?thesis by auto
qed

interpretation tmmbr: rtcp_codec Tmmbr_BlockLength Tmmbr_Create "tmmb_wire 3" tmmbr_valid
  Tmmbr_Parse "Tmmb_matches 3" "\<lambda>_. tmmb_decoded"
proof (unfold_locales, goal_cases)
  case (1 p rest sz h0 p0)
  let ?n = "length (tmmb_items p)"
  have v: "tmmbn_valid p" "0 < ?n" "?n \<le> 32766" using 1(1) by (auto simp: tmmbr_valid_def tmmbn_valid_def)
  show ?case
    using v tmmb_body_reads [OF v(1)]
    by (intro parse_wireI [OF 1(2), of 3 205 "2 + 2 * ?n" "drop 4 (tmmb_wire 3 p)"])
       (simp_all add: Tmmb_matches_def Tmmbr_Parse_def tmmb_consts Let_def tmmb_decoded_def,
        simp_all add: tmmb_wire_def)
next
  case (2 h buffer sz p)
  let ?s = "unat (ch_payload_size h)"
  show ?case
  proof (cases "16 \<le> ?s")
    case True
    with tmmb_parse_total [OF header_ok_payload_size [OF 2(1,2)], of p] 2(3) show ?thesis
      by (auto simp: Tmmb_matches_def Tmmbr_Parse_def tmmb_consts Let_def ex_bool_eq)
  next
    case False
    with 2(3) show ?thesis by (auto simp: Tmmb_matches_def Tmmbr_Parse_def tmmb_consts)
  qed
qed

interpretation tmmbn: rtcp_codec Tmmbn_BlockLength Tmmbn_Create "tmmb_wire 4" tmmbn_valid
  Tmmbn_Parse "Tmmb_matches 4" "\<lambda>_. tmmb_decoded"
proof (unfold_locales, goal_cases)
  case (1 p rest sz h0 p0)
  let ?n = "length (tmmb_items p)"
  have v: "?n \<le> 32766" using 1(1) by (auto simp: tmmbn_valid_def)
  show ?case
    using v tmmb_body_reads [OF 1(1)]
    by (intro parse_wireI [OF 1(2), of 4 205 "2 + 2 * ?n" "drop 4 (tmmb_wire 4 p)"])
       (simp_all add: Tmmb_matches_def Tmmbn_Parse_def tmmb_consts Let_def tmmb_decoded_def,
        simp_all add: tmmb_wire_def)
next
  case (2 h buffer sz p)
  let ?s = "unat (ch_payload_size h)"
  show ?case
  proof (cases "8 \<le> ?s")
    case True
    with tmmb_parse_total [OF header_ok_payload_size [OF 2(1,2)], of p] 2(3) show ?thesis
      by (auto simp: Tmmb_matches_def Tmmbn_Parse_def tmmb_consts Let_def ex_bool_eq)
  next
    case False
    with 2(3) show ?thesis by (auto simp: Tmmb_matches_def Tmmbn_Parse_def tmmb_consts)
  qed
qed

subsection \<open>Properties\<close>

text \<open>C29: every bitrate limit sent in a TMMBR or TMMBN item reaches the receiver rounded down by
  less than one part in \<open>2 ^ 16\<close>, exactly when it is below \<open>2 ^ 17\<close> bit/s; SSRC and overhead
  arrive unchanged.\<close>

theorem tmmb_item_roundtrip:
  assumes "tmmb_item_valid item" "p + 8 \<le> length m"
  shows "\<exists>m' r. TmmbItem_Create item m p = Some m' \<and> TmmbItem_Parse item0 m' p = Some (r, True) \<and>
    tmmb_ssrc r = tmmb_ssrc item \<and> packet_overhead r = packet_overhead item \<and>
    unat (tmmb_bitrate r) \<le> unat (tmmb_bitrate item) \<and>
    2 ^ 16 * (unat (tmmb_bitrate item) - unat (tmmb_bitrate r)) \<le> unat (tmmb_bitrate item) \<and>
    (unat (tmmb_bitrate item) < 2 ^ 17 \<longrightarrow> tmmb_bitrate r = tmmb_bitrate item)"
  using assms(2) TmmbItem_Parse_wire [OF assms(1), of p "take p m" item0 "drop (p + 8) m"]
    unat_tmmb_rounded [of "tmmb_bitrate item"]
  by (simp add: mem_simps overlay_def tmmb_item_decoded_def)

theorem tmmb_item_roundtrip_witness:
  "\<exists>m' r. TmmbItem_Create \<lparr>tmmb_ssrc = 7, tmmb_bitrate = 300001, packet_overhead = 40\<rparr>
      (replicate 10 0) 1 = Some m' \<and> TmmbItem_Parse TmmbItem_init m' 1 = Some (r, True) \<and>
    tmmb_ssrc r = 7 \<and> packet_overhead r = 40 \<and> unat (tmmb_bitrate r) \<le> 300001 \<and>
    2 ^ 16 * (300001 - unat (tmmb_bitrate r)) \<le> 300001"
  using tmmb_item_roundtrip [of "\<lparr>tmmb_ssrc = 7, tmmb_bitrate = 300001, packet_overhead = 40\<rparr>" 1
      "replicate 10 0" TmmbItem_init]
  by (auto simp: tmmb_item_valid_def)

end
