(* ===== verification/Rtcp_Xr.thy ===== *)
theory Rtcp_Xr
  imports Rtcp_Psfb
begin

text \<open>
  Extended reports under \<open>src/src/myrtc/rtp_rtcp/\<close>: the report blocks \<open>rrtr.{h,cc}\<close> (receiver
  reference time), \<open>dlrr.{h,cc}\<close> (delay since last receiver report) and \<open>target_bitrate.{h,cc}\<close>,
  and the packet \<open>extended_reports.{h,cc}\<close> that holds at most one of each.
\<close>

subsection \<open>\<open>Rrtr\<close>\<close>

record rrtr =
  rrtr_ntp :: u64

definition Rrtr_kBlockType :: u8 where "Rrtr_kBlockType = 4"
definition Rrtr_kBlockLength :: u16 where "Rrtr_kBlockLength = 2"
definition Rrtr_kLength :: nat where "Rrtr_kLength = 12"

definition Rrtr_Parse :: "rrtr \<Rightarrow> bytes \<Rightarrow> nat \<Rightarrow> rrtr option" where
  "Rrtr_Parse rrtr buffer p =
     do { t \<leftarrow> get_byte buffer (p + 0);
          dcheck (t = Rrtr_kBlockType);
          len \<leftarrow> ReadBE16 buffer (p + 2);
          dcheck (len = Rrtr_kBlockLength);
          secs \<leftarrow> ReadBE32 buffer (p + 4);
          frac \<leftarrow> ReadBE32 buffer (p + 8);
          Some (rrtr\<lparr>rrtr_ntp := NtpTime_Set secs frac\<rparr>) }"

definition Rrtr_Create :: "rrtr \<Rightarrow> bytes \<Rightarrow> nat \<Rightarrow> bytes option" where
  "Rrtr_Create rrtr buffer p =
     do { buffer \<leftarrow> put_byte buffer (p + 0) Rrtr_kBlockType;
          buffer \<leftarrow> put_byte buffer (p + 1) 0;
          buffer \<leftarrow> WriteBE16 buffer (p + 2) Rrtr_kBlockLength;
          buffer \<leftarrow> WriteBE32 buffer (p + 4) (NtpTime_seconds (rrtr_ntp rrtr));
          WriteBE32 buffer (p + 8) (NtpTime_fractions (rrtr_ntp rrtr)) }"

definition rrtr_wire :: "rrtr \<Rightarrow> bytes" where
  "rrtr_wire r = [4, 0] @ be_bytes 2 (2 :: u16) @ be_bytes 4 (NtpTime_seconds (rrtr_ntp r))
     @ be_bytes 4 (NtpTime_fractions (rrtr_ntp r))"

lemma length_rrtr_wire [simp]: "length (rrtr_wire r) = 12"
  by (simp add: rrtr_wire_def)

lemma Rrtr_Create_overlay [mem_simps]:
  "p + 12 \<le> length m \<Longrightarrow> Rrtr_Create r m p = Some (overlay m p (rrtr_wire r))"
  by (simp add: Rrtr_Create_def mem_simps overlay_append_left rrtr_wire_def Rrtr_kBlockType_def
      Rrtr_kBlockLength_def)

lemma Rrtr_Parse_wire:
  "p = length xs \<Longrightarrow> Rrtr_Parse r0 (xs @ rrtr_wire r @ ys) p = Some r"
  by (simp add: Rrtr_Parse_def rrtr_wire_def Rrtr_kBlockType_def Rrtr_kBlockLength_def
      get_byte_append_right) (simp add: get_byte_def)

subsection \<open>\<open>Dlrr\<close>\<close>

record receive_time_info =
  rti_ssrc :: u32
  last_rr :: u32
  delay_since_last_rr :: u32

type_synonym dlrr = "receive_time_info list"

definition Dlrr_kBlockType :: u8 where "Dlrr_kBlockType = 5"
definition kBlockHeaderLength :: nat where "kBlockHeaderLength = 4"
definition kSubBlockLength :: nat where "kSubBlockLength = 12"

fun parse_sub_blocks :: "nat \<Rightarrow> bytes \<Rightarrow> nat \<Rightarrow> dlrr option" where
  "parse_sub_blocks 0 m read_at = Some []"
| "parse_sub_blocks (Suc n) m read_at =
     do { v0 \<leftarrow> ReadBE32 m (read_at + 0);
          v4 \<leftarrow> ReadBE32 m (read_at + 4);
          v8 \<leftarrow> ReadBE32 m (read_at + 8);
          blocks \<leftarrow> parse_sub_blocks n m (read_at + kSubBlockLength);
          Some (\<lparr>rti_ssrc = v0, last_rr = v4, delay_since_last_rr = v8\<rparr> # blocks) }"

definition Dlrr_Parse :: "dlrr \<Rightarrow> bytes \<Rightarrow> nat \<Rightarrow> u16 \<Rightarrow> (dlrr \<times> bool) option" where
  "Dlrr_Parse dlrr buffer p block_length_32bits =
     do { t \<leftarrow> get_byte buffer (p + 0);
          dcheck (t = Dlrr_kBlockType);
          len \<leftarrow> ReadBE16 buffer (p + 2);
          dcheck (block_length_32bits = len);
          if unat block_length_32bits mod 3 \<noteq> 0 then Some (dlrr, False)
          else do {
            blocks \<leftarrow> parse_sub_blocks (unat block_length_32bits div 3) buffer (p + kBlockHeaderLength);
            Some (blocks, True) } }"

definition Dlrr_BlockLength :: "dlrr \<Rightarrow> nat" where
  "Dlrr_BlockLength dlrr =
     (if dlrr = [] then 0 else kBlockHeaderLength + kSubBlockLength * length dlrr)"

fun create_sub_blocks :: "dlrr \<Rightarrow> bytes \<Rightarrow> nat \<Rightarrow> (bytes \<times> nat) option" where
  "create_sub_blocks [] m write_at = Some (m, write_at)"
| "create_sub_blocks (sub # subs) m write_at =
     do { m \<leftarrow> WriteBE32 m (write_at + 0) (rti_ssrc sub);
          m \<leftarrow> WriteBE32 m (write_at + 4) (last_rr sub);
          m \<leftarrow> WriteBE32 m (write_at + 8) (delay_since_last_rr sub);
          create_sub_blocks subs m (write_at + kSubBlockLength) }"

definition Dlrr_Create :: "dlrr \<Rightarrow> bytes \<Rightarrow> nat \<Rightarrow> bytes option" where
  "Dlrr_Create dlrr buffer p =
     (if dlrr = [] then Some buffer
      else do {
        buffer \<leftarrow> put_byte buffer (p + 0) Dlrr_kBlockType;
        buffer \<leftarrow> put_byte buffer (p + 1) 0;
        dcheck (3 * length dlrr < 2 ^ 16);
        buffer \<leftarrow> WriteBE16 buffer (p + 2) (of_nat (3 * length dlrr));
        (buffer, write_at) \<leftarrow> create_sub_blocks dlrr buffer (p + kBlockHeaderLength);
        dcheck (p + Dlrr_BlockLength dlrr = write_at);
        Some buffer })"

definition sub_block_wire :: "receive_time_info \<Rightarrow> bytes" where
  "sub_block_wire s = be_bytes 4 (rti_ssrc s) @ be_bytes 4 (last_rr s) @ be_bytes 4 (delay_since_last_rr s)"

definition dlrr_wire :: "dlrr \<Rightarrow> bytes" where
  "dlrr_wire d = (if d = [] then [] else [5, 0] @ be_bytes 2 (of_nat (3 * length d) :: u16)
     @ concat (map sub_block_wire d))"

lemmas dlrr_consts = Dlrr_kBlockType_def kBlockHeaderLength_def kSubBlockLength_def

lemma length_sub_blocks_wire [simp]: "length (concat (map sub_block_wire d)) = 12 * length d"
  by (rule length_concat_const) (simp add: sub_block_wire_def)

lemma length_dlrr_wire: "length (dlrr_wire d) = Dlrr_BlockLength d"
  by (simp add: dlrr_wire_def Dlrr_BlockLength_def dlrr_consts)

lemma create_sub_blocks_overlay [mem_simps]:
  "index + 12 * length d \<le> length m \<Longrightarrow>
   create_sub_blocks d m index = Some (overlay m index (concat (map sub_block_wire d)), index + 12 * length d)"
  by (induction d arbitrary: m index)
     (simp_all add: mem_simps dlrr_consts overlay_append_left sub_block_wire_def)

lemma parse_sub_blocks_wire:
  "p = length xs \<Longrightarrow> parse_sub_blocks (length d) (xs @ concat (map sub_block_wire d) @ ys) p = Some d"
proof (induction d arbitrary: xs p)
  case (Cons s d)
  have "parse_sub_blocks (length d) ((xs @ sub_block_wire s) @ concat (map sub_block_wire d) @ ys) (p + 12)
      = Some d"
    using Cons.prems by (intro Cons.IH) (simp add: sub_block_wire_def)
  with Cons.prems show ?case by (simp add: dlrr_consts sub_block_wire_def [of s])
qed simp

lemma parse_sub_blocks_total: "p + 12 * n \<le> length m \<Longrightarrow> \<exists>d. parse_sub_blocks n m p = Some d"
proof (induction n arbitrary: p)
  case (Suc n)
  then have "p + 12 + 12 * n \<le> length m" by simp
  then obtain d where "parse_sub_blocks n m (p + 12) = Some d" using Suc.IH by blast
  with Suc.prems show ?case
    using ReadBE32_in [of p m] ReadBE32_in [of "p + 4" m] ReadBE32_in [of "p + 8" m]
    by (auto simp: dlrr_consts)
qed simp

lemma Dlrr_Create_overlay [mem_simps]:
  assumes "p + Dlrr_BlockLength d \<le> length m" "3 * length d < 2 ^ 16"
  shows "Dlrr_Create d m p = Some (overlay m p (dlrr_wire d))"
  using assms
  by (cases "d = []") (simp_all add: Dlrr_Create_def Dlrr_BlockLength_def mem_simps overlay_append_left dlrr_wire_def
      dlrr_consts del: of_nat_mult)

lemma Dlrr_Parse_wire:
  assumes "p = length xs" "d \<noteq> []" "3 * length d < 2 ^ 16"
  shows "Dlrr_Parse d0 (xs @ dlrr_wire d @ ys) p (of_nat (3 * length d)) = Some (d, True)"
proof -
  have "unat (of_nat (3 * length d) :: u16) = 3 * length d"
    using assms(3) by (simp add: unat_of_nat del: of_nat_mult)
  moreover have "parse_sub_blocks (length d) (xs @ dlrr_wire d @ ys) (p + 4) = Some d"
    using assms parse_sub_blocks_wire [of "p + 4" "xs @ [5, 0] @ be_bytes 2 (of_nat (3 * length d) :: u16)" d ys]
    by (simp add: dlrr_wire_def del: of_nat_mult)
  moreover have "get_byte (xs @ dlrr_wire d @ ys) p = Some 5"
    "ReadBE16 (xs @ dlrr_wire d @ ys) (p + 2) = Some (of_nat (3 * length d))"
    using assms(1,2) by (simp_all add: dlrr_wire_def get_byte_def nth_append del: of_nat_mult)
  ultimately show ?thesis by (simp add: Dlrr_Parse_def dlrr_consts del: of_nat_mult)
qed

subsection \<open>\<open>TargetBitrate\<close>\<close>

record bitrate_item =
  spatial_layer :: u8
  temporal_layer :: u8
  target_bitrate_kbps :: u32

type_synonym target_bitrate = "bitrate_item list"

definition TargetBitrate_kBlockType :: u8 where "TargetBitrate_kBlockType = 42"
definition kTargetBitrateHeaderSizeBytes :: nat where "kTargetBitrateHeaderSizeBytes = 4"
definition kBitrateItemSizeBytes :: nat where "kBitrateItemSizeBytes = 4"

definition AddTargetBitrate :: "target_bitrate \<Rightarrow> u8 \<Rightarrow> u8 \<Rightarrow> u32 \<Rightarrow> target_bitrate option" where
  "AddTargetBitrate tb spatial temporal kbps =
     do { dcheck (spatial \<le> 0x0F);
          dcheck (temporal \<le> 0x0F);
          dcheck (kbps \<le> 0x00FFFFFF);
          Some (tb @ [\<lparr>spatial_layer = spatial, temporal_layer = temporal, target_bitrate_kbps = kbps\<rparr>]) }"

fun parse_bitrate_items :: "target_bitrate \<Rightarrow> nat \<Rightarrow> bytes \<Rightarrow> nat \<Rightarrow> target_bitrate option" where
  "parse_bitrate_items tb 0 m index = Some tb"
| "parse_bitrate_items tb (Suc n) m index =
     do { layers \<leftarrow> get_byte m index;
          kbps \<leftarrow> ReadBigEndian 3 m (index + 1);
          tb \<leftarrow> AddTargetBitrate tb (drop_bit 4 layers AND 0x0F) (layers AND 0x0F) kbps;
          parse_bitrate_items tb n m (index + kBitrateItemSizeBytes) }"

definition TargetBitrate_Parse :: "target_bitrate \<Rightarrow> bytes \<Rightarrow> nat \<Rightarrow> u16 \<Rightarrow> target_bitrate option" where
  "TargetBitrate_Parse tb block p block_length =
     do { t \<leftarrow> get_byte block (p + 0);
          dcheck (t = TargetBitrate_kBlockType);
          len \<leftarrow> ReadBE16 block (p + 2);
          dcheck (block_length = len);
          let payload_bytes = unat block_length * 4;
          let num_items = payload_bytes div kBitrateItemSizeBytes;
          parse_bitrate_items [] num_items block (p + kTargetBitrateHeaderSizeBytes) }"

definition TargetBitrate_BlockLength :: "target_bitrate \<Rightarrow> nat" where
  "TargetBitrate_BlockLength tb = kTargetBitrateHeaderSizeBytes + length tb * kBitrateItemSizeBytes"

fun create_bitrate_items :: "target_bitrate \<Rightarrow> bytes \<Rightarrow> nat \<Rightarrow> bytes option" where
  "create_bitrate_items [] m index = Some m"
| "create_bitrate_items (item # items) m index =
     do { m \<leftarrow> put_byte m index (push_bit 4 (spatial_layer item) OR temporal_layer item);
          m \<leftarrow> WriteBigEndian 3 m (index + 1) (target_bitrate_kbps item);
          create_bitrate_items items m (index + kBitrateItemSizeBytes) }"

definition TargetBitrate_Create :: "target_bitrate \<Rightarrow> bytes \<Rightarrow> nat \<Rightarrow> bytes option" where
  "TargetBitrate_Create tb buffer p =
     do { buffer \<leftarrow> put_byte buffer (p + 0) TargetBitrate_kBlockType;
          buffer \<leftarrow> put_byte buffer (p + 1) 0;
          dcheck (TargetBitrate_BlockLength tb div 4 - 1 < 2 ^ 16);
          buffer \<leftarrow> WriteBE16 buffer (p + 2) (of_nat (TargetBitrate_BlockLength tb div 4 - 1));
          create_bitrate_items tb buffer (p + kTargetBitrateHeaderSizeBytes) }"

definition bitrate_item_wire :: "bitrate_item \<Rightarrow> bytes" where
  "bitrate_item_wire i = [push_bit 4 (spatial_layer i) OR temporal_layer i]
     @ be_bytes 3 (target_bitrate_kbps i)"

definition target_bitrate_wire :: "target_bitrate \<Rightarrow> bytes" where
  "target_bitrate_wire tb = [42, 0] @ be_bytes 2 (of_nat (length tb) :: u16)
     @ concat (map bitrate_item_wire tb)"

definition bitrate_item_valid :: "bitrate_item \<Rightarrow> bool" where
  "bitrate_item_valid i \<longleftrightarrow> spatial_layer i \<le> 0x0F \<and> temporal_layer i \<le> 0x0F \<and>
     target_bitrate_kbps i \<le> 0x00FFFFFF"

lemmas tb_consts = TargetBitrate_kBlockType_def kTargetBitrateHeaderSizeBytes_def
  kBitrateItemSizeBytes_def

lemma length_bitrate_items_wire [simp]: "length (concat (map bitrate_item_wire tb)) = 4 * length tb"
  by (rule length_concat_const) (simp add: bitrate_item_wire_def)

lemma length_target_bitrate_wire [simp]: "length (target_bitrate_wire tb) = 4 + 4 * length tb"
  by (simp add: target_bitrate_wire_def)

lemma create_bitrate_items_overlay [mem_simps]:
  "index + 4 * length tb \<le> length m \<Longrightarrow>
   create_bitrate_items tb m index = Some (overlay m index (concat (map bitrate_item_wire tb)))"
  by (induction tb arbitrary: m index)
     (simp_all add: mem_simps tb_consts overlay_append_left bitrate_item_wire_def)

lemma TargetBitrate_Create_overlay [mem_simps]:
  "p + 4 + 4 * length tb \<le> length m \<Longrightarrow> length tb < 2 ^ 16 \<Longrightarrow>
   TargetBitrate_Create tb m p = Some (overlay m p (target_bitrate_wire tb))"
  by (simp add: TargetBitrate_Create_def TargetBitrate_BlockLength_def mem_simps overlay_append_left
      target_bitrate_wire_def tb_consts)

lemma layer_nibbles:
  fixes s t :: u8
  assumes "s \<le> 0x0F" "t \<le> 0x0F"
  shows "drop_bit 4 (push_bit 4 s OR t) AND 0x0F = s" "(push_bit 4 s OR t) AND 0x0F = t"
proof -
  have less: "unat s < 2 ^ 4" "unat t < 2 ^ 4" using assms by (simp_all add: word_le_nat_alt)
  have c: "(0x0F :: u8) = mask 4" by (simp add: mask_eq_exp_minus_1)
  show "drop_bit 4 (push_bit 4 s OR t) AND 0x0F = s"
    unfolding c
  proof (rule bit_word_eqI)
    fix n assume "n < LENGTH(8)"
    then show "bit (drop_bit 4 (push_bit 4 s OR t) AND mask 4) n = bit s n"
      using bit_less_of_unat_less [OF less(1), of n] bit_less_of_unat_less [OF less(2), of "4 + n"]
      by (auto simp: bit_simps)
  qed
  show "(push_bit 4 s OR t) AND 0x0F = t"
    unfolding c
  proof (rule bit_word_eqI)
    fix n assume "n < LENGTH(8)"
    then show "bit ((push_bit 4 s OR t) AND mask 4) n = bit t n"
      using bit_less_of_unat_less [OF less(2), of n] by (auto simp: bit_simps)
  qed
qed

lemma ReadBigEndian3_bound:
  assumes "ReadBigEndian 3 m p = Some (v :: u32)"
  shows "v \<le> 0x00FFFFFF"
proof -
  obtain d0 d1 d2 :: u8 where
    v: "v = push_bit 16 (ucast d0) OR push_bit 8 (ucast d1) OR ucast d2"
    using assms
    by (auto simp: ReadBigEndian_def InternalReadBigEndian.simps numeral_3_eq_3 numeral_2_eq_2
        or.assoc split: bind_splits)
  have "take_bit 24 v = v"
    unfolding v by (rule bit_word_eqI) (auto simp: bit_simps dest: bit_imp_le_length)
  then have "unat v = take_bit 24 (unat v)" by (metis unsigned_take_bit_eq)
  then have "unat v < 2 ^ 24" by (metis take_bit_nat_less_exp)
  then show ?thesis by (simp add: word_le_nat_alt)
qed

lemma parse_bitrate_items_total:
  "p + 4 * n \<le> length m \<Longrightarrow> \<exists>tb'. parse_bitrate_items tb n m p = Some tb'"
proof (induction n arbitrary: p tb)
  case (Suc n)
  obtain l where l: "get_byte m p = Some l" using Suc.prems get_byte_ex [of p m] by auto
  obtain v :: u32 where v: "ReadBigEndian 3 m (p + 1) = Some v"
    using Suc.prems ReadBigEndian_in [of "p + 1" 3 m] by auto
  have "p + 4 + 4 * n \<le> length m" using Suc.prems by simp
  from Suc.IH [OF this] l v ReadBigEndian3_bound [OF v] show ?case
    by (simp add: AddTargetBitrate_def tb_consts word_and_le1)
qed simp

lemma parse_bitrate_items_wire:
  "list_all bitrate_item_valid tb \<Longrightarrow> p = length xs \<Longrightarrow>
   parse_bitrate_items acc (length tb) (xs @ concat (map bitrate_item_wire tb) @ ys) p = Some (acc @ tb)"
proof (induction tb arbitrary: xs p acc)
  case (Cons i tb)
  let ?m = "xs @ concat (map bitrate_item_wire (i # tb)) @ ys"
  have v: "spatial_layer i \<le> 0x0F" "temporal_layer i \<le> 0x0F" "target_bitrate_kbps i \<le> 0x00FFFFFF"
    using Cons.prems by (simp_all add: bitrate_item_valid_def)
  have "unat (target_bitrate_kbps i) < 2 ^ 24" using v(3) by (simp add: word_le_nat_alt)
  then have k: "take_bit 24 (target_bitrate_kbps i) = target_bitrate_kbps i"
    by (simp add: word_unat_eq_iff unsigned_take_bit_eq take_bit_nat_eq_self)
  have "get_byte ?m p = Some (push_bit 4 (spatial_layer i) OR temporal_layer i)"
    using Cons.prems by (simp add: bitrate_item_wire_def get_byte_def nth_append)
  moreover have "ReadBigEndian 3 ?m (p + 1) = Some (target_bitrate_kbps i)"
    using Cons.prems k
      ReadBigEndian_be_bytes [of 3 "xs @ [push_bit 4 (spatial_layer i) OR temporal_layer i]"
        "target_bitrate_kbps i" "concat (map bitrate_item_wire tb) @ ys"]
    by (simp add: bitrate_item_wire_def)
  moreover have "parse_bitrate_items (acc @ [i]) (length tb)
      ((xs @ bitrate_item_wire i) @ concat (map bitrate_item_wire tb) @ ys) (p + 4) = Some ((acc @ [i]) @ tb)"
    using Cons.prems by (intro Cons.IH) (simp_all add: bitrate_item_wire_def)
  moreover have eta: "\<lparr>spatial_layer = spatial_layer i, temporal_layer = temporal_layer i,
      target_bitrate_kbps = target_bitrate_kbps i\<rparr> = i" by simp
  ultimately show ?case
    using v layer_nibbles [OF v(1,2)] by (simp add: AddTargetBitrate_def tb_consts eta)
qed simp

lemma TargetBitrate_Parse_wire:
  assumes "p = length xs" "list_all bitrate_item_valid tb" "length tb < 2 ^ 16"
  shows "TargetBitrate_Parse tb0 (xs @ target_bitrate_wire tb @ ys) p (of_nat (length tb)) = Some tb"
proof -
  have "unat (of_nat (length tb) :: u16) = length tb"
    using assms(3) by (simp add: unat_of_nat)
  moreover have "parse_bitrate_items [] (length tb) (xs @ target_bitrate_wire tb @ ys) (p + 4) = Some tb"
    using assms parse_bitrate_items_wire [of tb "p + 4" "xs @ [42, 0] @ be_bytes 2 (of_nat (length tb) :: u16)" "[]" ys]
    by (simp add: target_bitrate_wire_def)
  moreover have "get_byte (xs @ target_bitrate_wire tb @ ys) p = Some 42"
    "ReadBE16 (xs @ target_bitrate_wire tb @ ys) (p + 2) = Some (of_nat (length tb))"
    using assms(1) by (simp_all add: target_bitrate_wire_def get_byte_def nth_append)
  ultimately show ?thesis by (simp add: TargetBitrate_Parse_def tb_consts Let_def)
qed

subsection \<open>\<open>ExtendedReports\<close>\<close>

record extended_reports = rtcp_packet +
  rrtr_block :: "rrtr option"
  dlrr_block :: dlrr
  xr_target_bitrate :: "target_bitrate option"

definition Xr_kPacketType :: u8 where "Xr_kPacketType = 207"
definition kMaxNumberOfDlrrItems :: nat where "kMaxNumberOfDlrrItems = 50"
definition kXrBaseLength :: nat where "kXrBaseLength = 4"
definition kBlockHeaderSizeBytes :: nat where "kBlockHeaderSizeBytes = 4"

definition ExtendedReports_init :: extended_reports where
  "ExtendedReports_init = \<lparr>sender_ssrc = 0, rrtr_block = None, dlrr_block = [], xr_target_bitrate = None\<rparr>"

definition ParseRrtrBlock :: "extended_reports \<Rightarrow> bytes \<Rightarrow> nat \<Rightarrow> u16 \<Rightarrow> extended_reports option" where
  "ParseRrtrBlock xr m block len =
     (if len \<noteq> Rrtr_kBlockLength then Some xr
      else if rrtr_block xr \<noteq> None then Some xr
      else do {
        r \<leftarrow> Rrtr_Parse \<lparr>rrtr_ntp = 0\<rparr> m block;
        Some (xr\<lparr>rrtr_block := Some r\<rparr>) })"

definition ParseDlrrBlock :: "extended_reports \<Rightarrow> bytes \<Rightarrow> nat \<Rightarrow> u16 \<Rightarrow> extended_reports option" where
  "ParseDlrrBlock xr m block len =
     (if dlrr_block xr \<noteq> [] then Some xr
      else do {
        (d, _) \<leftarrow> Dlrr_Parse (dlrr_block xr) m block len;
        Some (xr\<lparr>dlrr_block := d\<rparr>) })"

definition ParseTargetBitrateBlock ::
  "extended_reports \<Rightarrow> bytes \<Rightarrow> nat \<Rightarrow> u16 \<Rightarrow> extended_reports option" where
  "ParseTargetBitrateBlock xr m block len =
     do { tb \<leftarrow> TargetBitrate_Parse [] m block len;
          Some (xr\<lparr>xr_target_bitrate := Some tb\<rparr>) }"

text \<open>The \<open>switch\<close> on the block type.\<close>

definition ParseXrBlock :: "u8 \<Rightarrow> extended_reports \<Rightarrow> bytes \<Rightarrow> nat \<Rightarrow> u16 \<Rightarrow> extended_reports option" where
  "ParseXrBlock block_type xr m block len =
     (if block_type = Rrtr_kBlockType then ParseRrtrBlock xr m block len
      else if block_type = Dlrr_kBlockType then ParseDlrrBlock xr m block len
      else if block_type = TargetBitrate_kBlockType then ParseTargetBitrateBlock xr m block len
      else Some xr)"

function parse_xr_blocks :: "extended_reports \<Rightarrow> bytes \<Rightarrow> nat \<Rightarrow> nat \<Rightarrow> (extended_reports \<times> bool) option" where
  "parse_xr_blocks xr m packet_end current_block =
     (if current_block + kBlockHeaderSizeBytes \<le> packet_end then
        (case (Read8 m current_block, ReadBE16 m (current_block + 2)) of
           (Some block_type, Some len) \<Rightarrow>
             let next_block = current_block + kBlockHeaderSizeBytes + unat len * 4
             in if next_block > packet_end then Some (xr, False)
                else (case ParseXrBlock block_type xr m current_block len of
                        None \<Rightarrow> None
                      | Some xr' \<Rightarrow> parse_xr_blocks xr' m packet_end next_block)
         | _ \<Rightarrow> None)
      else Some (xr, True))"
  by pat_completeness auto
termination
  by (relation "measure (\<lambda>(xr, m, e, p). e - p)") (auto simp: kBlockHeaderSizeBytes_def)

declare parse_xr_blocks.simps [simp del]

definition ExtendedReports_Parse ::
  "extended_reports \<Rightarrow> common_header \<Rightarrow> (extended_reports \<times> bool) option" where
  "ExtendedReports_Parse xr packet =
     do { dcheck (ch_packet_type packet = Xr_kPacketType);
          if unat (ch_payload_size packet) < kXrBaseLength then Some (xr, False)
          else do {
            v0 \<leftarrow> ReadBE32 (ch_payload packet) 0;
            parse_xr_blocks (xr\<lparr>sender_ssrc := v0, rrtr_block := None, dlrr_block := [],
                                xr_target_bitrate := None\<rparr>)
              (ch_payload packet) (unat (ch_payload_size packet)) kXrBaseLength } }"

definition SetRrtr :: "extended_reports \<Rightarrow> rrtr \<Rightarrow> extended_reports" where
  "SetRrtr xr r = xr\<lparr>rrtr_block := Some r\<rparr>"

definition AddDlrrItem :: "extended_reports \<Rightarrow> receive_time_info \<Rightarrow> extended_reports \<times> bool" where
  "AddDlrrItem xr time_info =
     (if length (dlrr_block xr) \<ge> kMaxNumberOfDlrrItems then (xr, False)
      else (xr\<lparr>dlrr_block := dlrr_block xr @ [time_info]\<rparr>, True))"

definition SetTargetBitrate :: "extended_reports \<Rightarrow> target_bitrate \<Rightarrow> extended_reports" where
  "SetTargetBitrate xr bitrate = xr\<lparr>xr_target_bitrate := Some bitrate\<rparr>"

definition RrtrLength :: "extended_reports \<Rightarrow> nat" where
  "RrtrLength xr = (if rrtr_block xr \<noteq> None then Rrtr_kLength else 0)"

definition DlrrLength :: "extended_reports \<Rightarrow> nat" where
  "DlrrLength xr = Dlrr_BlockLength (dlrr_block xr)"

definition TargetBitrateLength :: "extended_reports \<Rightarrow> nat" where
  "TargetBitrateLength xr =
     (case xr_target_bitrate xr of Some tb \<Rightarrow> TargetBitrate_BlockLength tb | None \<Rightarrow> 0)"

definition ExtendedReports_BlockLength :: "extended_reports \<Rightarrow> nat" where
  "ExtendedReports_BlockLength xr =
     kHeaderLength + kXrBaseLength + RrtrLength xr + DlrrLength xr + TargetBitrateLength xr"

definition ExtendedReports_Create :: "extended_reports \<Rightarrow> creator" where
  "ExtendedReports_Create xr cb max_length b =
     do { (b, ok) \<leftarrow> reserve (ExtendedReports_BlockLength xr) cb max_length b;
          if \<not> ok then Some (b, False)
          else do {
            let index_end = out_index b + ExtendedReports_BlockLength xr;
            hl \<leftarrow> HeaderLength (ExtendedReports_BlockLength xr);
            (packet, index) \<leftarrow> CreateHeader 0 Xr_kPacketType hl (out_packet b) (out_index b);
            packet \<leftarrow> WriteBE32 packet index (sender_ssrc xr);
            let index = index + 4;
            (packet, index) \<leftarrow> (case rrtr_block xr of
               None \<Rightarrow> Some (packet, index)
             | Some r \<Rightarrow> do { packet \<leftarrow> Rrtr_Create r packet index; Some (packet, index + Rrtr_kLength) });
            (packet, index) \<leftarrow> (if dlrr_block xr = [] then Some (packet, index)
               else do { packet \<leftarrow> Dlrr_Create (dlrr_block xr) packet index;
                         Some (packet, index + Dlrr_BlockLength (dlrr_block xr)) });
            (packet, index) \<leftarrow> (case xr_target_bitrate xr of
               None \<Rightarrow> Some (packet, index)
             | Some tb \<Rightarrow> do { packet \<leftarrow> TargetBitrate_Create tb packet index;
                               Some (packet, index + TargetBitrate_BlockLength tb) });
            dcheck (index = index_end);
            Some (b\<lparr>out_packet := packet, out_index := index\<rparr>, True) } }"


definition rrtr_part :: "extended_reports \<Rightarrow> bytes" where
  "rrtr_part xr = (case rrtr_block xr of None \<Rightarrow> [] | Some r \<Rightarrow> rrtr_wire r)"

definition tb_part :: "extended_reports \<Rightarrow> bytes" where
  "tb_part xr = (case xr_target_bitrate xr of None \<Rightarrow> [] | Some tb \<Rightarrow> target_bitrate_wire tb)"

definition xr_body_words :: "extended_reports \<Rightarrow> nat" where
  "xr_body_words xr = 1 + (if rrtr_block xr = None then 0 else 3)
     + (if dlrr_block xr = [] then 0 else 1 + 3 * length (dlrr_block xr))
     + (case xr_target_bitrate xr of None \<Rightarrow> 0 | Some tb \<Rightarrow> 1 + length tb)"

definition xr_wire :: "extended_reports \<Rightarrow> bytes" where
  "xr_wire xr = header_wire 0 207 (xr_body_words xr) False @ be_bytes 4 (sender_ssrc xr)
     @ rrtr_part xr @ dlrr_wire (dlrr_block xr) @ tb_part xr"

definition xr_valid :: "extended_reports \<Rightarrow> bool" where
  "xr_valid xr \<longleftrightarrow> xr_body_words xr \<le> 0xffff \<and>
     (case xr_target_bitrate xr of None \<Rightarrow> True | Some tb \<Rightarrow> list_all bitrate_item_valid tb)"

definition Xr_matches :: "common_header \<Rightarrow> bool" where
  "Xr_matches h \<longleftrightarrow> ch_packet_type h = 207"

lemmas xr_consts = Xr_kPacketType_def kXrBaseLength_def kBlockHeaderSizeBytes_def kHeaderLength_def
  Rrtr_kLength_def dlrr_consts tb_consts Rrtr_kBlockType_def Rrtr_kBlockLength_def

lemmas xr_lengths = RrtrLength_def DlrrLength_def TargetBitrateLength_def
  TargetBitrate_BlockLength_def Dlrr_BlockLength_def

lemma ExtendedReports_BlockLength_eq: "ExtendedReports_BlockLength xr = 4 + 4 * xr_body_words xr"
  by (simp add: ExtendedReports_BlockLength_def xr_lengths xr_consts xr_body_words_def
      split: option.split)

lemma length_xr_wire [simp]: "length (xr_wire xr) = ExtendedReports_BlockLength xr"
  by (simp add: xr_wire_def ExtendedReports_BlockLength_eq xr_body_words_def rrtr_part_def tb_part_def
      length_dlrr_wire Dlrr_BlockLength_def xr_consts split: option.split)

lemma length_dlrr_wire_eq:
  "length (dlrr_wire d) = (if d = [] then 0 else 4 + 12 * length d)"
  by (simp add: length_dlrr_wire Dlrr_BlockLength_def dlrr_consts)

interpretation xr: rtcp_unfragmented ExtendedReports_BlockLength ExtendedReports_Create xr_wire xr_valid
proof (rule rtcp_unfragmentedI [OF _ _ ExtendedReports_Create_def], goal_cases)
  case (3 p b)
  have w: "xr_body_words p \<le> 0xffff" using 3(1) by (simp add: xr_valid_def)
  have tb: "xr_target_bitrate p = Some tb \<Longrightarrow> length tb < 2 ^ 16" for tb
    using w by (simp add: xr_body_words_def)
  have dl: "3 * length (dlrr_block p) < 2 ^ 16"
    using w by (cases "dlrr_block p = []") (simp_all add: xr_body_words_def split: option.splits)
  show ?case
    using 3(2) w dl tb
    by (cases "rrtr_block p"; cases "dlrr_block p = []"; cases "xr_target_bitrate p")
       (simp_all add: ExtendedReports_BlockLength_eq mem_simps create_simps Let_def xr_consts
          xr_body_words_def xr_wire_def rrtr_part_def tb_part_def TargetBitrate_BlockLength_def
          Dlrr_BlockLength_def length_dlrr_wire_eq dlrr_wire_def [of "[]"] ac_simps Suc3_eq_add_3
          del: of_nat_mult)
qed (simp_all add: ExtendedReports_BlockLength_eq)

text \<open>One iteration of the block loop on each of the written blocks.\<close>

lemma parse_xr_rrtr:
  assumes "m = xs @ rrtr_wire r @ ys" "p = length xs" "p + 12 \<le> e" "rrtr_block xr = None"
  shows "parse_xr_blocks xr m e p = parse_xr_blocks (xr\<lparr>rrtr_block := Some r\<rparr>) m e (p + 12)"
proof -
  have "Read8 m p = Some 4" "ReadBE16 m (p + 2) = Some 2"
    using assms(1,2) by (simp_all add: Read8_def get_byte_def nth_append rrtr_wire_def)
  moreover have "Rrtr_Parse \<lparr>rrtr_ntp = 0\<rparr> m p = Some r"
    unfolding assms(1) by (rule Rrtr_Parse_wire [OF assms(2)])
  ultimately show ?thesis
    using assms(3,4)
    by (subst parse_xr_blocks.simps) (simp add: xr_consts ParseXrBlock_def ParseRrtrBlock_def Let_def add.commute)
qed

lemma parse_xr_dlrr:
  assumes "m = xs @ dlrr_wire d @ ys" "p = length xs" "p + length (dlrr_wire d) \<le> e"
    and "dlrr_block xr = []" "3 * length d < 2 ^ 16"
  shows "parse_xr_blocks xr m e p = parse_xr_blocks (xr\<lparr>dlrr_block := d\<rparr>) m e (p + length (dlrr_wire d))"
proof (cases "d = []")
  case True
  moreover have "xr\<lparr>dlrr_block := []\<rparr> = xr" using assms(4) by simp
  ultimately show ?thesis by (simp add: dlrr_wire_def)
next
  case False
  have "Read8 m p = Some 5" "ReadBE16 m (p + 2) = Some (of_nat (3 * length d))"
    using assms(1,2) False
    by (simp_all add: Read8_def get_byte_def nth_append dlrr_wire_def del: of_nat_mult)
  moreover have "unat (of_nat (3 * length d) :: u16) = 3 * length d"
    using assms(5) by (simp add: unat_of_nat del: of_nat_mult)
  moreover have "Dlrr_Parse [] m p (of_nat (3 * length d)) = Some (d, True)"
    unfolding assms(1) by (rule Dlrr_Parse_wire [OF assms(2) False assms(5)])
  ultimately show ?thesis
    using assms(3,4) False
    by (subst parse_xr_blocks.simps)
       (simp add: xr_consts ParseXrBlock_def ParseDlrrBlock_def Let_def length_dlrr_wire_eq add.assoc
          del: of_nat_mult)
qed

lemma parse_xr_tb:
  assumes "m = xs @ target_bitrate_wire tb @ ys" "p = length xs" "p + 4 + 4 * length tb \<le> e"
    and "list_all bitrate_item_valid tb" "length tb < 2 ^ 16"
  shows "parse_xr_blocks xr m e p
    = parse_xr_blocks (xr\<lparr>xr_target_bitrate := Some tb\<rparr>) m e (p + 4 + 4 * length tb)"
proof -
  have "Read8 m p = Some 42" "ReadBE16 m (p + 2) = Some (of_nat (length tb))"
    using assms(1,2) by (simp_all add: Read8_def get_byte_def nth_append target_bitrate_wire_def)
  moreover have "unat (of_nat (length tb) :: u16) = length tb"
    using assms(5) by (simp add: unat_of_nat)
  moreover have "TargetBitrate_Parse [] m p (of_nat (length tb)) = Some tb"
    unfolding assms(1) by (rule TargetBitrate_Parse_wire [OF assms(2,4,5)])
  ultimately show ?thesis
    using assms(3)
    by (subst parse_xr_blocks.simps)
       (simp add: xr_consts ParseXrBlock_def ParseTargetBitrateBlock_def Let_def mult.commute)
qed

lemma parse_xr_end: "parse_xr_blocks xr m e e = Some (xr, True)"
  by (subst parse_xr_blocks.simps) (simp add: xr_consts)

lemma parse_xr_parts:
  assumes v: "xr_valid p" and m: "m = be_bytes 4 (sender_ssrc p) @ rrtr_part p @ dlrr_wire (dlrr_block p)
      @ tb_part p @ rest" and e: "e = 4 * xr_body_words p"
    and x: "rrtr_block x = None" "dlrr_block x = []" "xr_target_bitrate x = None"
  shows "parse_xr_blocks x m e 4 = Some (x\<lparr>rrtr_block := rrtr_block p, dlrr_block := dlrr_block p,
    xr_target_bitrate := xr_target_bitrate p\<rparr>, True)"
proof -
  let ?x1 = "x\<lparr>rrtr_block := rrtr_block p\<rparr>" and ?p1 = "4 + length (rrtr_part p)"
  let ?x2 = "?x1\<lparr>dlrr_block := dlrr_block p\<rparr>" and ?p2 = "4 + length (rrtr_part p) + length (dlrr_wire (dlrr_block p))"
  have dl: "3 * length (dlrr_block p) < 2 ^ 16"
    using v by (cases "dlrr_block p = []") (simp_all add: xr_valid_def xr_body_words_def split: option.splits)
  have e': "e = ?p2 + length (tb_part p)"
    using e by (simp add: xr_body_words_def rrtr_part_def tb_part_def length_dlrr_wire_eq split: option.splits)
  have "parse_xr_blocks x m e 4 = parse_xr_blocks ?x1 m e ?p1"
  proof (cases "rrtr_block p")
    case (Some r)
    with parse_xr_rrtr [of m "be_bytes 4 (sender_ssrc p)" r _ 4 e x] m e' x show ?thesis
      by (simp add: rrtr_part_def)
  next
    case None
    moreover have "x\<lparr>rrtr_block := None\<rparr> = x" using x by simp
    ultimately show ?thesis by (simp add: rrtr_part_def)
  qed
  also have "\<dots> = parse_xr_blocks ?x2 m e ?p2"
    using parse_xr_dlrr [of m "be_bytes 4 (sender_ssrc p) @ rrtr_part p" "dlrr_block p" _ ?p1 e ?x1] m e' x dl
    by (simp add: add.assoc)
  also have "\<dots> = Some (?x2\<lparr>xr_target_bitrate := xr_target_bitrate p\<rparr>, True)"
  proof (cases "xr_target_bitrate p")
    case None
    with e' x parse_xr_end [of ?x2 m e] show ?thesis by (simp add: tb_part_def)
  next
    case (Some tb)
    have "list_all bitrate_item_valid tb" "length tb < 2 ^ 16"
      using v Some by (simp_all add: xr_valid_def xr_body_words_def)
    with parse_xr_tb [of m "be_bytes 4 (sender_ssrc p) @ rrtr_part p @ dlrr_wire (dlrr_block p)" tb rest ?p2 e ?x2]
      m e' Some parse_xr_end
    show ?thesis by (simp add: tb_part_def add.assoc)
  qed
  finally show ?thesis by simp
qed

lemma ParseXrBlock_safe:
  assumes "Read8 m p = Some t" "ReadBE16 m (p + 2) = Some len" "p + 4 + unat len * 4 \<le> length m"
  shows "\<exists>xr'. ParseXrBlock t xr m p len = Some xr'"
proof -
  have "\<exists>xr'. ParseRrtrBlock xr m p len = Some xr'" if "t = 4"
  proof (cases "len = 2")
    case True
    then have "p + 12 \<le> length m" using assms(3) by simp
    with True that assms(1,2) ReadBE32_in [of "p + 4" m] ReadBE32_in [of "p + 8" m] show ?thesis
      by (auto simp: ParseRrtrBlock_def Rrtr_Parse_def xr_consts Read8_def)
  qed (simp add: ParseRrtrBlock_def xr_consts)
  moreover have "\<exists>xr'. ParseDlrrBlock xr m p len = Some xr'" if "t = 5"
  proof -
    have "\<exists>d. unat len mod 3 = 0 \<longrightarrow> parse_sub_blocks (unat len div 3) m (p + 4) = Some d"
      using parse_sub_blocks_total [of "p + 4" "unat len div 3" m] assms(3) by fastforce
    with that assms(1,2) show ?thesis
      by (auto simp: ParseDlrrBlock_def Dlrr_Parse_def xr_consts Read8_def)
  qed
  moreover have "\<exists>xr'. ParseTargetBitrateBlock xr m p len = Some xr'" if "t = 42"
    using that assms parse_bitrate_items_total [of "p + 4" "unat len" m "[]"]
    by (auto simp: ParseTargetBitrateBlock_def TargetBitrate_Parse_def xr_consts Read8_def Let_def)
  ultimately show ?thesis by (simp add: ParseXrBlock_def xr_consts)
qed

lemma parse_xr_blocks_safe:
  "e \<le> length m \<Longrightarrow> \<exists>xr' ok. parse_xr_blocks xr m e p = Some (xr', ok)"
proof (induction xr m e p rule: parse_xr_blocks.induct)
  case (1 xr m e p)
  show ?case
  proof (cases "p + 4 \<le> e")
    case True
    then obtain t len where rd: "Read8 m p = Some t" "ReadBE16 m (p + 2) = Some len"
      using "1.prems" get_byte_ex [of p m] ReadBE16_in [of "p + 2" m] by (auto simp: Read8_def)
    show ?thesis
    proof (cases "p + 4 + unat len * 4 \<le> e")
      case nxt: True
      obtain xr' where xr': "ParseXrBlock t xr m p len = Some xr'"
        using ParseXrBlock_safe [OF rd, of xr] nxt "1.prems" by auto
      have "\<exists>xr'' ok. parse_xr_blocks xr' m e (p + 4 + unat len * 4) = Some (xr'', ok)"
        using "1.IH" [OF _ _ _ _ refl _ xr'] True nxt rd "1.prems" by (simp add: xr_consts)
      with True nxt rd xr' show ?thesis
        by (subst parse_xr_blocks.simps) (simp add: xr_consts Let_def)
    next
      case False
      with True rd show ?thesis
        by (subst parse_xr_blocks.simps) (simp add: xr_consts Let_def ex_bool_eq)
    qed
  next
    case False
    then show ?thesis by (subst parse_xr_blocks.simps) (simp add: xr_consts ex_bool_eq)
  qed
qed

interpretation xr: rtcp_codec ExtendedReports_BlockLength ExtendedReports_Create xr_wire xr_valid
  ExtendedReports_Parse Xr_matches "\<lambda>_ p. p"
proof (unfold_locales, goal_cases)
  case (1 p rest sz h0 p0)
  let ?body = "be_bytes 4 (sender_ssrc p) @ rrtr_part p @ dlrr_wire (dlrr_block p) @ tb_part p"
  let ?x = "p0\<lparr>sender_ssrc := sender_ssrc p, rrtr_block := None, dlrr_block := [], xr_target_bitrate := None\<rparr>"
  have "parse_xr_blocks ?x (?body @ rest) (4 * xr_body_words p) 4 = Some (?x\<lparr>rrtr_block := rrtr_block p,
      dlrr_block := dlrr_block p, xr_target_bitrate := xr_target_bitrate p\<rparr>, True)"
    by (rule parse_xr_parts [OF 1(1), where rest = rest]) simp_all
  then have blocks: "parse_xr_blocks ?x (?body @ rest) (4 * xr_body_words p) 4 = Some (p, True)"
    by simp
  have len: "length ?body = 4 * xr_body_words p"
    using length_xr_wire [of p] by (simp add: xr_wire_def ExtendedReports_BlockLength_eq)
  show ?case
  proof (rule parse_wireI [OF 1(2), of 0 207 "xr_body_words p" ?body])
    fix h :: common_header
    assume h: "ch_packet_type h = 207" "unat (ch_payload_size h) = 4 * xr_body_words p"
      "ch_payload h = ?body @ rest"
    have "4 \<le> 4 * xr_body_words p" by (simp add: xr_body_words_def)
    with h blocks show "Xr_matches h \<and> ExtendedReports_Parse p0 h = Some (p, True)"
      by (simp add: Xr_matches_def ExtendedReports_Parse_def xr_consts)
  qed (use 1(1) len in \<open>simp_all add: xr_wire_def xr_valid_def\<close>)
next
  case (2 h buffer sz p)
  have len: "unat (ch_payload_size h) \<le> length (ch_payload h)"
    by (rule header_ok_payload_size [OF 2(1,2)])
  show ?case
  proof (cases "unat (ch_payload_size h) < 4")
    case True
    with 2(3) show ?thesis by (auto simp: Xr_matches_def ExtendedReports_Parse_def xr_consts)
  next
    case False
    then obtain v where "ReadBE32 (ch_payload h) 0 = Some v"
      using len ReadBE32_in [of 0 "ch_payload h"] by auto
    with 2(3) False parse_xr_blocks_safe [OF len] show ?thesis
      by (simp add: Xr_matches_def ExtendedReports_Parse_def xr_consts)
  qed
qed

end
