(* ===== verification/Seq_Num.thy ===== *)
theory Seq_Num
  imports Rtc_Prelude
begin

text \<open>
  Wrapping sequence numbers: \<open>src/src/myrtc/rtc_base/mod_ops.h\<close>,
  \<open>src/src/myrtc/rtc_base/sequence_number_util.h\<close> and
  \<open>src/src/myrtc/module/module_common_types_public.h\<close>.

  \<open>uint16_t\<close> operands are promoted to \<open>int\<close> before a subtraction, so \<open>a - b == 0x8000\<close> in the
  sources is a comparison of integers for 16-bit numbers and of wrapped words for 32-bit ones.
  The 16-bit functions carry the suffix \<open>16\<close> and keep the promotion; a single word-level
  specification (\<open>ahead_spec\<close>) covers both.
\<close>

subsection \<open>\<open>mod_ops.h\<close>\<close>

definition mod_Add :: "u64 \<Rightarrow> u64 \<Rightarrow> u64 \<Rightarrow> u64 option" where
  "mod_Add M a b =
     do { dcheck (a < M);
          let t = M - b mod M;
          let res = a - t;
          if t > a then Some (res + M) else Some res }"

definition mod_Subtract :: "u64 \<Rightarrow> u64 \<Rightarrow> u64 \<Rightarrow> u64 option" where
  "mod_Subtract M a b =
     do { dcheck (a < M);
          let sub = b mod M;
          if a < sub then Some (M - (sub - a)) else Some (a - sub) }"

definition ForwardDiff :: "'a::len word \<Rightarrow> 'a word \<Rightarrow> 'a word" where
  "ForwardDiff a b = b - a"

definition ReverseDiff :: "'a::len word \<Rightarrow> 'a word \<Rightarrow> 'a word" where
  "ReverseDiff a b = a - b"

definition MinDiff :: "'a::len word \<Rightarrow> 'a word \<Rightarrow> 'a word" where
  "MinDiff a b = min (ForwardDiff a b) (ReverseDiff a b)"

definition ForwardDiff_M :: "'a::len word \<Rightarrow> 'a word \<Rightarrow> 'a word \<Rightarrow> 'a word option" where
  "ForwardDiff_M M a b =
     do { dcheck (a < M); dcheck (b < M); Some (if a \<le> b then b - a else M - (a - b)) }"

definition ReverseDiff_M :: "'a::len word \<Rightarrow> 'a word \<Rightarrow> 'a word \<Rightarrow> 'a word option" where
  "ReverseDiff_M M a b =
     do { dcheck (a < M); dcheck (b < M); Some (if b \<le> a then a - b else M - (b - a)) }"

definition MinDiff_M :: "'a::len word \<Rightarrow> 'a word \<Rightarrow> 'a word \<Rightarrow> 'a word option" where
  "MinDiff_M M a b =
     do { f \<leftarrow> ForwardDiff_M M a b; r \<leftarrow> ReverseDiff_M M a b; Some (min f r) }"

subsection \<open>\<open>sequence_number_util.h\<close>\<close>

definition AheadOrAt_M :: "'a::len word \<Rightarrow> 'a word \<Rightarrow> 'a word \<Rightarrow> bool option" where
  "AheadOrAt_M M a b =
     do { let maxDist = M div 2;
          d \<leftarrow> MinDiff_M M a b;
          if M AND 1 = 0 \<and> d = maxDist then Some (b < a)
          else do { f \<leftarrow> ForwardDiff_M M b a; Some (f \<le> maxDist) } }"

definition AheadOrAt16 :: "u16 \<Rightarrow> u16 \<Rightarrow> bool" where
  "AheadOrAt16 a b =
     (let maxDist = 0x8000 :: u16
      in if uint a - uint b = uint maxDist then b < a
         else ForwardDiff b a < maxDist)"

definition AheadOf16 :: "u16 \<Rightarrow> u16 \<Rightarrow> bool" where
  "AheadOf16 a b \<longleftrightarrow> a \<noteq> b \<and> AheadOrAt16 a b"

definition AheadOrAt32 :: "u32 \<Rightarrow> u32 \<Rightarrow> bool" where
  "AheadOrAt32 a b =
     (let maxDist = 0x80000000 :: u32
      in if a - b = maxDist then b < a else ForwardDiff b a < maxDist)"

definition AheadOf32 :: "u32 \<Rightarrow> u32 \<Rightarrow> bool" where
  "AheadOf32 a b \<longleftrightarrow> a \<noteq> b \<and> AheadOrAt32 a b"

definition AscendingSeqNumComp :: "u16 \<Rightarrow> u16 \<Rightarrow> bool" where
  "AscendingSeqNumComp a b = AheadOf16 a b"

definition DescendingSeqNumComp :: "u16 \<Rightarrow> u16 \<Rightarrow> bool" where
  "DescendingSeqNumComp a b = AheadOf16 b a"

record 'a seq_num_unwrapper =
  last_unwrapped :: int
  snu_last_value :: "'a option"

definition SeqNumUnwrapper_init :: "'a seq_num_unwrapper" where
  "SeqNumUnwrapper_init = \<lparr>last_unwrapped = 0, snu_last_value = None\<rparr>"

definition SeqNumUnwrapper_Unwrap :: "u16 seq_num_unwrapper \<Rightarrow> u16 \<Rightarrow> u16 seq_num_unwrapper \<times> int" where
  "SeqNumUnwrapper_Unwrap s value =
     (let u = (case snu_last_value s of
                 None \<Rightarrow> uint value
               | Some last_value \<Rightarrow>
                   (let lu = last_unwrapped s + uint (ForwardDiff last_value value)
                    in if \<not> AheadOrAt16 value last_value then lu - 0x10000 else lu))
      in (s\<lparr>last_unwrapped := u, snu_last_value := Some value\<rparr>, u))"

subsection \<open>\<open>module_common_types_public.h\<close>\<close>

definition IsNewerSequenceNumber :: "u16 \<Rightarrow> u16 \<Rightarrow> bool" where
  "IsNewerSequenceNumber value prev_value =
     (let kBreakpoint = 0x8000 :: u16
      in if uint value - uint prev_value = uint kBreakpoint then value > prev_value
         else value \<noteq> prev_value \<and> value - prev_value < kBreakpoint)"

definition IsNewerTimestamp :: "u32 \<Rightarrow> u32 \<Rightarrow> bool" where
  "IsNewerTimestamp value prev_value =
     (let kBreakpoint = 0x80000000 :: u32
      in if value - prev_value = kBreakpoint then value > prev_value
         else value \<noteq> prev_value \<and> value - prev_value < kBreakpoint)"

definition LatestSequenceNumber :: "u16 \<Rightarrow> u16 \<Rightarrow> u16" where
  "LatestSequenceNumber s1 s2 = (if IsNewerSequenceNumber s1 s2 then s1 else s2)"

definition LatestTimestamp :: "u32 \<Rightarrow> u32 \<Rightarrow> u32" where
  "LatestTimestamp t1 t2 = (if IsNewerTimestamp t1 t2 then t1 else t2)"

text \<open>\<open>Unwrapper<uint16_t>\<close> and \<open>Unwrapper<uint32_t>\<close>; \<open>int64_t\<close> values are integers. The
  difference \<open>value - cropped_last\<close> is an \<open>int\<close> for 16-bit and a wrapped word for 32-bit values.\<close>

definition UnwrapWithoutUpdate16 :: "int option \<Rightarrow> u16 \<Rightarrow> int" where
  "UnwrapWithoutUpdate16 last_value value =
     (case last_value of
        None \<Rightarrow> uint value
      | Some lv \<Rightarrow>
          (let kMaxPlusOne = 0x10000;
               cropped_last = (of_int lv :: u16);
               delta = uint value - uint cropped_last;
               delta = (if IsNewerSequenceNumber value cropped_last
                        then (if delta < 0 then delta + kMaxPlusOne else delta)
                        else if delta > 0 \<and> lv + delta - kMaxPlusOne \<ge> 0 then delta - kMaxPlusOne
                        else delta)
           in lv + delta))"

definition UnwrapWithoutUpdate32 :: "int option \<Rightarrow> u32 \<Rightarrow> int" where
  "UnwrapWithoutUpdate32 last_value value =
     (case last_value of
        None \<Rightarrow> uint value
      | Some lv \<Rightarrow>
          (let kMaxPlusOne = 0x100000000;
               cropped_last = (of_int lv :: u32);
               delta = uint (value - cropped_last);
               delta = (if IsNewerTimestamp value cropped_last
                        then (if delta < 0 then delta + kMaxPlusOne else delta)
                        else if delta > 0 \<and> lv + delta - kMaxPlusOne \<ge> 0 then delta - kMaxPlusOne
                        else delta)
           in lv + delta))"

definition Unwrap16 :: "int option \<Rightarrow> u16 \<Rightarrow> int option \<times> int" where
  "Unwrap16 last_value value = (let u = UnwrapWithoutUpdate16 last_value value in (Some u, u))"

definition Unwrap32 :: "int option \<Rightarrow> u32 \<Rightarrow> int option \<times> int" where
  "Unwrap32 last_value value = (let u = UnwrapWithoutUpdate32 last_value value in (Some u, u))"

subsection \<open>One specification for all comparisons\<close>

definition ahead_spec :: "'a::len word \<Rightarrow> 'a word \<Rightarrow> bool" where
  "ahead_spec a b \<longleftrightarrow> a \<noteq> b \<and>
     (unat (a - b) < 2 ^ (LENGTH('a) - 1) \<or> unat (a - b) = 2 ^ (LENGTH('a) - 1) \<and> b < a)"

lemma unat_diff16:
  "unat (a - b :: u16) = (if unat b \<le> unat a then unat a - unat b else unat a + 65536 - unat b)"
  unfolding unat_sub_if' [of a b] by simp

lemma uint_diff16: "uint (a - b :: u16) = (uint a - uint b) mod 65536"
  by (simp add: uint_word_ariths)

lemma half16:
  assumes "a \<noteq> b"
  shows "uint a - uint b = 32768 \<longleftrightarrow> unat (a - b :: u16) = 32768 \<and> b < a"
proof -
  have u: "uint a = int (unat a)" "uint b = int (unat b)" by simp_all
  show ?thesis
  proof (cases "unat b \<le> unat a")
    case True
    then show ?thesis
      unfolding u unat_diff16 word_less_nat_alt by (simp only: if_True) arith
  next
    case False
    then show ?thesis
      unfolding u word_less_nat_alt using unat_u16_less [of b] by linarith
  qed
qed

lemma AheadOf16_spec: "AheadOf16 a b \<longleftrightarrow> ahead_spec a b"
proof (cases "a = b")
  case False
  then show ?thesis
    using half16 [OF False]
    by (auto simp: AheadOf16_def AheadOrAt16_def ahead_spec_def ForwardDiff_def Let_def
        word_less_nat_alt [of "_ - _"])
qed (simp add: AheadOf16_def ahead_spec_def)

lemma IsNewerSequenceNumber_spec: "IsNewerSequenceNumber a b \<longleftrightarrow> ahead_spec a b"
proof (cases "a = b")
  case False
  then show ?thesis
    using half16 [OF False]
    by (auto simp: IsNewerSequenceNumber_def ahead_spec_def Let_def word_less_nat_alt [of "_ - _"])
qed (simp add: IsNewerSequenceNumber_def ahead_spec_def)

lemma AheadOrAt16_iff: "AheadOrAt16 a b \<longleftrightarrow> a = b \<or> AheadOf16 a b"
  by (auto simp: AheadOf16_def AheadOrAt16_def ForwardDiff_def Let_def)

lemma half32: "a - b = (0x80000000 :: u32) \<longleftrightarrow> unat (a - b) = 0x80000000"
proof
  assume "unat (a - b) = 0x80000000"
  then have "unat (a - b) = unat (0x80000000 :: u32)" by simp
  then show "a - b = 0x80000000" by (rule unsigned_word_eqI)
qed simp

lemma AheadOf32_spec: "AheadOf32 a b \<longleftrightarrow> ahead_spec a b"
  using half32 [of a b]
  by (auto simp: AheadOf32_def AheadOrAt32_def ahead_spec_def ForwardDiff_def Let_def
      word_less_nat_alt [of "_ - _"])

lemma IsNewerTimestamp_spec: "IsNewerTimestamp a b \<longleftrightarrow> ahead_spec a b"
  using half32 [of a b]
  by (auto simp: IsNewerTimestamp_def ahead_spec_def Let_def word_less_nat_alt [of "_ - _"])


subsection \<open>The comparison as an order\<close>

text \<open>Of two different numbers exactly one is ahead: the tie at maximal distance is broken by
  value.\<close>

lemma unat_minus_diff:
  fixes a b :: "'a::len word"
  assumes "a \<noteq> b"
  shows "unat (b - a) = 2 ^ LENGTH('a) - unat (a - b)"
proof -
  have "b - a = 0 - (a - b)" "0 < unat (a - b)" using assms by (simp_all add: unat_gt_0)
  then show ?thesis using unat_sub_if' [of 0 "a - b"] by simp
qed

lemma ahead_spec_total:
  fixes a b :: "'a::len word"
  assumes "a \<noteq> b"
  shows "ahead_spec a b \<longleftrightarrow> \<not> ahead_spec b a"
proof -
  let ?H = "2 ^ (LENGTH('a) - 1) :: nat"
  have two: "2 ^ LENGTH('a) = 2 * ?H" by (simp flip: power_Suc)
  have lt: "unat (a - b) < 2 ^ LENGTH('a)" "0 < unat (a - b)"
    using assms by (simp_all add: unsigned_less unat_gt_0)
  have "unat (b - a) = 2 * ?H - unat (a - b)" using unat_minus_diff [OF assms] two by simp
  moreover have "a < b \<longleftrightarrow> \<not> b < a" using assms by auto
  ultimately show ?thesis
    using assms lt unfolding ahead_spec_def two
    by (cases "unat (a - b)" ?H rule: linorder_cases) auto
qed

text \<open>Inside a window of half the number range the order is that of the offsets.\<close>

lemma ahead_spec_window:
  fixes a b c :: "'a::len word"
  assumes "unat (a - c) < 2 ^ (LENGTH('a) - 1)" "unat (b - c) < 2 ^ (LENGTH('a) - 1)"
  shows "ahead_spec a b \<longleftrightarrow> unat (b - c) < unat (a - c)"
proof -
  let ?H = "2 ^ (LENGTH('a) - 1) :: nat"
  have eq: "a - b = (a - c) - (b - c)" by simp
  have two: "2 ^ LENGTH('a) = 2 * ?H" by (simp flip: power_Suc)
  have ne: "a = b \<longleftrightarrow> unat (a - c) = unat (b - c)" by (simp add: word_unat_eq_iff [symmetric])
  have d: "unat (a - b) = (if unat (b - c) \<le> unat (a - c) then unat (a - c) - unat (b - c)
      else unat (a - c) + 2 * ?H - unat (b - c))"
    by (simp only: eq unat_sub_if' two)
  show ?thesis
  proof (cases "unat (b - c) \<le> unat (a - c)")
    case True
    with assms show ?thesis unfolding ahead_spec_def ne d by (simp only: if_True) linarith
  next
    case False
    with assms show ?thesis unfolding ahead_spec_def ne d by (simp only: if_False) linarith
  qed
qed

subsection \<open>Unwrapping\<close>

text \<open>A stream of true positions that moves by less than half the range per step.\<close>

lemma mod_step16:
  fixes x y :: int
  assumes "\<bar>x - y\<bar> < 32768"
  shows "(x - y) mod 65536 = (if y \<le> x then x - y else x - y + 65536)"
proof (cases "y \<le> x")
  case True
  with assms show ?thesis by (simp add: mod_pos_pos_trivial)
next
  case False
  have "(x - y) mod 65536 = (x - y + 65536) mod 65536" by simp
  also have "\<dots> = x - y + 65536" using False assms by (intro mod_pos_pos_trivial) simp_all
  finally show ?thesis using False by simp
qed

lemma ahead_spec_of_int16:
  assumes "\<bar>x - y\<bar> < 32768"
  shows "ahead_spec (of_int x :: u16) (of_int y) \<longleftrightarrow> y < x"
proof -
  have u: "uint (of_int x - of_int y :: u16) = (x - y) mod 65536"
    by (simp add: uint_word_of_int flip: of_int_diff)
  have "unat (of_int x - of_int y :: u16) = nat ((x - y) mod 65536)"
    using u by (metis nat_int of_nat_unat)
  moreover note mod_step16 [OF assms]
  moreover have "(of_int x :: u16) = of_int y \<longleftrightarrow> (x - y) mod 65536 = 0"
    using u by (metis right_minus_eq uint_0_iff)
  ultimately show ?thesis
    using assms unfolding ahead_spec_def by (auto split: if_splits)
qed

lemma SeqNumUnwrapper_step:
  assumes "last_unwrapped s = y" "snu_last_value s = Some (of_int y)" "\<bar>x - y\<bar> < 32768"
  shows "SeqNumUnwrapper_Unwrap s (of_int x)
    = (s\<lparr>last_unwrapped := x, snu_last_value := Some (of_int x)\<rparr>, x)"
proof -
  have f: "uint (ForwardDiff (of_int y) (of_int x) :: u16) = (x - y) mod 65536"
    by (simp add: ForwardDiff_def uint_word_of_int flip: of_int_diff)
  have "(of_int x :: u16) = of_int y \<longleftrightarrow> x = y"
    using f mod_step16 [OF assms(3)] assms(3)
    by (auto simp: ForwardDiff_def split: if_splits)
  then have "AheadOrAt16 (of_int x) (of_int y) \<longleftrightarrow> y \<le> x"
    using ahead_spec_of_int16 [OF assms(3)] by (auto simp: AheadOrAt16_iff AheadOf16_spec)
  with f mod_step16 [OF assms(3)] assms(1,2) show ?thesis
    by (auto simp: SeqNumUnwrapper_Unwrap_def Let_def)
qed

lemma mod_window16:
  fixes t :: int
  assumes "- 65536 \<le> t" "t < 2 * 65536"
  shows "t mod 65536 = (if t < 0 then t + 65536 else if t < 65536 then t else t - 65536)"
proof -
  have "t mod 65536 = t + 65536" if "t < 0"
  proof -
    have "(t + 65536) mod 65536 = t + 65536"
      using that assms by (intro mod_pos_pos_trivial) simp_all
    then show ?thesis by simp
  qed
  moreover have "t mod 65536 = t - 65536" if "65536 \<le> t"
  proof -
    have "(t - 65536) mod 65536 = t - 65536"
      using that assms by (intro mod_pos_pos_trivial) simp_all
    then show ?thesis by simp
  qed
  moreover have "t mod 65536 = t" if "0 \<le> t" "t < 65536"
    using that by (intro mod_pos_pos_trivial) simp_all
  ultimately show ?thesis by simp
qed

lemma Unwrap16_step:
  assumes "0 \<le> y" "0 \<le> x" "\<bar>x - y\<bar> < 32768"
  shows "Unwrap16 (Some y) (of_int x) = (Some x, x)"
proof -
  let ?c = "of_int y :: u16" and ?v = "of_int x :: u16"
  have u: "uint ?v = x mod 65536" "uint ?c = y mod 65536" by (simp_all add: uint_word_of_int)
  have n: "IsNewerSequenceNumber ?v ?c \<longleftrightarrow> y < x"
    using ahead_spec_of_int16 [OF assms(3)] by (simp add: IsNewerSequenceNumber_spec)
  obtain q r where y: "y = 65536 * q + r" "0 \<le> r" "r < 65536"
    by (metis mult_div_mod_eq pos_mod_bound pos_mod_sign zero_less_numeral)
  define d where "d = x - y"
  have yr: "y mod 65536 = r" using y by (simp add: mod_pos_pos_trivial)
  have "x = 65536 * q + (r + d)" using y(1) by (simp add: d_def)
  then have "x mod 65536 = (r + d) mod 65536" by simp
  moreover have "(r + d) mod 65536 = (if r + d < 0 then r + d + 65536
      else if r + d < 65536 then r + d else r + d - 65536)"
    by (rule mod_window16) (use y(2,3) assms(3) in \<open>simp_all add: d_def\<close>)
  ultimately have xm: "x mod 65536 = (if r + d < 0 then r + d + 65536
      else if r + d < 65536 then r + d else r + d - 65536)" by simp
  show ?thesis
    using assms y(2,3)
    by (auto simp: Unwrap16_def UnwrapWithoutUpdate16_def Let_def u yr xm n d_def)
qed

text \<open>Positions as the numbers on the wire, and the outputs of an unwrapper fed with them.\<close>

fun SeqNumUnwrapper_run :: "u16 seq_num_unwrapper \<Rightarrow> u16 list \<Rightarrow> int list" where
  "SeqNumUnwrapper_run s [] = []"
| "SeqNumUnwrapper_run s (v # vs) =
     (case SeqNumUnwrapper_Unwrap s v of (s', u) \<Rightarrow> u # SeqNumUnwrapper_run s' vs)"

fun Unwrap16_run :: "int option \<Rightarrow> u16 list \<Rightarrow> int list" where
  "Unwrap16_run s [] = []"
| "Unwrap16_run s (v # vs) = (case Unwrap16 s v of (s', u) \<Rightarrow> u # Unwrap16_run s' vs)"

abbreviation slow_moving :: "int list \<Rightarrow> bool" where
  "slow_moving xs \<equiv> successively (\<lambda>y x. \<bar>x - y\<bar> < 32768) xs"

lemma SeqNumUnwrapper_run_tracks:
  "slow_moving (y # xs) \<Longrightarrow> last_unwrapped s = y \<Longrightarrow> snu_last_value s = Some (of_int y) \<Longrightarrow>
   SeqNumUnwrapper_run s (map of_int xs) = xs"
proof (induction xs arbitrary: y s)
  case (Cons x xs)
  then show ?case
    using Cons.IH [of x "s\<lparr>last_unwrapped := x, snu_last_value := Some (of_int x)\<rparr>"]
    by (simp add: SeqNumUnwrapper_step)
qed simp

lemma Unwrap16_run_tracks:
  "slow_moving (y # xs) \<Longrightarrow> 0 \<le> y \<Longrightarrow> \<forall>x \<in> set xs. 0 \<le> x \<Longrightarrow>
   Unwrap16_run (Some y) (map of_int xs) = xs"
  by (induction xs arbitrary: y) (simp_all add: Unwrap16_step)

text \<open>C30: both unwrappers reconstruct the unbounded position of a stream from its 16-bit sequence
  numbers, for any stream that starts in the first cycle, never goes below zero and moves by less
  than half the range from one packet to the next, in either direction and over any number of
  wrap-arounds.\<close>

theorem unwrappers_track:
  assumes "slow_moving (x # xs)" "x < 65536" "\<forall>z \<in> set (x # xs). 0 \<le> z"
  shows "SeqNumUnwrapper_run SeqNumUnwrapper_init (map of_int (x # xs)) = x # xs \<and>
    Unwrap16_run None (map of_int (x # xs)) = x # xs"
proof -
  have "uint (of_int x :: u16) = x" using assms by (simp add: uint_word_of_int)
  then show ?thesis
    using SeqNumUnwrapper_run_tracks [OF assms(1)] Unwrap16_run_tracks [OF assms(1)] assms(3)
    by (simp add: SeqNumUnwrapper_Unwrap_def SeqNumUnwrapper_init_def Unwrap16_def
        UnwrapWithoutUpdate16_def Let_def)
qed

theorem unwrappers_track_witness:
  "SeqNumUnwrapper_run SeqNumUnwrapper_init (map of_int [65530, 65540, 65535, 90000]) = [65530, 65540, 65535, 90000] \<and>
   Unwrap16_run None (map of_int [65530, 65540, 65535, 90000]) = [65530, 65540, 65535, 90000]"
  by (rule unwrappers_track) simp_all

text \<open>C31: the four comparison functions on 16- and 32-bit numbers agree with one specification in
  which, of two different numbers, exactly one is ahead, ties at maximal distance included.\<close>

theorem sequence_comparisons:
  "AheadOf16 a b = IsNewerSequenceNumber a b \<and> AheadOf32 c d = IsNewerTimestamp c d \<and>
   (AheadOf16 a b \<longleftrightarrow> \<not> AheadOrAt16 b a) \<and>
   (a = b \<or> AheadOf16 a b = (\<not> AheadOf16 b a)) \<and> (c = d \<or> AheadOf32 c d = (\<not> AheadOf32 d c))"
proof -
  have "ahead_spec a b \<longleftrightarrow> a \<noteq> b \<and> \<not> ahead_spec b a"
    using ahead_spec_total [of a b] by (cases "a = b") (auto simp: ahead_spec_def)
  moreover have "c = d \<or> ahead_spec c d = (\<not> ahead_spec d c)"
    using ahead_spec_total [of c d] by blast
  ultimately show ?thesis
    by (auto simp: AheadOf16_spec IsNewerSequenceNumber_spec AheadOf32_spec IsNewerTimestamp_spec
        AheadOrAt16_iff)
qed

end
