(* ===== verification/Last_Chunk.thy ===== *)
theory Last_Chunk
  imports Rtc_Prelude
begin

text \<open>
  The packet status chunks of a transport-wide feedback message: class
  \<open>TransportFeedback::LastChunk\<close> of \<open>src/src/myrtc/rtp_rtcp/transport_feedback.{h,cc}\<close>. A chunk is
  a 16-bit word that holds a run of equal delta sizes, 14 one-bit symbols or 7 two-bit symbols;
  \<open>LastChunk\<close> collects delta sizes as long as one chunk can hold them.

  \<open>lc_list\<close> is the list of delta sizes an object stands for, \<open>lc_ok\<close> its class invariant and
  \<open>decode_list\<close> the list a chunk denotes. The lemmas show that every operation is the obvious one
  on that list.
\<close>

subsection \<open>The class\<close>

text \<open>The array \<open>delta_sizes_\<close> is not initialised by the constructor; no operation looks at an
  entry from \<open>size_\<close> on, so its initial content does not matter and is zero here.\<close>

record last_chunk =
  delta_sizes :: bytes
  lc_size :: nat
  all_same :: bool
  has_large_delta :: bool

definition kMaxRunLengthCapacity :: nat where "kMaxRunLengthCapacity = 0x1fff"
definition kMaxOneBitCapacity :: nat where "kMaxOneBitCapacity = 14"
definition kMaxTwoBitCapacity :: nat where "kMaxTwoBitCapacity = 7"
definition kMaxVectorCapacity :: nat where "kMaxVectorCapacity = kMaxOneBitCapacity"
definition kLarge :: u8 where "kLarge = 2"

definition LastChunk_Empty :: "last_chunk \<Rightarrow> bool" where
  "LastChunk_Empty c \<longleftrightarrow> lc_size c = 0"

definition LastChunk_Clear :: "last_chunk \<Rightarrow> last_chunk" where
  "LastChunk_Clear c = c\<lparr>lc_size := 0, all_same := True, has_large_delta := False\<rparr>"

definition LastChunk_init :: last_chunk where
  "LastChunk_init = LastChunk_Clear \<lparr>delta_sizes = replicate kMaxVectorCapacity 0, lc_size = 0,
     all_same = True, has_large_delta = False\<rparr>"

definition CanAdd :: "last_chunk \<Rightarrow> u8 \<Rightarrow> bool option" where
  "CanAdd c delta_size =
     do { dcheck (delta_size \<le> 2);
          if lc_size c < kMaxTwoBitCapacity then Some True
          else if lc_size c < kMaxOneBitCapacity \<and> \<not> has_large_delta c \<and> delta_size \<noteq> kLarge
          then Some True
          else if lc_size c < kMaxRunLengthCapacity \<and> all_same c then
            do { d0 \<leftarrow> get_byte (delta_sizes c) 0;
                 Some (d0 = delta_size) }
          else Some False }"

definition LastChunk_Add :: "last_chunk \<Rightarrow> u8 \<Rightarrow> last_chunk option" where
  "LastChunk_Add c delta_size =
     do { can \<leftarrow> CanAdd c delta_size;
          dcheck can;
          ds \<leftarrow> (if lc_size c < kMaxVectorCapacity
                 then put_byte (delta_sizes c) (lc_size c) delta_size
                 else Some (delta_sizes c));
          d0 \<leftarrow> get_byte ds 0;
          Some (c\<lparr>delta_sizes := ds, lc_size := lc_size c + 1,
                  all_same := all_same c \<and> delta_size = d0,
                  has_large_delta := has_large_delta c \<or> delta_size = kLarge\<rparr>) }"

text \<open>The loops of \<open>EncodeOneBit\<close> (\<open>w = 1\<close>, \<open>cap = kMaxOneBitCapacity\<close>) and \<open>EncodeTwoBit\<close>
  (\<open>w = 2\<close>, \<open>cap = kMaxTwoBitCapacity\<close>): \<open>n\<close> symbols from index \<open>i\<close> on.\<close>

fun encode_symbols :: "nat \<Rightarrow> nat \<Rightarrow> bytes \<Rightarrow> nat \<Rightarrow> nat \<Rightarrow> u16 \<Rightarrow> u16 option" where
  "encode_symbols w cap ds 0 i chunk = Some chunk"
| "encode_symbols w cap ds (Suc n) i chunk =
     do { d \<leftarrow> get_byte ds i;
          encode_symbols w cap ds n (i + 1) (chunk OR push_bit (w * (cap - 1 - i)) (ucast d)) }"

definition EncodeOneBit :: "last_chunk \<Rightarrow> u16 option" where
  "EncodeOneBit c =
     do { dcheck (\<not> has_large_delta c);
          dcheck (lc_size c \<le> kMaxOneBitCapacity);
          encode_symbols 1 kMaxOneBitCapacity (delta_sizes c) (lc_size c) 0 0x8000 }"

definition EncodeTwoBit :: "last_chunk \<Rightarrow> nat \<Rightarrow> u16 option" where
  "EncodeTwoBit c n =
     do { dcheck (n \<le> lc_size c);
          encode_symbols 2 kMaxTwoBitCapacity (delta_sizes c) n 0 0xc000 }"

definition EncodeRunLength :: "last_chunk \<Rightarrow> u16 option" where
  "EncodeRunLength c =
     do { dcheck (all_same c);
          dcheck (lc_size c \<le> kMaxRunLengthCapacity);
          d0 \<leftarrow> get_byte (delta_sizes c) 0;
          Some (push_bit 13 (ucast d0) OR of_nat (lc_size c)) }"

text \<open>The loop of \<open>Emit\<close> that moves the remaining \<open>n\<close> delta sizes to the front.\<close>

fun emit_shift :: "nat \<Rightarrow> nat \<Rightarrow> last_chunk \<Rightarrow> last_chunk option" where
  "emit_shift 0 i c = Some c"
| "emit_shift (Suc n) i c =
     do { d \<leftarrow> get_byte (delta_sizes c) (kMaxTwoBitCapacity + i);
          ds \<leftarrow> put_byte (delta_sizes c) i d;
          d0 \<leftarrow> get_byte ds 0;
          emit_shift n (i + 1)
            (c\<lparr>delta_sizes := ds, all_same := all_same c \<and> d = d0,
               has_large_delta := has_large_delta c \<or> d = kLarge\<rparr>) }"

definition LastChunk_Emit :: "last_chunk \<Rightarrow> (last_chunk \<times> u16) option" where
  "LastChunk_Emit c =
     do { can0 \<leftarrow> CanAdd c 0;
          can1 \<leftarrow> CanAdd c 1;
          can2 \<leftarrow> CanAdd c 2;
          dcheck (\<not> can0 \<or> \<not> can1 \<or> \<not> can2);
          if all_same c then do { chunk \<leftarrow> EncodeRunLength c; Some (LastChunk_Clear c, chunk) }
          else if lc_size c = kMaxOneBitCapacity then
            do { chunk \<leftarrow> EncodeOneBit c; Some (LastChunk_Clear c, chunk) }
          else do {
            dcheck (lc_size c \<ge> kMaxTwoBitCapacity);
            chunk \<leftarrow> EncodeTwoBit c kMaxTwoBitCapacity;
            let n = lc_size c - kMaxTwoBitCapacity;
            c \<leftarrow> emit_shift n 0 (c\<lparr>lc_size := n, all_same := True, has_large_delta := False\<rparr>);
            Some (c, chunk) } }"

definition EncodeLast :: "last_chunk \<Rightarrow> u16 option" where
  "EncodeLast c =
     do { dcheck (lc_size c > 0);
          if all_same c then EncodeRunLength c
          else if lc_size c \<le> kMaxTwoBitCapacity then EncodeTwoBit c (lc_size c)
          else EncodeOneBit c }"

text \<open>\<open>AppendTo\<close> copies \<open>size_\<close> times the first entry, or the first \<open>size_\<close> entries.\<close>

definition AppendTo :: "last_chunk \<Rightarrow> bytes \<Rightarrow> bytes option" where
  "AppendTo c deltas =
     (if all_same c then
        (if lc_size c = 0 then Some deltas
         else do { d0 \<leftarrow> get_byte (delta_sizes c) 0; Some (deltas @ replicate (lc_size c) d0) })
      else do { ds \<leftarrow> get_bytes (delta_sizes c) 0 (lc_size c); Some (deltas @ ds) })"

fun decode_symbols :: "nat \<Rightarrow> nat \<Rightarrow> u16 \<Rightarrow> nat \<Rightarrow> nat \<Rightarrow> u16 \<Rightarrow> bytes \<Rightarrow> bytes option" where
  "decode_symbols w cap msk 0 i chunk ds = Some ds"
| "decode_symbols w cap msk (Suc n) i chunk ds =
     do { ds \<leftarrow> put_byte ds i (ucast (drop_bit (w * (cap - 1 - i)) chunk AND msk));
          decode_symbols w cap msk n (i + 1) chunk ds }"

definition DecodeOneBit :: "last_chunk \<Rightarrow> u16 \<Rightarrow> nat \<Rightarrow> last_chunk option" where
  "DecodeOneBit c chunk max_size =
     do { dcheck (chunk AND 0xc000 = 0x8000);
          let n = min kMaxOneBitCapacity max_size;
          ds \<leftarrow> decode_symbols 1 kMaxOneBitCapacity 0x01 n 0 chunk (delta_sizes c);
          Some (c\<lparr>lc_size := n, has_large_delta := False, all_same := False, delta_sizes := ds\<rparr>) }"

definition DecodeTwoBit :: "last_chunk \<Rightarrow> u16 \<Rightarrow> nat \<Rightarrow> last_chunk option" where
  "DecodeTwoBit c chunk max_size =
     do { dcheck (chunk AND 0xc000 = 0xc000);
          let n = min kMaxTwoBitCapacity max_size;
          ds \<leftarrow> decode_symbols 2 kMaxTwoBitCapacity 0x03 n 0 chunk (delta_sizes c);
          Some (c\<lparr>lc_size := n, has_large_delta := True, all_same := False, delta_sizes := ds\<rparr>) }"

text \<open>The loop of \<open>DecodeRunLength\<close> that fills the array.\<close>

fun fill_sizes :: "nat \<Rightarrow> nat \<Rightarrow> u8 \<Rightarrow> bytes \<Rightarrow> bytes option" where
  "fill_sizes 0 i d ds = Some ds"
| "fill_sizes (Suc n) i d ds = do { ds \<leftarrow> put_byte ds i d; fill_sizes n (i + 1) d ds }"

definition DecodeRunLength :: "last_chunk \<Rightarrow> u16 \<Rightarrow> nat \<Rightarrow> last_chunk option" where
  "DecodeRunLength c chunk max_count =
     do { dcheck (chunk AND 0x8000 = 0);
          let n = min (unat (chunk AND 0x1fff)) max_count;
          let delta_size = ucast (drop_bit 13 chunk AND 0x03);
          ds \<leftarrow> fill_sizes (min n kMaxVectorCapacity) 0 delta_size (delta_sizes c);
          Some (c\<lparr>lc_size := n, has_large_delta := (delta_size \<ge> kLarge), all_same := True,
                  delta_sizes := ds\<rparr>) }"

definition LastChunk_Decode :: "last_chunk \<Rightarrow> u16 \<Rightarrow> nat \<Rightarrow> last_chunk option" where
  "LastChunk_Decode c chunk max_size =
     (if chunk AND 0x8000 = 0 then DecodeRunLength c chunk max_size
      else if chunk AND 0x4000 = 0 then DecodeOneBit c chunk max_size
      else DecodeTwoBit c chunk max_size)"

lemmas lc_consts = kMaxRunLengthCapacity_def kMaxOneBitCapacity_def kMaxTwoBitCapacity_def
  kMaxVectorCapacity_def kLarge_def

subsection \<open>The list of delta sizes\<close>

definition lc_list :: "last_chunk \<Rightarrow> bytes" where
  "lc_list c = (if all_same c then replicate (lc_size c) (delta_sizes c ! 0)
     else take (lc_size c) (delta_sizes c))"

definition lc_ok :: "last_chunk \<Rightarrow> bool" where
  "lc_ok c \<longleftrightarrow> length (delta_sizes c) = 14 \<and> lc_size c \<le> 0x1fff \<and>
     set (take (lc_size c) (delta_sizes c)) \<subseteq> {0, 1, 2} \<and>
     (all_same c \<longrightarrow> set (take (lc_size c) (delta_sizes c)) \<subseteq> {delta_sizes c ! 0}) \<and>
     (\<not> has_large_delta c \<longrightarrow> 2 \<notin> set (take (lc_size c) (delta_sizes c))) \<and>
     (\<not> all_same c \<longrightarrow> lc_size c \<le> (if has_large_delta c then 7 else 14))"

definition decode_list :: "u16 \<Rightarrow> bytes" where
  "decode_list chunk =
     (if \<not> bit chunk 15 then replicate (unat (take_bit 13 chunk)) (ucast (take_bit 2 (drop_bit 13 chunk)))
      else if \<not> bit chunk 14 then map (\<lambda>i. ucast (take_bit 1 (drop_bit (13 - i) chunk))) [0..<14]
      else map (\<lambda>i. ucast (take_bit 2 (drop_bit (2 * (6 - i)) chunk))) [0..<7])"

lemma length_lc_list [simp]: "lc_ok c \<Longrightarrow> length (lc_list c) = lc_size c"
  by (auto simp: lc_ok_def lc_list_def split: if_splits)

lemma lc_ok_Clear [simp]: "length (delta_sizes c) = 14 \<Longrightarrow> lc_ok (LastChunk_Clear c)"
  by (simp add: lc_ok_def LastChunk_Clear_def)

lemma lc_list_Clear [simp]: "lc_list (LastChunk_Clear c) = []"
  by (simp add: lc_list_def LastChunk_Clear_def)

lemma lc_init [simp]:
  "lc_ok LastChunk_init" "lc_list LastChunk_init = []" "lc_size LastChunk_init = 0"
  "length (delta_sizes LastChunk_init) = 14"
  by (simp_all add: LastChunk_init_def lc_consts LastChunk_Clear_def lc_ok_def lc_list_def)

lemma lc_size_Clear [simp]: "lc_size (LastChunk_Clear c) = 0"
  by (simp add: LastChunk_Clear_def)

lemma AppendTo_list: "lc_ok c \<Longrightarrow> AppendTo c xs = Some (xs @ lc_list c)"
  by (auto simp: AppendTo_def lc_list_def lc_ok_def get_byte_def get_bytes_def split: if_splits)

lemma u8_le_2: "(d :: u8) \<le> 2 \<longleftrightarrow> d \<in> {0, 1, 2}"
proof
  assume "d \<le> 2"
  then have "unat d \<le> 2" by (simp add: word_le_nat_alt)
  then have "unat d = 0 \<or> unat d = 1 \<or> unat d = 2" by linarith
  then show "d \<in> {0, 1, 2}" by (auto simp: word_unat_eq_iff)
qed (auto simp: word_le_nat_alt)

lemma CanAdd_eq:
  assumes "lc_ok c" "d \<le> 2"
  shows "CanAdd c d = Some (lc_size c < 7 \<or> lc_size c < 14 \<and> \<not> has_large_delta c \<and> d \<noteq> 2 \<or>
    lc_size c < 0x1fff \<and> all_same c \<and> delta_sizes c ! 0 = d)"
proof -
  have "delta_sizes c \<noteq> []" using assms(1) by (auto simp: lc_ok_def)
  with assms(2) show ?thesis by (auto simp: CanAdd_def get_byte_def lc_consts)
qed

lemma CanAdd_le: "CanAdd c d = Some b \<Longrightarrow> d \<le> 2"
  by (simp add: CanAdd_def dcheck_bind_Some)

lemma lc_list_short:
  assumes "lc_ok c" "lc_size c \<le> 14"
  shows "lc_list c = take (lc_size c) (delta_sizes c)"
proof (cases "all_same c")
  case True
  with assms have "set (take (lc_size c) (delta_sizes c)) \<subseteq> {delta_sizes c ! 0}"
    "length (take (lc_size c) (delta_sizes c)) = lc_size c" by (auto simp: lc_ok_def)
  with True show ?thesis
    by (metis (no_types, lifting) lc_list_def replicate_eqI singletonD subsetD)
qed (simp add: lc_list_def)

lemma Add_list:
  assumes "lc_ok c" "CanAdd c d = Some True"
  shows "\<exists>c'. LastChunk_Add c d = Some c' \<and> lc_ok c' \<and> lc_list c' = lc_list c @ [d] \<and>
    lc_size c' = lc_size c + 1"
proof -
  have d: "d \<in> {0, 1, 2}" using CanAdd_le [OF assms(2)] by (simp add: u8_le_2)
  note can = CanAdd_eq [OF assms(1) CanAdd_le [OF assms(2)]]
  have len: "length (delta_sizes c) = 14" "delta_sizes c \<noteq> []"
    using assms(1) by (auto simp: lc_ok_def)
  show ?thesis
  proof (cases "lc_size c < 14")
    case True
    let ?ds = "(delta_sizes c)[lc_size c := d]"
    let ?c = "c\<lparr>delta_sizes := ?ds, lc_size := lc_size c + 1, all_same := all_same c \<and> d = ?ds ! 0,
      has_large_delta := has_large_delta c \<or> d = 2\<rparr>"
    have add: "LastChunk_Add c d = Some ?c"
      using assms(2) True len
      by (simp add: LastChunk_Add_def lc_consts put_byte_def get_byte_def)
    have tk: "take (lc_size c + 1) ?ds = take (lc_size c) (delta_sizes c) @ [d]"
      using True len by (simp add: take_Suc_conv_app_nth)
    have d0: "?ds ! 0 = (if lc_size c = 0 then d else delta_sizes c ! 0)" using len by simp
    have "lc_ok ?c"
      using assms d len True tk d0 can by (auto simp: lc_ok_def split: if_splits)
    moreover from this have "lc_list ?c = lc_list c @ [d]"
      using True tk assms(1) by (simp add: lc_list_short)
    ultimately show ?thesis using add by auto
  next
    case False
    have same: "all_same c" "lc_size c < 0x1fff" "delta_sizes c ! 0 = d"
      using assms(2) False can by auto
    let ?c = "c\<lparr>lc_size := lc_size c + 1, has_large_delta := has_large_delta c \<or> d = 2\<rparr>"
    have "LastChunk_Add c d = Some ?c"
      using assms(2) False len same
      by (simp add: LastChunk_Add_def lc_consts get_byte_def)
    moreover have "lc_ok ?c"
      using assms(1) False len same by (auto simp: lc_ok_def)
    moreover have "lc_list ?c = lc_list c @ [d]"
      using same by (simp add: lc_list_def replicate_append_same)
    ultimately show ?thesis by auto
  qed
qed

subsection \<open>Encoding\<close>

lemma bit_push_symbol:
  assumes "unat (d :: u8) < 2 ^ w" "w * (k + 1) \<le> 16"
  shows "bit (push_bit (w * k) (ucast d) :: u16) b \<longleftrightarrow> b div w = k \<and> bit d (b mod w)"
proof
  assume l: "bit (push_bit (w * k) (ucast d) :: u16) b"
  then have *: "w * k \<le> b" "bit d (b - w * k)" by (auto simp: bit_simps)
  then have "b - w * k < w" using bit_less_of_unat_less [OF assms(1)] by blast
  with *(1) have "b = w * k + (b - w * k)" "b - w * k < w" by simp_all
  then have "b div w = k" "b mod w = b - w * k"
    by (metis add.commute add.right_neutral div_less div_mult_self2 less_nat_zero_code,
        metis mod_less mod_mult_self4 mult.commute)
  with *(2) show "b div w = k \<and> bit d (b mod w)" by simp
next
  assume r: "b div w = k \<and> bit d (b mod w)"
  then have "b mod w < w" using bit_less_of_unat_less [OF assms(1)] by blast
  moreover have "b = w * k + b mod w" using r by (metis mult_div_mod_eq)
  ultimately have "w * k \<le> b" "b < 16" "b - w * k = b mod w" using assms(2) by (simp_all add: algebra_simps)
  with r show "bit (push_bit (w * k) (ucast d) :: u16) b" by (simp add: bit_simps)
qed

lemma encode_symbols_bits:
  assumes "i + n \<le> cap" "i + n \<le> length ds" "w * cap \<le> 16" "\<forall>j < i + n. unat (ds ! j) < 2 ^ w"
  shows "\<exists>c. encode_symbols w cap ds n i chunk = Some c \<and>
    (\<forall>b. bit c b \<longleftrightarrow> bit chunk b \<or>
      (\<exists>j. i \<le> j \<and> j < i + n \<and> b div w = cap - 1 - j \<and> bit (ds ! j) (b mod w)))"
  using assms
proof (induction n arbitrary: i chunk)
  case (Suc n)
  let ?k = "cap - 1 - i" and ?c = "chunk OR push_bit (w * (cap - 1 - i)) (ucast (ds ! i))"
  have "w * (?k + 1) \<le> w * cap" using Suc.prems(1) by (intro mult_le_mono2) simp
  with Suc.prems have push: "bit (push_bit (w * ?k) (ucast (ds ! i)) :: u16) b \<longleftrightarrow>
      b div w = ?k \<and> bit (ds ! i) (b mod w)" for b
    by (intro bit_push_symbol) auto
  obtain c where c: "encode_symbols w cap ds n (i + 1) ?c = Some c"
    "\<forall>b. bit c b \<longleftrightarrow> bit ?c b \<or>
      (\<exists>j. i + 1 \<le> j \<and> j < i + 1 + n \<and> b div w = cap - 1 - j \<and> bit (ds ! j) (b mod w))"
    using Suc.IH [of "i + 1" ?c] Suc.prems by auto
  have ex: "(\<exists>j. i \<le> j \<and> j < i + Suc n \<and> P j) \<longleftrightarrow> P i \<or> (\<exists>j. i + 1 \<le> j \<and> j < i + 1 + n \<and> P j)" for P
  proof -
    have "(i \<le> j \<and> j < i + Suc n) \<longleftrightarrow> j = i \<or> (i + 1 \<le> j \<and> j < i + 1 + n)" for j by auto
    then show ?thesis by metis
  qed
  have "bit c b \<longleftrightarrow> bit chunk b \<or>
      (\<exists>j. i \<le> j \<and> j < i + Suc n \<and> b div w = cap - 1 - j \<and> bit (ds ! j) (b mod w))" for b
    using c(2) push [of b] unfolding bit_or_iff ex by blast
  with c(1) Suc.prems show ?case by (simp add: get_byte_def)
qed auto

lemma encode_symbols_list:
  assumes "n \<le> cap" "n \<le> length ds" "0 < w" "w * cap \<le> 14" "\<forall>x \<in> set (take n ds). unat x < 2 ^ w"
    and "\<forall>b < w * cap. \<not> bit chunk b"
  shows "\<exists>c. encode_symbols w cap ds n 0 chunk = Some c \<and> (\<forall>b \<ge> w * cap. bit c b = bit chunk b) \<and>
    map (\<lambda>i. ucast (take_bit w (drop_bit (w * (cap - 1 - i)) c))) [0..<n] = take n ds"
proof -
  have x: "unat (ds ! j) < 2 ^ w" if "j < n" for j
    using assms(2,5) that by (auto simp: set_conv_nth)
  with assms obtain c where c: "encode_symbols w cap ds n 0 chunk = Some c"
    "\<And>b. bit c b \<longleftrightarrow> bit chunk b \<or> (\<exists>j < n. b div w = cap - 1 - j \<and> bit (ds ! j) (b mod w))"
    using encode_symbols_bits [of 0 n cap ds w chunk] by auto
  have hi: "bit c b = bit chunk b" if "w * cap \<le> b" for b
  proof -
    have "cap \<le> b div w" using that assms(3) by (simp add: less_eq_div_iff_mult_less_eq mult.commute)
    then have "b div w \<noteq> cap - 1 - j" if "j < n" for j using that assms(1) by linarith
    then show ?thesis using c(2) by blast
  qed
  have "ucast (take_bit w (drop_bit (w * (cap - 1 - i)) c)) = ds ! i" if i: "i < n" for i
  proof (rule bit_word_eqI)
    fix b assume b: "b < LENGTH(8)"
    show "bit (ucast (take_bit w (drop_bit (w * (cap - 1 - i)) c)) :: u8) b \<longleftrightarrow> bit (ds ! i) b"
    proof (cases "b < w")
      case True
      have lt: "w * (cap - 1 - i) + b < w * cap"
      proof -
        have "w * (cap - 1 - i) + b < w * (cap - 1 - i + 1)" using True by simp
        also have "\<dots> \<le> w * cap" using i assms(1) by (intro mult_le_mono2) simp
        finally show ?thesis .
      qed
      have "(w * (cap - 1 - i) + b) div w = cap - 1 - i" "(w * (cap - 1 - i) + b) mod w = b"
        using True by simp_all
      moreover have "cap - 1 - i = cap - 1 - j \<longleftrightarrow> i = j" if "j < n" for j
        using that i assms(1) by auto
      ultimately have "bit c (w * (cap - 1 - i) + b) \<longleftrightarrow> bit (ds ! i) b"
        using c(2) [of "w * (cap - 1 - i) + b"] assms(6) lt i by auto
      then show ?thesis using True b by (simp add: bit_simps)
    next
      case False
      then show ?thesis using bit_less_of_unat_less [OF x [OF i]] by (auto simp: bit_simps)
    qed
  qed
  then have "map (\<lambda>i. ucast (take_bit w (drop_bit (w * (cap - 1 - i)) c))) [0..<n] = take n ds"
    using assms(2) by (intro nth_equalityI) simp_all
  with c(1) hi show ?thesis by blast
qed

lemma bit_chunk_tags:
  "bit (0x8000 :: u16) 15" "\<not> bit (0x8000 :: u16) 14" "\<forall>b < 14. \<not> bit (0x8000 :: u16) b"
  "bit (0xc000 :: u16) 15" "bit (0xc000 :: u16) 14" "\<forall>b < 14. \<not> bit (0xc000 :: u16) b"
proof -
  have "\<forall>b \<in> set [0..<14]. \<not> bit (0x8000 :: u16) b \<and> \<not> bit (0xc000 :: u16) b" by code_simp
  then show "\<forall>b < 14. \<not> bit (0x8000 :: u16) b" "\<forall>b < 14. \<not> bit (0xc000 :: u16) b" by auto
qed code_simp+

lemma lc_ok_entries:
  assumes "lc_ok c" "n \<le> lc_size c" "x \<in> set (take n (delta_sizes c))"
  shows "x \<in> {0, 1, 2}" "\<not> has_large_delta c \<Longrightarrow> x \<noteq> 2" "all_same c \<Longrightarrow> x = delta_sizes c ! 0"
proof -
  have "x \<in> set (take (lc_size c) (delta_sizes c))"
    using subsetD [OF set_take_subset_set_take [OF assms(2)] assms(3)] .
  then show "x \<in> {0, 1, 2}" "\<not> has_large_delta c \<Longrightarrow> x \<noteq> 2" "all_same c \<Longrightarrow> x = delta_sizes c ! 0"
    using assms(1) unfolding lc_ok_def by blast+
qed

lemma EncodeOneBit_list:
  assumes "lc_ok c" "lc_size c \<le> 14" "\<not> has_large_delta c"
  shows "\<exists>ch. EncodeOneBit c = Some ch \<and> length (decode_list ch) = 14 \<and>
    take (lc_size c) (decode_list ch) = take (lc_size c) (delta_sizes c)"
proof -
  have "\<forall>x \<in> set (take (lc_size c) (delta_sizes c)). unat x < 2 ^ 1"
    using lc_ok_entries [OF assms(1) order_refl] assms(3) by fastforce
  then obtain ch where ch: "encode_symbols 1 14 (delta_sizes c) (lc_size c) 0 0x8000 = Some ch"
    "\<forall>b \<ge> 14. bit ch b = bit (0x8000 :: u16) b"
    "map (\<lambda>i. ucast (take_bit 1 (drop_bit (1 * (14 - 1 - i)) ch))) [0..<lc_size c]
      = take (lc_size c) (delta_sizes c)"
    using encode_symbols_list [of "lc_size c" 14 "delta_sizes c" 1 "0x8000"] assms(1,2) bit_chunk_tags(3)
    by (auto simp: lc_ok_def)
  have "bit ch 15" "\<not> bit ch 14" using ch(2) bit_chunk_tags(1,2) by simp_all
  then show ?thesis
    using ch(1,3) assms by (simp add: EncodeOneBit_def lc_consts decode_list_def take_map take_upt)
qed

lemma EncodeTwoBit_list:
  assumes "lc_ok c" "n \<le> lc_size c" "n \<le> 7"
  shows "\<exists>ch. EncodeTwoBit c n = Some ch \<and> length (decode_list ch) = 7 \<and>
    take n (decode_list ch) = take n (delta_sizes c)"
proof -
  have "\<forall>x \<in> set (take n (delta_sizes c)). unat x < 2 ^ 2"
    using lc_ok_entries(1) [OF assms(1,2)] by fastforce
  then obtain ch where ch: "encode_symbols 2 7 (delta_sizes c) n 0 0xc000 = Some ch"
    "\<forall>b \<ge> 14. bit ch b = bit (0xc000 :: u16) b"
    "map (\<lambda>i. ucast (take_bit 2 (drop_bit (2 * (7 - 1 - i)) ch))) [0..<n] = take n (delta_sizes c)"
    using encode_symbols_list [of n 7 "delta_sizes c" 2 "0xc000"] assms bit_chunk_tags(6)
    by (auto simp: lc_ok_def)
  have "bit ch 15" "bit ch 14" using ch(2) bit_chunk_tags(4,5) by simp_all
  then show ?thesis
    using ch(1,3) assms by (simp add: EncodeTwoBit_def lc_consts decode_list_def take_map take_upt)
qed

lemma EncodeRunLength_list:
  assumes "lc_ok c" "all_same c" "0 < lc_size c"
  shows "\<exists>ch. EncodeRunLength c = Some ch \<and> decode_list ch = lc_list c"
proof -
  let ?d = "delta_sizes c ! 0" and ?n = "of_nat (lc_size c) :: u16"
  let ?ch = "push_bit 13 (ucast ?d) OR ?n"
  have ne: "delta_sizes c \<noteq> []" and n: "lc_size c \<le> 0x1fff" using assms(1) by (auto simp: lc_ok_def)
  have "?d \<in> {0, 1, 2}"
    using lc_ok_entries(1) [OF assms(1), of "lc_size c" ?d] assms(3) ne by (cases "delta_sizes c"; cases "lc_size c"; simp)
  then have d: "unat ?d < 2 ^ 2" by auto
  have bd: "n < 2" if "bit ?d n" for n using bit_less_of_unat_less [OF d that] .
  have bn: "k < 13" if "bit ?n k" for k
    by (rule bit_less_of_unat_less [OF _ that]) (use n in \<open>simp add: unat_of_nat\<close>)
  have hi: "drop_bit 13 ?ch = ucast ?d"
  proof (rule drop_bit_push_or)
    fix k assume "bit (ucast ?d :: u16) k"
    then have "k < 2" by (intro bd) (simp add: bit_simps)
    then show "k + 13 < LENGTH(16)" by simp
  qed (rule bn)
  have "\<not> bit ?ch 15" using bd [of 2] bn [of 15] by (auto simp: bit_simps)
  moreover have "take_bit 13 ?ch = ?n"
    by (rule bit_word_eqI) (use bn in \<open>auto simp: bit_simps\<close>)
  moreover have "(ucast (take_bit 2 (ucast ?d :: u16)) :: u8) = ?d"
    by (rule bit_word_eqI) (use bd in \<open>auto simp: bit_simps\<close>)
  ultimately have "decode_list ?ch = lc_list c"
    using n assms(2) hi by (simp add: decode_list_def lc_list_def unat_of_nat)
  then show ?thesis using assms(2) n ne by (simp add: EncodeRunLength_def lc_consts get_byte_def)
qed

lemma emit_shift_list:
  "7 + i + n \<le> 14 \<Longrightarrow> length (delta_sizes c) = 14 \<Longrightarrow>
   \<exists>c'. emit_shift n i c = Some c' \<and> lc_size c' = lc_size c \<and> length (delta_sizes c') = 14 \<and>
     take (i + n) (delta_sizes c') = take i (delta_sizes c) @ take n (drop (7 + i) (delta_sizes c)) \<and>
     (0 < i \<longrightarrow> delta_sizes c' ! 0 = delta_sizes c ! 0) \<and>
     (all_same c' \<longleftrightarrow> all_same c \<and> set (take n (drop (7 + i) (delta_sizes c))) \<subseteq> {delta_sizes c' ! 0}) \<and>
     (has_large_delta c' \<longleftrightarrow> has_large_delta c \<or> 2 \<in> set (take n (drop (7 + i) (delta_sizes c))))"
proof (induction n arbitrary: i c)
  case (Suc n)
  let ?d = "delta_sizes c ! (7 + i)"
  let ?ds = "(delta_sizes c)[i := ?d]"
  let ?c = "c\<lparr>delta_sizes := ?ds, all_same := all_same c \<and> ?d = ?ds ! 0,
    has_large_delta := has_large_delta c \<or> ?d = 2\<rparr>"
  have ne: "delta_sizes c \<noteq> []" using Suc.prems by auto
  have tk: "take (Suc n) (drop (7 + i) (delta_sizes c)) = ?d # take n (drop (7 + (i + 1)) ?ds)"
    using Suc.prems by (simp add: Cons_nth_drop_Suc [symmetric])
  have ti: "take (i + 1) ?ds = take i (delta_sizes c) @ [?d]"
    using Suc.prems by (simp add: take_Suc_conv_app_nth)
  have pre: "7 + (i + 1) + n \<le> 14" "length (delta_sizes ?c) = 14" using Suc.prems by simp_all
  obtain c' where c'_raw: "emit_shift n (i + 1) ?c = Some c'" "lc_size c' = lc_size ?c"
    "length (delta_sizes c') = 14"
    "take (i + 1 + n) (delta_sizes c') = take (i + 1) (delta_sizes ?c) @ take n (drop (7 + (i + 1)) (delta_sizes ?c))"
    "0 < i + 1 \<longrightarrow> delta_sizes c' ! 0 = delta_sizes ?c ! 0"
    "all_same c' \<longleftrightarrow> all_same ?c \<and> set (take n (drop (7 + (i + 1)) (delta_sizes ?c))) \<subseteq> {delta_sizes c' ! 0}"
    "has_large_delta c' \<longleftrightarrow> has_large_delta ?c \<or> 2 \<in> set (take n (drop (7 + (i + 1)) (delta_sizes ?c)))"
    using Suc.IH [OF pre] by (elim exE conjE) (rule that)
  have ds: "delta_sizes ?c = ?ds" by simp
  note c' = c'_raw [unfolded ds]
  have "emit_shift (Suc n) i c = Some c'"
    using c'(1) Suc.prems ne by (simp add: get_byte_def put_byte_def lc_consts)
  moreover have "take (i + Suc n) (delta_sizes c') = take i (delta_sizes c) @ take (Suc n) (drop (7 + i) (delta_sizes c))"
    using c'(4) tk ti by simp
  moreover have "0 < i \<longrightarrow> delta_sizes c' ! 0 = delta_sizes c ! 0" using c'(5) by simp
  moreover have "all_same c' \<longleftrightarrow> all_same c \<and>
      set (take (Suc n) (drop (7 + i) (delta_sizes c))) \<subseteq> {delta_sizes c' ! 0}"
    using c'(5,6) unfolding tk by (simp; blast)
  moreover have "has_large_delta c' \<longleftrightarrow> has_large_delta c \<or>
      2 \<in> set (take (Suc n) (drop (7 + i) (delta_sizes c)))"
    using c'(7) unfolding tk by auto
  ultimately show ?case using c'(2,3) by simp
qed simp

lemma Emit_list:
  assumes "lc_ok c" "CanAdd c d = Some False"
  shows "\<exists>c' ch. LastChunk_Emit c = Some (c', ch) \<and> lc_ok c' \<and> lc_size c' < 7 \<and>
    decode_list ch @ lc_list c' = lc_list c"
proof -
  have len: "length (delta_sizes c) = 14" using assms(1) by (simp add: lc_ok_def)
  have d: "d \<in> {0, 1, 2}" using CanAdd_le [OF assms(2)] by (simp add: u8_le_2)
  have full: "7 \<le> lc_size c"
    using CanAdd_eq [OF assms(1) CanAdd_le [OF assms(2)]] assms(2) by auto
  obtain b0 b1 b2 where can: "CanAdd c 0 = Some b0" "CanAdd c 1 = Some b1" "CanAdd c 2 = Some b2"
    using CanAdd_eq [OF assms(1)] by (metis u8_le_2 insertCI)
  then have chk: "\<not> b0 \<or> \<not> b1 \<or> \<not> b2" using d assms(2) by auto
  consider "all_same c" | "\<not> all_same c" "lc_size c = 14" | "\<not> all_same c" "lc_size c \<noteq> 14" by blast
  then show ?thesis
  proof cases
    case 1
    then obtain ch where "EncodeRunLength c = Some ch" "decode_list ch = lc_list c"
      using EncodeRunLength_list [OF assms(1)] full by auto
    with 1 can chk len show ?thesis by (simp add: LastChunk_Emit_def)
  next
    case 2
    then have "\<not> has_large_delta c" using assms(1) by (auto simp: lc_ok_def)
    with 2 obtain ch where ch: "EncodeOneBit c = Some ch" "length (decode_list ch) = 14"
      "take 14 (decode_list ch) = take 14 (delta_sizes c)"
      using EncodeOneBit_list [OF assms(1)] by auto
    then have "decode_list ch = lc_list c" using lc_list_short [OF assms(1)] 2 by simp
    with 2 ch can chk len show ?thesis by (simp add: LastChunk_Emit_def lc_consts)
  next
    case 3
    then have le: "lc_size c \<le> 13" using assms(1) by (auto simp: lc_ok_def split: if_splits)
    obtain ch where ch: "EncodeTwoBit c 7 = Some ch" "length (decode_list ch) = 7"
      "take 7 (decode_list ch) = take 7 (delta_sizes c)"
      using EncodeTwoBit_list [OF assms(1) full] by auto
    let ?n = "lc_size c - 7"
    let ?r = "take ?n (drop 7 (delta_sizes c))"
    obtain c' where c': "emit_shift ?n 0 (c\<lparr>lc_size := ?n, all_same := True, has_large_delta := False\<rparr>) = Some c'"
      "lc_size c' = ?n" "length (delta_sizes c') = 14" "take ?n (delta_sizes c') = ?r"
      "all_same c' \<longleftrightarrow> set ?r \<subseteq> {delta_sizes c' ! 0}" "has_large_delta c' \<longleftrightarrow> 2 \<in> set ?r"
    proof -
      have "7 + 0 + ?n \<le> 14" using le by simp
      from emit_shift_list [OF this, of "c\<lparr>lc_size := ?n, all_same := True, has_large_delta := False\<rparr>"]
      show ?thesis using len that by auto
    qed
    have split: "take (lc_size c) (delta_sizes c) = take 7 (delta_sizes c) @ ?r"
      using full by (metis le_add_diff_inverse take_add)
    have "set ?r \<subseteq> {0, 1, 2}"
      using lc_ok_entries(1) [OF assms(1) order_refl] unfolding split by auto
    then have ok: "lc_ok c'"
    proof -
      have "lc_size c' \<le> 6" using c'(2) le by simp
      with c'(3-6) \<open>set ?r \<subseteq> {0, 1, 2}\<close> show ?thesis unfolding lc_ok_def c'(2) by simp
    qed
    have "lc_list c' = ?r" using lc_list_short [OF ok] c'(2,4) le by simp
    moreover have "lc_list c = take 7 (delta_sizes c) @ ?r"
      using lc_list_short [OF assms(1)] le split by simp
    ultimately have "decode_list ch @ lc_list c' = lc_list c" using ch(2,3) by simp
    moreover have "LastChunk_Emit c = Some (c', ch)"
      using 3 full ch(1) c'(1) can chk by (simp add: LastChunk_Emit_def lc_consts Let_def)
    ultimately show ?thesis using ok c'(2) le by auto
  qed
qed

lemma EncodeLast_list:
  assumes "lc_ok c" "0 < lc_size c"
  shows "\<exists>ch. EncodeLast c = Some ch \<and> lc_size c \<le> length (decode_list ch) \<and>
    take (lc_size c) (decode_list ch) = lc_list c"
proof -
  consider "all_same c" | "\<not> all_same c" "lc_size c \<le> 7" | "\<not> all_same c" "\<not> lc_size c \<le> 7" by blast
  then show ?thesis
  proof cases
    case 1
    then obtain ch where "EncodeRunLength c = Some ch" "decode_list ch = lc_list c"
      using EncodeRunLength_list [OF assms(1)] assms(2) by auto
    with 1 assms show ?thesis by (simp add: EncodeLast_def)
  next
    case 2
    then show ?thesis
      using EncodeTwoBit_list [OF assms(1) order_refl] assms lc_list_short [OF assms(1)]
      by (auto simp: EncodeLast_def lc_consts)
  next
    case 3
    then have "\<not> has_large_delta c" "lc_size c \<le> 14" using assms(1) by (auto simp: lc_ok_def split: if_splits)
    with 3 show ?thesis
      using EncodeOneBit_list [OF assms(1)] assms lc_list_short [OF assms(1)]
      by (auto simp: EncodeLast_def lc_consts)
  qed
qed

subsection \<open>Decoding\<close>

lemma decode_symbols_overlay:
  "i + n \<le> length ds \<Longrightarrow> decode_symbols w cap msk n i ch ds =
     Some (overlay ds i (map (\<lambda>j. ucast (drop_bit (w * (cap - 1 - j)) ch AND msk)) [i..<i + n]))"
proof (induction n arbitrary: i ds)
  case (Suc n)
  have "[i..<i + Suc n] = i # [i + 1..<i + 1 + n]" by (simp add: upt_conv_Cons)
  with Suc show ?case by (simp add: put_byte_overlay overlay_append_left)
qed simp

lemma fill_sizes_overlay:
  "i + n \<le> length ds \<Longrightarrow> fill_sizes n i d ds = Some (overlay ds i (replicate n d))"
  by (induction n arbitrary: i ds) (simp_all add: put_byte_overlay overlay_append_left)

lemma tag_tests:
  "ch AND 0x8000 = 0 \<longleftrightarrow> \<not> bit (ch :: u16) 15" "ch AND 0x4000 = 0 \<longleftrightarrow> \<not> bit (ch :: u16) 14"
  "ch AND 0xc000 = 0x8000 \<longleftrightarrow> bit ch 15 \<and> \<not> bit ch 14" "ch AND 0xc000 = 0xc000 \<longleftrightarrow> bit ch 15 \<and> bit ch 14"
proof -
  show "ch AND 0x8000 = 0 \<longleftrightarrow> \<not> bit ch 15" using and_exp_eq_0_iff_not_bit [of ch 15] by simp
  show "ch AND 0x4000 = 0 \<longleftrightarrow> \<not> bit ch 14" using and_exp_eq_0_iff_not_bit [of ch 14] by simp
  have bits: "(\<forall>n < 16. P n) \<longleftrightarrow> (\<forall>n < 14. P n) \<and> P 14 \<and> P (15 :: nat)" for P
  proof -
    have "n < 16 \<longleftrightarrow> n < 14 \<or> n = 14 \<or> n = 15" for n :: nat by linarith
    then show ?thesis by auto
  qed
  have eq: "a = b \<longleftrightarrow> (\<forall>n < 16. bit a n = bit b n)" for a b :: u16
    by (auto intro: bit_word_eqI)
  show "ch AND 0xc000 = 0x8000 \<longleftrightarrow> bit ch 15 \<and> \<not> bit ch 14"
    unfolding eq bits bit_and_iff using bit_chunk_tags by auto
  show "ch AND 0xc000 = 0xc000 \<longleftrightarrow> bit ch 15 \<and> bit ch 14"
    unfolding eq bits bit_and_iff using bit_chunk_tags by auto
qed

lemma and_masks:
  "w AND 1 = take_bit 1 (w :: u16)" "w AND 3 = take_bit 2 w" "w AND 0x1fff = take_bit 13 w"
  by (simp_all add: take_bit_eq_mask mask_eq_exp_minus_1)

lemma take_upt_min: "take n [0..<m] = [0..<min m n]"
  by (cases "n \<le> m") (simp_all add: take_upt min_def)

lemma take_overlay_0: "n \<le> length xs \<Longrightarrow> take n (overlay ds 0 xs) = take n xs"
  by (simp add: overlay_def)

text \<open>What a decoder fed with the symbols \<open>xs\<close> leaves behind.\<close>

definition decoded_as :: "last_chunk \<Rightarrow> bytes \<Rightarrow> bool" where
  "decoded_as c xs \<longleftrightarrow> length (delta_sizes c) = 14 \<and> lc_list c = xs \<and> lc_size c = length xs \<and>
     (\<forall>ys. AppendTo c ys = Some (ys @ xs)) \<and> (set xs \<subseteq> {0, 1, 2} \<longrightarrow> lc_ok c)"

lemma decoded_as_vector:
  assumes "length (delta_sizes c) = 14" "length xs \<le> (if large then 7 else 14)"
    and "\<not> large \<Longrightarrow> 2 \<notin> set xs"
  shows "decoded_as (c\<lparr>lc_size := length xs, has_large_delta := large, all_same := False,
    delta_sizes := overlay (delta_sizes c) 0 xs\<rparr>) xs"
proof -
  have le: "length xs \<le> 14" using assms(2) by (auto split: if_splits)
  then have "take (length xs) (overlay (delta_sizes c) 0 xs) = xs" by (simp add: take_overlay_0)
  with assms le show ?thesis
    by (simp add: decoded_as_def lc_list_def lc_ok_def AppendTo_def get_bytes_def)
qed

lemma DecodeRunLength_list:
  assumes "length (delta_sizes c) = 14" "\<not> bit ch 15"
  shows "\<exists>c'. LastChunk_Decode c ch n = Some c' \<and> decoded_as c' (take n (decode_list ch))"
proof -
  let ?n = "min (unat (take_bit 13 ch)) n" and ?d = "ucast (take_bit 2 (drop_bit 13 ch)) :: u8"
  let ?r = "replicate (min ?n 14) ?d"
  let ?c = "c\<lparr>lc_size := ?n, has_large_delta := (?d \<ge> 2), all_same := True,
    delta_sizes := overlay (delta_sizes c) 0 ?r\<rparr>"
  have dec: "LastChunk_Decode c ch n = Some ?c"
    using assms
    by (simp add: LastChunk_Decode_def DecodeRunLength_def tag_tests and_masks lc_consts
        fill_sizes_overlay Let_def)
  have xs: "take n (decode_list ch) = replicate ?n ?d"
    using assms(2) by (simp add: decode_list_def min.commute)
  have len: "length (overlay (delta_sizes c) 0 ?r) = 14" using assms by simp
  have tk: "take ?n (overlay (delta_sizes c) 0 ?r) = ?r"
    using assms(1) by (cases "?n \<le> 14") (auto simp: overlay_def)
  have d0: "overlay (delta_sizes c) 0 ?r ! 0 = ?d" if "0 < ?n"
    using that by (simp add: overlay_def nth_append)
  have lst: "lc_list ?c = replicate ?n ?d"
    using d0 by (cases "?n = 0") (simp_all add: lc_list_def)
  have "unat (take_bit 13 ch) < 2 ^ 13"
    unfolding unsigned_take_bit_eq by (rule take_bit_nat_less_exp)
  then have n: "?n \<le> 0x1fff" by simp
  have app: "AppendTo ?c ys = Some (ys @ replicate ?n ?d)" for ys
  proof (cases "?n = 0")
    case False
    with d0 len show ?thesis by (simp add: AppendTo_def get_byte_def)
  qed (simp add: AppendTo_def)
  have "lc_ok ?c" if "set (replicate ?n ?d) \<subseteq> {0, 1, 2}"
    using that n len tk d0 by (cases "?n = 0") (auto simp: lc_ok_def)
  then show ?thesis unfolding decoded_as_def xs using dec len lst app by auto
qed

lemma Decode_list:
  assumes "length (delta_sizes c) = 14"
  shows "\<exists>c'. LastChunk_Decode c ch n = Some c' \<and> decoded_as c' (take n (decode_list ch))"
proof -
  consider "\<not> bit ch 15" | "bit ch 15" "\<not> bit ch 14" | "bit ch 15" "bit ch 14" by blast
  then show ?thesis
  proof cases
    case 1
    then show ?thesis using DecodeRunLength_list [OF assms] by blast
  next
    case 2
    let ?xs = "take n (decode_list ch)"
    have xs: "?xs = map (\<lambda>i. ucast (take_bit 1 (drop_bit (13 - i) ch))) [0..<min 14 n]"
      using 2 by (simp add: decode_list_def take_map take_upt_min)
    have "2 \<notin> set ?xs"
    proof -
      have "(ucast (take_bit 1 w :: u16) :: u8) \<noteq> 2" for w :: u16
        by (cases "bit w 0") (simp_all add: take_bit_Suc bit_0 odd_iff_mod_2_eq_one)
      then show ?thesis unfolding xs by auto
    qed
    with 2 assms show ?thesis
      using decoded_as_vector [of c ?xs False]
      by (simp add: LastChunk_Decode_def DecodeOneBit_def tag_tests and_masks lc_consts
          decode_symbols_overlay Let_def xs)
  next
    case 3
    let ?xs = "take n (decode_list ch)"
    have xs: "?xs = map (\<lambda>i. ucast (take_bit 2 (drop_bit (2 * (6 - i)) ch))) [0..<min 7 n]"
      using 3 by (simp add: decode_list_def take_map take_upt_min)
    with 3 assms show ?thesis
      using decoded_as_vector [of c ?xs True]
      by (simp add: LastChunk_Decode_def DecodeTwoBit_def tag_tests and_masks lc_consts
          decode_symbols_overlay Let_def xs)
  qed
qed

lemma length_decode_list: "length (decode_list ch) \<le> 0x1fff"
proof -
  have "unat (take_bit 13 ch) < 2 ^ 13"
    unfolding unsigned_take_bit_eq by (rule take_bit_nat_less_exp)
  then show ?thesis by (simp add: decode_list_def)
qed

lemma decode_list_le_3: "d \<in> set (decode_list ch) \<Longrightarrow> d \<le> 3"
proof -
  have symbol: "(ucast (take_bit k w :: u16) :: u8) \<le> 3" if "k \<le> 2" for w :: u16 and k
  proof -
    have "unat (ucast (take_bit k w :: u16) :: u8) \<le> take_bit k (unat w)"
      using that by (simp add: unsigned_ucast_eq unsigned_take_bit_eq min_def)
    also have "take_bit k (unat w) < 2 ^ k" by (rule take_bit_nat_less_exp)
    also have "(2 :: nat) ^ k \<le> 2 ^ 2" using that by (intro power_increasing) simp_all
    finally show ?thesis by (simp add: word_le_nat_alt)
  qed
  show "d \<in> set (decode_list ch) \<Longrightarrow> d \<le> 3"
    using symbol [of 1] symbol [of 2] unfolding decode_list_def by (auto split: if_splits)
qed

end
