(* ===== verification/Transport_Feedback.thy ===== *)
theory Transport_Feedback
  imports Rtcp_Nack Last_Chunk Seq_Num "HOL-Library.Signed_Division"
begin

text \<open>
  Transport-wide congestion control feedback: class \<open>TransportFeedback\<close> of
  \<open>src/src/myrtc/rtp_rtcp/transport_feedback.{h,cc}\<close>. A receiver calls \<open>SetBase\<close> and then
  \<open>AddReceivedPacket\<close> for every packet that arrived; the message reports, for each sequence number
  from the base on, whether the packet arrived and how much later than the one before it, in ticks
  of 250 microseconds.

  \<open>int64_t\<close> values are integers; the one subtraction whose operand comes from the caller is
  checked for overflow. C++ division and remainder truncate towards zero (\<open>sdiv\<close>, \<open>smod\<close>).

  This theory has the class; \<open>Feedback_Builder\<close> and \<open>Feedback_Wire\<close> have its lemmas.
\<close>

subsection \<open>The class\<close>

definition kTransportFeedbackHeaderSizeBytes :: nat where
  "kTransportFeedbackHeaderSizeBytes = 4 + 8 + 8"
definition kChunkSizeBytes :: nat where "kChunkSizeBytes = 2"
definition kMaxSizeBytes :: nat where "kMaxSizeBytes = 2 ^ 16 * 4"
definition kMinPayloadSizeBytes :: nat where "kMinPayloadSizeBytes = 8 + 8 + 2"
definition kDeltaScaleFactor :: int where "kDeltaScaleFactor = 250"
definition kBaseScaleFactor :: int where "kBaseScaleFactor = kDeltaScaleFactor * 2 ^ 8"
definition kTimeWrapPeriodUs :: int where "kTimeWrapPeriodUs = 2 ^ 24 * kBaseScaleFactor"
definition Tf_kFeedbackMessageType :: nat where "Tf_kFeedbackMessageType = 15"
definition kMaxReportedPackets :: nat where "kMaxReportedPackets = 0xffff"

lemmas tf_consts = kTransportFeedbackHeaderSizeBytes_def kChunkSizeBytes_def kMaxSizeBytes_def
  kMinPayloadSizeBytes_def kDeltaScaleFactor_def kBaseScaleFactor_def kTimeWrapPeriodUs_def
  Tf_kFeedbackMessageType_def kMaxReportedPackets_def kCommonFeedbackLength_def
  Rtpfb_kPacketType_def kHeaderLength_def

text \<open>\<open>ReceivedPacket\<close>; its constructor for a lost packet leaves \<open>delta_ticks_\<close> unset (zero
  here). \<open>delta_ticks\<close> is an \<open>int16_t\<close>, read with \<open>sint\<close>.\<close>

record received_packet =
  sequence_number :: u16
  delta_ticks :: u16
  received :: bool

definition ReceivedPacket :: "u16 \<Rightarrow> u16 \<Rightarrow> received_packet" where
  "ReceivedPacket seq delta = \<lparr>sequence_number = seq, delta_ticks = delta, received = True\<rparr>"

definition LostPacket :: "u16 \<Rightarrow> received_packet" where
  "LostPacket seq = \<lparr>sequence_number = seq, delta_ticks = 0, received = False\<rparr>"

definition delta_us :: "received_packet \<Rightarrow> int" where
  "delta_us p = sint (delta_ticks p) * kDeltaScaleFactor"

record transport_feedback = rtpfb +
  include_lost :: bool
  base_seq_no :: u16
  num_seq_no :: u16
  base_time_ticks :: u32
  feedback_seq :: u8
  include_timestamps :: bool
  last_timestamp_us :: int
  received_packets :: "received_packet list"
  all_packets :: "received_packet list"
  encoded_chunks :: "u16 list"
  tf_last_chunk :: last_chunk
  size_bytes :: nat

definition TransportFeedback_init :: "bool \<Rightarrow> bool \<Rightarrow> transport_feedback" where
  "TransportFeedback_init timestamps lost =
     \<lparr>sender_ssrc = 0, media_ssrc = 0, include_lost = lost, base_seq_no = 0, num_seq_no = 0,
      base_time_ticks = 0, feedback_seq = 0, include_timestamps = timestamps,
      last_timestamp_us = 0, received_packets = [], all_packets = [], encoded_chunks = [],
      tf_last_chunk = LastChunk_init, size_bytes = kTransportFeedbackHeaderSizeBytes\<rparr>"

definition GetBaseTimeUs :: "transport_feedback \<Rightarrow> int" where
  "GetBaseTimeUs tf = sint (base_time_ticks tf) * kBaseScaleFactor"

definition TransportFeedback_Clear :: "transport_feedback \<Rightarrow> transport_feedback" where
  "TransportFeedback_Clear tf =
     tf\<lparr>num_seq_no := 0, last_timestamp_us := GetBaseTimeUs tf, received_packets := [],
        all_packets := [], encoded_chunks := [], tf_last_chunk := LastChunk_Clear (tf_last_chunk tf),
        size_bytes := kTransportFeedbackHeaderSizeBytes\<rparr>"

text \<open>The move constructor: the new object and what is left of the old one. It names no initialiser for
  its base class, whose members therefore start at their defaults.\<close>

definition TransportFeedback_move ::
  "transport_feedback \<Rightarrow> transport_feedback \<times> transport_feedback" where
  "TransportFeedback_move other =
     (other\<lparr>sender_ssrc := 0, media_ssrc := 0\<rparr>,
      TransportFeedback_Clear (other\<lparr>received_packets := [], all_packets := [], encoded_chunks := []\<rparr>))"

definition SetBase :: "transport_feedback \<Rightarrow> u16 \<Rightarrow> int \<Rightarrow> transport_feedback option" where
  "SetBase tf base_sequence ref_timestamp_us =
     do { dcheck (num_seq_no tf = 0);
          dcheck (ref_timestamp_us \<ge> 0);
          let tf = tf\<lparr>base_seq_no := base_sequence,
            base_time_ticks := of_int ((ref_timestamp_us smod kTimeWrapPeriodUs) sdiv kBaseScaleFactor)\<rparr>;
          Some (tf\<lparr>last_timestamp_us := GetBaseTimeUs tf\<rparr>) }"

definition SetFeedbackSequenceNumber :: "transport_feedback \<Rightarrow> u8 \<Rightarrow> transport_feedback" where
  "SetFeedbackSequenceNumber tf feedback_sequence = tf\<lparr>feedback_seq := feedback_sequence\<rparr>"

definition AddDeltaSize :: "transport_feedback \<Rightarrow> u8 \<Rightarrow> (transport_feedback \<times> bool) option" where
  "AddDeltaSize tf delta_size =
     (if unat (num_seq_no tf) = kMaxReportedPackets then Some (tf, False)
      else
        let add_chunk_size = (if LastChunk_Empty (tf_last_chunk tf) then kChunkSizeBytes else 0)
        in if size_bytes tf + unat delta_size + add_chunk_size > kMaxSizeBytes then Some (tf, False)
        else do {
          can \<leftarrow> CanAdd (tf_last_chunk tf) delta_size;
          if can then do {
            c \<leftarrow> LastChunk_Add (tf_last_chunk tf) delta_size;
            Some (tf\<lparr>size_bytes := size_bytes tf + add_chunk_size, tf_last_chunk := c,
                     num_seq_no := num_seq_no tf + 1\<rparr>, True) }
          else if size_bytes tf + unat delta_size + kChunkSizeBytes > kMaxSizeBytes
          then Some (tf, False)
          else do {
            (c, chunk) \<leftarrow> LastChunk_Emit (tf_last_chunk tf);
            c \<leftarrow> LastChunk_Add c delta_size;
            Some (tf\<lparr>encoded_chunks := encoded_chunks tf @ [chunk],
                     size_bytes := size_bytes tf + kChunkSizeBytes, tf_last_chunk := c,
                     num_seq_no := num_seq_no tf + 1\<rparr>, True) } })"

text \<open>The time since the last packet, rounded to ticks.\<close>

definition full_delta :: "transport_feedback \<Rightarrow> int \<Rightarrow> int option" where
  "full_delta tf timestamp_us =
     do { diff \<leftarrow> i64 (timestamp_us - last_timestamp_us tf);
          let delta = diff smod kTimeWrapPeriodUs;
          let delta = (if delta > kTimeWrapPeriodUs sdiv 2 then delta - kTimeWrapPeriodUs else delta);
          let delta = delta + (if delta < 0 then - (kDeltaScaleFactor sdiv 2) else kDeltaScaleFactor sdiv 2);
          Some (delta sdiv kDeltaScaleFactor) }"

text \<open>The loop that reports the packets between the last one and \<open>seq\<close> as lost.\<close>

function add_lost ::
  "transport_feedback \<Rightarrow> u16 \<Rightarrow> u16 \<Rightarrow> (transport_feedback \<times> bool) option" where
  "add_lost tf next_seq_no seq =
     (if next_seq_no = seq then Some (tf, True)
      else case AddDeltaSize tf 0 of
             None \<Rightarrow> None
           | Some (tf', ok) \<Rightarrow>
               if ok then add_lost tf' (next_seq_no + 1) seq else Some (tf', False))"
  by pat_completeness auto
termination
proof (relation "measure (\<lambda>(tf, n, s). unat (s - n))", simp, goal_cases)
  case (1 tf n s p tf' ok)
  then have "0 < unat (s - n)" by (simp add: unat_gt_0)
  moreover from this have "unat (s - (n + 1)) = unat (s - n) - 1"
    unfolding diff_diff_add [symmetric] using unat_sub_if' [of "s - n" 1] by simp
  ultimately show ?case by simp
qed

declare add_lost.simps [simp del]

definition delta_size_of :: "u16 \<Rightarrow> u8" where
  "delta_size_of delta = (if 0 \<le> sint delta \<and> sint delta \<le> 0xff then 1 else 2)"

definition AddReceivedPacket ::
  "transport_feedback \<Rightarrow> u16 \<Rightarrow> int \<Rightarrow> (transport_feedback \<times> bool) option" where
  "AddReceivedPacket tf seq timestamp_us =
     do { delta_full \<leftarrow> (if include_timestamps tf then full_delta tf timestamp_us else Some 0);
          let delta = (of_int delta_full :: u16);
          if sint delta \<noteq> delta_full then Some (tf, False)
          else do {
            let next_seq_no = base_seq_no tf + num_seq_no tf;
            (tf, ok) \<leftarrow> (if seq = next_seq_no then Some (tf, True)
              else if \<not> IsNewerSequenceNumber seq (next_seq_no - 1) then Some (tf, False)
              else add_lost tf next_seq_no seq);
            if \<not> ok then Some (tf, False)
            else do {
              let delta_size = delta_size_of delta;
              (tf, ok) \<leftarrow> AddDeltaSize tf delta_size;
              if \<not> ok then Some (tf, False)
              else
                Some (tf\<lparr>received_packets := received_packets tf @ [ReceivedPacket seq delta],
                  last_timestamp_us := last_timestamp_us tf + sint delta * kDeltaScaleFactor,
                  size_bytes := size_bytes tf + (if include_timestamps tf then unat delta_size else 0)\<rparr>,
                  True) } } }"

definition GetBaseDeltaUs :: "transport_feedback \<Rightarrow> int \<Rightarrow> int option" where
  "GetBaseDeltaUs tf prev_timestamp_us =
     do { delta \<leftarrow> i64 (GetBaseTimeUs tf - prev_timestamp_us);
          down \<leftarrow> i64 (delta - kTimeWrapPeriodUs);
          if \<bar>down\<bar> < \<bar>delta\<bar> then Some down
          else do {
            up \<leftarrow> i64 (delta + kTimeWrapPeriodUs);
            if \<bar>up\<bar> < \<bar>delta\<bar> then Some up else Some delta } }"

subsection \<open>Parsing\<close>

function parse_chunks ::
  "nat \<Rightarrow> nat \<Rightarrow> bytes \<Rightarrow> transport_feedback \<Rightarrow> bytes \<Rightarrow> nat \<Rightarrow>
   (transport_feedback \<times> bytes \<times> nat \<times> bool) option" where
  "parse_chunks end_index status_count payload tf sizes index =
     (if length sizes < status_count then
        if index + kChunkSizeBytes > end_index
        then Some (TransportFeedback_Clear tf, sizes, index, False)
        else case ReadBE16 payload index of
               None \<Rightarrow> None
             | Some chunk \<Rightarrow>
        (case LastChunk_Decode (tf_last_chunk tf) chunk (status_count - length sizes) of
               None \<Rightarrow> None
             | Some c \<Rightarrow>
        (case AppendTo c sizes of
               None \<Rightarrow> None
             | Some sizes' \<Rightarrow>
                 parse_chunks end_index status_count payload
                   (tf\<lparr>encoded_chunks := encoded_chunks tf @ [chunk], tf_last_chunk := c\<rparr>)
                   sizes' (index + kChunkSizeBytes)))
      else Some (tf, sizes, index, True))"
  by pat_completeness auto
termination
  by (relation "measure (\<lambda>(e, n, m, tf, ds, i). e - i)") (auto simp: kChunkSizeBytes_def)

declare parse_chunks.simps [simp del]

definition parsed_packet :: "transport_feedback \<Rightarrow> u16 \<Rightarrow> u16 \<Rightarrow> transport_feedback" where
  "parsed_packet tf seq delta =
     tf\<lparr>received_packets := received_packets tf @ [ReceivedPacket seq delta],
        all_packets := (if include_lost tf then all_packets tf @ [ReceivedPacket seq delta]
                        else all_packets tf),
        last_timestamp_us := last_timestamp_us tf + sint delta * kDeltaScaleFactor\<rparr>"

definition parsed_lost :: "transport_feedback \<Rightarrow> u16 \<Rightarrow> transport_feedback" where
  "parsed_lost tf seq =
     (if include_lost tf then tf\<lparr>all_packets := all_packets tf @ [LostPacket seq]\<rparr> else tf)"

text \<open>The loop over the receive deltas. A delta size above 3 is \<open>RTC_NOTREACHED\<close>.\<close>

fun parse_deltas ::
  "nat \<Rightarrow> bytes \<Rightarrow> bytes \<Rightarrow> u16 \<Rightarrow> transport_feedback \<Rightarrow> nat \<Rightarrow>
   (transport_feedback \<times> nat \<times> bool) option" where
  "parse_deltas end_index payload [] seq tf index = Some (tf, index, True)"
| "parse_deltas end_index payload (d # ds) seq tf index =
     (if index + unat d > end_index then Some (TransportFeedback_Clear tf, index, False)
      else if d = 0 then
        parse_deltas end_index payload ds (seq + 1) (parsed_lost tf seq) index
      else if d = 1 then do {
        b \<leftarrow> get_byte payload index;
        parse_deltas end_index payload ds (seq + 1) (parsed_packet tf seq (ucast b)) (index + unat d) }
      else if d = 2 then do {
        delta \<leftarrow> ReadSignedBE16 payload index;
        parse_deltas end_index payload ds (seq + 1) (parsed_packet tf seq delta) (index + unat d) }
      else if d = 3 then Some (TransportFeedback_Clear tf, index, False)
      else None)"

text \<open>The loop for a message without receive deltas.\<close>

fun parse_no_deltas :: "bytes \<Rightarrow> u16 \<Rightarrow> transport_feedback \<Rightarrow> transport_feedback" where
  "parse_no_deltas [] seq tf = tf"
| "parse_no_deltas (d # ds) seq tf =
     parse_no_deltas ds (seq + 1)
       (let tf = (if d > 0 then tf\<lparr>received_packets := received_packets tf @ [ReceivedPacket seq 0]\<rparr> else tf)
        in if include_lost tf then
             tf\<lparr>all_packets := all_packets tf @ [if d > 0 then ReceivedPacket seq 0 else LostPacket seq]\<rparr>
           else tf)"

definition TransportFeedback_Parse ::
  "transport_feedback \<Rightarrow> common_header \<Rightarrow> (transport_feedback \<times> bool) option" where
  "TransportFeedback_Parse tf packet =
     do { dcheck (ch_packet_type packet = Rtpfb_kPacketType);
          dcheck (unat (ch_count_or_format packet) = Tf_kFeedbackMessageType);
          let end_index = unat (ch_payload_size packet);
          if end_index < kMinPayloadSizeBytes then Some (tf, False)
          else do {
            let payload = ch_payload packet;
            tf \<leftarrow> Rtpfb_ParseCommonFeedback tf payload;
            base_seq \<leftarrow> ReadBE16 payload 8;
            status_count \<leftarrow> ReadBE16 payload 10;
            base_time \<leftarrow> ReadSignedBE24 payload 12;
            fb_seq \<leftarrow> get_byte payload 15;
            let tf = TransportFeedback_Clear (tf\<lparr>base_seq_no := base_seq,
              base_time_ticks := base_time, feedback_seq := fb_seq\<rparr>);
            if status_count = 0 then Some (tf, False)
            else do {
              (tf, sizes, index, ok) \<leftarrow> parse_chunks end_index (unat status_count) payload tf [] 16;
              if \<not> ok then Some (tf, False)
              else do {
                dcheck (encoded_chunks tf \<noteq> []);
                dcheck (length sizes = unat status_count);
                let tf = tf\<lparr>encoded_chunks := butlast (encoded_chunks tf), num_seq_no := status_count\<rparr>;
                let recv_delta_size = sum_list (map unat sizes);
                (tf, index, ok) \<leftarrow>
                  (if end_index \<ge> index + recv_delta_size
                   then parse_deltas end_index payload sizes base_seq tf index
                   else Some (parse_no_deltas sizes base_seq (tf\<lparr>include_timestamps := False\<rparr>),
                              index, True));
                if \<not> ok then Some (tf, False)
                else do {
                  dcheck (index \<le> end_index);
                  Some (tf\<lparr>size_bytes := kHeaderLength + index\<rparr>, True) } } } } }"

text \<open>\<open>ParseFrom\<close>: the inner \<open>None\<close> is the null pointer.\<close>

definition ParseFrom :: "bytes \<Rightarrow> nat \<Rightarrow> transport_feedback option option" where
  "ParseFrom buffer len =
     do { (header, ok) \<leftarrow> CommonHeader_Parse CommonHeader_init buffer len;
          if \<not> ok then Some None
          else if ch_packet_type header \<noteq> Rtpfb_kPacketType \<or>
                  unat (ch_count_or_format header) \<noteq> Tf_kFeedbackMessageType then Some None
          else do {
            (parsed, ok) \<leftarrow> TransportFeedback_Parse (TransportFeedback_init True False) header;
            Some (if ok then Some parsed else None) } }"

subsection \<open>Self-check\<close>

fun consistent_chunks :: "u16 list \<Rightarrow> last_chunk \<Rightarrow> bytes \<Rightarrow> nat \<Rightarrow> (bytes \<times> nat) option" where
  "consistent_chunks [] decoder sizes psize = Some (sizes, psize)"
| "consistent_chunks (chunk # chunks) decoder sizes psize =
     do { decoder \<leftarrow> LastChunk_Decode decoder chunk kMaxReportedPackets;
          sizes \<leftarrow> AppendTo decoder sizes;
          consistent_chunks chunks decoder sizes (psize + kChunkSizeBytes) }"

text \<open>The loop over the delta sizes; \<open>None\<close> is \<open>return false\<close>.\<close>

fun consistent_packets ::
  "bool \<Rightarrow> bytes \<Rightarrow> received_packet list \<Rightarrow> u16 \<Rightarrow> int \<Rightarrow> nat \<Rightarrow>
   (received_packet list \<times> int \<times> nat) option" where
  "consistent_packets timestamps [] packets seq_no t psize = Some (packets, t, psize)"
| "consistent_packets timestamps (d # ds) packets seq_no t psize =
     (let psize' = (if timestamps then psize + unat d else psize)
      in if d > 0 then
           (case packets of
              [] \<Rightarrow> None
            | p # rest \<Rightarrow>
                if sequence_number p \<noteq> seq_no then None
                else if d = 1 \<and> (sint (delta_ticks p) < 0 \<or> sint (delta_ticks p) > 0xff) then None
                else consistent_packets timestamps ds rest (seq_no + 1) (t + delta_us p) psize')
         else consistent_packets timestamps ds packets (seq_no + 1) t psize')"

text \<open>\<open>base_time_ticks_ * kBaseScaleFactor\<close> is a product of two \<open>int\<close>s.\<close>

definition IsConsistent :: "transport_feedback \<Rightarrow> bool option" where
  "IsConsistent tf =
     do { (sizes, psize) \<leftarrow> consistent_chunks (encoded_chunks tf) LastChunk_init []
             kTransportFeedbackHeaderSizeBytes;
          (sizes, psize) \<leftarrow>
            (if LastChunk_Empty (tf_last_chunk tf) then Some (sizes, psize)
             else do { sizes \<leftarrow> AppendTo (tf_last_chunk tf) sizes;
                       Some (sizes, psize + kChunkSizeBytes) });
          if unat (num_seq_no tf) \<noteq> length sizes then Some False
          else do {
            timestamp_us \<leftarrow> i32 (sint (base_time_ticks tf) * kBaseScaleFactor);
            case consistent_packets (include_timestamps tf) sizes (received_packets tf)
                   (base_seq_no tf) timestamp_us psize of
              None \<Rightarrow> Some False
            | Some (rest, t, psize) \<Rightarrow>
                Some (rest = [] \<and> t = last_timestamp_us tf \<and> size_bytes tf = psize) } }"

subsection \<open>Serialising\<close>

text \<open>\<open>(size_bytes_ + 3) & ~3\<close>: rounded up to a multiple of four.\<close>

definition Tf_BlockLength :: "transport_feedback \<Rightarrow> nat" where
  "Tf_BlockLength tf = (size_bytes tf + 3) div 4 * 4"

definition Tf_PaddingLength :: "transport_feedback \<Rightarrow> nat" where
  "Tf_PaddingLength tf = Tf_BlockLength tf - size_bytes tf"

fun create_chunks :: "u16 list \<Rightarrow> bytes \<Rightarrow> nat \<Rightarrow> (bytes \<times> nat) option" where
  "create_chunks [] m pos = Some (m, pos)"
| "create_chunks (chunk # chunks) m pos =
     do { m \<leftarrow> WriteBE16 m pos chunk; create_chunks chunks m (pos + 2) }"

fun create_deltas :: "received_packet list \<Rightarrow> bytes \<Rightarrow> nat \<Rightarrow> (bytes \<times> nat) option" where
  "create_deltas [] m pos = Some (m, pos)"
| "create_deltas (p # ps) m pos =
     (let delta = delta_ticks p
      in if 0 \<le> sint delta \<and> sint delta \<le> 0xff then
           do { m \<leftarrow> put_byte m pos (ucast delta); create_deltas ps m (pos + 1) }
         else do { m \<leftarrow> WriteSignedBE16 m pos delta; create_deltas ps m (pos + 2) })"

fun create_zeros :: "nat \<Rightarrow> bytes \<Rightarrow> nat \<Rightarrow> (bytes \<times> nat) option" where
  "create_zeros 0 m pos = Some (m, pos)"
| "create_zeros (Suc n) m pos = do { m \<leftarrow> put_byte m pos 0; create_zeros n m (pos + 1) }"

text \<open>\<open>Create\<close> from the point where there is room for the packet.\<close>

definition Tf_write :: "transport_feedback \<Rightarrow> out_buffer \<Rightarrow> (out_buffer \<times> bool) option" where
  "Tf_write tf b =
     do { let position_end = out_index b + Tf_BlockLength tf;
          let padding_length = Tf_PaddingLength tf;
          len \<leftarrow> HeaderLength (Tf_BlockLength tf);
          (packet, pos) \<leftarrow> CreateHeader_padding Tf_kFeedbackMessageType Rtpfb_kPacketType len
             (padding_length > 0) (out_packet b) (out_index b);
          packet \<leftarrow> Rtpfb_CreateCommonFeedback tf packet pos;
          let pos = pos + kCommonFeedbackLength;
          packet \<leftarrow> WriteBE16 packet pos (base_seq_no tf);
          let pos = pos + 2;
          packet \<leftarrow> WriteBE16 packet pos (num_seq_no tf);
          let pos = pos + 2;
          packet \<leftarrow> WriteSignedBE24 packet pos (base_time_ticks tf);
          let pos = pos + 3;
          packet \<leftarrow> put_byte packet pos (feedback_seq tf);
          (packet, pos) \<leftarrow> create_chunks (encoded_chunks tf) packet (pos + 1);
          (packet, pos) \<leftarrow>
            (if LastChunk_Empty (tf_last_chunk tf) then Some (packet, pos)
             else do { chunk \<leftarrow> EncodeLast (tf_last_chunk tf);
                       packet \<leftarrow> WriteBE16 packet pos chunk;
                       Some (packet, pos + 2) });
          (packet, pos) \<leftarrow>
            (if include_timestamps tf then create_deltas (received_packets tf) packet pos
             else Some (packet, pos));
          (packet, pos) \<leftarrow>
            (if padding_length > 0 then do {
               (packet, pos) \<leftarrow> create_zeros (padding_length - 1) packet pos;
               packet \<leftarrow> put_byte packet pos (of_nat padding_length);
               Some (packet, pos + 1) }
             else Some (packet, pos));
          dcheck (pos = position_end);
          Some (b\<lparr>out_packet := packet, out_index := pos\<rparr>, True) }"

definition Tf_Create :: "transport_feedback \<Rightarrow> creator" where
  "Tf_Create tf cb max_length b =
     (if num_seq_no tf = 0 then Some (b, False)
      else do {
        (b, ok) \<leftarrow> reserve (Tf_BlockLength tf) cb max_length b;
        if \<not> ok then Some (b, False) else Tf_write tf b })"

end
