(* ===== verification/Feedback_Builder.thy ===== *)
theory Feedback_Builder
  imports Transport_Feedback
begin

text \<open>
  The building side of \<open>TransportFeedback\<close>. The abstract view of an object is the list of packet
  statuses: \<open>None\<close> for a packet that did not arrive, \<open>Some delta\<close> for one that did.
  \<open>tf_ok tf st\<close> is the class invariant and relates the object to that list; the lemmas show that
  \<open>AddReceivedPacket\<close> appends to the list, how far the reported times are from the arrival times,
  and that \<open>IsConsistent\<close> accepts every object that satisfies the invariant.
\<close>

subsection \<open>The abstract view\<close>

type_synonym status = "u16 option"

definition status_size :: "status \<Rightarrow> u8" where
  "status_size s = (case s of None \<Rightarrow> 0 | Some delta \<Rightarrow> delta_size_of delta)"

lemma status_size_simps [simp]:
  "status_size None = 0" "status_size (Some delta) = delta_size_of delta"
  by (simp_all add: status_size_def)

fun status_packets :: "u16 \<Rightarrow> status list \<Rightarrow> received_packet list" where
  "status_packets seq [] = []"
| "status_packets seq (None # st) = status_packets (seq + 1) st"
| "status_packets seq (Some delta # st) = ReceivedPacket seq delta # status_packets (seq + 1) st"

definition status_time :: "status list \<Rightarrow> int" where
  "status_time st = kDeltaScaleFactor * sum_list (map (\<lambda>s. case s of None \<Rightarrow> 0 | Some d \<Rightarrow> sint d) st)"

definition status_bytes :: "status list \<Rightarrow> nat" where
  "status_bytes st = sum_list (map (unat \<circ> status_size) st)"

definition tf_sizes :: "transport_feedback \<Rightarrow> bytes" where
  "tf_sizes tf = concat (map decode_list (encoded_chunks tf)) @ lc_list (tf_last_chunk tf)"

definition tf_chunks :: "transport_feedback \<Rightarrow> nat" where
  "tf_chunks tf = length (encoded_chunks tf) + (if LastChunk_Empty (tf_last_chunk tf) then 0 else 1)"

definition tf_ok :: "transport_feedback \<Rightarrow> status list \<Rightarrow> bool" where
  "tf_ok tf st \<longleftrightarrow> lc_ok (tf_last_chunk tf) \<and> tf_sizes tf = map status_size st \<and>
     (st \<noteq> [] \<longrightarrow> 0 < lc_size (tf_last_chunk tf)) \<and> length st = unat (num_seq_no tf) \<and>
     received_packets tf = status_packets (base_seq_no tf) st \<and>
     (\<not> include_timestamps tf \<longrightarrow> set st \<subseteq> {None, Some 0}) \<and>
     size_bytes tf = 20 + 2 * tf_chunks tf + (if include_timestamps tf then status_bytes st else 0) \<and>
     size_bytes tf \<le> 2 ^ 18 \<and>
     last_timestamp_us tf = GetBaseTimeUs tf + status_time st"

text \<open>The fields the builder leaves alone.\<close>

definition tf_frame :: "transport_feedback \<Rightarrow> transport_feedback \<Rightarrow> bool" where
  "tf_frame tf tf' \<longleftrightarrow> sender_ssrc tf' = sender_ssrc tf \<and> media_ssrc tf' = media_ssrc tf \<and>
     include_lost tf' = include_lost tf \<and> base_seq_no tf' = base_seq_no tf \<and>
     base_time_ticks tf' = base_time_ticks tf \<and> feedback_seq tf' = feedback_seq tf \<and>
     include_timestamps tf' = include_timestamps tf \<and> all_packets tf' = all_packets tf"

lemma tf_frame_refl [simp]: "tf_frame tf tf"
  by (simp add: tf_frame_def)

lemma tf_frame_trans: "tf_frame a b \<Longrightarrow> tf_frame b c \<Longrightarrow> tf_frame a c"
  by (simp add: tf_frame_def)

lemma tf_frame_base_time: "tf_frame tf tf' \<Longrightarrow> GetBaseTimeUs tf' = GetBaseTimeUs tf"
  by (simp add: tf_frame_def GetBaseTimeUs_def)

lemma status_packets_append:
  "status_packets seq (st @ st') = status_packets seq st @ status_packets (seq + of_nat (length st)) st'"
  by (induction seq st rule: status_packets.induct) (simp_all add: ac_simps)

lemma status_packets_lost [simp]: "status_packets seq (replicate k None) = []"
  by (induction k arbitrary: seq) simp_all

lemma status_time_append [simp]: "status_time (st @ st') = status_time st + status_time st'"
  by (simp add: status_time_def algebra_simps)

lemma status_time_simps [simp]:
  "status_time [] = 0" "status_time [None] = 0" "status_time [Some d] = 250 * sint d"
  by (simp_all add: status_time_def tf_consts)

lemma status_bytes_append [simp]: "status_bytes (st @ st') = status_bytes st + status_bytes st'"
  by (simp add: status_bytes_def)

lemma status_bytes_simps [simp]:
  "status_bytes [] = 0" "status_bytes [None] = 0" "status_bytes [Some d] = unat (delta_size_of d)"
  by (simp_all add: status_bytes_def status_size_def)

lemma delta_size_of_cases: "delta_size_of d = 1 \<or> delta_size_of d = 2"
  by (simp add: delta_size_of_def)

lemma delta_size_of_le: "delta_size_of d \<le> 2" "delta_size_of d \<noteq> 0"
  using delta_size_of_cases [of d] by (auto simp: word_le_nat_alt)

lemma status_time_lost [simp]: "status_time (replicate k None) = 0"
  by (induction k) (simp_all add: status_time_def)

subsection \<open>Building\<close>

lemma unat_Suc_u16: "unat (w :: u16) \<noteq> 0xffff \<Longrightarrow> unat (w + 1) = unat w + 1"
  using unat_u16_less [of w] by (simp add: unat_word_ariths)

text \<open>\<open>chunks_grown tf d enc c n\<close>: the chunks \<open>enc\<close>, the last chunk \<open>c\<close> and the size \<open>n\<close> are those
  of \<open>tf\<close> with one more delta size.\<close>

definition chunks_grown ::
  "transport_feedback \<Rightarrow> u8 \<Rightarrow> u16 list \<Rightarrow> last_chunk \<Rightarrow> nat \<Rightarrow> bool" where
  "chunks_grown tf d enc c n \<longleftrightarrow> unat (num_seq_no tf) \<noteq> 0xffff \<and> lc_ok c \<and> 0 < lc_size c \<and>
     concat (map decode_list enc) @ lc_list c = tf_sizes tf @ [d] \<and>
     n + 2 * tf_chunks tf = size_bytes tf + 2 * (length enc + 1) \<and> n + unat d \<le> 2 ^ 18"

definition grow :: "transport_feedback \<Rightarrow> u16 list \<Rightarrow> last_chunk \<Rightarrow> nat \<Rightarrow> transport_feedback" where
  "grow tf enc c n = tf\<lparr>encoded_chunks := enc, tf_last_chunk := c,
     num_seq_no := num_seq_no tf + 1, size_bytes := n\<rparr>"

lemma grow_simps [simp]:
  "encoded_chunks (grow tf enc c n) = enc" "tf_last_chunk (grow tf enc c n) = c"
  "num_seq_no (grow tf enc c n) = num_seq_no tf + 1" "size_bytes (grow tf enc c n) = n"
  "base_seq_no (grow tf enc c n) = base_seq_no tf"
  "received_packets (grow tf enc c n) = received_packets tf"
  "last_timestamp_us (grow tf enc c n) = last_timestamp_us tf"
  "include_timestamps (grow tf enc c n) = include_timestamps tf"
  "GetBaseTimeUs (grow tf enc c n) = GetBaseTimeUs tf"
  "tf_frame tf (grow tf enc c n)"
  by (simp_all add: grow_def GetBaseTimeUs_def tf_frame_def)

lemma AddDeltaSize_spec:
  assumes "lc_ok (tf_last_chunk tf)" "d \<le> 2"
  shows "AddDeltaSize tf d = Some (tf, False) \<or>
    (\<exists>enc c n. AddDeltaSize tf d = Some (grow tf enc c n, True) \<and> chunks_grown tf d enc c n)"
proof -
  let ?c = "tf_last_chunk tf"
  let ?add = "if LastChunk_Empty ?c then kChunkSizeBytes else 0"
  obtain can where can: "CanAdd ?c d = Some can" using CanAdd_eq [OF assms] by blast
  show ?thesis
  proof (cases "unat (num_seq_no tf) = 0xffff \<or> size_bytes tf + unat d + ?add > 2 ^ 18")
    case True
    then show ?thesis by (auto simp: AddDeltaSize_def tf_consts)
  next
    case False
    then have room: "unat (num_seq_no tf) \<noteq> 0xffff" "size_bytes tf + unat d + ?add \<le> 2 ^ 18" by auto
    show ?thesis
    proof (cases can)
      case True
      with can have "CanAdd ?c d = Some True" by simp
      from Add_list [OF assms(1) this]
      obtain c where c: "LastChunk_Add ?c d = Some c" "lc_ok c" "lc_list c = lc_list ?c @ [d]"
        "lc_size c = lc_size ?c + 1" by blast
      have "AddDeltaSize tf d = Some (grow tf (encoded_chunks tf) c (size_bytes tf + ?add), True)"
        using room can True c(1)
        by (simp add: AddDeltaSize_def kMaxReportedPackets_def kMaxSizeBytes_def grow_def)
      moreover have "chunks_grown tf d (encoded_chunks tf) c (size_bytes tf + ?add)"
        using room c by (auto simp: chunks_grown_def tf_sizes_def tf_chunks_def kChunkSizeBytes_def)
      ultimately show ?thesis by blast
    next
      case False
      with can have "CanAdd ?c d = Some False" by simp
      from Emit_list [OF assms(1) this]
      obtain c ch where e: "LastChunk_Emit ?c = Some (c, ch)" "lc_ok c" "lc_size c < 7"
        "decode_list ch @ lc_list c = lc_list ?c" by blast
      have "CanAdd c d = Some True" using CanAdd_eq [OF e(2) assms(2)] e(3) by simp
      from Add_list [OF e(2) this]
      obtain c' where c': "LastChunk_Add c d = Some c'" "lc_ok c'" "lc_list c' = lc_list c @ [d]"
        "lc_size c' = lc_size c + 1" by blast
      have ne: "\<not> LastChunk_Empty ?c"
        using can False CanAdd_eq [OF assms] by (auto simp: LastChunk_Empty_def)
      show ?thesis
      proof (cases "size_bytes tf + unat d + 2 > 2 ^ 18")
        case True
        with room can False ne show ?thesis by (simp add: AddDeltaSize_def tf_consts)
      next
        case fits: False
        have "AddDeltaSize tf d = Some (grow tf (encoded_chunks tf @ [ch]) c' (size_bytes tf + 2), True)"
          using room can False ne fits e(1) c'(1) by (simp add: AddDeltaSize_def tf_consts grow_def)
        moreover have "chunks_grown tf d (encoded_chunks tf @ [ch]) c' (size_bytes tf + 2)"
          using room(1) ne fits c' arg_cong [OF e(4), of "\<lambda>x. x @ [d]"]
          by (simp add: chunks_grown_def tf_sizes_def tf_chunks_def)
        ultimately show ?thesis by blast
      qed
    qed
  qed
qed

lemma tf_ok_packets: "tf_ok tf st \<Longrightarrow> received_packets tf = status_packets (base_seq_no tf) st"
  and tf_ok_time: "tf_ok tf st \<Longrightarrow> last_timestamp_us tf = GetBaseTimeUs tf + status_time st"
  by (simp_all add: tf_ok_def)

lemma tf_ok_num: "tf_ok tf st \<Longrightarrow> num_seq_no tf = of_nat (length st)"
  by (simp add: tf_ok_def)

text \<open>Appending one status: the sizes first, then what the caller of \<open>AddDeltaSize\<close> records.\<close>

lemma tf_ok_append:
  assumes "tf_ok tf st" "status_size s = d" "\<not> include_timestamps tf \<longrightarrow> s \<in> {None, Some 0}"
    and "chunks_grown tf d (encoded_chunks tf') (tf_last_chunk tf') n" "tf_frame tf tf'"
    and "num_seq_no tf' = num_seq_no tf + 1"
    and "size_bytes tf' = n + (if include_timestamps tf then unat d else 0)"
    and "received_packets tf' = received_packets tf @ status_packets (base_seq_no tf + num_seq_no tf) [s]"
    and "last_timestamp_us tf' = last_timestamp_us tf + status_time [s]"
  shows "tf_ok tf' (st @ [s])"
proof -
  note g = assms(4) [unfolded chunks_grown_def]
  have "of_nat (length st) = num_seq_no tf" using assms(1) by (simp add: tf_ok_def)
  moreover have "status_bytes [s] = unat d" using assms(2) by (simp add: status_bytes_def)
  moreover have "unat (num_seq_no tf + 1) = unat (num_seq_no tf) + 1" using g unat_Suc_u16 by blast
  moreover have "base_seq_no tf' = base_seq_no tf" "include_timestamps tf' = include_timestamps tf"
    using assms(5) by (simp_all add: tf_frame_def)
  ultimately show ?thesis
    using assms(1-3,6-9) g tf_frame_base_time [OF assms(5)]
    by (auto simp: tf_ok_def tf_sizes_def tf_chunks_def LastChunk_Empty_def status_packets_append)
qed

lemma AddDeltaSize_lost:
  assumes "tf_ok tf st"
  shows "AddDeltaSize tf 0 = Some (tf, False) \<or>
    (\<exists>tf'. AddDeltaSize tf 0 = Some (tf', True) \<and> tf_ok tf' (st @ [None]) \<and> tf_frame tf tf' \<and>
      num_seq_no tf' = num_seq_no tf + 1)"
proof -
  have "lc_ok (tf_last_chunk tf)" "(0 :: u8) \<le> 2" using assms by (simp_all add: tf_ok_def)
  from AddDeltaSize_spec [OF this] show ?thesis
  proof (elim disjE exE conjE, goal_cases)
    case (2 enc c n)
    have "tf_ok (grow tf enc c n) (st @ [None])"
      by (rule tf_ok_append [OF assms, where d = 0 and n = n]) (use 2(2) in \<open>simp_all add: status_size_def\<close>)
    with 2(1) show ?case by auto
  qed simp
qed

lemma add_lost_spec:
  assumes "tf_ok tf st" "next_seq_no = base_seq_no tf + num_seq_no tf"
  shows "\<exists>tf' ok k. add_lost tf next_seq_no seq = Some (tf', ok) \<and>
    tf_ok tf' (st @ replicate k None) \<and> tf_frame tf tf' \<and> (ok \<longrightarrow> k = unat (seq - next_seq_no))"
  using assms
proof (induction tf next_seq_no seq arbitrary: st rule: add_lost.induct)
  case (1 tf next_seq_no seq)
  show ?case
  proof (cases "next_seq_no = seq")
    case True
    then have "add_lost tf next_seq_no seq = Some (tf, True)" by (subst add_lost.simps) simp
    with "1.prems"(1) True show ?thesis
      by (intro exI [of _ tf] exI [of _ True] exI [of _ 0]) simp
  next
    case False
    from AddDeltaSize_lost [OF "1.prems"(1)] show ?thesis
    proof (elim disjE exE conjE)
      assume "AddDeltaSize tf 0 = Some (tf, False)"
      with False have "add_lost tf next_seq_no seq = Some (tf, False)"
        by (subst add_lost.simps) simp
      with "1.prems"(1) show ?thesis
        by (intro exI [of _ tf] exI [of _ False] exI [of _ 0]) simp
    next
      fix tf' assume tf': "AddDeltaSize tf 0 = Some (tf', True)" "tf_ok tf' (st @ [None])"
        "tf_frame tf tf'" "num_seq_no tf' = num_seq_no tf + 1"
      have "next_seq_no + 1 = base_seq_no tf' + num_seq_no tf'"
        using "1.prems"(2) tf'(3,4) by (simp add: tf_frame_def)
      from "1.IH" [OF False tf'(1) refl TrueI tf'(2) this]
      obtain tf'' ok k where r: "add_lost tf' (next_seq_no + 1) seq = Some (tf'', ok)"
        "tf_ok tf'' ((st @ [None]) @ replicate k None)" "tf_frame tf' tf''"
        "ok \<longrightarrow> k = unat (seq - (next_seq_no + 1))" by blast
      have "0 < unat (seq - next_seq_no)" using False by (simp add: unat_gt_0)
      then have "unat (seq - next_seq_no) = Suc (unat (seq - (next_seq_no + 1)))"
        unfolding diff_diff_add [symmetric] using unat_sub_if' [of "seq - next_seq_no" 1] by simp
      moreover have "add_lost tf next_seq_no seq = Some (tf'', ok)"
        using r(1) False tf'(1) by (subst add_lost.simps) simp
      moreover have "tf_ok tf'' (st @ replicate (Suc k) None)" using r(2) by simp
      ultimately show ?thesis using r(4) tf_frame_trans [OF tf'(3) r(3)] by metis
    qed
  qed
qed

subsection \<open>Rounding the arrival times\<close>

lemma sdiv_round:
  fixes m :: int
  assumes "d = (m + (if m < 0 then - 125 else 125)) sdiv 250"
  shows "\<bar>250 * d - m\<bar> \<le> 125"
proof -
  have div: "250 * (x div 250) \<le> x" "x < 250 * (x div 250) + 250" for x :: int
    using mult_div_mod_eq [of 250 x] pos_mod_bound [of 250 x] pos_mod_sign [of 250 x] by linarith+
  show ?thesis
  proof (cases "m < 0")
    case True
    then have "d = - ((125 - m) div 250)" using assms by (simp add: signed_divide_int_def sgn_if)
    then show ?thesis using div [of "125 - m"] by linarith
  next
    case False
    then have "d = (m + 125) div 250" using assms by (simp add: signed_divide_int_def sgn_if)
    then show ?thesis using div [of "m + 125"] by linarith
  qed
qed

lemma full_delta_round:
  assumes "full_delta tf t = Some d"
  shows "\<exists>k. \<bar>t + k * kTimeWrapPeriodUs - (last_timestamp_us tf + 250 * d)\<bar> \<le> 125"
proof -
  let ?x = "t - last_timestamp_us tf" and ?P = kTimeWrapPeriodUs
  let ?m = "?x smod ?P"
  let ?m' = "if ?m > ?P sdiv 2 then ?m - ?P else ?m"
  have "d = (?m' + (if ?m' < 0 then - 125 else 125)) sdiv 250"
    using assms
    by (auto simp: full_delta_def i64_def Let_def kDeltaScaleFactor_def signed_divide_int_def split: if_splits)
  from sdiv_round [OF this] have r: "\<bar>250 * d - ?m'\<bar> \<le> 125" .
  have x: "?x = ?x sdiv ?P * ?P + ?m" by (rule sdiv_mult_smod_eq [symmetric])
  define q where "q = ?x sdiv ?P"
  have "?x = (if ?m > ?P sdiv 2 then q + 1 else q) * ?P + ?m'"
    using x unfolding q_def [symmetric] by (simp add: algebra_simps)
  with r have "\<bar>t + - (if ?m > ?P sdiv 2 then q + 1 else q) * ?P - (last_timestamp_us tf + 250 * d)\<bar> \<le> 125"
    by (simp only: minus_mult_left [symmetric])
  then show ?thesis by blast
qed

text \<open>The time stays far inside 64 bits, so the one subtraction on a timestamp of the caller does not
  overflow.\<close>

lemma sum_deltas_bound:
  "\<bar>sum_list (map (\<lambda>s. case s of None \<Rightarrow> 0 | Some d \<Rightarrow> sint (d :: u16)) st)\<bar> \<le> 32768 * int (length st)"
proof (induction st)
  case (Cons s st)
  have "\<bar>sint (d :: u16)\<bar> \<le> 32768" for d using sint_range_size [of d] by (simp add: word_size abs_le_iff)
  then have "\<bar>case s of None \<Rightarrow> 0 | Some d \<Rightarrow> sint (d :: u16)\<bar> \<le> 32768"
    by (simp split: option.split)
  with Cons show ?case by simp
qed simp

lemma last_timestamp_bound:
  assumes "tf_ok tf st"
  shows "\<bar>last_timestamp_us tf\<bar> < 2 ^ 48"
proof -
  let ?s = "sum_list (map (\<lambda>s. case s of None \<Rightarrow> 0 | Some d \<Rightarrow> sint (d :: u16)) st)"
  have "length st < 65536" using assms unat_u16_less [of "num_seq_no tf"] unfolding tf_ok_def by metis
  then have "\<bar>?s\<bar> \<le> 32768 * 65536" using sum_deltas_bound [of st] by linarith
  moreover have "\<bar>sint (base_time_ticks tf)\<bar> \<le> 2 ^ 31"
    using sint_range_size [of "base_time_ticks tf"] by (simp add: word_size abs_le_iff)
  moreover have "last_timestamp_us tf = sint (base_time_ticks tf) * 64000 + 250 * ?s"
    using assms by (simp add: tf_ok_def GetBaseTimeUs_def status_time_def tf_consts)
  moreover have "\<bar>S\<bar> \<le> 32768 * 65536 \<Longrightarrow> \<bar>T\<bar> \<le> 2147483648 \<Longrightarrow> \<bar>T * 64000 + 250 * S\<bar> < 281474976710656"
    for S T :: int by linarith
  ultimately show ?thesis by simp
qed

lemma full_delta_total:
  assumes "tf_ok tf st" "\<bar>t\<bar> < 2 ^ 62"
  shows "\<exists>d. full_delta tf t = Some d"
proof -
  have "- (2 ^ 63) \<le> t - last_timestamp_us tf \<and> t - last_timestamp_us tf < 2 ^ 63"
    using last_timestamp_bound [OF assms(1)] assms(2) by (simp add: abs_less_iff)
  then show ?thesis by (simp add: full_delta_def i64_def Let_def)
qed

subsection \<open>\<open>AddReceivedPacket\<close>\<close>

text \<open>\<open>time_error t u e\<close>: the times \<open>t\<close> and \<open>u\<close> differ by at most \<open>e\<close> modulo the wrap period of the
  24-bit base time.\<close>

definition time_error :: "int \<Rightarrow> int \<Rightarrow> int \<Rightarrow> bool" where
  "time_error t u e \<longleftrightarrow> (\<exists>k. \<bar>t + k * kTimeWrapPeriodUs - u\<bar> \<le> e)"

lemma AddDeltaSize_received:
  assumes "tf_ok tf st" "\<not> include_timestamps tf \<longrightarrow> delta = 0"
    and "seq = base_seq_no tf + num_seq_no tf"
  shows "AddDeltaSize tf (delta_size_of delta) = Some (tf, False) \<or>
    (\<exists>tf'. AddDeltaSize tf (delta_size_of delta) = Some (tf', True) \<and> tf_frame tf tf' \<and>
      last_timestamp_us tf' = last_timestamp_us tf \<and>
      tf_ok (tf'\<lparr>received_packets := received_packets tf' @ [ReceivedPacket seq delta],
        last_timestamp_us := last_timestamp_us tf' + sint delta * kDeltaScaleFactor,
        size_bytes := size_bytes tf' +
          (if include_timestamps tf' then unat (delta_size_of delta) else 0)\<rparr>) (st @ [Some delta]))"
proof -
  have "lc_ok (tf_last_chunk tf)" using assms by (simp add: tf_ok_def)
  from AddDeltaSize_spec [OF this delta_size_of_le(1) [of delta]] show ?thesis
  proof (elim disjE exE conjE, goal_cases)
    case (2 enc c n)
    let ?tf = "(grow tf enc c n)\<lparr>received_packets := received_packets tf @ [ReceivedPacket seq delta],
        last_timestamp_us := last_timestamp_us tf + sint delta * kDeltaScaleFactor,
        size_bytes := n + (if include_timestamps tf then unat (delta_size_of delta) else 0)\<rparr>"
    have "tf_frame tf ?tf" by (simp add: tf_frame_def grow_def)
    then have "tf_ok ?tf (st @ [Some delta])"
      by (intro tf_ok_append [OF assms(1), where d = "delta_size_of delta" and n = n])
         (use 2(2) assms(2,3) in \<open>simp_all add: status_size_def kDeltaScaleFactor_def\<close>)
    with 2(1) show ?case by auto
  qed simp
qed

definition next_seq :: "transport_feedback \<Rightarrow> u16" where
  "next_seq tf = base_seq_no tf + num_seq_no tf"

lemma AddReceivedPacket_spec:
  assumes "tf_ok tf st" "\<bar>t\<bar> < 2 ^ 62"
  shows "\<exists>tf' ok st'. AddReceivedPacket tf seq t = Some (tf', ok) \<and> tf_ok tf' st' \<and> tf_frame tf tf' \<and>
    (if ok then \<exists>delta. st' = st @ replicate (unat (seq - next_seq tf)) None @ [Some delta] \<and>
         (include_timestamps tf \<longrightarrow> time_error t (last_timestamp_us tf') 125)
     else \<exists>k. st' = st @ replicate k None)"
proof -
  obtain full where full: "(if include_timestamps tf then full_delta tf t else Some 0) = Some full"
    using full_delta_total [OF assms] by (cases "include_timestamps tf") auto
  define delta :: u16 where "delta = of_int full"
  have unchanged: ?thesis if "AddReceivedPacket tf seq t = Some (tf, False)"
    using that assms(1) by (intro exI [of _ tf] exI [of _ False] exI [of _ st]) (auto intro: exI [of _ 0])
  show ?thesis
  proof (cases "sint delta = full")
    case False
    then show ?thesis using full by (intro unchanged) (simp add: AddReceivedPacket_def delta_def)
  next
    case fits: True
    have zero: "\<not> include_timestamps tf \<longrightarrow> delta = 0" using full by (auto simp: delta_def)
    have gap: "\<exists>tf1 ok k. (if seq = next_seq tf then Some (tf, True)
          else if \<not> IsNewerSequenceNumber seq (next_seq tf - 1) then Some (tf, False)
          else add_lost tf (next_seq tf) seq) = Some (tf1, ok) \<and>
        tf_ok tf1 (st @ replicate k None) \<and> tf_frame tf tf1 \<and> (ok \<longrightarrow> k = unat (seq - next_seq tf))"
    proof (cases "seq = next_seq tf \<or> \<not> IsNewerSequenceNumber seq (next_seq tf - 1)")
      case True
      then show ?thesis using assms(1) by (auto intro!: exI [of _ 0])
    next
      case False
      then show ?thesis using add_lost_spec [OF assms(1) next_seq_def, of seq] by simp
    qed
    then obtain tf1 ok k where g: "(if seq = next_seq tf then Some (tf, True)
          else if \<not> IsNewerSequenceNumber seq (next_seq tf - 1) then Some (tf, False)
          else add_lost tf (next_seq tf) seq) = Some (tf1, ok)"
        "tf_ok tf1 (st @ replicate k None)" "tf_frame tf tf1" "ok \<longrightarrow> k = unat (seq - next_seq tf)"
      by blast
    have run: "AddReceivedPacket tf seq t =
        (if \<not> ok then Some (tf1, False)
         else do { (tf, ok) \<leftarrow> AddDeltaSize tf1 (delta_size_of delta);
                   if \<not> ok then Some (tf, False)
                   else Some (tf\<lparr>received_packets := received_packets tf @ [ReceivedPacket seq delta],
                     last_timestamp_us := last_timestamp_us tf + sint delta * kDeltaScaleFactor,
                     size_bytes := size_bytes tf +
                       (if include_timestamps tf then unat (delta_size_of delta) else 0)\<rparr>, True) })"
      unfolding AddReceivedPacket_def full Option.bind_lunit Let_def delta_def [symmetric]
        next_seq_def [symmetric] g(1) using fits by simp
    show ?thesis
    proof (cases ok)
      case False
      with run have "AddReceivedPacket tf seq t = Some (tf1, False)" by simp
      then show ?thesis using g(2,3) by (intro exI [of _ tf1] exI [of _ False]) auto
    next
      case True
      have k: "k = unat (seq - next_seq tf)" using g(4) True by simp
      have "num_seq_no tf1 = num_seq_no tf + of_nat k"
        using tf_ok_num [OF g(2)] tf_ok_num [OF assms(1)] by simp
      then have seq: "seq = base_seq_no tf1 + num_seq_no tf1"
        using g(3) by (simp add: tf_frame_def k next_seq_def)
      have last: "last_timestamp_us tf1 = last_timestamp_us tf"
        using g(2) assms(1) tf_frame_base_time [OF g(3)] by (simp add: tf_ok_def)
      have "\<not> include_timestamps tf1 \<longrightarrow> delta = 0" using zero g(3) by (simp add: tf_frame_def)
      from AddDeltaSize_received [OF g(2) this seq] show ?thesis
      proof (elim disjE exE conjE, goal_cases)
        case 1
        with run True have "AddReceivedPacket tf seq t = Some (tf1, False)" by simp
        then show ?thesis using g(2,3) by (intro exI [of _ tf1] exI [of _ False]) auto
      next
        case (2 tf2)
        have "time_error t (last_timestamp_us tf + sint delta * kDeltaScaleFactor) 125" if "include_timestamps tf"
          using full_delta_round [of tf t full] full fits that
          by (simp add: time_error_def kDeltaScaleFactor_def mult.commute)
        moreover let ?r = "tf2\<lparr>received_packets := received_packets tf2 @ [ReceivedPacket seq delta],
          last_timestamp_us := last_timestamp_us tf2 + sint delta * kDeltaScaleFactor,
          size_bytes := size_bytes tf2 +
            (if include_timestamps tf2 then unat (delta_size_of delta) else 0)\<rparr>"
        have "AddReceivedPacket tf seq t = Some (?r, True)" using run True 2(1) by simp
        moreover have "tf_frame tf ?r" using tf_frame_trans [OF g(3) 2(2)] by (simp add: tf_frame_def)
        moreover have "last_timestamp_us ?r = last_timestamp_us tf + sint delta * kDeltaScaleFactor"
          using 2(3) last by simp
        ultimately show ?thesis
          using 2(4) k by (intro exI [of _ ?r] exI [of _ True] exI [of _ "(st @ replicate k None) @ [Some delta]"])
            (auto intro!: exI [of _ delta])
      qed
    qed
  qed
qed

lemma AddReceivedPacket_ok:
  assumes "tf_ok tf st" "\<bar>t\<bar> < 2 ^ 62" "AddReceivedPacket tf seq t = Some (tf', True)"
  shows "\<exists>st' p. tf_ok tf' st' \<and> tf_frame tf tf' \<and> received_packets tf' = received_packets tf @ [p] \<and>
    sequence_number p = seq \<and> last_timestamp_us tf' = last_timestamp_us tf + delta_us p \<and>
    (include_timestamps tf \<longrightarrow> time_error t (last_timestamp_us tf') 125)"
proof -
  let ?k = "unat (seq - next_seq tf)"
  from AddReceivedPacket_spec [OF assms(1,2), of seq] assms(3)
  obtain delta where r: "tf_ok tf' (st @ replicate ?k None @ [Some delta])" "tf_frame tf tf'"
    "include_timestamps tf \<longrightarrow> time_error t (last_timestamp_us tf') 125" by auto
  have "received_packets tf' = received_packets tf @ [ReceivedPacket seq delta]"
    using tf_ok_packets [OF r(1)] tf_ok_packets [OF assms(1)] r(2)
    by (simp add: tf_frame_def status_packets_append tf_ok_num [OF assms(1), symmetric] next_seq_def)
  moreover have "last_timestamp_us tf' = last_timestamp_us tf + delta_us (ReceivedPacket seq delta)"
    using tf_ok_time [OF r(1)] tf_ok_time [OF assms(1)] tf_frame_base_time [OF r(2)]
    by (simp add: delta_us_def ReceivedPacket_def kDeltaScaleFactor_def)
  ultimately show ?thesis
    using r by (intro exI [of _ "st @ replicate ?k None @ [Some delta]"] exI [of _ "ReceivedPacket seq delta"])
      (simp add: ReceivedPacket_def)
qed

text \<open>A receiver that reports the packets of a list of arrivals, stopping at the first that is
  refused.\<close>

fun feedback_run ::
  "transport_feedback \<Rightarrow> (u16 \<times> int) list \<Rightarrow> (transport_feedback \<times> bool) option" where
  "feedback_run tf [] = Some (tf, True)"
| "feedback_run tf ((seq, t) # arrivals) =
     do { (tf, ok) \<leftarrow> AddReceivedPacket tf seq t;
          if ok then feedback_run tf arrivals else Some (tf, False) }"

text \<open>The arrival times a sender reads out of a report that starts at time \<open>t\<close>.\<close>

fun packet_times :: "int \<Rightarrow> received_packet list \<Rightarrow> int list" where
  "packet_times t [] = []"
| "packet_times t (p # ps) = (t + delta_us p) # packet_times (t + delta_us p) ps"

definition times_ok :: "(u16 \<times> int) list \<Rightarrow> bool" where
  "times_ok arrivals \<longleftrightarrow> list_all (\<lambda>(seq, t). \<bar>t\<bar> < 2 ^ 62) arrivals"

lemma feedback_run_total:
  assumes "tf_ok tf st" "times_ok arrivals"
  shows "\<exists>tf' ok st'. feedback_run tf arrivals = Some (tf', ok) \<and> tf_ok tf' st' \<and> tf_frame tf tf'"
  using assms
proof (induction tf arrivals arbitrary: st rule: feedback_run.induct)
  case (1 tf)
  then show ?case by auto
next
  case (2 tf seq t arrivals)
  from "2.prems"(2) have t: "\<bar>t\<bar> < 2 ^ 62" "times_ok arrivals" by (simp_all add: times_ok_def)
  from AddReceivedPacket_spec [OF "2.prems"(1) t(1), of seq]
  obtain tf1 ok st1 where a: "AddReceivedPacket tf seq t = Some (tf1, ok)" "tf_ok tf1 st1" "tf_frame tf tf1"
    by blast
  show ?case
  proof (cases ok)
    case True
    from "2.IH" [OF a(1) refl True a(2) t(2)]
    obtain tf2 ok2 st2 where "feedback_run tf1 arrivals = Some (tf2, ok2)" "tf_ok tf2 st2" "tf_frame tf1 tf2"
      by blast
    with a True tf_frame_trans [OF a(3)] show ?thesis by auto
  next
    case False
    with a show ?thesis by auto
  qed
qed

lemma feedback_run_reports:
  assumes "tf_ok tf st" "times_ok arrivals" "feedback_run tf arrivals = Some (tf', True)"
  shows "\<exists>st' ps. tf_ok tf' st' \<and> tf_frame tf tf' \<and> received_packets tf' = received_packets tf @ ps \<and>
    map sequence_number ps = map fst arrivals \<and>
    (include_timestamps tf \<longrightarrow>
       list_all2 (\<lambda>(seq, t) u. time_error t u 125) arrivals (packet_times (last_timestamp_us tf) ps))"
  using assms
proof (induction tf arrivals arbitrary: st rule: feedback_run.induct)
  case (1 tf)
  then show ?case by auto
next
  case (2 tf seq t arrivals)
  from "2.prems"(2) have t: "\<bar>t\<bar> < 2 ^ 62" "times_ok arrivals" by (simp_all add: times_ok_def)
  from "2.prems"(3) obtain tf1 where a: "AddReceivedPacket tf seq t = Some (tf1, True)"
    "feedback_run tf1 arrivals = Some (tf', True)"
    by (auto split: bind_splits if_splits)
  obtain st1 p where p: "tf_ok tf1 st1" "tf_frame tf tf1" "received_packets tf1 = received_packets tf @ [p]"
    "sequence_number p = seq" "last_timestamp_us tf1 = last_timestamp_us tf + delta_us p"
    "include_timestamps tf \<longrightarrow> time_error t (last_timestamp_us tf1) 125"
    using AddReceivedPacket_ok [OF "2.prems"(1) t(1) a(1)] by blast
  obtain st' ps where ps: "tf_ok tf' st'" "tf_frame tf1 tf'" "received_packets tf' = received_packets tf1 @ ps"
    "map sequence_number ps = map fst arrivals"
    "include_timestamps tf1 \<longrightarrow>
       list_all2 (\<lambda>(seq, t) u. time_error t u 125) arrivals (packet_times (last_timestamp_us tf1) ps)"
    using "2.IH" [OF a(1) refl TrueI p(1) t(2) a(2)] by blast
  have "include_timestamps tf1 = include_timestamps tf" using p(2) by (simp add: tf_frame_def)
  with p ps tf_frame_trans [OF p(2) ps(2)] show ?case
    by (intro exI [of _ st'] exI [of _ "p # ps"]) simp
qed

subsection \<open>\<open>SetBase\<close>\<close>

lemma trunc_nonneg:
  fixes a b :: int
  assumes "0 \<le> a" "0 < b"
  shows "a sdiv b = a div b" "a smod b = a mod b"
  using assms by (auto simp: signed_divide_int_def signed_modulo_int_def sgn_if)

lemma tf_ok_init: "tf_ok (TransportFeedback_init ts lost) []"
  by (simp add: tf_ok_def TransportFeedback_init_def tf_sizes_def tf_chunks_def LastChunk_Empty_def
      status_bytes_def GetBaseTimeUs_def tf_consts)

lemma SetBase_spec:
  assumes "tf_ok tf []" "0 \<le> t"
  shows "\<exists>tf'. SetBase tf seq t = Some tf' \<and> tf_ok tf' [] \<and> base_seq_no tf' = seq \<and>
    uint (base_time_ticks tf') < 2 ^ 24 \<and> time_error t (GetBaseTimeUs tf') 63999 \<and>
    include_timestamps tf' = include_timestamps tf \<and> received_packets tf' = []"
proof -
  define q where "q = t mod kTimeWrapPeriodUs div kBaseScaleFactor"
  define tf1 where "tf1 = tf\<lparr>base_seq_no := seq, base_time_ticks := of_int q\<rparr>"
  define tf' where "tf' = tf1\<lparr>last_timestamp_us := GetBaseTimeUs tf1\<rparr>"
  have P: "0 < kTimeWrapPeriodUs" "kTimeWrapPeriodUs = 2 ^ 24 * 64000" "kBaseScaleFactor = 64000"
    by (simp_all add: tf_consts)
  have m: "0 \<le> t mod kTimeWrapPeriodUs" "t mod kTimeWrapPeriodUs < 2 ^ 24 * 64000"
    using P by simp_all
  have q: "0 \<le> q" "q < 2 ^ 24" "64000 * q \<le> t mod kTimeWrapPeriodUs" "t mod kTimeWrapPeriodUs < 64000 * q + 64000"
    unfolding q_def P(3)
    using m by (simp_all add: div_int_pos_iff)
  have u: "uint (base_time_ticks tf') = q" "sint (base_time_ticks tf') = q"
    using q(1,2) by (simp_all add: tf'_def tf1_def uint_word_of_int sint_uint signed_take_bit_int_eq_self)
  have "num_seq_no tf = 0" using assms(1) by (simp add: tf_ok_def unat_eq_0)
  moreover have "(t smod kTimeWrapPeriodUs) sdiv kBaseScaleFactor = q"
    using assms(2) m(1) P
    by (simp add: q_def trunc_nonneg)
  ultimately have "SetBase tf seq t = Some tf'"
    using assms(2) by (simp add: SetBase_def tf'_def tf1_def Let_def)
  moreover have "tf_ok tf' []"
    using assms(1) by (simp add: tf'_def tf1_def tf_ok_def tf_sizes_def tf_chunks_def GetBaseTimeUs_def)
  moreover have "time_error t (GetBaseTimeUs tf') 63999"
  proof -
    have "t + - (t div kTimeWrapPeriodUs) * kTimeWrapPeriodUs = t mod kTimeWrapPeriodUs"
      by (simp add: minus_div_mult_eq_mod [symmetric])
    with q have "\<bar>t + - (t div kTimeWrapPeriodUs) * kTimeWrapPeriodUs - GetBaseTimeUs tf'\<bar> \<le> 63999"
      by (simp add: GetBaseTimeUs_def u P(3) abs_le_iff)
    then show ?thesis unfolding time_error_def by blast
  qed
  ultimately show ?thesis
    using q(2) u(1) assms(1) by (simp add: tf'_def tf1_def tf_ok_def)
qed

subsection \<open>\<open>IsConsistent\<close>\<close>

lemma consistent_chunks_eq:
  "length (delta_sizes c) = 14 \<Longrightarrow>
   consistent_chunks chunks c sizes n = Some (sizes @ concat (map decode_list chunks), n + 2 * length chunks)"
proof (induction chunks arbitrary: c sizes n)
  case (Cons ch chunks)
  obtain c' where c': "LastChunk_Decode c ch 0xffff = Some c'" "decoded_as c' (take 0xffff (decode_list ch))"
    using Decode_list [OF Cons.prems] by blast
  moreover have "take 0xffff (decode_list ch) = decode_list ch"
    using length_decode_list [of ch] by simp
  ultimately show ?case
    using Cons.IH [of c'] by (simp add: decoded_as_def tf_consts)
qed simp

lemma consistent_packets_eq:
  "consistent_packets ts (map status_size st) (status_packets seq st @ rest) seq t n =
     Some (rest, t + status_time st, n + (if ts then status_bytes st else 0))"
proof (induction seq st arbitrary: t n rule: status_packets.induct)
  case (1 seq)
  then show ?case by simp
next
  case (2 seq st)
  then show ?case
    using status_time_append [of "[None]" st] status_bytes_append [of "[None]" st]
    by (simp add: status_size_def)
next
  case (3 seq delta st)
  have d: "0 < delta_size_of delta" using delta_size_of_le(2) by (simp add: word_gt_0)
  have small: "0 \<le> sint delta \<and> sint delta \<le> 0xff" if "delta_size_of delta = 1"
    using that by (simp add: delta_size_of_def split: if_splits)
  show ?case
    using 3 d small status_time_append [of "[Some delta]" st] status_bytes_append [of "[Some delta]" st]
    by (auto simp: status_size_def Let_def delta_us_def ReceivedPacket_def kDeltaScaleFactor_def)
qed

lemma IsConsistent_eq:
  assumes "tf_ok tf st"
  shows "IsConsistent tf =
    (if \<bar>sint (base_time_ticks tf)\<bar> \<le> 33554 then Some True else None)"
proof -
  have lc: "lc_ok (tf_last_chunk tf)" using assms by (simp add: tf_ok_def)
  have chunks: "consistent_chunks (encoded_chunks tf) LastChunk_init [] 20
      = Some (concat (map decode_list (encoded_chunks tf)), 20 + 2 * length (encoded_chunks tf))"
    using consistent_chunks_eq [of LastChunk_init] by simp
  have all: "(if LastChunk_Empty (tf_last_chunk tf) then Some (sizes, n)
      else do { sizes \<leftarrow> AppendTo (tf_last_chunk tf) sizes; Some (sizes, n + 2) })
      = Some (sizes @ lc_list (tf_last_chunk tf), n + (if LastChunk_Empty (tf_last_chunk tf) then 0 else 2))"
    for sizes and n :: nat
    using AppendTo_list [OF lc] length_lc_list [OF lc] by (auto simp: LastChunk_Empty_def)
  have fits: "i32 (sint (base_time_ticks tf) * 64000) =
      (if \<bar>sint (base_time_ticks tf)\<bar> \<le> 33554 then Some (GetBaseTimeUs tf) else None)"
    by (auto simp: i32_def GetBaseTimeUs_def tf_consts)
  have pk: "consistent_packets ts (map status_size st) (status_packets seq st) seq t n =
     Some ([], t + status_time st, n + (if ts then status_bytes st else 0))" for ts seq t n
    using consistent_packets_eq [of ts st seq "[]"] by simp
  have sz: "concat (map decode_list (encoded_chunks tf)) @ lc_list (tf_last_chunk tf) = map status_size st"
    "length st = unat (num_seq_no tf)" "received_packets tf = status_packets (base_seq_no tf) st"
    "size_bytes tf = 20 + 2 * tf_chunks tf + (if include_timestamps tf then status_bytes st else 0)"
    "last_timestamp_us tf = GetBaseTimeUs tf + status_time st"
    using assms by (simp_all add: tf_ok_def tf_sizes_def)
  have num: "unat (num_seq_no tf)
      = length (concat (map decode_list (encoded_chunks tf))) + length (lc_list (tf_last_chunk tf))"
    using arg_cong [OF sz(1), of length] sz(2) by simp
  show ?thesis
    unfolding IsConsistent_def kTransportFeedbackHeaderSizeBytes_def kChunkSizeBytes_def kBaseScaleFactor_def
      kDeltaScaleFactor_def
    by (simp add: chunks all sz fits pk tf_chunks_def num del: of_nat_add)
qed

end
