(* ===== verification/Feedback_Wire.thy ===== *)
theory Feedback_Wire
  imports Feedback_Builder "HOL-Library.Code_Target_Nat"
begin

text \<open>
  The serialised side of \<open>TransportFeedback\<close>: \<open>Create\<close> writes the layout \<open>tf_wire\<close> (with one to three
  bytes of padding where the deltas end off a 32-bit boundary), \<open>Parse\<close> of that layout gives an object
  with the same packet statuses, and \<open>Parse\<close> of any bytes stays inside them.
\<close>

subsection \<open>The layout\<close>

definition delta_wire :: "u16 \<Rightarrow> bytes" where
  "delta_wire delta = (if 0 \<le> sint delta \<and> sint delta \<le> 0xff then [ucast delta] else be_bytes 2 delta)"

definition deltas_wire :: "received_packet list \<Rightarrow> bytes" where
  "deltas_wire ps = concat (map (delta_wire \<circ> delta_ticks) ps)"

definition chunks_wire :: "u16 list \<Rightarrow> bytes" where
  "chunks_wire chunks = concat (map (be_bytes 2) chunks)"

definition chunk_words :: "transport_feedback \<Rightarrow> u16 list" where
  "chunk_words tf = encoded_chunks tf @ [the (EncodeLast (tf_last_chunk tf))]"

definition tf_body :: "transport_feedback \<Rightarrow> bytes" where
  "tf_body tf = rtpfb_wire tf @ be_bytes 2 (base_seq_no tf) @ be_bytes 2 (num_seq_no tf) @
     be_bytes 3 (base_time_ticks tf) @ [feedback_seq tf] @ chunks_wire (chunk_words tf) @
     (if include_timestamps tf then deltas_wire (received_packets tf) else [])"

definition tf_padding :: "transport_feedback \<Rightarrow> bytes" where
  "tf_padding tf = (let n = Tf_PaddingLength tf in if n > 0 then replicate (n - 1) 0 @ [of_nat n] else [])"

definition tf_wire :: "transport_feedback \<Rightarrow> bytes" where
  "tf_wire tf = header_wire 15 205 ((Tf_BlockLength tf - 4) div 4) (Tf_PaddingLength tf > 0) @
     tf_body tf @ tf_padding tf"

definition tf_valid :: "transport_feedback \<Rightarrow> bool" where
  "tf_valid tf \<longleftrightarrow> num_seq_no tf \<noteq> 0 \<and> (\<exists>st. tf_ok tf st)"

lemma length_chunks_wire [simp]: "length (chunks_wire chunks) = 2 * length chunks"
  unfolding chunks_wire_def by (rule length_concat_const) simp

lemma length_delta_wire: "length (delta_wire delta) = unat (delta_size_of delta)"
  by (simp add: delta_wire_def delta_size_of_def)

lemma length_deltas_wire: "length (deltas_wire (status_packets seq st)) = status_bytes st"
  by (induction seq st rule: status_packets.induct)
     (simp_all add: deltas_wire_def status_bytes_def status_size_def length_delta_wire ReceivedPacket_def)

lemma Tf_BlockLength_bounds:
  "Tf_BlockLength tf mod 4 = 0" "size_bytes tf \<le> Tf_BlockLength tf" "Tf_BlockLength tf \<le> size_bytes tf + 3"
  "20 \<le> size_bytes tf \<Longrightarrow> 20 \<le> Tf_BlockLength tf"
  by (auto simp: Tf_BlockLength_def)

lemma length_tf_padding [simp]: "length (tf_padding tf) = Tf_PaddingLength tf"
  by (simp add: tf_padding_def Let_def)

lemma tf_valid_facts:
  assumes "tf_valid tf"
  shows "\<not> LastChunk_Empty (tf_last_chunk tf)" "20 \<le> size_bytes tf" "size_bytes tf \<le> 2 ^ 18"
    and "\<exists>ch. EncodeLast (tf_last_chunk tf) = Some ch"
    and "length (tf_body tf) = size_bytes tf - 4"
proof -
  obtain st where st: "tf_ok tf st" and n: "num_seq_no tf \<noteq> 0" using assms by (auto simp: tf_valid_def)
  have "st \<noteq> []" using tf_ok_num [OF st] n by auto
  then have "0 < lc_size (tf_last_chunk tf)" "lc_ok (tf_last_chunk tf)"
    using st by (auto simp: tf_ok_def)
  then show ne: "\<not> LastChunk_Empty (tf_last_chunk tf)"
    and "\<exists>ch. EncodeLast (tf_last_chunk tf) = Some ch"
    using EncodeLast_list by (auto simp: LastChunk_Empty_def)
  show "20 \<le> size_bytes tf" "size_bytes tf \<le> 2 ^ 18" using st by (simp_all add: tf_ok_def)
  show "length (tf_body tf) = size_bytes tf - 4"
    using st ne length_deltas_wire [of "base_seq_no tf" st]
    by (simp add: tf_body_def chunk_words_def tf_ok_def tf_chunks_def)
qed

subsection \<open>Create\<close>

lemma create_chunks_overlay:
  "pos + 2 * length chunks \<le> length m \<Longrightarrow>
   create_chunks chunks m pos = Some (overlay m pos (chunks_wire chunks), pos + 2 * length chunks)"
  by (induction chunks arbitrary: m pos)
     (simp_all add: chunks_wire_def mem_simps overlay_append_left)

lemma create_deltas_overlay:
  "pos + length (deltas_wire ps) \<le> length m \<Longrightarrow>
   create_deltas ps m pos = Some (overlay m pos (deltas_wire ps), pos + length (deltas_wire ps))"
  by (induction ps arbitrary: m pos)
     (auto simp: deltas_wire_def delta_wire_def Let_def mem_simps put_byte_overlay WriteSignedBE16_def
        overlay_append_left)

lemma create_zeros_overlay:
  "pos + n \<le> length m \<Longrightarrow> create_zeros n m pos = Some (overlay m pos (replicate n 0), pos + n)"
  by (induction n arbitrary: m pos) (simp_all add: put_byte_overlay overlay_append_left)

lemma Tf_write_wire:
  assumes "tf_valid tf" "out_index b + Tf_BlockLength tf \<le> length (out_packet b)"
  shows "Tf_write tf b = Some (out_append b (tf_wire tf), True)"
proof -
  note v = tf_valid_facts [OF assms(1)] and bl = Tf_BlockLength_bounds [of tf]
  obtain ch where ch: "EncodeLast (tf_last_chunk tf) = Some ch" using v(4) by blast
  define D where "D = (if include_timestamps tf then deltas_wire (received_packets tf) else [])"
  define n where "n = length (encoded_chunks tf)"
  define P where "P = Tf_PaddingLength tf"
  have len: "size_bytes tf = 22 + 2 * n + length D"
    using v(2,5) ch by (simp add: tf_body_def chunk_words_def D_def n_def)
  have words: "chunks_wire (chunk_words tf) = chunks_wire (encoded_chunks tf) @ be_bytes 2 ch"
    by (simp add: chunks_wire_def chunk_words_def ch)
  have hl: "HeaderLength (Tf_BlockLength tf) = Some ((Tf_BlockLength tf - 4) div 4)"
    "(Tf_BlockLength tf - 4) div 4 \<le> 0xffff"
    using bl v(2,3) by (simp_all add: HeaderLength_eq)
  have pad: "Tf_BlockLength tf = 22 + 2 * n + length D + P"
    using bl(2) len by (simp add: Tf_PaddingLength_def P_def)
  have room: "out_index b + (22 + 2 * n + length D + P) \<le> length (out_packet b)"
    using assms(2) pad by simp
  have deltas: "(if include_timestamps tf then create_deltas (received_packets tf) m pos else Some (m, pos))
      = Some (overlay m pos D, pos + length D)" if "pos + length D \<le> length m" for m pos
    using that create_deltas_overlay by (cases "include_timestamps tf") (simp_all add: D_def)
  have padding: "(if 0 < P then do {
        (m, pos) \<leftarrow> create_zeros (P - 1) m pos;
        m \<leftarrow> put_byte m pos (of_nat P);
        Some (m, pos + 1) } else Some (m, pos))
      = Some (overlay m pos (tf_padding tf), pos + P)"
    if "pos + P \<le> length m" for m pos
    using that
    by (cases P) (simp_all add: tf_padding_def P_def [symmetric] create_zeros_overlay put_byte_overlay
        overlay_append_left)
  have plen: "length (tf_padding tf) = P" by (simp add: P_def)
  have chunks: "create_chunks (encoded_chunks tf) m pos
      = Some (overlay m pos (chunks_wire (encoded_chunks tf)), pos + 2 * n)"
    if "pos + 2 * n \<le> length m" for m pos
    using that by (simp add: create_chunks_overlay n_def)
  have "Tf_write tf b = do {
      dcheck (out_index b + (22 + 2 * n + length D + P) = out_index b + Tf_BlockLength tf);
      Some (out_append b (tf_wire tf), True) }"
    unfolding Tf_write_def Let_def hl(1) ch Option.bind_lunit P_def [symmetric]
    using room hl(2) v(1)
    by (simp add: deltas padding chunks mem_simps overlay_append_left put_byte_overlay tf_consts
        n_def [symmetric] plen out_append_def tf_wire_def tf_body_def D_def [symmetric] words
        P_def [symmetric] ac_simps)
  then show ?thesis using pad by simp
qed

interpretation tf: rtcp_unfragmented Tf_BlockLength Tf_Create tf_wire tf_valid
proof (rule rtcp_unfragmentedI [where body = Tf_write])
  fix p assume p: "tf_valid p"
  note v = tf_valid_facts [OF p] and bl = Tf_BlockLength_bounds [of p]
  show "length (tf_wire p) = Tf_BlockLength p"
    using v(2,5) bl(2) by (simp add: tf_wire_def Tf_PaddingLength_def)
  show "0 < Tf_BlockLength p" using v(2) bl(4) by simp
  fix cb max_length b
  show "Tf_Create p cb max_length b = do {
      (b, ok) \<leftarrow> reserve (Tf_BlockLength p) cb max_length b;
      if \<not> ok then Some (b, False) else Tf_write p b }"
    using p by (simp add: Tf_Create_def tf_valid_def)
next
  fix p and b :: out_buffer
  assume "tf_valid p" "out_index b + Tf_BlockLength p \<le> length (out_packet b)"
  then show "Tf_write p b = Some (out_append b (tf_wire p), True)" by (rule Tf_write_wire)
qed

subsection \<open>Parse\<close>

lemma ReadBE16_at:
  "p = length xs \<Longrightarrow> ReadBE16 (xs @ be_bytes 2 v @ ys) p = Some v"
  by simp

text \<open>The chunk loop reads the words it needs: all of \<open>cs\<close> and then \<open>l\<close>, of which it keeps the
  first symbols.\<close>

lemma parse_chunks_wire:
  assumes "payload = pre @ chunks_wire (cs @ [l]) @ rest"
    and "length pre + 2 * (length cs + 1) \<le> end_index"
    and "length sizes + m = n" "length (concat (map decode_list cs)) < m"
    and "m \<le> length (concat (map decode_list (cs @ [l])))"
    and "length (delta_sizes (tf_last_chunk tf)) = 14"
  shows "\<exists>c. parse_chunks end_index n payload tf sizes (length pre) =
      Some (tf\<lparr>encoded_chunks := encoded_chunks tf @ cs @ [l], tf_last_chunk := c\<rparr>,
        sizes @ take m (concat (map decode_list (cs @ [l]))), length pre + 2 * (length cs + 1), True) \<and>
      decoded_as c (take (m - length (concat (map decode_list cs))) (decode_list l))"
  using assms
proof (induction cs arbitrary: pre sizes m tf)
  case Nil
  let ?xs = "take m (decode_list l)"
  obtain c where c: "LastChunk_Decode (tf_last_chunk tf) l m = Some c" "decoded_as c ?xs"
    using Decode_list [OF Nil.prems(6)] by blast
  have len: "length (sizes @ ?xs) = n" using Nil.prems(3,5) by simp
  have read: "ReadBE16 payload (length pre) = Some l"
    using Nil.prems(1) by (simp add: chunks_wire_def)
  have stop: "parse_chunks end_index n payload tf' (sizes @ ?xs) i = Some (tf', sizes @ ?xs, i, True)" for tf' i
    using len by (subst parse_chunks.simps) simp
  have "parse_chunks end_index n payload tf sizes (length pre)
      = parse_chunks end_index n payload (tf\<lparr>encoded_chunks := encoded_chunks tf @ [l], tf_last_chunk := c\<rparr>)
          (sizes @ ?xs) (length pre + 2)"
    using Nil.prems(2,3,4) read c
    by (subst parse_chunks.simps) (auto simp: kChunkSizeBytes_def decoded_as_def)
  then show ?case using stop c(2) by auto
next
  case (Cons ch cs)
  let ?xs = "decode_list ch"
  have lt: "length ?xs < m" using Cons.prems(4) by simp
  then have "take m ?xs = ?xs" by simp
  then obtain c where c: "LastChunk_Decode (tf_last_chunk tf) ch m = Some c" "decoded_as c ?xs"
    using Decode_list [OF Cons.prems(6), of ch m] by auto
  let ?tf = "tf\<lparr>encoded_chunks := encoded_chunks tf @ [ch], tf_last_chunk := c\<rparr>"
  have read: "ReadBE16 payload (length pre) = Some ch"
    using Cons.prems(1) by (simp add: chunks_wire_def)
  have step: "parse_chunks end_index n payload tf sizes (length pre)
      = parse_chunks end_index n payload ?tf (sizes @ ?xs) (length (pre @ be_bytes 2 ch))"
    using Cons.prems(2,3,4) read c lt
    by (subst parse_chunks.simps) (auto simp: kChunkSizeBytes_def decoded_as_def)
  have "\<exists>c'. parse_chunks end_index n payload ?tf (sizes @ ?xs) (length (pre @ be_bytes 2 ch)) =
      Some (?tf\<lparr>encoded_chunks := encoded_chunks ?tf @ cs @ [l], tf_last_chunk := c'\<rparr>,
        (sizes @ ?xs) @ take (m - length ?xs) (concat (map decode_list (cs @ [l]))),
        length (pre @ be_bytes 2 ch) + 2 * (length cs + 1), True) \<and>
      decoded_as c' (take ((m - length ?xs) - length (concat (map decode_list cs))) (decode_list l))"
    by (rule Cons.IH) (use Cons.prems c lt in \<open>auto simp: chunks_wire_def decoded_as_def\<close>)
  then show ?case unfolding step using lt by auto
qed

text \<open>The delta loops record every status.\<close>

fun parsed_all :: "transport_feedback \<Rightarrow> u16 \<Rightarrow> status list \<Rightarrow> transport_feedback" where
  "parsed_all tf seq [] = tf"
| "parsed_all tf seq (None # st) = parsed_all (parsed_lost tf seq) (seq + 1) st"
| "parsed_all tf seq (Some delta # st) = parsed_all (parsed_packet tf seq delta) (seq + 1) st"

lemma ucast_small_delta:
  assumes "0 \<le> sint (delta :: u16)" "sint delta \<le> 0xff"
  shows "ucast (ucast delta :: u8) = delta"
proof -
  have "uint (word_of_int (sint delta) :: u16) = sint delta"
    unfolding uint_word_of_int by (rule mod_pos_pos_trivial) (use assms in simp_all)
  then have "uint delta \<le> 0xff" using assms(2) by simp
  moreover have "int (unat delta) = uint delta" by simp
  ultimately have "unat delta < 256" by linarith
  then have lt: "unat delta < 2 ^ 8" by simp
  show ?thesis
  proof (rule bit_word_eqI)
    fix n assume "n < LENGTH(16)"
    then show "bit (ucast (ucast delta :: u8) :: u16) n \<longleftrightarrow> bit delta n"
      using bit_less_of_unat_less [OF lt, of n] by (auto simp: bit_simps)
  qed
qed

lemma parse_deltas_wire:
  assumes "payload = pre @ deltas_wire (status_packets seq st) @ rest"
    and "length pre + status_bytes st \<le> end_index"
  shows "parse_deltas end_index payload (map status_size st) seq tf (length pre) =
    Some (parsed_all tf seq st, length pre + status_bytes st, True)"
  using assms
proof (induction tf seq st arbitrary: pre rule: parsed_all.induct)
  case (1 tf seq)
  then show ?case by simp
next
  case (2 tf seq st)
  then show ?case
    using status_bytes_append [of "[None]" st] by simp
next
  case (3 tf seq delta st)
  have w: "deltas_wire (status_packets seq (Some delta # st))
      = delta_wire delta @ deltas_wire (status_packets (seq + 1) st)"
    by (simp add: deltas_wire_def ReceivedPacket_def)
  have b: "status_bytes (Some delta # st) = unat (delta_size_of delta) + status_bytes st"
    using status_bytes_append [of "[Some delta]" st] by simp
  have IH: "parse_deltas end_index payload (map status_size st) (seq + 1) (parsed_packet tf seq delta)
        (length (pre @ delta_wire delta)) =
      Some (parsed_all (parsed_packet tf seq delta) (seq + 1) st,
        length (pre @ delta_wire delta) + status_bytes st, True)"
    by (rule "3.IH") (use "3.prems" w b in \<open>simp_all add: length_delta_wire\<close>)
  show ?case
  proof (cases "0 \<le> sint delta \<and> sint delta \<le> 0xff")
    case True
    then have "delta_size_of delta = 1" "delta_wire delta = [ucast delta]"
      by (simp_all add: delta_size_of_def delta_wire_def)
    moreover have "get_byte payload (length pre) = Some (ucast delta)"
      using "3.prems"(1) w calculation(2) by (simp add: get_byte_def)
    ultimately show ?thesis
      using IH "3.prems"(2) b ucast_small_delta True by simp
  next
    case False
    then have "delta_size_of delta = 2" "delta_wire delta = be_bytes 2 delta"
      unfolding delta_size_of_def delta_wire_def by argo+
    moreover have "ReadSignedBE16 payload (length pre) = Some delta"
      using "3.prems"(1) w calculation(2) by (simp add: ReadSignedBE16_eq)
    ultimately show ?thesis
      using IH "3.prems"(2) b by simp
  qed
qed

text \<open>\<open>tf_core tf tf'\<close>: \<open>tf'\<close> differs from \<open>tf\<close> only in the packets and the time it has recorded.\<close>

definition tf_core :: "transport_feedback \<Rightarrow> transport_feedback \<Rightarrow> bool" where
  "tf_core tf tf' \<longleftrightarrow> sender_ssrc tf' = sender_ssrc tf \<and> media_ssrc tf' = media_ssrc tf \<and>
     include_lost tf' = include_lost tf \<and> base_seq_no tf' = base_seq_no tf \<and>
     num_seq_no tf' = num_seq_no tf \<and> base_time_ticks tf' = base_time_ticks tf \<and>
     feedback_seq tf' = feedback_seq tf \<and> include_timestamps tf' = include_timestamps tf \<and>
     encoded_chunks tf' = encoded_chunks tf \<and> tf_last_chunk tf' = tf_last_chunk tf"

lemma tf_core_trans: "tf_core a b \<Longrightarrow> tf_core b c \<Longrightarrow> tf_core a c"
  by (simp add: tf_core_def)

lemma parsed_all_fields:
  "received_packets (parsed_all tf seq st) = received_packets tf @ status_packets seq st \<and>
   last_timestamp_us (parsed_all tf seq st) = last_timestamp_us tf + status_time st"
proof (induction tf seq st rule: parsed_all.induct)
  case (2 tf seq st)
  then show ?case
    using status_time_append [of "[None]" st] by (simp add: parsed_lost_def)
next
  case (3 tf seq delta st)
  then show ?case
    using status_time_append [of "[Some delta]" st] by (simp add: parsed_packet_def kDeltaScaleFactor_def)
qed simp

lemma parsed_all_core: "tf_core tf (parsed_all tf seq st)"
proof (induction tf seq st rule: parsed_all.induct)
  case (2 tf seq st)
  have "tf_core tf (parsed_lost tf seq)" by (simp add: tf_core_def parsed_lost_def)
  from tf_core_trans [OF this 2] show ?case by simp
next
  case (3 tf seq delta st)
  have "tf_core tf (parsed_packet tf seq delta)" by (simp add: tf_core_def parsed_packet_def)
  from tf_core_trans [OF this 3] show ?case by simp
qed (simp add: tf_core_def)

lemma parse_no_deltas_fields:
  assumes "set st \<subseteq> {None, Some 0}"
  shows "received_packets (parse_no_deltas (map status_size st) seq tf) = received_packets tf @ status_packets seq st \<and>
    last_timestamp_us (parse_no_deltas (map status_size st) seq tf) = last_timestamp_us tf \<and>
    tf_core tf (parse_no_deltas (map status_size st) seq tf)"
  using assms
proof (induction st arbitrary: seq tf)
  case (Cons s st)
  then consider "s = None" | "s = Some 0" by auto
  then show ?case
  proof cases
    case 1
    with Cons show ?thesis
      by (auto simp: Let_def tf_core_def)
  next
    case 2
    moreover have "delta_size_of 0 = 1" by (simp add: delta_size_of_def)
    ultimately show ?thesis
      using Cons by (auto simp: Let_def tf_core_def)
  qed
qed (simp add: tf_core_def)

lemma status_time_zero: "set st \<subseteq> {None, Some 0} \<Longrightarrow> status_time st = 0"
  unfolding status_time_def by (induction st) auto

subsection \<open>Parsing what was created\<close>

definition Tf_matches :: "common_header \<Rightarrow> bool" where
  "Tf_matches h \<longleftrightarrow> ch_packet_type h = 205 \<and> unat (ch_count_or_format h) = 15"

lemma tf_header_parse:
  assumes "tf_valid tf" "length (tf_wire tf @ rest) \<le> sz"
  shows "\<exists>h. CommonHeader_Parse h0 (tf_wire tf @ rest) sz = Some (h, True) \<and> Tf_matches h \<and>
    NextPacket h = rest \<and> unat (ch_payload_size h) = size_bytes tf - 4 \<and>
    ch_payload h = tf_body tf @ tf_padding tf @ rest"
proof -
  note v = tf_valid_facts [OF assms(1)] and bl = Tf_BlockLength_bounds [of tf]
  define len where "len = (Tf_BlockLength tf - 4) div 4"
  have "Tf_BlockLength tf = 4 + 4 * len" using v(2) bl(1,4) unfolding len_def by presburger
  then have len: "Tf_BlockLength tf = 4 + 4 * len" "len \<le> 0xffff" "0 < len"
    using v(2,3) bl(3,4) by simp_all
  have pad: "Tf_BlockLength tf = size_bytes tf + Tf_PaddingLength tf" "Tf_PaddingLength tf \<le> 3"
    using bl by (simp_all add: Tf_PaddingLength_def)
  have body: "length (tf_body tf @ tf_padding tf) = 4 * len"
    using v(2,5) pad len(1) by simp
  have sz: "4 + 4 * len \<le> sz" using assms(2) body by (simp add: tf_wire_def)
  have szb: "size_bytes tf - 4 = 4 * len - Tf_PaddingLength tf" using pad(1) len(1) by simp
  show ?thesis
  proof (cases "Tf_PaddingLength tf = 0")
    case True
    let ?h = "h0\<lparr>ch_packet_type := 205, ch_count_or_format := of_nat 15, ch_padding_size := 0,
      ch_payload_size := of_nat (4 * len), ch_payload := tf_body tf @ tf_padding tf @ rest\<rparr>"
    have "CommonHeader_Parse h0 (tf_wire tf @ rest) sz = Some (?h, True)"
      using CommonHeader_Parse_wire [of 15 len sz h0 205 "tf_body tf @ tf_padding tf @ rest"] len(2) sz True
      by (simp add: tf_wire_def len_def)
    moreover have "unat (of_nat (4 * len) :: u32) = 4 * len"
      using len(2) by (simp add: unat_of_nat del: of_nat_mult)
    ultimately show ?thesis
      using body True
      by (intro exI [of _ ?h]) (simp add: Tf_matches_def NextPacket_def szb tf_padding_def del: of_nat_mult)
  next
    case False
    let ?p = "Tf_PaddingLength tf"
    let ?h = "h0\<lparr>ch_packet_type := 205, ch_count_or_format := of_nat 15, ch_padding_size := of_nat ?p,
      ch_payload_size := of_nat (4 * len - ?p), ch_payload := tf_body tf @ tf_padding tf @ rest\<rparr>"
    have last: "(tf_body tf @ tf_padding tf @ rest) ! (4 * len - 1) = of_nat ?p"
    proof -
      have "(tf_body tf @ tf_padding tf @ rest) ! (4 * len - 1) = last (tf_body tf @ tf_padding tf)"
        using body len(3) by (metis append_assoc diff_less last_conv_nth less_numeral_extra(1) list.size(3) mult_eq_0_iff nat_0_less_mult_iff not_gr_zero nth_append zero_less_numeral)
      then show ?thesis using False by (simp add: tf_padding_def Let_def)
    qed
    have "CommonHeader_Parse h0 (tf_wire tf @ rest) sz = Some (?h, True)"
      using CommonHeader_Parse_wire_padded [of 15 len sz "tf_body tf @ tf_padding tf @ rest" ?p h0 205]
        len sz False last pad(2) body
      by (simp add: tf_wire_def len_def [symmetric])
    moreover have "unat (of_nat (4 * len - ?p) :: u32) = 4 * len - ?p" "unat (of_nat ?p :: u8) = ?p"
      using len(2) pad(2) by (simp_all add: unat_of_nat del: of_nat_mult)
    moreover have "?p \<le> 4 * len" using pad(2) len(3) by simp
    ultimately show ?thesis
      using body
      by (intro exI [of _ ?h]) (simp add: Tf_matches_def NextPacket_def szb del: of_nat_mult of_nat_diff)
  qed
qed

lemma tf_ok_parsed:
  assumes "tf_ok tf st" "st \<noteq> []" "decoded_as (tf_last_chunk tf') (lc_list (tf_last_chunk tf))"
    and "encoded_chunks tf' = encoded_chunks tf" "num_seq_no tf' = num_seq_no tf"
    and "base_seq_no tf' = base_seq_no tf" "received_packets tf' = status_packets (base_seq_no tf) st"
    and "last_timestamp_us tf' = GetBaseTimeUs tf' + status_time st" "size_bytes tf' = size_bytes tf"
    and "include_timestamps tf' = (include_timestamps tf \<or> status_bytes st = 0)"
  shows "tf_ok tf' st"
proof -
  have "set (lc_list (tf_last_chunk tf)) \<subseteq> set (tf_sizes tf)" by (simp add: tf_sizes_def)
  also have "\<dots> = status_size ` set st" using assms(1) by (simp add: tf_ok_def)
  also have "\<dots> \<subseteq> {0, 1, 2}"
  proof
    fix d assume "d \<in> status_size ` set st"
    then obtain s where "d = status_size s" by blast
    then show "d \<in> {0, 1, 2}" using delta_size_of_cases by (cases s) auto
  qed
  finally have c: "lc_ok (tf_last_chunk tf')" "lc_list (tf_last_chunk tf') = lc_list (tf_last_chunk tf)"
    using assms(3) by (simp_all add: decoded_as_def)
  have sz: "lc_size (tf_last_chunk tf') = lc_size (tf_last_chunk tf)"
    using length_lc_list c assms(1) by (metis tf_ok_def)
  show ?thesis
    using assms(1,2,4-10) c sz
    by (auto simp: tf_ok_def tf_sizes_def tf_chunks_def LastChunk_Empty_def)
qed

text \<open>\<open>same_report tf tf'\<close>: the message \<open>tf'\<close> says what \<open>tf\<close> says; its 24-bit base time may be a
  wrap period off.\<close>

definition same_report :: "transport_feedback \<Rightarrow> transport_feedback \<Rightarrow> bool" where
  "same_report tf tf' \<longleftrightarrow> sender_ssrc tf' = sender_ssrc tf \<and> media_ssrc tf' = media_ssrc tf \<and>
     base_seq_no tf' = base_seq_no tf \<and> num_seq_no tf' = num_seq_no tf \<and>
     base_time_ticks tf' = signed_take_bit 23 (base_time_ticks tf) \<and>
     feedback_seq tf' = feedback_seq tf \<and> received_packets tf' = received_packets tf \<and>
     size_bytes tf' = size_bytes tf"

text \<open>The object \<open>Parse\<close> has built before it reads the chunks.\<close>

definition parse_start :: "transport_feedback \<Rightarrow> transport_feedback \<Rightarrow> transport_feedback" where
  "parse_start p0 tf = TransportFeedback_Clear (p0\<lparr>sender_ssrc := sender_ssrc tf,
     media_ssrc := media_ssrc tf, base_seq_no := base_seq_no tf,
     base_time_ticks := signed_take_bit 23 (base_time_ticks tf), feedback_seq := feedback_seq tf\<rparr>)"

lemma parse_start_simps [simp]:
  "received_packets (parse_start p0 tf) = []" "encoded_chunks (parse_start p0 tf) = []"
  "tf_last_chunk (parse_start p0 tf) = LastChunk_Clear (tf_last_chunk p0)"
  "include_timestamps (parse_start p0 tf) = include_timestamps p0"
  "sender_ssrc (parse_start p0 tf) = sender_ssrc tf" "media_ssrc (parse_start p0 tf) = media_ssrc tf"
  "base_seq_no (parse_start p0 tf) = base_seq_no tf" "feedback_seq (parse_start p0 tf) = feedback_seq tf"
  "base_time_ticks (parse_start p0 tf) = signed_take_bit 23 (base_time_ticks tf)"
  "last_timestamp_us (parse_start p0 tf) = GetBaseTimeUs (parse_start p0 tf)"
  by (simp_all add: parse_start_def TransportFeedback_Clear_def GetBaseTimeUs_def)

text \<open>What \<open>Parse\<close> does once the chunks are read.\<close>

definition parse_rest ::
  "nat \<Rightarrow> bytes \<Rightarrow> transport_feedback \<Rightarrow> bytes \<Rightarrow> nat \<Rightarrow> (transport_feedback \<times> bool) option" where
  "parse_rest end_index payload tf sizes index =
     do { (tf', index', ok) \<leftarrow>
            (if end_index \<ge> index + sum_list (map unat sizes)
             then parse_deltas end_index payload sizes (base_seq_no tf) tf index
             else Some (parse_no_deltas sizes (base_seq_no tf) (tf\<lparr>include_timestamps := False\<rparr>), index, True));
          if \<not> ok then Some (tf', False)
          else do {
            dcheck (index' \<le> end_index);
            Some (tf'\<lparr>size_bytes := kHeaderLength + index'\<rparr>, True) } }"

lemma parse_rest_wire:
  assumes "payload = pre @ (if ts then deltas_wire (status_packets (base_seq_no tf) st) else []) @ rest"
    and "end_index = length pre + (if ts then status_bytes st else 0)"
    and "\<not> ts \<longrightarrow> set st \<subseteq> {None, Some 0}" "include_timestamps tf" "received_packets tf = []"
  shows "\<exists>tf'. parse_rest end_index payload tf (map status_size st) (length pre) = Some (tf', True) \<and>
    received_packets tf' = status_packets (base_seq_no tf) st \<and>
    last_timestamp_us tf' = last_timestamp_us tf + status_time st \<and>
    include_timestamps tf' = (ts \<or> status_bytes st = 0) \<and>
    tf_core (tf\<lparr>include_timestamps := ts \<or> status_bytes st = 0\<rparr>) tf' \<and>
    size_bytes tf' = 4 + end_index"
proof -
  have sum: "sum_list (map unat (map status_size st)) = status_bytes st"
    by (simp add: status_bytes_def)
  show ?thesis
  proof (cases "ts \<or> status_bytes st = 0")
    case True
    have w: "payload = pre @ deltas_wire (status_packets (base_seq_no tf) st) @ rest"
      using assms(1) True length_deltas_wire [of "base_seq_no tf" st] by auto
    have e: "length pre + status_bytes st = end_index" using assms(2) True by auto
    let ?tf = "parsed_all tf (base_seq_no tf) st"
    have "parse_rest end_index payload tf (map status_size st) (length pre)
        = Some (?tf\<lparr>size_bytes := 4 + end_index\<rparr>, True)"
      using parse_deltas_wire [OF w, of end_index tf] e
      by (simp add: parse_rest_def sum kHeaderLength_def del: map_map)
    moreover have "tf\<lparr>include_timestamps := True\<rparr> = tf" using assms(4) by simp
    moreover have "tf_core tf (?tf\<lparr>size_bytes := 4 + end_index\<rparr>)"
      using parsed_all_core [of tf "base_seq_no tf" st] by (simp add: tf_core_def)
    ultimately show ?thesis
      using True assms(4,5) parsed_all_fields [of tf "base_seq_no tf" st] parsed_all_core [of tf "base_seq_no tf" st]
      by (simp add: tf_core_def)
  next
    case False
    then have e: "end_index = length pre" "set st \<subseteq> {None, Some 0}" "\<not> ts" "0 < status_bytes st"
      using assms(2,3) by auto
    let ?tf = "parse_no_deltas (map status_size st) (base_seq_no tf) (tf\<lparr>include_timestamps := False\<rparr>)"
    have "parse_rest end_index payload tf (map status_size st) (length pre)
        = Some (?tf\<lparr>size_bytes := 4 + end_index\<rparr>, True)"
      using e by (simp add: parse_rest_def sum kHeaderLength_def del: map_map)
    then show ?thesis
      using e assms(5) parse_no_deltas_fields [OF e(2), of "base_seq_no tf" "tf\<lparr>include_timestamps := False\<rparr>"]
        status_time_zero [OF e(2)]
      by (simp add: tf_core_def)
  qed
qed

lemma Tf_Parse_steps:
  assumes "Tf_matches h" "18 \<le> unat (ch_payload_size h)"
    and "ch_payload h = rtpfb_wire tf @ be_bytes 2 (base_seq_no tf) @ be_bytes 2 n @
           be_bytes 3 (base_time_ticks tf) @ feedback_seq tf # rest" "n \<noteq> 0"
    and "parse_chunks (unat (ch_payload_size h)) (unat n) (ch_payload h) (parse_start p0 tf) [] 16
       = Some (tf1, sizes, index, True)"
    and "encoded_chunks tf1 \<noteq> []" "length sizes = unat n" "base_seq_no tf1 = base_seq_no tf"
  shows "TransportFeedback_Parse p0 h = parse_rest (unat (ch_payload_size h)) (ch_payload h)
    (tf1\<lparr>encoded_chunks := butlast (encoded_chunks tf1), num_seq_no := n\<rparr>) sizes index"
proof -
  let ?w = "rtpfb_wire tf @ be_bytes 2 (base_seq_no tf) @ be_bytes 2 n @
    be_bytes 3 (base_time_ticks tf) @ feedback_seq tf # rest"
  have reads: "ReadBE16 ?w 8 = Some (base_seq_no tf)" "ReadBE16 ?w 10 = Some n"
    "ReadSignedBE24 ?w 12 = Some (signed_take_bit 23 (base_time_ticks tf))"
    "get_byte ?w 15 = Some (feedback_seq tf)"
    by (simp_all add: get_byte_def nth_append)
  show ?thesis
    using assms(1,2,4-8) reads
    by (simp add: TransportFeedback_Parse_def Tf_matches_def tf_consts assms(3) parse_rest_def
        parse_start_def Let_def)
qed

text \<open>The first 16 bytes of the payload, and what the chunk loop finds behind them.\<close>

definition tf_fixed :: "transport_feedback \<Rightarrow> bytes" where
  "tf_fixed tf = rtpfb_wire tf @ be_bytes 2 (base_seq_no tf) @ be_bytes 2 (num_seq_no tf) @
     be_bytes 3 (base_time_ticks tf) @ [feedback_seq tf]"

lemma length_tf_fixed [simp]: "length (tf_fixed tf) = 16"
  by (simp add: tf_fixed_def)

lemma parse_chunks_tf:
  assumes ok: "tf_ok tf st" and ne: "st \<noteq> []" and l: "EncodeLast (tf_last_chunk tf) = Some l"
    and e: "16 + 2 * (length (encoded_chunks tf) + 1) \<le> end_index"
    and d: "length (delta_sizes (tf_last_chunk tf0)) = 14"
  shows "\<exists>c. parse_chunks end_index (unat (num_seq_no tf))
        (tf_fixed tf @ chunks_wire (encoded_chunks tf @ [l]) @ rest) tf0 [] 16 =
      Some (tf0\<lparr>encoded_chunks := encoded_chunks tf0 @ encoded_chunks tf @ [l], tf_last_chunk := c\<rparr>,
        map status_size st, 16 + 2 * (length (encoded_chunks tf) + 1), True) \<and>
      decoded_as c (lc_list (tf_last_chunk tf))"
proof -
  let ?A = "concat (map decode_list (encoded_chunks tf))" and ?L = "lc_list (tf_last_chunk tf)"
  have lc: "lc_ok (tf_last_chunk tf)" "0 < lc_size (tf_last_chunk tf)"
    using ok ne by (auto simp: tf_ok_def)
  have last: "lc_size (tf_last_chunk tf) \<le> length (decode_list l)" "take (length ?L) (decode_list l) = ?L"
    using EncodeLast_list [OF lc] l length_lc_list [OF lc(1)] by auto
  have sz: "?A @ ?L = map status_size st" using ok by (simp add: tf_ok_def tf_sizes_def)
  have "length ?A + length ?L = length st" by (metis sz length_append length_map)
  then have num: "unat (num_seq_no tf) = length ?A + length ?L" using ok by (simp add: tf_ok_def)
  have tk: "take (length ?A + length ?L) (concat (map decode_list (encoded_chunks tf @ [l]))) = map status_size st"
    using last(2) sz by simp
  have pre: "length (tf_fixed tf) = 16" by simp
  have "\<exists>c. parse_chunks end_index (length ?A + length ?L)
        (tf_fixed tf @ chunks_wire (encoded_chunks tf @ [l]) @ rest) tf0 [] (length (tf_fixed tf)) =
      Some (tf0\<lparr>encoded_chunks := encoded_chunks tf0 @ encoded_chunks tf @ [l], tf_last_chunk := c\<rparr>,
        [] @ take (length ?A + length ?L) (concat (map decode_list (encoded_chunks tf @ [l]))),
        length (tf_fixed tf) + 2 * (length (encoded_chunks tf) + 1), True) \<and>
      decoded_as c (take (length ?A + length ?L - length ?A) (decode_list l))"
    by (rule parse_chunks_wire [OF refl]) (use e d lc last length_lc_list [OF lc(1)] in simp_all)
  then show ?thesis unfolding num tk pre append_Nil diff_add_inverse last(2) .
qed

lemma Tf_Parse_chunks:
  assumes ok: "tf_ok tf st" and n: "num_seq_no tf \<noteq> 0"
    and l: "EncodeLast (tf_last_chunk tf) = Some l"
    and p0: "length (delta_sizes (tf_last_chunk p0)) = 14"
    and h: "Tf_matches h" "16 + 2 * (length (encoded_chunks tf) + 1) \<le> unat (ch_payload_size h)"
      "ch_payload h = tf_fixed tf @ chunks_wire (encoded_chunks tf @ [l]) @ rest"
  shows "\<exists>c. TransportFeedback_Parse p0 h = parse_rest (unat (ch_payload_size h)) (ch_payload h)
      ((parse_start p0 tf)\<lparr>tf_last_chunk := c, encoded_chunks := encoded_chunks tf, num_seq_no := num_seq_no tf\<rparr>)
      (map status_size st) (16 + 2 * (length (encoded_chunks tf) + 1)) \<and>
    decoded_as c (lc_list (tf_last_chunk tf))"
proof -
  have ne: "st \<noteq> []" using tf_ok_num [OF ok] n by auto
  have "length (delta_sizes (tf_last_chunk (parse_start p0 tf))) = 14"
    using p0 by (simp add: LastChunk_Clear_def)
  from parse_chunks_tf [OF ok ne l h(2) this]
  obtain c where chunks: "parse_chunks (unat (ch_payload_size h)) (unat (num_seq_no tf)) (ch_payload h)
        (parse_start p0 tf) [] 16 =
      Some ((parse_start p0 tf)\<lparr>encoded_chunks := encoded_chunks tf @ [l], tf_last_chunk := c\<rparr>,
        map status_size st, 16 + 2 * (length (encoded_chunks tf) + 1), True)"
    and c: "decoded_as c (lc_list (tf_last_chunk tf))"
    unfolding h(3) by auto
  let ?tf1 = "(parse_start p0 tf)\<lparr>encoded_chunks := encoded_chunks tf @ [l], tf_last_chunk := c\<rparr>"
  have eq: "?tf1\<lparr>encoded_chunks := butlast (encoded_chunks ?tf1), num_seq_no := num_seq_no tf\<rparr>
      = (parse_start p0 tf)\<lparr>tf_last_chunk := c, encoded_chunks := encoded_chunks tf, num_seq_no := num_seq_no tf\<rparr>"
    by simp
  have len: "length (map status_size st) = unat (num_seq_no tf)" using ok by (simp add: tf_ok_def)
  have pay: "ch_payload h = rtpfb_wire tf @ be_bytes 2 (base_seq_no tf) @ be_bytes 2 (num_seq_no tf) @
      be_bytes 3 (base_time_ticks tf) @ feedback_seq tf # chunks_wire (encoded_chunks tf @ [l]) @ rest"
    by (simp add: h(3) tf_fixed_def)
  have "18 \<le> unat (ch_payload_size h)" using h(2) by simp
  from Tf_Parse_steps [OF h(1) this pay n chunks _ len] c show ?thesis
    unfolding eq by auto
qed

lemma Tf_Parse_wire:
  assumes ok: "tf_ok tf st" and n: "num_seq_no tf \<noteq> 0"
    and p0: "include_timestamps p0" "length (delta_sizes (tf_last_chunk p0)) = 14"
    and h: "Tf_matches h" "unat (ch_payload_size h) = size_bytes tf - 4"
      "ch_payload h = tf_body tf @ tf_padding tf @ rest"
  shows "\<exists>tf'. TransportFeedback_Parse p0 h = Some (tf', True) \<and> tf_ok tf' st \<and> same_report tf tf' \<and>
    include_timestamps tf' = (include_timestamps tf \<or> status_bytes st = 0)"
proof -
  have ne: "st \<noteq> []" using tf_ok_num [OF ok] n by auto
  have lc: "lc_ok (tf_last_chunk tf)" "0 < lc_size (tf_last_chunk tf)"
    using ok ne by (auto simp: tf_ok_def)
  obtain l where l: "EncodeLast (tf_last_chunk tf) = Some l" using EncodeLast_list [OF lc] by blast
  let ?ts = "include_timestamps tf" and ?n = "16 + 2 * (length (encoded_chunks tf) + 1)"
  let ?D = "if ?ts then deltas_wire (status_packets (base_seq_no tf) st) else []"
  have size: "size_bytes tf - 4 = ?n + (if ?ts then status_bytes st else 0)" "4 \<le> size_bytes tf"
    using ok lc(2) by (simp_all add: tf_ok_def tf_chunks_def LastChunk_Empty_def)
  have pay: "ch_payload h = tf_fixed tf @ chunks_wire (encoded_chunks tf @ [l]) @ ?D @ tf_padding tf @ rest"
    using tf_ok_packets [OF ok] by (simp add: h(3) tf_body_def tf_fixed_def chunk_words_def l)
  have room: "?n \<le> unat (ch_payload_size h)" unfolding h(2) size(1) by simp
  from Tf_Parse_chunks [OF ok n l p0(2) h(1) room pay] obtain c where
    steps: "TransportFeedback_Parse p0 h = parse_rest (size_bytes tf - 4) (ch_payload h)
      ((parse_start p0 tf)\<lparr>tf_last_chunk := c, encoded_chunks := encoded_chunks tf, num_seq_no := num_seq_no tf\<rparr>)
      (map status_size st) ?n"
    and c: "decoded_as c (lc_list (tf_last_chunk tf))" unfolding h(2) by blast
  let ?tf = "(parse_start p0 tf)\<lparr>tf_last_chunk := c, encoded_chunks := encoded_chunks tf, num_seq_no := num_seq_no tf\<rparr>"
  have "\<exists>tf'. parse_rest (size_bytes tf - 4) (ch_payload h) ?tf (map status_size st)
        (length (tf_fixed tf @ chunks_wire (encoded_chunks tf @ [l]))) = Some (tf', True) \<and>
      received_packets tf' = status_packets (base_seq_no ?tf) st \<and>
      last_timestamp_us tf' = last_timestamp_us ?tf + status_time st \<and>
      include_timestamps tf' = (?ts \<or> status_bytes st = 0) \<and>
      tf_core (?tf\<lparr>include_timestamps := ?ts \<or> status_bytes st = 0\<rparr>) tf' \<and>
      size_bytes tf' = 4 + (size_bytes tf - 4)"
  proof (rule parse_rest_wire)
    show "ch_payload h = (tf_fixed tf @ chunks_wire (encoded_chunks tf @ [l])) @
        (if ?ts then deltas_wire (status_packets (base_seq_no ?tf) st) else []) @ tf_padding tf @ rest"
      using pay by simp
    show "\<not> ?ts \<longrightarrow> set st \<subseteq> {None, Some 0}" using ok by (simp add: tf_ok_def)
  qed (use size(1) p0(1) in simp_all)
  moreover have "length (tf_fixed tf @ chunks_wire (encoded_chunks tf @ [l])) = ?n" by simp
  ultimately obtain tf' where tf': "TransportFeedback_Parse p0 h = Some (tf', True)"
    "received_packets tf' = status_packets (base_seq_no ?tf) st"
    "last_timestamp_us tf' = last_timestamp_us ?tf + status_time st"
    "include_timestamps tf' = (?ts \<or> status_bytes st = 0)"
    "tf_core (?tf\<lparr>include_timestamps := ?ts \<or> status_bytes st = 0\<rparr>) tf'"
    "size_bytes tf' = 4 + (size_bytes tf - 4)"
    unfolding steps by metis
  have "tf_ok tf' st"
    using tf'(2-6) size(2) c
    by (intro tf_ok_parsed [OF ok ne]) (simp_all add: tf_core_def GetBaseTimeUs_def)
  moreover have "same_report tf tf'"
    using tf'(2,5,6) size(2) tf_ok_packets [OF ok] by (simp add: same_report_def tf_core_def)
  ultimately show ?thesis using tf'(1,4) by (intro exI [of _ tf'] conjI)
qed

text \<open>A built message is created in one piece and parsed back.\<close>

lemma tf_build_parse:
  assumes "tf_ok tf st" "num_seq_no tf \<noteq> 0" "Tf_BlockLength tf \<le> length garbage"
  shows "\<exists>packet tf'. Build (Tf_BlockLength tf) (Tf_Create tf) garbage = Some packet \<and>
    length packet = Tf_BlockLength tf \<and> ParseFrom packet (length packet) = Some (Some tf') \<and>
    tf_ok tf' st \<and> same_report tf tf' \<and>
    include_timestamps tf' = (include_timestamps tf \<or> status_bytes st = 0)"
proof -
  have v: "tf_valid tf" using assms(1,2) by (auto simp: tf_valid_def)
  have p0: "include_timestamps (TransportFeedback_init True False)"
    "length (delta_sizes (tf_last_chunk (TransportFeedback_init True False))) = 14"
    by (simp_all add: TransportFeedback_init_def)
  obtain h where h: "CommonHeader_Parse CommonHeader_init (tf_wire tf) (length (tf_wire tf)) = Some (h, True)"
    "Tf_matches h" "unat (ch_payload_size h) = size_bytes tf - 4" "ch_payload h = tf_body tf @ tf_padding tf"
    using tf_header_parse [OF v order_refl, of CommonHeader_init "[]"]
    unfolding append_Nil2 by (elim exE conjE) (rule that)
  obtain tf' where tf': "TransportFeedback_Parse (TransportFeedback_init True False) h = Some (tf', True)"
    "tf_ok tf' st" "same_report tf tf'" "include_timestamps tf' = (include_timestamps tf \<or> status_bytes st = 0)"
    using Tf_Parse_wire [OF assms(1,2) p0 h(2,3), of "[]", unfolded append_Nil2, OF h(4)]
    by (elim exE conjE) (rule that)
  have "ParseFrom (tf_wire tf) (length (tf_wire tf)) = Some (Some tf')"
    using h(1,2) tf'(1) by (simp add: ParseFrom_def Tf_matches_def tf_consts)
  with tf'(2-4) tf.Build_wire [OF v assms(3)] tf.length_wire [OF v] show ?thesis
    by (intro exI [of _ "tf_wire tf"] exI [of _ tf'] conjI)
qed

subsection \<open>Parsing anything\<close>

definition tf_shape :: "transport_feedback \<Rightarrow> bool" where
  "tf_shape tf \<longleftrightarrow> length (delta_sizes (tf_last_chunk tf)) = 14"

lemma tf_shape_Clear [simp]: "tf_shape (TransportFeedback_Clear tf) = tf_shape tf"
  by (simp add: tf_shape_def TransportFeedback_Clear_def LastChunk_Clear_def)

lemma parse_chunks_safe:
  assumes "end_index \<le> length payload" "tf_shape tf" "length sizes \<le> n" "index \<le> end_index"
    and "\<forall>d \<in> set sizes. d \<le> 3"
  shows "\<exists>tf' sizes' index' ok. parse_chunks end_index n payload tf sizes index = Some (tf', sizes', index', ok) \<and>
    tf_shape tf' \<and> (ok \<longrightarrow> length sizes' = n \<and> index' \<le> end_index \<and> base_seq_no tf' = base_seq_no tf \<and>
      (\<forall>d \<in> set sizes'. d \<le> 3) \<and> (length sizes < n \<or> encoded_chunks tf \<noteq> [] \<longrightarrow> encoded_chunks tf' \<noteq> []))"
  using assms
proof (induction end_index n payload tf sizes index rule: parse_chunks.induct)
  case (1 end_index n payload tf sizes index)
  show ?case
  proof (cases "length sizes < n \<and> index + 2 \<le> end_index")
    case False
    with "1.prems" show ?thesis
      by (subst parse_chunks.simps) (auto simp: kChunkSizeBytes_def)
  next
    case True
    then obtain ch where ch: "ReadBE16 payload index = Some ch"
      using ReadBE16_in [of index payload] "1.prems"(1) by auto
    let ?m = "n - length sizes"
    obtain c where c: "LastChunk_Decode (tf_last_chunk tf) ch ?m = Some c" "decoded_as c (take ?m (decode_list ch))"
      using Decode_list "1.prems"(2) unfolding tf_shape_def by blast
    let ?xs = "sizes @ take ?m (decode_list ch)"
    let ?tf = "tf\<lparr>encoded_chunks := encoded_chunks tf @ [ch], tf_last_chunk := c\<rparr>"
    have app: "AppendTo c sizes = Some ?xs" using c(2) by (simp add: decoded_as_def)
    have step: "parse_chunks end_index n payload tf sizes index
        = parse_chunks end_index n payload ?tf ?xs (index + 2)"
      using True ch c(1) app by (subst parse_chunks.simps) (simp add: kChunkSizeBytes_def)
    have "\<exists>tf' sizes' index' ok. parse_chunks end_index n payload ?tf ?xs (index + kChunkSizeBytes)
          = Some (tf', sizes', index', ok) \<and>
        tf_shape tf' \<and> (ok \<longrightarrow> length sizes' = n \<and> index' \<le> end_index \<and> base_seq_no tf' = base_seq_no ?tf \<and>
          (\<forall>d \<in> set sizes'. d \<le> 3) \<and> (length ?xs < n \<or> encoded_chunks ?tf \<noteq> [] \<longrightarrow> encoded_chunks tf' \<noteq> []))"
    proof (rule "1.IH" [OF _ _ ch c(1) app])
      show "\<forall>d \<in> set ?xs. d \<le> 3"
        using "1.prems"(5) decode_list_le_3 by (auto dest: in_set_takeD)
    qed (use True "1.prems" c(2) in \<open>auto simp: kChunkSizeBytes_def tf_shape_def decoded_as_def\<close>)
    then show ?thesis unfolding step by (simp add: kChunkSizeBytes_def; blast)
  qed
qed

lemma u8_le_3_cases: "(d :: u8) \<le> 3 \<Longrightarrow> d = 0 \<or> d = 1 \<or> d = 2 \<or> d = 3"
proof -
  assume "d \<le> 3"
  then have "unat d \<le> 3" by (simp add: word_le_nat_alt)
  then have "unat d = 0 \<or> unat d = 1 \<or> unat d = 2 \<or> unat d = 3" by linarith
  then show ?thesis by (auto simp: word_unat_eq_iff)
qed

lemma parse_deltas_safe:
  assumes "end_index \<le> length payload" "index \<le> end_index" "\<forall>d \<in> set sizes. d \<le> 3" "tf_shape tf"
  shows "\<exists>tf' index' ok. parse_deltas end_index payload sizes seq tf index = Some (tf', index', ok) \<and>
    tf_shape tf' \<and> (ok \<longrightarrow> index' \<le> end_index)"
  using assms
proof (induction sizes arbitrary: seq tf index)
  case (Cons d ds)
  have shape: "tf_shape (parsed_lost tf seq)" "tf_shape (parsed_packet tf seq delta)" for delta
    using Cons.prems(4) by (simp_all add: tf_shape_def parsed_lost_def parsed_packet_def)
  show ?case
  proof (cases "index + unat d \<le> end_index")
    case False
    then show ?thesis using Cons.prems(4) by (simp add: ex_bool_eq)
  next
    case True
    have ds: "\<forall>d \<in> set ds. d \<le> 3" using Cons.prems(3) by simp
    consider "d = 0" | "d = 1" | "d = 2" | "d = 3" using u8_le_3_cases Cons.prems(3) by auto
    then show ?thesis
    proof cases
      case 1
      then show ?thesis using Cons.IH [OF Cons.prems(1,2) ds shape(1)] Cons.prems(2) by simp
    next
      case 2
      then obtain b where "get_byte payload index = Some b"
        using True Cons.prems(1) get_byte_ex [of index payload] by auto
      with 2 True show ?thesis using Cons.IH [OF Cons.prems(1) _ ds shape(2)] by simp
    next
      case 3
      then obtain v where "ReadBE16 payload index = Some v"
        using True Cons.prems(1) ReadBE16_in [of index payload] by auto
      with 3 True show ?thesis
        using Cons.IH [OF Cons.prems(1) _ ds shape(2)] by (simp add: ReadSignedBE16_eq)
    next
      case 4
      then show ?thesis using True Cons.prems(4) by (simp add: ex_bool_eq)
    qed
  qed
qed (simp add: ex_bool_eq)

lemma parse_no_deltas_shape: "tf_shape (parse_no_deltas sizes seq tf) = tf_shape tf"
  by (induction sizes seq tf rule: parse_no_deltas.induct) (simp_all add: Let_def tf_shape_def)

lemma parse_rest_safe:
  assumes "end_index \<le> length payload" "index \<le> end_index" "\<forall>d \<in> set sizes. d \<le> 3" "tf_shape tf"
  shows "\<exists>tf' ok. parse_rest end_index payload tf sizes index = Some (tf', ok) \<and> tf_shape tf'"
proof (cases "end_index \<ge> index + sum_list (map unat sizes)")
  case True
  obtain tf' index' ok where "parse_deltas end_index payload sizes (base_seq_no tf) tf index = Some (tf', index', ok)"
    "tf_shape tf'" "ok \<longrightarrow> index' \<le> end_index"
    using parse_deltas_safe [OF assms] by blast
  with True show ?thesis by (cases ok) (simp_all add: parse_rest_def tf_shape_def ex_bool_eq)
next
  case False
  have "tf_shape (parse_no_deltas sizes (base_seq_no tf) (tf\<lparr>include_timestamps := False\<rparr>))"
    using assms(4) unfolding parse_no_deltas_shape by (simp add: tf_shape_def)
  with False assms(2) show ?thesis by (simp add: parse_rest_def tf_shape_def ex_bool_eq)
qed

lemma Tf_Parse_safe:
  assumes "header_ok h buffer sz" "sz \<le> length buffer" "Tf_matches h" "tf_shape tf"
  shows "\<exists>tf' ok. TransportFeedback_Parse tf h = Some (tf', ok) \<and> tf_shape tf'"
proof (cases "unat (ch_payload_size h) < 18")
  case True
  with assms(3,4) show ?thesis
    by (simp add: TransportFeedback_Parse_def Tf_matches_def tf_consts ex_bool_eq)
next
  case False
  let ?e = "unat (ch_payload_size h)" and ?m = "ch_payload h"
  have len: "?e \<le> length ?m" using header_ok_payload_size [OF assms(1,2)] .
  with False have len18: "18 \<le> length ?m" by simp
  obtain a b where common: "Rtpfb_ParseCommonFeedback tf ?m = Some (tf\<lparr>sender_ssrc := a, media_ssrc := b\<rparr>)"
    using Rtpfb_ParseCommonFeedback_total [of ?m tf] len18 by auto
  obtain seq n ticks fb where reads: "ReadBE16 ?m 8 = Some seq" "ReadBE16 ?m 10 = Some n"
    "ReadSignedBE24 ?m 12 = Some ticks" "get_byte ?m 15 = Some fb"
    using ReadBE16_in [of 8 ?m] ReadBE16_in [of 10 ?m] ReadSignedBE24_in [of 12 ?m] get_byte_ex [of 15 ?m] len18
    by auto
  define tf0 where "tf0 = TransportFeedback_Clear (tf\<lparr>sender_ssrc := a, media_ssrc := b, base_seq_no := seq,
    base_time_ticks := ticks, feedback_seq := fb\<rparr>)"
  have shape: "tf_shape tf0" "base_seq_no tf0 = seq"
    using assms(4) by (simp_all add: tf0_def tf_shape_def TransportFeedback_Clear_def LastChunk_Clear_def)
  show ?thesis
  proof (cases "n = 0")
    case True
    with False assms(3) common reads shape(1) show ?thesis
      by (simp add: TransportFeedback_Parse_def Tf_matches_def tf_consts tf0_def ex_bool_eq)
  next
    case n: False
    have "16 \<le> ?e" using False by simp
    from parse_chunks_safe [OF len shape(1) _ this, of "[]" "unat n"]
    obtain tf1 sizes index ok where chunks: "parse_chunks ?e (unat n) ?m tf0 [] 16 = Some (tf1, sizes, index, ok)"
      "tf_shape tf1" "ok \<longrightarrow> length sizes = unat n \<and> index \<le> ?e \<and> base_seq_no tf1 = seq \<and>
        (\<forall>d \<in> set sizes. d \<le> 3) \<and> encoded_chunks tf1 \<noteq> []"
      using n shape(2) by (auto simp: unat_gt_0)
    show ?thesis
    proof (cases ok)
      case False
      with \<open>\<not> ?e < 18\<close> assms(3) common reads n chunks(1,2) show ?thesis
        by (simp add: TransportFeedback_Parse_def Tf_matches_def tf_consts tf0_def ex_bool_eq)
    next
      case True
      let ?tf = "tf1\<lparr>encoded_chunks := butlast (encoded_chunks tf1), num_seq_no := n\<rparr>"
      have "TransportFeedback_Parse tf h = parse_rest ?e ?m ?tf sizes index"
        using \<open>\<not> ?e < 18\<close> assms(3) common reads n chunks(1,3) True
        by (simp add: TransportFeedback_Parse_def Tf_matches_def tf_consts tf0_def parse_rest_def Let_def)
      moreover have "tf_shape ?tf" using chunks(2) by (simp add: tf_shape_def)
      ultimately show ?thesis using parse_rest_safe [OF len] chunks(3) True by simp
    qed
  qed
qed

subsection \<open>From arrivals to the sender's view\<close>

lemma time_error_shift: "time_error t (u + k * kTimeWrapPeriodUs) e \<longleftrightarrow> time_error t u e"
proof -
  have eq: "t + j * P - (u + k * P) = t + (j - k) * P - u" for j P by (simp add: algebra_simps)
  show ?thesis unfolding time_error_def eq by (metis add_diff_cancel)
qed

lemma packet_times_shift: "packet_times (t + d) ps = map (\<lambda>u. u + d) (packet_times t ps)"
proof (induction ps arbitrary: t)
  case (Cons p ps)
  then show ?case using Cons [of "t + delta_us p"] by (simp add: ac_simps)
qed simp

lemma sint_ticks24: "\<exists>k. sint (signed_take_bit 23 (w :: u32)) = sint w + k * 2 ^ 24"
proof -
  have "sint (signed_take_bit 23 w) = signed_take_bit 23 (sint w)"
    by (rule sint_signed_take_bit_23)
  also have "\<dots> = sint w - 2 ^ 24 * ((sint w + 2 ^ 23) div 2 ^ 24)"
    by (simp add: signed_take_bit_eq_take_bit_shift take_bit_eq_mod minus_mult_div_eq_mod [symmetric])
  finally show ?thesis by (intro exI [of _ "- ((sint w + 2 ^ 23) div 2 ^ 24)"]) simp
qed

lemma same_report_base_time:
  assumes "same_report tf tf'"
  shows "\<exists>k. GetBaseTimeUs tf' = GetBaseTimeUs tf + k * kTimeWrapPeriodUs"
proof -
  obtain k where "sint (base_time_ticks tf') = sint (base_time_ticks tf) + k * 2 ^ 24"
    using sint_ticks24 assms by (auto simp: same_report_def)
  then have "GetBaseTimeUs tf' = GetBaseTimeUs tf + k * kTimeWrapPeriodUs"
    by (simp add: GetBaseTimeUs_def tf_consts algebra_simps)
  then show ?thesis by blast
qed

text \<open>A receiver's whole session: a fresh object, its base, then the arrivals.\<close>

definition feedback_session ::
  "u16 \<Rightarrow> int \<Rightarrow> (u16 \<times> int) list \<Rightarrow> (transport_feedback \<times> bool) option" where
  "feedback_session seq0 t0 arrivals =
     do { tf \<leftarrow> SetBase (TransportFeedback_init True False) seq0 t0; feedback_run tf arrivals }"

lemma feedback_session_total:
  assumes "0 \<le> t0" "times_ok arrivals"
  shows "\<exists>tf ok st. feedback_session seq0 t0 arrivals = Some (tf, ok) \<and> tf_ok tf st \<and>
    uint (base_time_ticks tf) < 2 ^ 24 \<and> include_timestamps tf"
proof -
  obtain tf0 where tf0: "SetBase (TransportFeedback_init True False) seq0 t0 = Some tf0" "tf_ok tf0 []"
    "uint (base_time_ticks tf0) < 2 ^ 24" "include_timestamps tf0 = include_timestamps (TransportFeedback_init True False)"
    using SetBase_spec [OF tf_ok_init assms(1)] by blast
  then show ?thesis
    using feedback_run_total [OF tf0(2) assms(2)]
    by (auto simp: feedback_session_def tf_frame_def TransportFeedback_init_def)
qed

lemma feedback_session_reports:
  assumes "0 \<le> t0" "times_ok arrivals" "feedback_session seq0 t0 arrivals = Some (tf, True)"
  shows "\<exists>st. tf_ok tf st \<and> uint (base_time_ticks tf) < 2 ^ 24 \<and> base_seq_no tf = seq0 \<and>
    map sequence_number (received_packets tf) = map fst arrivals \<and>
    list_all2 (\<lambda>(seq, t) u. time_error t u 125) arrivals (packet_times (GetBaseTimeUs tf) (received_packets tf))"
proof -
  obtain tf0 where tf0: "SetBase (TransportFeedback_init True False) seq0 t0 = Some tf0" "tf_ok tf0 []"
    "base_seq_no tf0 = seq0" "uint (base_time_ticks tf0) < 2 ^ 24"
    "include_timestamps tf0 = include_timestamps (TransportFeedback_init True False)" "received_packets tf0 = []"
    using SetBase_spec [OF tf_ok_init assms(1)] by blast
  have "feedback_run tf0 arrivals = Some (tf, True)"
    using assms(3) tf0(1) by (simp add: feedback_session_def)
  from feedback_run_reports [OF tf0(2) assms(2) this]
  obtain st ps where r: "tf_ok tf st" "tf_frame tf0 tf" "received_packets tf = ps"
    "map sequence_number ps = map fst arrivals"
    "list_all2 (\<lambda>(seq, t) u. time_error t u 125) arrivals (packet_times (last_timestamp_us tf0) ps)"
    using tf0(5,6) by (auto simp: TransportFeedback_init_def)
  have "last_timestamp_us tf0 = GetBaseTimeUs tf"
    using tf_ok_time [OF tf0(2)] tf_frame_base_time [OF r(2)] by simp
  with r tf0(3,4) show ?thesis by (auto simp: tf_frame_def)
qed

lemma GetBaseDeltaUs_cases:
  assumes "\<bar>prev\<bar> < 2 ^ 62" "\<bar>GetBaseTimeUs tf - prev\<bar> \<le> kTimeWrapPeriodUs + kTimeWrapPeriodUs div 2"
  shows "\<exists>d k. GetBaseDeltaUs tf prev = Some d \<and> d = GetBaseTimeUs tf - prev + k * kTimeWrapPeriodUs \<and>
    \<bar>d\<bar> \<le> kTimeWrapPeriodUs div 2"
proof -
  define x where "x = GetBaseTimeUs tf - prev"
  have P: "kTimeWrapPeriodUs = 1073741824000" by (simp add: tf_consts)
  have x: "\<bar>x\<bar> \<le> 1610612736000" using assms(2) by (simp add: x_def P)
  then have i: "i64 x = Some x" "i64 (x - kTimeWrapPeriodUs) = Some (x - kTimeWrapPeriodUs)"
    "i64 (x + kTimeWrapPeriodUs) = Some (x + kTimeWrapPeriodUs)"
    by (auto simp: i64_def P)
  consider "x > 536870912000" | "x < - 536870912000" | "\<bar>x\<bar> \<le> 536870912000" by linarith
  then show ?thesis
  proof cases
    case 1
    then have "GetBaseDeltaUs tf prev = Some (x - kTimeWrapPeriodUs)"
      using i x by (simp add: GetBaseDeltaUs_def x_def [symmetric] P)
    then show ?thesis
      using 1 x by (intro exI [of _ "x - kTimeWrapPeriodUs"] exI [of _ "-1"]) (simp add: x_def P)
  next
    case 2
    then have "GetBaseDeltaUs tf prev = Some (x + kTimeWrapPeriodUs)"
      using i x by (simp add: GetBaseDeltaUs_def x_def [symmetric] P)
    then show ?thesis
      using 2 x by (intro exI [of _ "x + kTimeWrapPeriodUs"] exI [of _ 1]) (simp add: x_def P)
  next
    case 3
    then have "\<not> \<bar>x - kTimeWrapPeriodUs\<bar> < \<bar>x\<bar>" "\<not> \<bar>x + kTimeWrapPeriodUs\<bar> < \<bar>x\<bar>"
      using P by linarith+
    then have "GetBaseDeltaUs tf prev = Some x"
      using i by (simp add: GetBaseDeltaUs_def x_def [symmetric])
    then show ?thesis using 3 by (intro exI [of _ x] exI [of _ 0]) (simp add: x_def P)
  qed
qed

text \<open>What the sender gets: from the serialised message it parses the numbers of the packets that arrived, in
  order, and times within 125 microseconds of the times they arrived.\<close>

definition delivers :: "transport_feedback \<Rightarrow> (u16 \<times> int) list \<Rightarrow> bool" where
  "delivers tf arrivals \<longleftrightarrow> (\<forall>garbage. Tf_BlockLength tf \<le> length garbage \<longrightarrow>
     (\<exists>packet tf'. Build (Tf_BlockLength tf) (Tf_Create tf) garbage = Some packet \<and>
       ParseFrom packet (length packet) = Some (Some tf') \<and> base_seq_no tf' = base_seq_no tf \<and>
       media_ssrc tf' = media_ssrc tf \<and> feedback_seq tf' = feedback_seq tf \<and>
       map sequence_number (received_packets tf') = map fst arrivals \<and>
       list_all2 (\<lambda>(seq, t) u. time_error t u 125) arrivals
         (packet_times (GetBaseTimeUs tf') (received_packets tf'))))"

lemma tf_delivers:
  assumes "tf_ok tf st" "arrivals \<noteq> []" "map sequence_number (received_packets tf) = map fst arrivals"
    and "list_all2 (\<lambda>(seq, t) u. time_error t u 125) arrivals (packet_times (GetBaseTimeUs tf) (received_packets tf))"
  shows "delivers tf arrivals"
  unfolding delivers_def
proof (intro allI impI)
  fix garbage :: bytes assume g: "Tf_BlockLength tf \<le> length garbage"
  have "st \<noteq> []" using assms(2,3) tf_ok_packets [OF assms(1)] by auto
  then have n: "num_seq_no tf \<noteq> 0" using assms(1) by (auto simp: tf_ok_def)
  obtain packet tf' where p: "Build (Tf_BlockLength tf) (Tf_Create tf) garbage = Some packet"
    "ParseFrom packet (length packet) = Some (Some tf')" "same_report tf tf'"
    using tf_build_parse [OF assms(1) n g] by (elim exE conjE) (rule that)
  obtain k where k: "GetBaseTimeUs tf' = GetBaseTimeUs tf + k * kTimeWrapPeriodUs"
    using same_report_base_time [OF p(3)] by blast
  have "list_all2 (\<lambda>(seq, t) u. time_error t u 125) arrivals
      (packet_times (GetBaseTimeUs tf') (received_packets tf))"
    using assms(4) by (simp add: k packet_times_shift list_all2_map2 time_error_shift case_prod_unfold)
  with p assms(3) show "\<exists>packet tf'. Build (Tf_BlockLength tf) (Tf_Create tf) garbage = Some packet \<and>
       ParseFrom packet (length packet) = Some (Some tf') \<and> base_seq_no tf' = base_seq_no tf \<and>
       media_ssrc tf' = media_ssrc tf \<and> feedback_seq tf' = feedback_seq tf \<and>
       map sequence_number (received_packets tf') = map fst arrivals \<and>
       list_all2 (\<lambda>(seq, t) u. time_error t u 125) arrivals
         (packet_times (GetBaseTimeUs tf') (received_packets tf'))"
    by (intro exI [of _ packet] exI [of _ tf']) (simp add: same_report_def)
qed

subsection \<open>Properties\<close>

text \<open>C1: end to end. A receiver that sets the base and reports any list of arrivals, all accepted,
  builds a message from which the sender parses exactly the sequence numbers that arrived, in order,
  together with arrival times that are each within 125 microseconds of the real ones (modulo the wrap
  period of the 24-bit base time): rounding errors do not add up over the packets.\<close>

theorem feedback_end_to_end:
  assumes "0 \<le> t0" "times_ok arrivals" "arrivals \<noteq> []"
    and "feedback_session seq0 t0 arrivals = Some (tf, True)" "Tf_BlockLength tf \<le> length garbage"
  shows "\<exists>packet tf'. Build (Tf_BlockLength tf) (Tf_Create tf) garbage = Some packet \<and>
    ParseFrom packet (length packet) = Some (Some tf') \<and> base_seq_no tf' = seq0 \<and>
    map sequence_number (received_packets tf') = map fst arrivals \<and>
    list_all2 (\<lambda>(seq, t) u. time_error t u 125) arrivals
      (packet_times (GetBaseTimeUs tf') (received_packets tf'))"
proof -
  obtain st where st: "tf_ok tf st" "base_seq_no tf = seq0" "map sequence_number (received_packets tf) = map fst arrivals"
    "list_all2 (\<lambda>(seq, t) u. time_error t u 125) arrivals (packet_times (GetBaseTimeUs tf) (received_packets tf))"
    using feedback_session_reports [OF assms(1,2,4)] by blast
  from tf_delivers [OF st(1) assms(3) st(3,4)] assms(5) st(2) show ?thesis by (force simp: delivers_def)
qed

definition example_arrivals :: "(u16 \<times> int) list" where
  "example_arrivals = [(65534, 1000100), (65535, 1001349), (2, 1070000), (3, 1069990)]"

definition example_feedback :: transport_feedback where
  "example_feedback = fst (the (feedback_session 65534 1000000 example_arrivals))"

theorem feedback_end_to_end_witness:
  "\<exists>packet tf'. Build (Tf_BlockLength example_feedback) (Tf_Create example_feedback) (replicate 32 0) = Some packet \<and>
    ParseFrom packet (length packet) = Some (Some tf') \<and> base_seq_no tf' = 65534 \<and>
    map sequence_number (received_packets tf') = map fst example_arrivals \<and>
    list_all2 (\<lambda>(seq, t) u. time_error t u 125) example_arrivals
      (packet_times (GetBaseTimeUs tf') (received_packets tf'))"
proof (rule feedback_end_to_end)
  show "feedback_session 65534 1000000 example_arrivals = Some (example_feedback, True)" by code_simp
  show "Tf_BlockLength example_feedback \<le> length (replicate 32 (0 :: u8))" by code_simp
  show "times_ok example_arrivals" by code_simp
qed (simp_all add: example_arrivals_def)

text \<open>C3: \<open>AddReceivedPacket\<close> refines appending to a list of packet statuses. On an object that
  satisfies the class invariant for the statuses \<open>st\<close> it never faults; when it returns true it has
  appended one "lost" for every skipped number and the delta of the packet, when it returns false it has
  at most appended "lost" entries, and the invariant holds in both cases.\<close>

theorem add_received_packet_refines:
  assumes "tf_ok tf st" "\<bar>t\<bar> < 2 ^ 62"
  shows "\<exists>tf' ok st'. AddReceivedPacket tf seq t = Some (tf', ok) \<and> tf_ok tf' st' \<and> tf_frame tf tf' \<and>
    (if ok then \<exists>delta. st' = st @ replicate (unat (seq - next_seq tf)) None @ [Some delta] \<and>
         (include_timestamps tf \<longrightarrow> time_error t (last_timestamp_us tf') 125)
     else \<exists>k. st' = st @ replicate k None)"
  by (rule AddReceivedPacket_spec [OF assms])

theorem add_received_packet_refines_witness:
  "tf_ok (TransportFeedback_init True False) [] \<and>
   (\<exists>tf' ok st'. AddReceivedPacket (TransportFeedback_init True False) 3 700 = Some (tf', ok) \<and> tf_ok tf' st')"
proof
  have "\<exists>tf' ok st'. AddReceivedPacket (TransportFeedback_init True False) 3 700 = Some (tf', ok) \<and> tf_ok tf' st' \<and>
      tf_frame (TransportFeedback_init True False) tf' \<and>
      (if ok then \<exists>delta. st' = [] @ replicate (unat (3 - next_seq (TransportFeedback_init True False))) None @ [Some delta] \<and>
           (include_timestamps (TransportFeedback_init True False) \<longrightarrow> time_error 700 (last_timestamp_us tf') 125)
       else \<exists>k. st' = [] @ replicate k None)"
    by (rule add_received_packet_refines [OF tf_ok_init]) simp
  then show "\<exists>tf' ok st'. AddReceivedPacket (TransportFeedback_init True False) 3 700 = Some (tf', ok) \<and> tf_ok tf' st'"
    by (elim exE conjE) (intro exI conjI)
qed (rule tf_ok_init)

text \<open>C17: the self-check \<open>IsConsistent\<close> accepts the object after every session of the receiver as
  long as the base time is below 33555 ticks (about 36 minutes); from then on the 32-bit product in it
  overflows, which is undefined behaviour.\<close>

theorem feedback_self_check:
  assumes "0 \<le> t0" "times_ok arrivals" "feedback_session seq0 t0 arrivals = Some (tf, ok)"
  shows "IsConsistent tf = (if uint (base_time_ticks tf) \<le> 33554 then Some True else None)"
proof -
  obtain st where st: "tf_ok tf st" "uint (base_time_ticks tf) < 2 ^ 24"
    using feedback_session_total [OF assms(1,2), of seq0] assms(3) by auto
  have "0 \<le> uint (base_time_ticks tf)" by simp
  with st(2) have "signed_take_bit 31 (uint (base_time_ticks tf)) = uint (base_time_ticks tf)"
    by (intro signed_take_bit_int_eq_self) (rule order_trans [of _ 0], simp_all)
  then have "sint (base_time_ticks tf) = uint (base_time_ticks tf)" by (simp add: sint_uint)
  then show ?thesis using IsConsistent_eq [OF st(1)] by simp
qed

theorem feedback_self_check_witness:
  "IsConsistent example_feedback =
     (if uint (base_time_ticks example_feedback) \<le> 33554 then Some True else None) \<and>
   uint (base_time_ticks example_feedback) \<le> 33554"
proof
  show "IsConsistent example_feedback =
     (if uint (base_time_ticks example_feedback) \<le> 33554 then Some True else None)"
  proof (rule feedback_self_check)
    show "feedback_session 65534 1000000 example_arrivals = Some (example_feedback, True)" by code_simp
    show "times_ok example_arrivals" by code_simp
  qed simp
  show "uint (base_time_ticks example_feedback) \<le> 33554" by code_simp
qed

text \<open>C16: parsing any bytes whatsoever as a transport feedback message reads only inside them and
  trips no assertion.\<close>

theorem feedback_parse_safe: "\<exists>result. ParseFrom buffer (length buffer) = Some result"
proof -
  obtain h ok where h: "CommonHeader_Parse CommonHeader_init buffer (length buffer) = Some (h, ok)"
    using CommonHeader_Parse_total [of "length buffer" buffer CommonHeader_init] by auto
  show ?thesis
  proof (cases "ok \<and> Tf_matches h")
    case True
    have "tf_shape (TransportFeedback_init True False)"
      by (simp add: tf_shape_def TransportFeedback_init_def)
    moreover have "header_ok h buffer (length buffer)" using True h CommonHeader_Parse_ok by auto
    ultimately obtain tf' ok' where "TransportFeedback_Parse (TransportFeedback_init True False) h = Some (tf', ok')"
      using Tf_Parse_safe [OF _ order_refl] True by blast
    with True h show ?thesis by (simp add: ParseFrom_def Tf_matches_def tf_consts)
  next
    case False
    with h show ?thesis by (auto simp: ParseFrom_def Tf_matches_def tf_consts)
  qed
qed

text \<open>C18: \<open>GetBaseDeltaUs\<close> undoes one wrap of the base time: for base times less than one and a half
  wrap periods apart it returns the difference modulo the period that is closest to zero.\<close>

theorem base_delta_unwraps:
  assumes "\<bar>prev\<bar> < 2 ^ 62" "\<bar>GetBaseTimeUs tf - prev\<bar> \<le> kTimeWrapPeriodUs + kTimeWrapPeriodUs div 2"
  shows "\<exists>d k. GetBaseDeltaUs tf prev = Some d \<and> d = GetBaseTimeUs tf - prev + k * kTimeWrapPeriodUs \<and>
    \<bar>d\<bar> \<le> kTimeWrapPeriodUs div 2"
  by (rule GetBaseDeltaUs_cases [OF assms])

theorem base_delta_unwraps_witness:
  "\<exists>d k. GetBaseDeltaUs example_feedback 1073000000000 = Some d \<and>
    d = GetBaseTimeUs example_feedback - 1073000000000 + k * kTimeWrapPeriodUs \<and>
    \<bar>d\<bar> \<le> kTimeWrapPeriodUs div 2"
proof (rule base_delta_unwraps)
  show "\<bar>GetBaseTimeUs example_feedback - 1073000000000\<bar> \<le> kTimeWrapPeriodUs + kTimeWrapPeriodUs div 2"
    by code_simp
qed simp

end
