(* ===== verification/Seq_Store.thy ===== *)
theory Seq_Store
  imports Seq_Num
begin

text \<open>
  \<open>std::set\<close> and \<open>std::map\<close> over \<open>uint16_t\<close> keys ordered by \<open>DescendingSeqNumComp\<close>
  (\<open>src/src/myrtc/rtc_base/sequence_number_util.h\<close>), as \<open>NackModule\<close> and \<open>PacketBuffer\<close> use them.

  A container is the list of its elements in iteration order; \<open>key\<close> reads the key of an element, so
  that sets (\<open>key\<close> the identity) and maps share the operations. The comparison wraps around, hence is
  an order only on keys less than half the number range apart. The library demands that the elements
  are partitioned with respect to the key of a search; a search that breaks this demand is
  undefined and has the value \<open>None\<close>. The lemmas show that every operation is defined and does what
  the container promises as long as all keys lie in a window of 32768 numbers.
\<close>

definition lower_bound :: "('a \<Rightarrow> u16) \<Rightarrow> 'a list \<Rightarrow> u16 \<Rightarrow> ('a list \<times> 'a list) option" where
  "lower_bound key xs k =
     (let before = takeWhile (\<lambda>x. DescendingSeqNumComp (key x) k) xs;
          rest = dropWhile (\<lambda>x. DescendingSeqNumComp (key x) k) xs
      in if list_all (\<lambda>x. \<not> DescendingSeqNumComp (key x) k) rest then Some (before, rest) else None)"

definition upper_bound :: "('a \<Rightarrow> u16) \<Rightarrow> 'a list \<Rightarrow> u16 \<Rightarrow> ('a list \<times> 'a list) option" where
  "upper_bound key xs k =
     (let before = takeWhile (\<lambda>x. \<not> DescendingSeqNumComp k (key x)) xs;
          rest = dropWhile (\<lambda>x. \<not> DescendingSeqNumComp k (key x)) xs
      in if list_all (\<lambda>x. DescendingSeqNumComp k (key x)) rest then Some (before, rest) else None)"

text \<open>The element with key \<open>k\<close>, if any, split off from the part of the container after it.\<close>

definition split_key :: "('a \<Rightarrow> u16) \<Rightarrow> 'a list \<Rightarrow> u16 \<Rightarrow> 'a option \<times> 'a list" where
  "split_key key rest k =
     (case rest of
        [] \<Rightarrow> (None, [])
      | x # xs \<Rightarrow> if DescendingSeqNumComp k (key x) then (None, rest) else (Some x, xs))"

definition store_find :: "('a \<Rightarrow> u16) \<Rightarrow> 'a list \<Rightarrow> u16 \<Rightarrow> 'a option option" where
  "store_find key xs k =
     do { (before, rest) \<leftarrow> lower_bound key xs k; Some (fst (split_key key rest k)) }"

definition store_erase :: "('a \<Rightarrow> u16) \<Rightarrow> 'a list \<Rightarrow> u16 \<Rightarrow> 'a list option" where
  "store_erase key xs k =
     do { (before, rest) \<leftarrow> lower_bound key xs k; Some (before @ snd (split_key key rest k)) }"

text \<open>\<open>insert\<close> keeps an element that is there; \<open>m[k] = x\<close> replaces it.\<close>

definition store_insert :: "('a \<Rightarrow> u16) \<Rightarrow> 'a list \<Rightarrow> 'a \<Rightarrow> 'a list option" where
  "store_insert key xs x =
     do { (before, rest) \<leftarrow> lower_bound key xs (key x);
          Some (case fst (split_key key rest (key x)) of
                  Some _ \<Rightarrow> xs | None \<Rightarrow> before @ x # rest) }"

definition store_assign :: "('a \<Rightarrow> u16) \<Rightarrow> 'a list \<Rightarrow> 'a \<Rightarrow> 'a list option" where
  "store_assign key xs x =
     do { (before, rest) \<leftarrow> lower_bound key xs (key x);
          Some (before @ x # snd (split_key key rest (key x))) }"

text \<open>\<open>erase(begin(), lower_bound(k))\<close>.\<close>

definition erase_below :: "('a \<Rightarrow> u16) \<Rightarrow> 'a list \<Rightarrow> u16 \<Rightarrow> 'a list option" where
  "erase_below key xs k = do { (before, rest) \<leftarrow> lower_bound key xs k; Some rest }"

subsection \<open>Keys in a window\<close>

definition pos :: "u16 \<Rightarrow> u16 \<Rightarrow> nat" where
  "pos w k = unat (k - w)"

definition windowed :: "('a \<Rightarrow> u16) \<Rightarrow> u16 \<Rightarrow> 'a list \<Rightarrow> bool" where
  "windowed key w xs \<longleftrightarrow>
     sorted_wrt (\<lambda>x y. pos w (key x) < pos w (key y)) xs \<and> (\<forall>x \<in> set xs. pos w (key x) < 32768)"

lemma windowed_Nil [simp]: "windowed key w []"
  by (simp add: windowed_def)

lemma windowed_Cons:
  "windowed key w (x # xs) \<longleftrightarrow>
     windowed key w xs \<and> pos w (key x) < 32768 \<and> (\<forall>y \<in> set xs. pos w (key x) < pos w (key y))"
  by (auto simp: windowed_def)

lemma windowed_append:
  "windowed key w (xs @ ys) \<longleftrightarrow> windowed key w xs \<and> windowed key w ys \<and>
     (\<forall>x \<in> set xs. \<forall>y \<in> set ys. pos w (key x) < pos w (key y))"
  by (auto simp: windowed_def sorted_wrt_append)

lemma windowed_filter: "windowed key w xs \<Longrightarrow> windowed key w (filter P xs)"
  by (auto simp: windowed_def sorted_wrt_filter)

lemma pos_eq_iff [simp]: "pos w a = pos w b \<longleftrightarrow> a = b"
  by (auto simp: pos_def dest!: unsigned_word_eqI)

lemma comp_window:
  assumes "pos w a < 32768" "pos w b < 32768"
  shows "DescendingSeqNumComp a b \<longleftrightarrow> pos w a < pos w b"
  using ahead_spec_window [of b w a] assms
  by (simp add: DescendingSeqNumComp_def AheadOf16_spec pos_def)

lemma sorted_takeWhile_filter:
  assumes "sorted_wrt (\<lambda>x y. f x < (f y :: nat)) xs"
  shows "takeWhile (\<lambda>x. f x < n) xs = filter (\<lambda>x. f x < n) xs \<and>
         dropWhile (\<lambda>x. f x < n) xs = filter (\<lambda>x. \<not> f x < n) xs"
  using assms
proof (induction xs)
  case (Cons x xs)
  show ?case
  proof (cases "f x < n")
    case False
    with Cons.prems have "\<forall>y \<in> set xs. \<not> f y < n" by fastforce
    then have "filter (\<lambda>y. f y < n) xs = []" "filter (\<lambda>y. \<not> f y < n) xs = xs"
      by (simp_all add: filter_empty_conv filter_id_conv)
    with False show ?thesis by simp
  qed (use Cons in simp)
qed simp

lemma lower_bound_window:
  assumes "windowed key w xs" "pos w k < 32768"
  shows "lower_bound key xs k =
    Some (filter (\<lambda>x. pos w (key x) < pos w k) xs, filter (\<lambda>x. \<not> pos w (key x) < pos w k) xs)"
proof -
  have c: "\<And>x. x \<in> set xs \<Longrightarrow> DescendingSeqNumComp (key x) k \<longleftrightarrow> pos w (key x) < pos w k"
    using assms by (simp add: windowed_def comp_window)
  have s: "sorted_wrt (\<lambda>x y. pos w (key x) < pos w (key y)) xs" using assms by (simp add: windowed_def)
  have "takeWhile (\<lambda>x. DescendingSeqNumComp (key x) k) xs = takeWhile (\<lambda>x. pos w (key x) < pos w k) xs"
    "dropWhile (\<lambda>x. DescendingSeqNumComp (key x) k) xs = dropWhile (\<lambda>x. pos w (key x) < pos w k) xs"
    using c by (auto intro: takeWhile_cong dropWhile_cong)
  then show ?thesis
    using sorted_takeWhile_filter [OF s, of "pos w k"] c
    by (simp add: lower_bound_def list_all_iff)
qed

lemma upper_bound_window:
  assumes "windowed key w xs" "pos w k < 32768"
  shows "upper_bound key xs k =
    Some (filter (\<lambda>x. pos w (key x) \<le> pos w k) xs, filter (\<lambda>x. pos w k < pos w (key x)) xs)"
proof -
  have c: "\<And>x. x \<in> set xs \<Longrightarrow> \<not> DescendingSeqNumComp k (key x) \<longleftrightarrow> pos w (key x) < Suc (pos w k)"
    using assms by (simp add: windowed_def comp_window) linarith
  have s: "sorted_wrt (\<lambda>x y. pos w (key x) < pos w (key y)) xs" using assms by (simp add: windowed_def)
  have "takeWhile (\<lambda>x. \<not> DescendingSeqNumComp k (key x)) xs = takeWhile (\<lambda>x. pos w (key x) < Suc (pos w k)) xs"
    "dropWhile (\<lambda>x. \<not> DescendingSeqNumComp k (key x)) xs = dropWhile (\<lambda>x. pos w (key x) < Suc (pos w k)) xs"
    using c by (auto intro: takeWhile_cong dropWhile_cong)
  moreover have "DescendingSeqNumComp k (key x)" if "x \<in> set xs" "pos w k < pos w (key x)" for x
    using c [OF that(1)] that(2) by auto
  ultimately show ?thesis using sorted_takeWhile_filter [OF s, of "Suc (pos w k)"]
    by (simp add: upper_bound_def list_all_iff less_Suc_eq_le not_le)
qed

lemma lower_bound_append: "lower_bound key xs k = Some (a, b) \<Longrightarrow> xs = a @ b"
  by (auto simp: lower_bound_def Let_def split: if_splits)

lemma upper_bound_append: "upper_bound key xs k = Some (a, b) \<Longrightarrow> xs = a @ b"
  by (auto simp: upper_bound_def Let_def split: if_splits)

lemma lower_bound_Nil [simp]: "lower_bound key [] k = Some ([], [])"
  by (simp add: lower_bound_def)

lemma erase_below_window:
  assumes "windowed key w xs" "pos w k < 32768"
  shows "erase_below key xs k = Some (filter (\<lambda>x. pos w k \<le> pos w (key x)) xs)"
  by (simp add: erase_below_def lower_bound_window [OF assms] not_less)

lemma erase_below_Nil [simp]: "erase_below key [] k = Some []"
  by (simp add: erase_below_def)

text \<open>What a search finds at the lower bound of \<open>k\<close>.\<close>

lemma split_key_window:
  assumes "windowed key w xs" "pos w k < 32768"
  defines "rest \<equiv> filter (\<lambda>x. \<not> pos w (key x) < pos w k) xs"
  shows "split_key key rest k =
    (find (\<lambda>x. key x = k) xs, filter (\<lambda>x. pos w k < pos w (key x)) xs)"
  using assms(1) unfolding rest_def
proof (induction xs)
  case Nil
  then show ?case by (simp add: split_key_def)
next
  case (Cons x xs)
  have x: "windowed key w xs" "pos w (key x) < 32768" "\<forall>y \<in> set xs. pos w (key x) < pos w (key y)"
    using Cons.prems by (simp_all add: windowed_Cons)
  have c: "DescendingSeqNumComp k (key x) \<longleftrightarrow> pos w k < pos w (key x)"
    using comp_window [OF assms(2) x(2)] .
  consider "pos w (key x) < pos w k" | "pos w (key x) = pos w k" | "pos w k < pos w (key x)" by linarith
  then show ?case
  proof cases
    case 1
    then have "key x \<noteq> k" by auto
    with 1 Cons.IH [OF x(1)] show ?thesis by simp
  next
    case 2
    then have k: "key x = k" by simp
    have "filter (\<lambda>y. \<not> pos w (key y) < pos w k) xs = xs" "filter (\<lambda>y. pos w k < pos w (key y)) xs = xs"
      using x(3) 2 by (auto simp: filter_id_conv)
    then show ?thesis using c k by (simp add: split_key_def)
  next
    case 3
    then have "filter (\<lambda>y. \<not> pos w (key y) < pos w k) xs = xs" "filter (\<lambda>y. pos w k < pos w (key y)) xs = xs"
      "\<forall>y \<in> set xs. key y \<noteq> k" "key x \<noteq> k"
      using x(3) by (auto simp: filter_id_conv)
    then show ?thesis using c 3 by (auto simp: split_key_def find_None_iff intro!: sym [of "find _ _"])
  qed
qed

lemma store_find_window:
  assumes "windowed key w xs" "pos w k < 32768"
  shows "store_find key xs k = Some (find (\<lambda>x. key x = k) xs)"
  by (simp add: store_find_def lower_bound_window [OF assms] split_key_window [OF assms])

lemma windowed_without:
  assumes "windowed key w xs"
  shows "filter (\<lambda>x. pos w (key x) < pos w k) xs @ filter (\<lambda>x. pos w k < pos w (key x)) xs =
    filter (\<lambda>x. key x \<noteq> k) xs"
  using assms
proof (induction xs)
  case (Cons x xs)
  show ?case
  proof (cases "pos w (key x) < pos w k")
    case True
    then have "key x \<noteq> k" by auto
    with True Cons show ?thesis by (simp add: windowed_Cons)
  next
    case False
    then have y: "\<forall>y \<in> set xs. pos w k < pos w (key y)" using Cons.prems by (fastforce simp: windowed_Cons)
    then have "filter (\<lambda>x. pos w (key x) < pos w k) xs = []" "filter (\<lambda>x. pos w k < pos w (key x)) xs = xs"
      "filter (\<lambda>x. key x \<noteq> k) xs = xs"
      by (auto simp: filter_empty_conv filter_id_conv)
    moreover have "pos w k < pos w (key x) \<longleftrightarrow> key x \<noteq> k"
      using False pos_eq_iff [of w "key x" k] by linarith
    ultimately show ?thesis using False by simp
  qed
qed simp

lemma store_erase_window:
  assumes "windowed key w xs" "pos w k < 32768"
  shows "store_erase key xs k = Some (filter (\<lambda>x. key x \<noteq> k) xs)"
  by (simp add: store_erase_def lower_bound_window [OF assms] split_key_window [OF assms]
      windowed_without [OF assms(1)])

lemma store_insert_window:
  assumes "windowed key w xs" "pos w (key x) < 32768"
  shows "\<exists>ys. store_insert key xs x = Some ys \<and> windowed key w ys \<and>
    set ys = (if \<exists>y \<in> set xs. key y = key x then set xs else insert x (set xs))"
proof (cases "\<exists>y \<in> set xs. key y = key x")
  case True
  then have "find (\<lambda>y. key y = key x) xs \<noteq> None" by (auto simp: find_None_iff)
  then show ?thesis using assms True
    by (auto simp: store_insert_def lower_bound_window [OF assms] split_key_window [OF assms])
next
  case False
  then have f: "find (\<lambda>y. key y = key x) xs = None" by (auto simp: find_None_iff)
  let ?a = "filter (\<lambda>y. pos w (key y) < pos w (key x)) xs"
    and ?b = "filter (\<lambda>y. \<not> pos w (key y) < pos w (key x)) xs"
  have "\<forall>y \<in> set ?b. pos w (key x) < pos w (key y)"
    using False by (auto simp: not_less order.order_iff_strict)
  then have "windowed key w (?a @ x # ?b)"
    using assms by (fastforce simp: windowed_append windowed_Cons intro: windowed_filter)
  moreover have "set (?a @ x # ?b) = insert x (set xs)" by auto
  ultimately show ?thesis using False
    by (simp add: store_insert_def lower_bound_window [OF assms] split_key_window [OF assms] f)
qed

text \<open>Assigning a key beyond all others appends.\<close>

lemma store_assign_last:
  assumes "windowed key w xs" "pos w (key x) < 32768" "\<forall>y \<in> set xs. pos w (key y) < pos w (key x)"
  shows "store_assign key xs x = Some (xs @ [x])" and "windowed key w (xs @ [x])"
proof -
  have "filter (\<lambda>y. pos w (key y) < pos w (key x)) xs = xs"
    "filter (\<lambda>y. pos w (key x) < pos w (key y)) xs = []"
    using assms(3) by (auto simp: filter_id_conv filter_empty_conv)
  then show "store_assign key xs x = Some (xs @ [x])"
    by (simp add: store_assign_def lower_bound_window [OF assms(1,2)] split_key_window [OF assms(1,2)])
  show "windowed key w (xs @ [x])" using assms by (simp add: windowed_append windowed_Cons)
qed

lemma store_insert_last:
  assumes "windowed key w xs" "pos w (key x) < 32768" "\<forall>y \<in> set xs. pos w (key y) < pos w (key x)"
  shows "store_insert key xs x = Some (xs @ [x])"
proof -
  have "filter (\<lambda>y. pos w (key y) < pos w (key x)) xs = xs" "filter (\<lambda>y. \<not> pos w (key y) < pos w (key x)) xs = []"
    using assms(3) by (auto simp: filter_id_conv filter_empty_conv)
  then show ?thesis
    by (simp add: store_insert_def lower_bound_window [OF assms(1,2)] split_key_def)
qed

lemma windowed_distinct: "windowed key w xs \<Longrightarrow> distinct (map key xs)"
  by (induction xs) (auto simp: windowed_Cons)

end
