(* ===== verification/Histogram.thy ===== *)
theory Histogram
  imports Rtc_Prelude
begin

text \<open>
  The reordering histogram of \<open>NackModule\<close>: class \<open>Histogram\<close> of
  \<open>src/src/myrtc/video/histogram.{h,cc}\<close>.

  \<open>values_.capacity()\<close> is what \<open>reserve\<close> made it, at least the requested number, and an argument of
  the constructor. The arithmetic of \<open>float\<close> is a parameter (\<open>float_ops\<close>): no lemma depends on how
  it rounds.
\<close>

record 'f float_ops =
  f_zero :: 'f
  f_one :: 'f
  f_less :: "'f \<Rightarrow> 'f \<Rightarrow> bool"
  f_le :: "'f \<Rightarrow> 'f \<Rightarrow> bool"
  f_add :: "'f \<Rightarrow> 'f \<Rightarrow> 'f"
  f_ratio :: "nat \<Rightarrow> nat \<Rightarrow> 'f"

record histogram =
  h_values :: "nat list"
  h_buckets :: "nat list"
  h_index :: nat
  h_capacity :: nat

definition Histogram_init :: "nat \<Rightarrow> nat \<Rightarrow> nat \<Rightarrow> histogram option" where
  "Histogram_init num_buckets max_num_values capacity =
     do { dcheck (num_buckets > 0);
          dcheck (max_num_values > 0);
          Some \<lparr>h_values = [], h_buckets = replicate num_buckets 0, h_index = 0,
                h_capacity = capacity\<rparr> }"

text \<open>\<open>--\<close> on a \<open>size_t\<close> wraps.\<close>

definition size_dec :: "nat \<Rightarrow> nat" where
  "size_dec n = (if n = 0 then 2 ^ 64 - 1 else n - 1)"

definition Histogram_Add :: "histogram \<Rightarrow> nat \<Rightarrow> histogram option" where
  "Histogram_Add h value =
     do { let value = min value (length (h_buckets h) - 1);
          h \<leftarrow> (if h_index h < length (h_values h) then do {
                  let old = h_values h ! h_index h;
                  dcheck (old < length (h_buckets h));
                  Some (h\<lparr>h_buckets := (h_buckets h)[old := size_dec (h_buckets h ! old)],
                          h_values := (h_values h)[h_index h := value]\<rparr>) }
                else Some (h\<lparr>h_values := h_values h @ [value]\<rparr>));
          dcheck (value < length (h_buckets h));
          dcheck (h_capacity h > 0);
          Some (h\<lparr>h_buckets := (h_buckets h)[value := h_buckets h ! value + 1],
                  h_index := (h_index h + 1) mod h_capacity h\<rparr>) }"

definition Histogram_NumValues :: "histogram \<Rightarrow> nat" where
  "Histogram_NumValues h = length (h_values h)"

function inverse_cdf_loop :: "'f float_ops \<Rightarrow> 'f \<Rightarrow> histogram \<Rightarrow> nat \<Rightarrow> 'f \<Rightarrow> nat" where
  "inverse_cdf_loop flt probability h bucket acc =
     (if f_less flt acc probability \<and> bucket < length (h_buckets h)
      then inverse_cdf_loop flt probability h (bucket + 1)
             (f_add flt acc (f_ratio flt (h_buckets h ! bucket) (length (h_values h))))
      else bucket)"
  by pat_completeness auto
termination
  by (relation "measure (\<lambda>(flt, p, h, b, acc). length (h_buckets h) - b)") auto

declare inverse_cdf_loop.simps [simp del]

definition InverseCdf :: "'f float_ops \<Rightarrow> histogram \<Rightarrow> 'f \<Rightarrow> nat option" where
  "InverseCdf flt h probability =
     do { dcheck (f_le flt (f_zero flt) probability);
          dcheck (f_le flt probability (f_one flt));
          dcheck (length (h_values h) > 0);
          Some (inverse_cdf_loop flt probability h 0 (f_zero flt)) }"

subsection \<open>The buckets count the values\<close>

definition histogram_ok :: "histogram \<Rightarrow> bool" where
  "histogram_ok h \<longleftrightarrow>
     0 < length (h_buckets h) \<and> 0 < h_capacity h \<and> length (h_values h) \<le> h_capacity h \<and>
     h_index h < h_capacity h \<and> (length (h_values h) < h_capacity h \<longrightarrow> h_index h = length (h_values h)) \<and>
     set (h_values h) \<subseteq> {..<length (h_buckets h)} \<and>
     (\<forall>b < length (h_buckets h). h_buckets h ! b = count_list (h_values h) b)"

lemma count_list_update:
  "i < length xs \<Longrightarrow> count_list (xs[i := v]) b + (if xs ! i = b then 1 else 0)
     = count_list xs b + (if v = b then 1 else 0)"
proof (induction xs arbitrary: i)
  case (Cons x xs)
  show ?case
  proof (cases i)
    case (Suc j)
    with Cons.prems Cons.IH [of j] show ?thesis by (auto split: if_splits)
  qed simp
qed simp

lemma Histogram_init_ok:
  "Histogram_init n m c = Some h \<Longrightarrow> m \<le> c \<Longrightarrow> histogram_ok h \<and> h_values h = []"
  by (auto simp: Histogram_init_def dcheck_bind_Some histogram_ok_def)

lemma Histogram_Add_append:
  assumes "histogram_ok h" "length (h_values h) < h_capacity h"
  shows "\<exists>h'. Histogram_Add h v = Some h' \<and> histogram_ok h' \<and>
    h_values h' = h_values h @ [min v (length (h_buckets h) - 1)] \<and>
    h_index h' = (h_index h + 1) mod h_capacity h \<and> h_capacity h' = h_capacity h \<and>
    length (h_buckets h') = length (h_buckets h)"
proof -
  let ?v = "min v (length (h_buckets h) - 1)"
  have v: "?v < length (h_buckets h)" using assms(1) unfolding histogram_ok_def by linarith
  have i: "h_index h = length (h_values h)" using assms by (simp add: histogram_ok_def)
  let ?h = "h\<lparr>h_values := h_values h @ [?v], h_buckets := (h_buckets h)[?v := h_buckets h ! ?v + 1],
    h_index := (h_index h + 1) mod h_capacity h\<rparr>"
  have e: "Histogram_Add h v = Some ?h" using v i assms by (simp add: Histogram_Add_def Let_def histogram_ok_def)
  have "(h_index h + 1) mod h_capacity h < h_capacity h" using assms by (simp add: histogram_ok_def)
  moreover have "length (h_values h) + 1 < h_capacity h \<longrightarrow> (h_index h + 1) mod h_capacity h = length (h_values h) + 1"
    using i by simp
  ultimately have "histogram_ok ?h" using assms v
    by (auto simp: histogram_ok_def nth_list_update)
  with e show ?thesis by (intro exI [of _ ?h]) simp
qed

lemma Histogram_Add_replace:
  assumes "histogram_ok h" "length (h_values h) = h_capacity h"
  shows "\<exists>h'. Histogram_Add h v = Some h' \<and> histogram_ok h' \<and>
    h_values h' = (h_values h)[h_index h := min v (length (h_buckets h) - 1)] \<and>
    h_index h' = (h_index h + 1) mod h_capacity h \<and> h_capacity h' = h_capacity h \<and>
    length (h_buckets h') = length (h_buckets h)"
proof -
  let ?v = "min v (length (h_buckets h) - 1)" and ?o = "h_values h ! h_index h"
  have v: "?v < length (h_buckets h)" using assms(1) unfolding histogram_ok_def by linarith
  have i: "h_index h < length (h_values h)" using assms by (simp add: histogram_ok_def)
  have "set (h_values h) \<subseteq> {..<length (h_buckets h)}" using assms(1) by (simp add: histogram_ok_def)
  from subsetD [OF this nth_mem [OF i]] have old: "?o < length (h_buckets h)" by simp
  have c: "h_buckets h ! ?o = count_list (h_values h) ?o" using assms old by (simp add: histogram_ok_def)
  have pos: "0 < count_list (h_values h) ?o" using nth_mem [OF i] count_list_0_iff [of "h_values h" ?o] by auto
  let ?bs = "(h_buckets h)[?o := h_buckets h ! ?o - 1]"
  let ?h = "h\<lparr>h_values := (h_values h)[h_index h := ?v], h_buckets := ?bs[?v := ?bs ! ?v + 1],
    h_index := (h_index h + 1) mod h_capacity h\<rparr>"
  have e: "Histogram_Add h v = Some ?h"
    using v i old c pos assms by (simp add: Histogram_Add_def Let_def size_dec_def histogram_ok_def)
  have "?bs[?v := ?bs ! ?v + 1] ! b = count_list ((h_values h)[h_index h := ?v]) b"
    if "b < length (h_buckets h)" for b
  proof -
    have "h_buckets h ! b = count_list (h_values h) b" using assms that by (simp add: histogram_ok_def)
    then show ?thesis using count_list_update [OF i, of ?v b] v old that c pos
      by (auto simp: nth_list_update split: if_splits)
  qed
  moreover have "set ((h_values h)[h_index h := ?v]) \<subseteq> {..<length (h_buckets h)}"
    using set_update_subset_insert [of "h_values h" "h_index h" ?v] assms(1) v by (auto simp: histogram_ok_def)
  ultimately have "histogram_ok ?h" using assms by (simp add: histogram_ok_def)
  with e show ?thesis by (intro exI [of _ ?h]) simp
qed

lemma inverse_cdf_loop_le:
  "bucket \<le> length (h_buckets h) \<Longrightarrow> inverse_cdf_loop flt p h bucket acc \<le> length (h_buckets h)"
proof (induction flt p h bucket acc rule: inverse_cdf_loop.induct)
  case (1 flt p h bucket acc)
  then show ?case by (subst inverse_cdf_loop.simps) auto
qed

subsection \<open>The values by age\<close>

text \<open>The values from the oldest to the newest: \<open>index_\<close> is the slot that is written next.\<close>

definition by_age :: "histogram \<Rightarrow> nat list" where
  "by_age h = rotate (h_index h) (h_values h)"

text \<open>A queue of at most \<open>capacity\<close> values, the oldest first.\<close>

definition push_latest :: "nat \<Rightarrow> 'a list \<Rightarrow> 'a \<Rightarrow> 'a list" where
  "push_latest capacity vs v = (if length vs < capacity then vs @ [v] else tl vs @ [v])"

lemma by_age_room: "histogram_ok h \<Longrightarrow> length (h_values h) < h_capacity h \<Longrightarrow> by_age h = h_values h"
  by (simp add: by_age_def histogram_ok_def)

lemma rotate_replace:
  assumes "i < length xs"
  shows "rotate ((i + 1) mod length xs) (xs[i := v]) = tl (rotate i xs) @ [v]"
proof -
  have x: "xs = take i xs @ xs ! i # drop (Suc i) xs" using id_take_nth_drop [OF assms] .
  have l: "length (take i xs) = i" using assms by simp
  have "rotate i xs = xs ! i # drop (Suc i) xs @ take i xs"
    using rotate_append [of "take i xs" "xs ! i # drop (Suc i) xs"] x l by simp
  moreover have "xs[i := v] = (take i xs @ [v]) @ drop (Suc i) xs" using upd_conv_take_nth_drop [OF assms, of v] by simp
  then have "rotate (i + 1) (xs[i := v]) = drop (Suc i) xs @ take i xs @ [v]"
    using rotate_append [of "take i xs @ [v]" "drop (Suc i) xs"] l by simp
  moreover have "rotate ((i + 1) mod length xs) (xs[i := v]) = rotate (i + 1) (xs[i := v])"
    using rotate_conv_mod [of "i + 1" "xs[i := v]"] by simp
  ultimately show ?thesis by simp
qed

lemma count_list_rotate: "count_list (rotate n xs) b = count_list xs b"
proof -
  let ?k = "n mod length xs"
  have "count_list (take ?k xs @ drop ?k xs) b = count_list (rotate n xs) b"
    by (simp only: rotate_drop_take count_list_append add.commute)
  then show ?thesis by simp
qed

subsection \<open>Properties\<close>

text \<open>C33: \<open>Add\<close> implements a queue of the last \<open>capacity\<close> values. It is defined on every well-formed
  histogram; the value, capped at the last bucket, becomes the newest one, and the oldest one leaves
  when the store is full. The bucket counts, decremented and incremented in place, stay exact.\<close>

theorem histogram_add_counts:
  assumes "histogram_ok h"
  shows "\<exists>h'. Histogram_Add h v = Some h' \<and> histogram_ok h' \<and>
    by_age h' = push_latest (h_capacity h) (by_age h) (min v (length (h_buckets h) - 1)) \<and>
    h_capacity h' = h_capacity h \<and> length (h_buckets h') = length (h_buckets h) \<and>
    (\<forall>b < length (h_buckets h). h_buckets h' ! b = count_list (by_age h') b)"
proof -
  let ?v = "min v (length (h_buckets h) - 1)"
  have count: "h_buckets x ! b = count_list (by_age x) b" if "histogram_ok x" "b < length (h_buckets x)" for x b
    using that by (simp add: histogram_ok_def by_age_def count_list_rotate)
  show ?thesis
  proof (cases "length (h_values h) < h_capacity h")
    case True
    obtain h' where h: "Histogram_Add h v = Some h'" "histogram_ok h'" "h_values h' = h_values h @ [?v]"
      "h_index h' = (h_index h + 1) mod h_capacity h" "h_capacity h' = h_capacity h"
      "length (h_buckets h') = length (h_buckets h)" using Histogram_Add_append [OF assms True, of v] by blast
    have i: "h_index h = length (h_values h)" using assms True by (simp add: histogram_ok_def)
    have "by_age h' = h_values h @ [?v]"
    proof (cases "length (h_values h) + 1 < h_capacity h")
      case room: True
      then show ?thesis using by_age_room [OF h(2)] h(3,5) by simp
    next
      case False
      then have "h_capacity h = length (h_values h) + 1" using True by simp
      then show ?thesis using h(3,4) i by (simp add: by_age_def)
    qed
    then show ?thesis using h count [OF h(2)] by_age_room [OF assms True] True by (simp add: push_latest_def)
  next
    case False
    then have full: "length (h_values h) = h_capacity h" using assms by (simp add: histogram_ok_def)
    obtain h' where h: "Histogram_Add h v = Some h'" "histogram_ok h'" "h_values h' = (h_values h)[h_index h := ?v]"
      "h_index h' = (h_index h + 1) mod h_capacity h" "h_capacity h' = h_capacity h"
      "length (h_buckets h') = length (h_buckets h)" using Histogram_Add_replace [OF assms full, of v] by blast
    have "h_index h < length (h_values h)" using assms full by (simp add: histogram_ok_def)
    from rotate_replace [OF this, of ?v] have "by_age h' = tl (by_age h) @ [?v]" using h(3,4) full by (simp add: by_age_def)
    then show ?thesis using h count [OF h(2)] full by (simp add: push_latest_def by_age_def)
  qed
qed

theorem histogram_add_counts_witness:
  "\<exists>h'. Histogram_Add \<lparr>h_values = [1, 0], h_buckets = [1, 1], h_index = 1, h_capacity = 2\<rparr> 7 = Some h' \<and>
     by_age h' = [1, 1]"
proof -
  have ok: "histogram_ok \<lparr>h_values = [1, 0], h_buckets = [1, 1], h_index = 1, h_capacity = 2\<rparr>"
    by (auto simp: histogram_ok_def less_Suc_eq numeral_2_eq_2)
  from histogram_add_counts [OF ok, of 7] show ?thesis by (auto simp: by_age_def push_latest_def)
qed

end
