(* ===== verification/Nack_Module.thy ===== *)
theory Nack_Module
  imports Seq_Store Histogram "HOL-Library.Signed_Division" "HOL-Library.Code_Target_Nat"
begin

text \<open>
  Which packets to ask the sender for again: class \<open>NackModule\<close> of
  \<open>src/src/myrtc/video/nack_module.{h,cc}\<close>.

  The clock is a parameter: the n-th call of \<open>TimeInMilliseconds\<close> returns \<open>env_clock env n\<close>, and the
  state counts the calls. The calls of \<open>NackSender\<close> and \<open>KeyFrameRequestSender\<close> are recorded in
  \<open>nm_events\<close>. Times are \<open>int64_t\<close> milliseconds of one clock and are integers here. The lock around
  every operation makes it atomic.
\<close>

subsection \<open>The class\<close>

definition kMaxPacketAge :: u16 where "kMaxPacketAge = 10000"
definition kMaxNackPackets :: nat where "kMaxNackPackets = 1000"
definition kDefaultRttMs :: int where "kDefaultRttMs = 100"
definition kMaxNackRetries :: nat where "kMaxNackRetries = 10"
definition kProcessFrequency :: int where "kProcessFrequency = 50"
definition kProcessIntervalMs :: int where "kProcessIntervalMs = 1000 sdiv kProcessFrequency"
definition kMaxReorderedPackets :: nat where "kMaxReorderedPackets = 128"
definition kNumReorderingBuckets :: nat where "kNumReorderingBuckets = 10"
definition kDefaultSendNackDelayMs :: int where "kDefaultSendNackDelayMs = 0"

text \<open>The argument is the number in the field trial string, zero when it has none.\<close>

definition GetSendNackDelay :: "int \<Rightarrow> int" where
  "GetSendNackDelay delay_ms =
     (if delay_ms > 0 \<and> delay_ms \<le> 20 then delay_ms else kDefaultSendNackDelayMs)"

datatype nack_filter_options = kSeqNumOnly | kTimeOnly | kSeqNumAndTime

record nack_info =
  ni_seq_num :: u16
  send_at_seq_num :: u16
  created_at_time :: int
  sent_at_time :: int
  retries :: nat

definition NackInfo :: "u16 \<Rightarrow> u16 \<Rightarrow> int \<Rightarrow> nack_info" where
  "NackInfo seq_num send_at created =
     \<lparr>ni_seq_num = seq_num, send_at_seq_num = send_at, created_at_time = created,
      sent_at_time = -1, retries = 0\<rparr>"

datatype nack_event = SendNack "u16 list" bool | RequestKeyFrame

record 'f nack_env =
  env_clock :: "nat \<Rightarrow> int"
  env_float :: "'f float_ops"
  env_half :: 'f

record nack_module =
  nack_list :: "(u16 \<times> nack_info) list"
  keyframe_list :: "u16 list"
  recovered_list :: "u16 list"
  reordering_histogram :: histogram
  nm_initialized :: bool
  rtt_ms :: int
  newest_seq_num :: u16
  next_process_time_ms :: int
  send_nack_delay_ms :: int
  nm_clock_calls :: nat
  nm_events :: "nack_event list"

definition NackModule_init :: "int \<Rightarrow> nat \<Rightarrow> nack_module option" where
  "NackModule_init trial capacity =
     do { h \<leftarrow> Histogram_init kNumReorderingBuckets kMaxReorderedPackets capacity;
          Some \<lparr>nack_list = [], keyframe_list = [], recovered_list = [], reordering_histogram = h,
            nm_initialized = False, rtt_ms = kDefaultRttMs, newest_seq_num = 0,
            next_process_time_ms = -1, send_nack_delay_ms = GetSendNackDelay trial,
            nm_clock_calls = 0, nm_events = []\<rparr> }"

definition TimeInMilliseconds :: "'f nack_env \<Rightarrow> nack_module \<Rightarrow> nack_module \<times> int" where
  "TimeInMilliseconds env m =
     (m\<lparr>nm_clock_calls := nm_clock_calls m + 1\<rparr>, env_clock env (nm_clock_calls m))"

definition emit :: "nack_event \<Rightarrow> nack_module \<Rightarrow> nack_module" where
  "emit e m = m\<lparr>nm_events := nm_events m @ [e]\<rparr>"

definition UpdateReorderingStatistics :: "nack_module \<Rightarrow> u16 \<Rightarrow> nack_module option" where
  "UpdateReorderingStatistics m seq_num =
     do { dcheck (AheadOf16 (newest_seq_num m) seq_num);
          let diff = ReverseDiff (newest_seq_num m) seq_num;
          h \<leftarrow> Histogram_Add (reordering_histogram m) (unat diff);
          Some (m\<lparr>reordering_histogram := h\<rparr>) }"

definition WaitNumberOfPackets :: "'f nack_env \<Rightarrow> nack_module \<Rightarrow> 'f \<Rightarrow> nat option" where
  "WaitNumberOfPackets env m probability =
     (if Histogram_NumValues (reordering_histogram m) = 0 then Some 0
      else InverseCdf (env_float env) (reordering_histogram m) probability)"

text \<open>The loop of \<open>RemovePacketsUntilKeyFrame\<close> over the key frames.\<close>

fun remove_until_keyframe ::
  "(u16 \<times> nack_info) list \<Rightarrow> u16 list \<Rightarrow> ((u16 \<times> nack_info) list \<times> u16 list \<times> bool) option" where
  "remove_until_keyframe nacks [] = Some (nacks, [], False)"
| "remove_until_keyframe nacks (k # ks) =
     do { (before, rest) \<leftarrow> lower_bound fst nacks k;
          if before \<noteq> [] then Some (rest, k # ks, True) else remove_until_keyframe nacks ks }"

definition RemovePacketsUntilKeyFrame :: "nack_module \<Rightarrow> (nack_module \<times> bool) option" where
  "RemovePacketsUntilKeyFrame m =
     do { (nacks, keys, removed) \<leftarrow> remove_until_keyframe (nack_list m) (keyframe_list m);
          Some (m\<lparr>nack_list := nacks, keyframe_list := keys\<rparr>, removed) }"

lemma remove_until_keyframe_shrinks:
  "remove_until_keyframe nacks ks = Some (nacks', ks', True) \<Longrightarrow> length nacks' < length nacks"
  by (induction nacks ks rule: remove_until_keyframe.induct)
    (auto simp: bind_eq_Some_conv dest: lower_bound_append split: if_splits)

lemma RemovePacketsUntilKeyFrame_shrinks:
  "RemovePacketsUntilKeyFrame m = Some (m', True) \<Longrightarrow> length (nack_list m') < length (nack_list m)"
  by (auto simp: RemovePacketsUntilKeyFrame_def bind_eq_Some_conv dest: remove_until_keyframe_shrinks)

text \<open>The loop \<open>while (RemovePacketsUntilKeyFrame() && ...)\<close>.\<close>

function make_room :: "nack_module \<Rightarrow> nat \<Rightarrow> nack_module option" where
  "make_room m num_new_nacks =
     (case RemovePacketsUntilKeyFrame m of
        None \<Rightarrow> None
      | Some (m', removed) \<Rightarrow>
          if removed \<and> length (nack_list m') + num_new_nacks > kMaxNackPackets
          then make_room m' num_new_nacks else Some m')"
  by pat_completeness auto
termination
  by (relation "measure (\<lambda>(m, n). length (nack_list m))") (auto dest: RemovePacketsUntilKeyFrame_shrinks)

declare make_room.simps [simp del]

text \<open>The loop that enters the missing packets.\<close>

definition add_one_nack :: "'f nack_env \<Rightarrow> nack_module \<Rightarrow> u16 \<Rightarrow> nack_module option" where
  "add_one_nack env m seq_num =
     do { recovered \<leftarrow> store_find id (recovered_list m) seq_num;
          if recovered \<noteq> None then Some m
          else do {
            wait \<leftarrow> WaitNumberOfPackets env m (env_half env);
            let (m, now) = TimeInMilliseconds env m;
            let info = NackInfo seq_num (seq_num + of_nat wait) now;
            old \<leftarrow> store_find fst (nack_list m) seq_num;
            dcheck (old = None);
            nacks \<leftarrow> store_assign fst (nack_list m) (seq_num, info);
            Some (m\<lparr>nack_list := nacks\<rparr>) } }"

function add_nacks :: "'f nack_env \<Rightarrow> nack_module \<Rightarrow> u16 \<Rightarrow> u16 \<Rightarrow> nack_module option" where
  "add_nacks env m seq_num seq_num_end =
     (if seq_num = seq_num_end then Some m
      else case add_one_nack env m seq_num of
             None \<Rightarrow> None
           | Some m' \<Rightarrow> add_nacks env m' (seq_num + 1) seq_num_end)"
  by pat_completeness auto
termination
proof (relation "measure (\<lambda>(env, m, n, s). unat (s - n))", simp, goal_cases)
  case (1 env m n s m')
  then have "0 < unat (s - n)" by (simp add: unat_gt_0)
  moreover from this have "unat (s - (n + 1)) = unat (s - n) - 1"
    unfolding diff_diff_add [symmetric] using unat_sub_if' [of "s - n" 1] by simp
  ultimately show ?case by simp
qed

declare add_nacks.simps [simp del]

definition AddPacketsToNack :: "'f nack_env \<Rightarrow> nack_module \<Rightarrow> u16 \<Rightarrow> u16 \<Rightarrow> nack_module option" where
  "AddPacketsToNack env m seq_num_start seq_num_end =
     do { nacks \<leftarrow> erase_below fst (nack_list m) (seq_num_end - kMaxPacketAge);
          let m = m\<lparr>nack_list := nacks\<rparr>;
          let num_new_nacks = unat (ForwardDiff seq_num_start seq_num_end);
          m \<leftarrow> (if length (nack_list m) + num_new_nacks > kMaxNackPackets
                then make_room m num_new_nacks else Some m);
          if length (nack_list m) + num_new_nacks > kMaxNackPackets
          then Some (emit RequestKeyFrame (m\<lparr>nack_list := []\<rparr>))
          else add_nacks env m seq_num_start seq_num_end }"

text \<open>Whether \<open>GetNackBatch\<close> asks for a packet now, and its loop.\<close>

definition nack_due :: "nack_filter_options \<Rightarrow> int \<Rightarrow> nack_module \<Rightarrow> nack_info \<Rightarrow> bool" where
  "nack_due options now_ms m info =
     (let consider_seq_num = (options \<noteq> kTimeOnly);
          consider_timestamp = (options \<noteq> kSeqNumOnly);
          delay_timed_out = (now_ms - created_at_time info \<ge> send_nack_delay_ms m);
          nack_on_rtt_passed = (now_ms - sent_at_time info \<ge> rtt_ms m);
          nack_on_seq_num_passed = (sent_at_time info = -1 \<and>
            AheadOrAt16 (newest_seq_num m) (send_at_seq_num info))
      in delay_timed_out \<and> (consider_seq_num \<and> nack_on_seq_num_passed \<or>
                             consider_timestamp \<and> nack_on_rtt_passed))"

fun batch_loop ::
  "nack_filter_options \<Rightarrow> int \<Rightarrow> nack_module \<Rightarrow> (u16 \<times> nack_info) list \<Rightarrow> (u16 \<times> nack_info) list \<times> u16 list" where
  "batch_loop options now_ms m [] = ([], [])"
| "batch_loop options now_ms m ((k, info) # nacks) =
     (let (rest, batch) = batch_loop options now_ms m nacks
      in if nack_due options now_ms m info then
           (let info' = info\<lparr>retries := retries info + 1, sent_at_time := now_ms\<rparr>
            in (if retries info' \<ge> kMaxNackRetries then rest else (k, info') # rest,
                ni_seq_num info # batch))
         else ((k, info) # rest, batch))"

definition GetNackBatch ::
  "'f nack_env \<Rightarrow> nack_module \<Rightarrow> nack_filter_options \<Rightarrow> nack_module \<times> u16 list" where
  "GetNackBatch env m options =
     (let (m, now_ms) = TimeInMilliseconds env m;
          (nacks, batch) = batch_loop options now_ms m (nack_list m)
      in (m\<lparr>nack_list := nacks\<rparr>, batch))"

definition send_batch :: "bool \<Rightarrow> nack_module \<times> u16 list \<Rightarrow> nack_module" where
  "send_batch buffering_allowed p =
     (if snd p \<noteq> [] then emit (SendNack (snd p) buffering_allowed) (fst p) else fst p)"

definition insert_if :: "bool \<Rightarrow> u16 list \<Rightarrow> u16 \<Rightarrow> u16 list option" where
  "insert_if c xs k = (if c then store_insert id xs k else Some xs)"

definition NackModule_OnReceivedPacket ::
  "'f nack_env \<Rightarrow> nack_module \<Rightarrow> u16 \<Rightarrow> bool \<Rightarrow> bool \<Rightarrow> (nack_module \<times> nat) option" where
  "NackModule_OnReceivedPacket env m seq_num is_keyframe is_recovered =
     (let is_retransmitted = True
      in if \<not> nm_initialized m then do {
           keys \<leftarrow> insert_if is_keyframe (keyframe_list m) seq_num;
           Some (m\<lparr>newest_seq_num := seq_num, keyframe_list := keys, nm_initialized := True\<rparr>, 0) }
         else if seq_num = newest_seq_num m then Some (m, 0)
         else if AheadOf16 (newest_seq_num m) seq_num then do {
           found \<leftarrow> store_find fst (nack_list m) seq_num;
           (m, n) \<leftarrow> (case found of
             None \<Rightarrow> Some (m, 0)
           | Some (k, info) \<Rightarrow> do {
               nacks \<leftarrow> store_erase fst (nack_list m) seq_num;
               Some (m\<lparr>nack_list := nacks\<rparr>, retries info) });
           m \<leftarrow> (if \<not> is_retransmitted then UpdateReorderingStatistics m seq_num else Some m);
           Some (m, n) }
         else do {
           keys \<leftarrow> insert_if is_keyframe (keyframe_list m) seq_num;
           keys \<leftarrow> erase_below id keys (seq_num - kMaxPacketAge);
           let m = m\<lparr>keyframe_list := keys\<rparr>;
           if is_recovered then do {
             recs \<leftarrow> store_insert id (recovered_list m) seq_num;
             recs \<leftarrow> erase_below id recs (seq_num - kMaxPacketAge);
             Some (m\<lparr>recovered_list := recs\<rparr>, 0) }
           else do {
             m \<leftarrow> AddPacketsToNack env m (newest_seq_num m + 1) seq_num;
             let m = m\<lparr>newest_seq_num := seq_num\<rparr>;
             Some (send_batch True (GetNackBatch env m kSeqNumOnly), 0) } })"

definition NackModule_OnReceivedPacket2 ::
  "'f nack_env \<Rightarrow> nack_module \<Rightarrow> u16 \<Rightarrow> bool \<Rightarrow> (nack_module \<times> nat) option" where
  "NackModule_OnReceivedPacket2 env m seq_num is_keyframe =
     NackModule_OnReceivedPacket env m seq_num is_keyframe False"

definition NackModule_ClearUpTo :: "nack_module \<Rightarrow> u16 \<Rightarrow> nack_module option" where
  "NackModule_ClearUpTo m seq_num =
     do { nacks \<leftarrow> erase_below fst (nack_list m) seq_num;
          keys \<leftarrow> erase_below id (keyframe_list m) seq_num;
          recs \<leftarrow> erase_below id (recovered_list m) seq_num;
          Some (m\<lparr>nack_list := nacks, keyframe_list := keys, recovered_list := recs\<rparr>) }"

definition NackModule_UpdateRtt :: "nack_module \<Rightarrow> int \<Rightarrow> nack_module" where
  "NackModule_UpdateRtt m rtt = m\<lparr>rtt_ms := rtt\<rparr>"

definition NackModule_Clear :: "nack_module \<Rightarrow> nack_module" where
  "NackModule_Clear m = m\<lparr>nack_list := [], keyframe_list := [], recovered_list := []\<rparr>"

definition TimeUntilNextProcess :: "'f nack_env \<Rightarrow> nack_module \<Rightarrow> nack_module \<times> int" where
  "TimeUntilNextProcess env m =
     (let (m, now) = TimeInMilliseconds env m in (m, max (next_process_time_ms m - now) 0))"

definition next_process_time :: "int \<Rightarrow> int \<Rightarrow> int" where
  "next_process_time next now_ms =
     (if next = -1 then now_ms + kProcessIntervalMs
      else next + kProcessIntervalMs +
           (now_ms - next) sdiv kProcessIntervalMs * kProcessIntervalMs)"

text \<open>The constructor checks \<open>nack_sender_\<close>, which is constant, so it is never null.\<close>

definition NackModule_Process :: "'f nack_env \<Rightarrow> nack_module \<Rightarrow> nack_module" where
  "NackModule_Process env m =
     (let m = send_batch False (GetNackBatch env m kTimeOnly);
          (m, now_ms) = TimeInMilliseconds env m
      in m\<lparr>next_process_time_ms := next_process_time (next_process_time_ms m) now_ms\<rparr>)"

end
