(* ===== verification/Nack_Lemmas.thy ===== *)
theory Nack_Lemmas
  imports Nack_Module
begin

text \<open>
  Lemmas on \<open>NackModule\<close>: positions of sequence numbers in a window that moves with the newest
  packet, the loops of the class in closed form, and the class invariant \<open>nm_ok\<close>.
\<close>

subsection \<open>Moving the window\<close>

lemma pos_less: "pos w k < 65536"
proof -
  have "unat (k - w) < 2 ^ LENGTH(16)" by (rule unsigned_less)
  then show ?thesis by (simp add: pos_def)
qed

lemma pos_self [simp]: "pos w w = 0"
  by (simp add: pos_def)

lemma pos_shift: "pos w v \<le> pos w k \<Longrightarrow> pos v k = pos w k - pos w v"
proof -
  assume a: "pos w v \<le> pos w k"
  have "k - v = (k - w) - (v - w)" by simp
  then show ?thesis using a unat_sub_if' [of "k - w" "v - w"] by (simp add: pos_def)
qed

lemma pos_back: "pos v w + pos w k < 65536 \<Longrightarrow> pos v k = pos v w + pos w k"
proof -
  assume a: "pos v w + pos w k < 65536"
  have "k - v = (w - v) + (k - w)" by simp
  then show ?thesis using a unat_add_lem [of "w - v" "k - w"] by (simp add: pos_def)
qed

lemma windowed_rebase:
  assumes "windowed key w xs" "\<forall>x \<in> set xs. pos v (key x) + a = pos w (key x) + b \<and> pos v (key x) < 32768"
  shows "windowed key v xs"
  using assms
proof (induction xs)
  case (Cons x xs)
  then have "windowed key v xs" by (simp add: windowed_Cons)
  moreover have "pos v (key x) < pos v (key y)" if "y \<in> set xs" for y
  proof -
    have "pos w (key x) < pos w (key y)" using Cons.prems(1) that by (simp add: windowed_Cons)
    moreover have "pos v (key x) + a = pos w (key x) + b" "pos v (key y) + a = pos w (key y) + b"
      using Cons.prems(2) that by auto
    ultimately show ?thesis by linarith
  qed
  ultimately show ?case using Cons.prems(2) by (simp add: windowed_Cons)
qed simp

lemma windowed_forward:
  assumes "windowed key w xs" "\<forall>x \<in> set xs. pos w v \<le> pos w (key x)"
  shows "windowed key v xs"
proof (rule windowed_rebase [OF assms(1), of v "pos w v" 0])
  show "\<forall>x \<in> set xs. pos v (key x) + pos w v = pos w (key x) + 0 \<and> pos v (key x) < 32768"
  proof
    fix x assume x: "x \<in> set xs"
    then have "pos w v \<le> pos w (key x)" "pos w (key x) < 32768" using assms by (auto simp: windowed_def)
    then show "pos v (key x) + pos w v = pos w (key x) + 0 \<and> pos v (key x) < 32768"
      using pos_shift [of w v "key x"] by simp
  qed
qed

text \<open>A key in both windows is not below the later one.\<close>

lemma pos_both:
  assumes "pos w v < 32768" "pos w k < 32768" "pos v k < 32768"
  shows "pos w v \<le> pos w k"
proof (rule ccontr)
  assume n: "\<not> ?thesis"
  then have "pos k v = pos w v - pos w k" by (intro pos_shift) simp
  moreover have "pos k v \<noteq> 0" using n calculation by simp
  moreover have "v \<noteq> k" using n by auto
  then have "pos v k = 65536 - pos k v" using unat_minus_diff [of v k] by (simp add: pos_def)
  ultimately show False using assms by linarith
qed

lemma windowed_drop: "windowed key w xs \<Longrightarrow> windowed key w (drop n xs)"
  by (metis append_take_drop_id windowed_append)

text \<open>A number behind \<open>n\<close> lies in a window together with all the keys behind \<open>n\<close>.\<close>

lemma window_behind:
  assumes "windowed key w xs" "\<forall>x \<in> set xs. pos w (key x) < pos w n" "pos w n < 32768" "pos s n \<le> 32768"
  shows "\<exists>v. windowed key v xs \<and> pos v s < 32768"
proof (cases "pos w s \<le> pos w n")
  case True
  with assms(1,3) show ?thesis by (intro exI [of _ w]) simp
next
  case False
  then have ne: "n \<noteq> s" "w \<noteq> s" by auto
  have "pos n s = pos w s - pos w n" using False by (intro pos_shift) simp
  then have n: "pos s n = 65536 - (pos w s - pos w n)" using unat_minus_diff [of s n] ne by (simp add: pos_def)
  have w: "pos s w = 65536 - pos w s" using unat_minus_diff [of s w] ne by (simp add: pos_def)
  have "pos s (key x) + 0 = pos w (key x) + pos s w \<and> pos s (key x) < 32768" if "x \<in> set xs" for x
  proof -
    have "pos w (key x) < pos w n" using assms(2) that by simp
    then show ?thesis using pos_back [of s w "key x"] w n False assms(4) pos_less [of w s] by linarith
  qed
  then have "windowed key s xs" using windowed_rebase [OF assms(1)] by blast
  then show ?thesis by (intro exI [of _ s]) simp
qed

lemma not_ahead_pos: "\<not> AheadOf16 s n \<Longrightarrow> pos s n \<le> 32768"
  using ahead_spec_total [of s n]
  by (cases "s = n") (auto simp: AheadOf16_spec ahead_spec_def pos_def)

subsection \<open>Runs of sequence numbers\<close>

fun seq_range :: "u16 \<Rightarrow> nat \<Rightarrow> u16 list" where
  "seq_range s 0 = []"
| "seq_range s (Suc n) = s # seq_range (s + 1) n"

lemma length_seq_range [simp]: "length (seq_range s n) = n"
  by (induction n arbitrary: s) auto

lemma pos_Suc: "pos w s < 65535 \<Longrightarrow> pos w (s + 1) = pos w s + 1"
proof -
  assume "pos w s < 65535"
  then show ?thesis using pos_back [of w s "s + 1"] by (simp add: pos_def)
qed

lemma seq_range_pos:
  "k \<in> set (seq_range s n) \<Longrightarrow> pos w s + n \<le> 65536 \<Longrightarrow> pos w s \<le> pos w k \<and> pos w k < pos w s + n"
proof (induction n arbitrary: s)
  case (Suc n)
  show ?case
  proof (cases "k = s")
    case False
    with Suc.prems have k: "k \<in> set (seq_range (s + 1) n)" by simp
    then have "0 < n" by (cases n) auto
    with Suc.prems(2) have "pos w (s + 1) = pos w s + 1" by (intro pos_Suc) linarith
    with Suc.IH [OF k] Suc.prems(2) show ?thesis by simp
  qed simp
qed simp

subsection \<open>Entering missing packets\<close>

lemma WaitNumberOfPackets_empty:
  "h_values (reordering_histogram m) = [] \<Longrightarrow> WaitNumberOfPackets env m p = Some 0"
  by (simp add: WaitNumberOfPackets_def Histogram_NumValues_def)

definition fresh :: "'f nack_env \<Rightarrow> nat \<Rightarrow> nat \<Rightarrow> u16 \<times> nack_info \<Rightarrow> bool" where
  "fresh env i0 i1 e \<longleftrightarrow>
     (\<exists>j. i0 \<le> j \<and> j < i1 \<and> snd e = NackInfo (fst e) (fst e) (env_clock env j))"

lemma fresh_mono: "fresh env i j e \<Longrightarrow> i' \<le> i \<Longrightarrow> fresh env i' j e"
  unfolding fresh_def by (meson order_trans)

lemma add_one_nack_spec:
  assumes "windowed fst w (nack_list m)" "windowed id w (recovered_list m)" "pos w s < 32768"
    and "\<forall>e \<in> set (nack_list m). pos w (fst e) < pos w s" "h_values (reordering_histogram m) = []"
  shows "add_one_nack env m s = Some (if s \<in> set (recovered_list m) then m
    else m\<lparr>nm_clock_calls := nm_clock_calls m + 1,
           nack_list := nack_list m @ [(s, NackInfo s s (env_clock env (nm_clock_calls m)))]\<rparr>)"
proof (cases "s \<in> set (recovered_list m)")
  case True
  then have "find (\<lambda>x. x = s) (recovered_list m) \<noteq> None" by (auto simp: find_None_iff)
  with True show ?thesis by (simp add: add_one_nack_def store_find_window [OF assms(2,3)])
next
  case False
  then have r: "find (\<lambda>x. x = s) (recovered_list m) = None" by (auto simp: find_None_iff)
  have n: "find (\<lambda>x. fst x = s) (nack_list m) = None" using assms(4) by (auto simp: find_None_iff)
  let ?e = "(s, NackInfo s s (env_clock env (nm_clock_calls m)))"
  have "store_assign fst (nack_list m) ?e = Some (nack_list m @ [?e])"
    using assms by (intro store_assign_last) auto
  then show ?thesis using False
    by (simp add: add_one_nack_def store_find_window [OF assms(2,3)] store_find_window [OF assms(1,3)]
        r n TimeInMilliseconds_def WaitNumberOfPackets_empty [OF assms(5)])
qed

lemma add_nacks_spec:
  assumes "windowed fst w (nack_list m)" "windowed id w (recovered_list m)" "pos w s + n \<le> 32768"
    and "\<forall>e \<in> set (nack_list m). pos w (fst e) < pos w s" "h_values (reordering_histogram m) = []"
    and "unat (e - s) = n"
  shows "\<exists>new calls. add_nacks env m s e =
      Some (m\<lparr>nm_clock_calls := calls, nack_list := nack_list m @ new\<rparr>) \<and>
    windowed fst w (nack_list m @ new) \<and> nm_clock_calls m \<le> calls \<and>
    map fst new = filter (\<lambda>k. k \<notin> set (recovered_list m)) (seq_range s n) \<and>
    (\<forall>x \<in> set new. fresh env (nm_clock_calls m) calls x)"
  using assms
proof (induction n arbitrary: m s)
  case 0
  then have "s = e" by (simp add: unat_eq_zero)
  then show ?case using 0 by (intro exI [of _ "[]"] exI [of _ "nm_clock_calls m"]) (simp add: add_nacks.simps)
next
  case (Suc n)
  let ?m = "if s \<in> set (recovered_list m) then m
    else m\<lparr>nm_clock_calls := nm_clock_calls m + 1,
           nack_list := nack_list m @ [(s, NackInfo s s (env_clock env (nm_clock_calls m)))]\<rparr>"
  let ?d = "if s \<in> set (recovered_list m) then []
    else [(s, NackInfo s s (env_clock env (nm_clock_calls m)))]"
  have p: "pos w s < 32768" using Suc.prems(3) by simp
  have one: "add_one_nack env m s = Some ?m" by (rule add_one_nack_spec [OF Suc.prems(1,2) p Suc.prems(4,5)])
  have s: "s \<noteq> e" using Suc.prems(6) by auto
  have ps: "pos w (s + 1) = pos w s + 1" using p by (intro pos_Suc) simp
  have ne: "unat (e - (s + 1)) = n"
    unfolding diff_diff_add [symmetric] using unat_sub_if' [of "e - s" 1] Suc.prems(6) by simp
  have f: "nack_list ?m = nack_list m @ ?d" "recovered_list ?m = recovered_list m"
    "reordering_histogram ?m = reordering_histogram m" "nm_clock_calls m \<le> nm_clock_calls ?m"
    "s \<notin> set (recovered_list m) \<longrightarrow> nm_clock_calls ?m = nm_clock_calls m + 1"
    by simp_all
  have wd: "windowed fst w (nack_list ?m)"
    using Suc.prems(1,4) p by (auto simp: windowed_append windowed_Cons)
  have lt: "\<forall>x \<in> set (nack_list ?m). pos w (fst x) < pos w (s + 1)"
    using Suc.prems(4) ps by (auto simp: less_Suc_eq)
  obtain new calls where IH: "add_nacks env ?m (s + 1) e =
      Some (?m\<lparr>nm_clock_calls := calls, nack_list := nack_list ?m @ new\<rparr>)"
    "windowed fst w (nack_list ?m @ new)" "nm_clock_calls ?m \<le> calls"
    "map fst new = filter (\<lambda>k. k \<notin> set (recovered_list ?m)) (seq_range (s + 1) n)"
    "\<forall>x \<in> set new. fresh env (nm_clock_calls ?m) calls x"
    using Suc.IH [OF wd _ _ lt _ ne] Suc.prems(2,3,5) ps f(2,3) by auto
  have "add_nacks env m s e = Some (m\<lparr>nm_clock_calls := calls, nack_list := nack_list m @ ?d @ new\<rparr>)"
    using IH(1) s one by (simp add: add_nacks.simps [of env m s e])
  moreover have "\<forall>x \<in> set (?d @ new). fresh env (nm_clock_calls m) calls x"
  proof
    fix x assume "x \<in> set (?d @ new)"
    then consider "s \<notin> set (recovered_list m)" "x = (s, NackInfo s s (env_clock env (nm_clock_calls m)))"
      | "x \<in> set new" by (auto split: if_splits)
    then show "fresh env (nm_clock_calls m) calls x"
    proof cases
      case 1
      then show ?thesis using f(5) IH(3) by (auto simp: fresh_def)
    qed (use IH(5) f(4) fresh_mono in blast)
  qed
  ultimately show ?case using IH f(4)
    by (intro exI [of _ "?d @ new"] exI [of _ calls]) (auto split: if_splits)
qed

subsection \<open>Making room\<close>

lemma remove_until_keyframe_spec:
  assumes "windowed fst w nacks" "\<forall>k \<in> set ks. pos w k < 32768"
  shows "\<exists>i j r. remove_until_keyframe nacks ks = Some (drop i nacks, drop j ks, r)"
  using assms(2)
proof (induction ks)
  case Nil
  show ?case by (rule exI [of _ 0], rule exI [of _ 0], rule exI [of _ False]) simp
next
  case (Cons k ks)
  then obtain a b where l: "lower_bound fst nacks k = Some (a, b)"
    using lower_bound_window [OF assms(1), of k] by simp
  show ?case
  proof (cases "a = []")
    case True
    obtain i j r where "remove_until_keyframe nacks ks = Some (drop i nacks, drop j ks, r)"
      using Cons by auto
    note * = this l True
    show ?thesis by (rule exI [of _ i], rule exI [of _ "Suc j"], rule exI [of _ r]) (use * in simp)
  next
    case False
    have "b = drop (length a) nacks" using lower_bound_append [OF l] by simp
    note * = this l False
    show ?thesis by (rule exI [of _ "length a"], rule exI [of _ 0], rule exI [of _ True]) (use * in simp)
  qed
qed

lemma make_room_spec:
  assumes "windowed fst w (nack_list m)" "windowed id w (keyframe_list m)"
  shows "\<exists>i j. make_room m n =
    Some (m\<lparr>nack_list := drop i (nack_list m), keyframe_list := drop j (keyframe_list m)\<rparr>)"
  using assms
proof (induction m n rule: make_room.induct)
  case (1 m n)
  have "\<forall>k \<in> set (keyframe_list m). pos w k < 32768" using 1(3) by (simp add: windowed_def)
  then obtain i j r where e: "remove_until_keyframe (nack_list m) (keyframe_list m) =
      Some (drop i (nack_list m), drop j (keyframe_list m), r)"
    using remove_until_keyframe_spec [OF 1(2)] by blast
  let ?m = "m\<lparr>nack_list := drop i (nack_list m), keyframe_list := drop j (keyframe_list m)\<rparr>"
  have R: "RemovePacketsUntilKeyFrame m = Some (?m, r)" by (simp add: RemovePacketsUntilKeyFrame_def e)
  show ?case
  proof (cases "r \<and> length (nack_list ?m) + n > kMaxNackPackets")
    case True
    obtain i' j' where "make_room ?m n = Some (?m\<lparr>nack_list := drop i' (nack_list ?m),
        keyframe_list := drop j' (keyframe_list ?m)\<rparr>)"
      using 1(1) [OF R refl True] 1(2,3) by (auto intro: windowed_drop)
    note * = this True R
    show ?thesis
      by (rule exI [of _ "i' + i"], rule exI [of _ "j' + j"]) (use * in \<open>simp add: make_room.simps [of m n]\<close>)
  next
    case False
    note * = this R
    show ?thesis
      by (rule exI [of _ i], rule exI [of _ j]) (use * in \<open>auto simp: make_room.simps [of m n]\<close>)
  qed
qed

subsection \<open>Batches\<close>

definition touch :: "nack_filter_options \<Rightarrow> int \<Rightarrow> nack_module \<Rightarrow> nack_info \<Rightarrow> nack_info" where
  "touch options now m info =
     (if nack_due options now m info then info\<lparr>retries := retries info + 1, sent_at_time := now\<rparr> else info)"

lemma batch_loop_eq:
  "batch_loop options now m nacks =
     (map (\<lambda>(k, i). (k, touch options now m i))
        (filter (\<lambda>(k, i). \<not> (nack_due options now m i \<and> retries i + 1 \<ge> kMaxNackRetries)) nacks),
      map (\<lambda>(k, i). ni_seq_num i) (filter (\<lambda>(k, i). nack_due options now m i) nacks))"
  by (induction options now m nacks rule: batch_loop.induct) (auto simp: touch_def)

subsection \<open>The invariant\<close>

definition win :: "nack_module \<Rightarrow> u16" where
  "win m = newest_seq_num m - kMaxPacketAge"

text \<open>An entry of the list that is at most \<open>kMaxPacketAge\<close> behind the newest packet.\<close>

definition entry_ok :: "u16 \<Rightarrow> u16 \<times> nack_info \<Rightarrow> bool" where
  "entry_ok w e \<longleftrightarrow> pos w (fst e) < 10000 \<and> ni_seq_num (snd e) = fst e \<and>
     send_at_seq_num (snd e) = fst e \<and> retries (snd e) < kMaxNackRetries"

definition nm_ok :: "nack_module \<Rightarrow> bool" where
  "nm_ok m \<longleftrightarrow> h_values (reordering_histogram m) = [] \<and>
     windowed fst (win m) (nack_list m) \<and> windowed id (win m) (keyframe_list m) \<and>
     windowed id (win m) (recovered_list m) \<and>
     (\<forall>e \<in> set (nack_list m). entry_ok (win m) e) \<and> length (nack_list m) \<le> kMaxNackPackets \<and>
     (\<not> nm_initialized m \<longrightarrow> nack_list m = [] \<and> keyframe_list m = [] \<and> recovered_list m = [])"

lemma pos_win_newest: "pos (win m) (newest_seq_num m) = 10000"
  by (simp add: pos_def win_def kMaxPacketAge_def)

lemma pos_win_old: "pos (win m) (s - kMaxPacketAge) = pos (newest_seq_num m) s"
  by (simp add: pos_def win_def)

lemma pos_win_ahead:
  assumes "pos (newest_seq_num m) s \<le> 22767"
  shows "pos (win m) s = 10000 + pos (newest_seq_num m) s"
  using pos_back [of "win m" "newest_seq_num m" s] assms by (simp add: pos_win_newest)

definition added :: "'f nack_env \<Rightarrow> nack_module \<Rightarrow> u16 \<Rightarrow> nat \<Rightarrow> (u16 \<times> nack_info) list \<Rightarrow> bool" where
  "added env m s calls new \<longleftrightarrow>
     map fst new = filter (\<lambda>k. k \<notin> set (recovered_list m))
       (seq_range (newest_seq_num m + 1) (pos (newest_seq_num m) s - 1)) \<and>
     (\<forall>x \<in> set new. fresh env (nm_clock_calls m) calls x)"

lemma added_entry:
  assumes "added env m s calls new" "e \<in> set new" "pos (newest_seq_num m) s \<le> 22767"
  shows "10000 < pos (win m) (fst e) \<and> pos (win m) (fst e) < 10000 + pos (newest_seq_num m) s \<and>
    ni_seq_num (snd e) = fst e \<and> send_at_seq_num (snd e) = fst e \<and> retries (snd e) = 0"
proof -
  let ?d = "pos (newest_seq_num m) s"
  have "fst e \<in> set (map fst new)" using assms(2) by simp
  then have k: "fst e \<in> set (seq_range (newest_seq_num m + 1) (?d - 1))"
    using assms(1) by (auto simp: added_def simp del: set_map)
  have n: "pos (win m) (newest_seq_num m + 1) = 10001"
    using pos_Suc [of "win m" "newest_seq_num m"] by (simp add: pos_win_newest)
  have "0 < ?d - 1" using k by (cases "?d - 1") auto
  then show ?thesis using seq_range_pos [OF k, of "win m"] assms n
    by (auto simp: added_def fresh_def NackInfo_def)
qed

text \<open>What is left of the list once old packets are removed and room is made.\<close>

lemma nack_room:
  assumes ok: "nm_ok m" and d: "pos (newest_seq_num m) s \<le> 22767"
  defines "old \<equiv> filter (\<lambda>e. pos (newest_seq_num m) s \<le> pos (win m) (fst e)) (nack_list m)"
  shows "erase_below fst (nack_list m) (s - kMaxPacketAge) = Some old" and
    "\<exists>i j. (if length old + n > kMaxNackPackets then make_room (m\<lparr>nack_list := old\<rparr>) n
             else Some (m\<lparr>nack_list := old\<rparr>)) =
       Some (m\<lparr>nack_list := drop i old, keyframe_list := drop j (keyframe_list m)\<rparr>)"
proof -
  have W: "windowed fst (win m) (nack_list m)" "windowed id (win m) (keyframe_list m)"
    using ok by (simp_all add: nm_ok_def)
  show "erase_below fst (nack_list m) (s - kMaxPacketAge) = Some old"
    using erase_below_window [OF W(1), of "s - kMaxPacketAge"] d by (simp add: pos_win_old old_def)
  have "windowed fst (win m) old" unfolding old_def by (rule windowed_filter [OF W(1)])
  then obtain i j where "make_room (m\<lparr>nack_list := old\<rparr>) n =
      Some (m\<lparr>nack_list := drop i old, keyframe_list := drop j (keyframe_list m)\<rparr>)"
    using make_room_spec [of "win m" "m\<lparr>nack_list := old\<rparr>" n] W(2) by auto
  moreover have "m\<lparr>nack_list := old\<rparr> = m\<lparr>nack_list := drop 0 old, keyframe_list := drop 0 (keyframe_list m)\<rparr>"
    by simp
  ultimately show "\<exists>i j. (if length old + n > kMaxNackPackets then make_room (m\<lparr>nack_list := old\<rparr>) n
             else Some (m\<lparr>nack_list := old\<rparr>)) =
       Some (m\<lparr>nack_list := drop i old, keyframe_list := drop j (keyframe_list m)\<rparr>)"
    by (cases "length old + n > kMaxNackPackets") metis+
qed

lemma add_missing:
  assumes ok: "nm_ok m" and d: "0 < pos (newest_seq_num m) s" "pos (newest_seq_num m) s \<le> 22767"
    and m': "nack_list m' = drop i (filter P (nack_list m))" "recovered_list m' = recovered_list m"
      "reordering_histogram m' = reordering_histogram m" "nm_clock_calls m' = nm_clock_calls m"
  shows "\<exists>new calls. add_nacks env m' (newest_seq_num m + 1) s =
      Some (m'\<lparr>nm_clock_calls := calls, nack_list := nack_list m' @ new\<rparr>) \<and>
    windowed fst (win m) (nack_list m' @ new) \<and> nm_clock_calls m \<le> calls \<and> added env m s calls new"
proof -
  let ?n = "newest_seq_num m"
  have p: "pos (win m) (?n + 1) = 10001"
    using pos_Suc [of "win m" ?n] by (simp add: pos_win_newest)
  have "windowed fst (win m) (nack_list m')" "windowed id (win m) (recovered_list m')"
    using ok m' by (simp_all add: nm_ok_def windowed_drop windowed_filter)
  moreover have "pos (win m) (?n + 1) + (pos ?n s - 1) \<le> 32768" using p d by simp
  moreover have "\<forall>e \<in> set (nack_list m'). pos (win m) (fst e) < pos (win m) (?n + 1)"
  proof
    fix e assume "e \<in> set (nack_list m')"
    then have "e \<in> set (nack_list m)" using m'(1) by (auto dest: in_set_dropD)
    then have "pos (win m) (fst e) < 10000" using ok by (simp add: nm_ok_def entry_ok_def)
    then show "pos (win m) (fst e) < pos (win m) (?n + 1)" using p by simp
  qed
  moreover have "h_values (reordering_histogram m') = []" using ok m'(3) by (simp add: nm_ok_def)
  moreover have "unat (s - (?n + 1)) = pos ?n s - 1"
    unfolding diff_diff_add [symmetric] using unat_sub_if' [of "s - ?n" 1] d by (simp add: pos_def)
  ultimately show ?thesis
    using add_nacks_spec [of "win m" m' "?n + 1" "pos ?n s - 1" s env] m'(2,4) unfolding added_def by simp
qed

definition nack_outcome ::
  "'f nack_env \<Rightarrow> nack_module \<Rightarrow> u16 \<Rightarrow> (u16 \<times> nack_info) list \<Rightarrow> nat \<Rightarrow> nack_event list \<Rightarrow> bool" where
  "nack_outcome env m s ns calls evs \<longleftrightarrow>
     nm_clock_calls m \<le> calls \<and> windowed fst (win m) ns \<and> length ns \<le> kMaxNackPackets \<and>
     (ns = [] \<and> evs = nm_events m @ [RequestKeyFrame] \<or>
      evs = nm_events m \<and> pos (newest_seq_num m) s \<le> 1001 \<and>
      (\<exists>i new. ns = drop i (filter (\<lambda>e. pos (newest_seq_num m) s \<le> pos (win m) (fst e)) (nack_list m)) @ new \<and>
         added env m s calls new))"

lemma AddPacketsToNack_run:
  assumes "erase_below fst (nack_list m) (s - kMaxPacketAge) = Some old" "unat (ForwardDiff a s) = n"
    and "(if length old + n > kMaxNackPackets then make_room (m\<lparr>nack_list := old\<rparr>) n
          else Some (m\<lparr>nack_list := old\<rparr>)) = Some m'"
  shows "AddPacketsToNack env m a s =
    (if length (nack_list m') + n > kMaxNackPackets then Some (emit RequestKeyFrame (m'\<lparr>nack_list := []\<rparr>))
     else add_nacks env m' a s)"
  using assms(3) by (auto simp: AddPacketsToNack_def assms(1,2) Let_def split: if_splits)

lemma AddPacketsToNack_spec:
  assumes ok: "nm_ok m" and d: "0 < pos (newest_seq_num m) s" "pos (newest_seq_num m) s \<le> 22767"
  shows "\<exists>ns j calls evs. AddPacketsToNack env m (newest_seq_num m + 1) s =
      Some (m\<lparr>nack_list := ns, keyframe_list := drop j (keyframe_list m), nm_clock_calls := calls,
             nm_events := evs\<rparr>) \<and> nack_outcome env m s ns calls evs"
proof -
  let ?n = "newest_seq_num m" and ?d = "pos (newest_seq_num m) s - 1"
  let ?old = "filter (\<lambda>e. pos ?n s \<le> pos (win m) (fst e)) (nack_list m)"
  have D: "unat (ForwardDiff (?n + 1) s) = ?d" unfolding ForwardDiff_def
    diff_diff_add [symmetric] using unat_sub_if' [of "s - ?n" 1] d by (simp add: pos_def)
  obtain i j where room: "(if length ?old + ?d > kMaxNackPackets then make_room (m\<lparr>nack_list := ?old\<rparr>) ?d
      else Some (m\<lparr>nack_list := ?old\<rparr>)) =
      Some (m\<lparr>nack_list := drop i ?old, keyframe_list := drop j (keyframe_list m)\<rparr>)"
    using nack_room(2) [OF ok d(2)] by blast
  let ?m = "m\<lparr>nack_list := drop i ?old, keyframe_list := drop j (keyframe_list m)\<rparr>"
  have A: "AddPacketsToNack env m (?n + 1) s =
      (if length (drop i ?old) + ?d > kMaxNackPackets then Some (emit RequestKeyFrame (?m\<lparr>nack_list := []\<rparr>))
       else add_nacks env ?m (?n + 1) s)"
    using AddPacketsToNack_run [OF nack_room(1) [OF ok d(2)] D room, of env] by simp
  show ?thesis
  proof (cases "length (drop i ?old) + ?d > kMaxNackPackets")
    case True
    then show ?thesis using A
      by (intro exI [of _ "[]"] exI [of _ j] exI [of _ "nm_clock_calls m"] exI [of _ "nm_events m @ [RequestKeyFrame]"])
        (simp add: emit_def nack_outcome_def)
  next
    case False
    obtain new calls where N: "add_nacks env ?m (?n + 1) s =
        Some (?m\<lparr>nm_clock_calls := calls, nack_list := nack_list ?m @ new\<rparr>)"
      "windowed fst (win m) (nack_list ?m @ new)" "nm_clock_calls m \<le> calls" "added env m s calls new"
    proof -
      have "\<exists>new calls. add_nacks env ?m (?n + 1) s =
          Some (?m\<lparr>nm_clock_calls := calls, nack_list := nack_list ?m @ new\<rparr>) \<and>
        windowed fst (win m) (nack_list ?m @ new) \<and> nm_clock_calls m \<le> calls \<and> added env m s calls new"
        by (rule add_missing [OF ok d, of ?m i "\<lambda>e. pos ?n s \<le> pos (win m) (fst e)"]) simp_all
      then show thesis by (elim exE conjE) (rule that)
    qed
    have "length (map fst new) \<le> ?d" using N(4) length_filter_le [of _ "seq_range (?n + 1) ?d"]
      by (simp add: added_def del: length_map)
    then have "length (drop i ?old @ new) \<le> kMaxNackPackets" "pos ?n s \<le> 1001"
      using False by (simp_all add: kMaxNackPackets_def)
    with N have "nack_outcome env m s (drop i ?old @ new) calls (nm_events m)"
      unfolding nack_outcome_def by auto
    moreover have "AddPacketsToNack env m (?n + 1) s = Some (m\<lparr>nack_list := drop i ?old @ new,
        keyframe_list := drop j (keyframe_list m), nm_clock_calls := calls, nm_events := nm_events m\<rparr>)"
      using A False N(1) by simp
    ultimately show ?thesis by (intro exI conjI)
  qed
qed

end
