(* ===== verification/Nack_Invariant.thy ===== *)
theory Nack_Invariant
  imports Nack_Lemmas
begin

text \<open>
  \<open>NackModule\<close> as a state machine: the operations as steps (\<open>nack_op\<close>, \<open>nack_apply\<close>), the states
  they reach from the constructor (\<open>nack_reach\<close>), and what holds in all of them.

  The window in which the ordered containers work bounds what the callers may do (\<open>op_ok\<close>): a packet
  may be at most 22767 = 32767 - \<open>kMaxPacketAge\<close> ahead of the newest one, \<open>ClearUpTo\<close> may be called
  with a number in the same range, and no entry of \<open>recovered_list_\<close> may have become older than
  \<open>kMaxPacketAge\<close>.
\<close>

subsection \<open>Every operation keeps the invariant\<close>

lemma outcome_ok:
  assumes "nm_ok m" "pos (newest_seq_num m) s \<le> 22767" "nack_outcome env m s ns calls evs"
  shows "windowed fst (s - kMaxPacketAge) ns \<and> (\<forall>e \<in> set ns. entry_ok (s - kMaxPacketAge) e)"
proof -
  let ?d = "pos (newest_seq_num m) s" and ?w = "win m" and ?v = "s - kMaxPacketAge"
  have v: "pos ?w ?v = ?d" by (rule pos_win_old)
  have e: "?d \<le> pos ?w (fst e) \<and> pos ?w (fst e) < 10000 + ?d \<and> ni_seq_num (snd e) = fst e \<and>
      send_at_seq_num (snd e) = fst e \<and> retries (snd e) < kMaxNackRetries" if ens: "e \<in> set ns" for e
  proof -
    have "ns \<noteq> []" using ens by auto
    with assms(3) obtain i new where n: "?d \<le> 1001" "added env m s calls new"
      "ns = drop i (filter (\<lambda>e. ?d \<le> pos ?w (fst e)) (nack_list m)) @ new"
      unfolding nack_outcome_def by blast
    consider "e \<in> set new" | "e \<in> set (nack_list m)" "?d \<le> pos ?w (fst e)"
      using ens n(3) by (auto dest: in_set_dropD)
    then show ?thesis
    proof cases
      case 1
      from added_entry [OF n(2) 1 assms(2)] n(1) show ?thesis by (simp add: kMaxNackRetries_def)
    next
      case 2
      then show ?thesis using assms(1) by (auto simp: nm_ok_def entry_ok_def)
    qed
  qed
  have "windowed fst ?w ns" using assms(3) by (simp add: nack_outcome_def)
  then have "windowed fst ?v ns" by (rule windowed_forward) (simp add: v e)
  moreover have "entry_ok ?v x" if "x \<in> set ns" for x
    using e [OF that] pos_shift [of ?w ?v "fst x"] v by (auto simp: entry_ok_def)
  ultimately show ?thesis by blast
qed

lemma insert_erase_keys:
  assumes "windowed id w xs" "pos w s < 32768" "pos w v < 32768"
  shows "\<exists>ys zs. insert_if c xs s = Some ys \<and> erase_below id ys v = Some zs \<and> windowed id w zs \<and>
    (\<forall>k \<in> set zs. pos w v \<le> pos w k)"
proof -
  obtain ys where y: "insert_if c xs s = Some ys" "windowed id w ys"
  proof (cases c)
    case True
    from store_insert_window [of id w xs s] assms(1,2) obtain ys
      where "store_insert id xs s = Some ys" "windowed id w ys" by auto
    with True show thesis by (intro that [of ys]) (simp_all add: insert_if_def)
  qed (use that assms(1) in \<open>simp add: insert_if_def\<close>)
  show ?thesis using y erase_below_window [OF y(2) assms(3)] by (auto intro: windowed_filter)
qed

lemma GetNackBatch_ok:
  assumes "nm_ok m"
  shows "nm_ok (fst (GetNackBatch env m opt))"
proof -
  let ?c = "env_clock env (nm_clock_calls m)" and ?m = "m\<lparr>nm_clock_calls := nm_clock_calls m + 1\<rparr>"
  let ?keep = "filter (\<lambda>(k, i). \<not> (nack_due opt ?c ?m i \<and> retries i + 1 \<ge> kMaxNackRetries)) (nack_list m)"
  let ?ns = "map (\<lambda>(k, i). (k, touch opt ?c ?m i)) ?keep"
  have f: "fst (GetNackBatch env m opt) = ?m\<lparr>nack_list := ?ns\<rparr>"
    by (simp add: GetNackBatch_def TimeInMilliseconds_def batch_loop_eq)
  have "windowed fst (win m) ?keep" using assms by (simp add: nm_ok_def windowed_filter)
  then have "windowed fst (win m) ?ns"
    by (simp add: windowed_def sorted_wrt_map case_prod_unfold)
  moreover have "\<forall>e \<in> set ?ns. entry_ok (win m) e"
    using assms by (auto simp: nm_ok_def entry_ok_def touch_def)
  moreover have "length ?ns \<le> kMaxNackPackets"
    unfolding length_map using assms by (intro order_trans [OF length_filter_le]) (simp add: nm_ok_def)
  ultimately show ?thesis using assms unfolding f by (simp add: nm_ok_def win_def)
qed

lemma send_batch_ok: "nm_ok (fst p) \<Longrightarrow> nm_ok (send_batch b p)"
  by (simp add: send_batch_def emit_def nm_ok_def win_def)

lemma Process_ok: "nm_ok m \<Longrightarrow> nm_ok (NackModule_Process env m)"
  using send_batch_ok [OF GetNackBatch_ok [of m env kTimeOnly], of False]
  by (simp add: NackModule_Process_def TimeInMilliseconds_def nm_ok_def win_def Let_def)

definition packet_ok :: "nack_module \<Rightarrow> u16 \<Rightarrow> bool \<Rightarrow> bool" where
  "packet_ok m s is_recovered \<longleftrightarrow>
     nm_initialized m \<longrightarrow> AheadOf16 (newest_seq_num m) s \<or>
       pos (newest_seq_num m) s \<le> 22767 \<and>
       (is_recovered \<or> (\<forall>k \<in> set (recovered_list m). pos (s - kMaxPacketAge) k < 32768))"

lemma receive_first:
  assumes "nm_ok m" "\<not> nm_initialized m"
  shows "\<exists>m'. NackModule_OnReceivedPacket env m s kf rec = Some (m', 0) \<and> nm_ok m'"
proof -
  have "pos (s - kMaxPacketAge) s < 32768" by (simp add: pos_def kMaxPacketAge_def)
  then show ?thesis using assms
    by (auto simp: NackModule_OnReceivedPacket_def insert_if_def store_insert_def split_key_def
        nm_ok_def win_def windowed_Cons)
qed

text \<open>A packet behind the newest one lies in a window together with the whole list.\<close>

lemma behind_window:
  assumes "nm_ok m" "AheadOf16 (newest_seq_num m) s"
  shows "\<exists>v. windowed fst v (nack_list m) \<and> pos v s < 32768"
proof -
  let ?n = "newest_seq_num m"
  have "windowed fst (win m) (nack_list m)" "\<forall>e \<in> set (nack_list m). pos (win m) (fst e) < pos (win m) ?n"
    using assms(1) by (auto simp: nm_ok_def entry_ok_def pos_win_newest)
  moreover have "pos s ?n \<le> 32768" using assms(2) by (auto simp: AheadOf16_spec ahead_spec_def pos_def)
  ultimately show ?thesis using window_behind [of fst "win m" "nack_list m" ?n s] by (simp add: pos_win_newest)
qed

lemma nm_ok_shorter:
  assumes "nm_ok m" "windowed fst (win m) ns" "set ns \<subseteq> set (nack_list m)" "length ns \<le> length (nack_list m)"
    and "windowed id (win m) ks" "windowed id (win m) rs"
    and "\<not> nm_initialized m \<longrightarrow> ks = [] \<and> rs = []"
  shows "nm_ok (m\<lparr>nack_list := ns, keyframe_list := ks, recovered_list := rs\<rparr>)"
  using assms by (auto simp: nm_ok_def win_def)


lemma receive_behind:
  assumes "nm_ok m" "nm_initialized m" "AheadOf16 (newest_seq_num m) s"
  shows "NackModule_OnReceivedPacket env m s kf rec =
      Some (m\<lparr>nack_list := filter (\<lambda>e. fst e \<noteq> s) (nack_list m)\<rparr>,
        case find (\<lambda>e. fst e = s) (nack_list m) of None \<Rightarrow> 0 | Some e \<Rightarrow> retries (snd e))"
    and "nm_ok (m\<lparr>nack_list := filter (\<lambda>e. fst e \<noteq> s) (nack_list m)\<rparr>)"
proof -
  obtain v where v: "windowed fst v (nack_list m)" "pos v s < 32768"
    using behind_window [OF assms(1,3)] by blast
  have s: "s \<noteq> newest_seq_num m" using assms(3) by (auto simp: AheadOf16_def)
  have n: "find (\<lambda>e. fst e = s) (nack_list m) = None \<Longrightarrow> filter (\<lambda>e. fst e \<noteq> s) (nack_list m) = nack_list m"
    by (auto simp: find_None_iff filter_id_conv)
  show "NackModule_OnReceivedPacket env m s kf rec =
      Some (m\<lparr>nack_list := filter (\<lambda>e. fst e \<noteq> s) (nack_list m)\<rparr>,
        case find (\<lambda>e. fst e = s) (nack_list m) of None \<Rightarrow> 0 | Some e \<Rightarrow> retries (snd e))"
    using assms s n by (simp add: NackModule_OnReceivedPacket_def store_find_window [OF v]
        store_erase_window [OF v] split: option.split)
  have "length (filter (\<lambda>e. fst e \<noteq> s) (nack_list m)) \<le> kMaxNackPackets"
    using assms(1) by (intro order_trans [OF length_filter_le]) (simp add: nm_ok_def)
  then show "nm_ok (m\<lparr>nack_list := filter (\<lambda>e. fst e \<noteq> s) (nack_list m)\<rparr>)"
    using assms by (auto simp: nm_ok_def win_def windowed_filter)
qed

lemma receive_recovered:
  assumes "nm_ok m" "nm_initialized m" "s \<noteq> newest_seq_num m" "\<not> AheadOf16 (newest_seq_num m) s"
    and "pos (newest_seq_num m) s \<le> 22767"
  shows "\<exists>m'. NackModule_OnReceivedPacket env m s kf True = Some (m', 0) \<and> nm_ok m'"
proof -
  let ?w = "win m" and ?v = "s - kMaxPacketAge"
  have W: "windowed id ?w (keyframe_list m)" "windowed id ?w (recovered_list m)"
    "pos ?w s < 32768" "pos ?w ?v < 32768"
    using assms pos_win_ahead [OF assms(5)] by (simp_all add: nm_ok_def pos_win_old)
  obtain ys zs where k: "insert_if kf (keyframe_list m) s = Some ys" "erase_below id ys ?v = Some zs"
    "windowed id ?w zs" using insert_erase_keys [OF W(1,3,4)] by blast
  obtain rs us where r: "insert_if True (recovered_list m) s = Some rs" "erase_below id rs ?v = Some us"
    "windowed id ?w us" using insert_erase_keys [OF W(2,3,4)] by blast
  show ?thesis using assms k r
    by (simp add: NackModule_OnReceivedPacket_def insert_if_def nm_ok_def win_def)
qed

text \<open>The module after a new packet, before it sends its batch.\<close>

definition after_packet ::
  "nack_module \<Rightarrow> u16 \<Rightarrow> (u16 \<times> nack_info) list \<Rightarrow> u16 list \<Rightarrow> nat \<Rightarrow> nack_event list \<Rightarrow> nack_module" where
  "after_packet m s ns ks calls evs =
     m\<lparr>nack_list := ns, keyframe_list := ks, nm_clock_calls := calls, nm_events := evs, newest_seq_num := s\<rparr>"

lemma receive_new:
  assumes "nm_ok m" "nm_initialized m" "s \<noteq> newest_seq_num m" "\<not> AheadOf16 (newest_seq_num m) s"
    and "packet_ok m s False"
  shows "\<exists>ns ks calls evs. nack_outcome env m s ns calls evs \<and> nm_ok (after_packet m s ns ks calls evs) \<and>
    NackModule_OnReceivedPacket env m s kf False =
      Some (send_batch True (GetNackBatch env (after_packet m s ns ks calls evs) kSeqNumOnly), 0)"
proof -
  let ?w = "win m" and ?v = "s - kMaxPacketAge" and ?n = "newest_seq_num m"
  have g: "pos ?n s \<le> 22767" "\<forall>k \<in> set (recovered_list m). pos ?v k < 32768"
    using assms by (auto simp: packet_ok_def)
  have d: "0 < pos ?n s" using assms(3) pos_eq_iff [of ?n s ?n] by (metis pos_self gr0I)
  have W: "windowed id ?w (keyframe_list m)" "windowed id ?w (recovered_list m)"
    "pos ?w s < 32768" "pos ?w ?v < 32768"
    using assms pos_win_ahead [OF g(1)] g(1) by (simp_all add: nm_ok_def pos_win_old)
  obtain ys zs where k: "insert_if kf (keyframe_list m) s = Some ys" "erase_below id ys ?v = Some zs"
    "windowed id ?w zs" "\<forall>k \<in> set zs. pos ?w ?v \<le> pos ?w k"
    using insert_erase_keys [OF W(1,3,4)] by blast
  let ?m = "m\<lparr>keyframe_list := zs\<rparr>"
  have m1: "nm_ok ?m" "win ?m = win m" using assms k(3) by (simp_all add: nm_ok_def win_def)
  obtain ns j calls evs where A: "AddPacketsToNack env ?m (?n + 1) s =
      Some (?m\<lparr>nack_list := ns, keyframe_list := drop j zs, nm_clock_calls := calls, nm_events := evs\<rparr>)"
    "nack_outcome env ?m s ns calls evs"
    using AddPacketsToNack_spec [OF m1(1), of s env] d g(1) by auto
  have oc: "nack_outcome env m s ns calls evs" using A(2) m1(2) by (simp add: nack_outcome_def added_def)
  let ?m' = "after_packet m s ns (drop j zs) calls evs"
  have "windowed id ?v (drop j zs)"
    using k(3,4) windowed_drop windowed_forward [of id ?w zs ?v] by auto
  moreover have "windowed id ?v (recovered_list m)"
    using W(2,4) g(2) by (intro windowed_forward [OF W(2)]) (auto simp: windowed_def intro: pos_both)
  moreover have "length ns \<le> kMaxNackPackets" using oc by (simp add: nack_outcome_def)
  ultimately have "nm_ok ?m'" using outcome_ok [OF assms(1) g(1) oc] assms(1,2)
    by (simp add: after_packet_def nm_ok_def win_def)
  moreover have "NackModule_OnReceivedPacket env m s kf False =
      Some (send_batch True (GetNackBatch env ?m' kSeqNumOnly), 0)"
    using assms k(1,2) A(1) by (simp add: NackModule_OnReceivedPacket_def after_packet_def)
  ultimately show ?thesis using oc by blast
qed

lemma receive_ok:
  assumes "nm_ok m" "packet_ok m s rec"
  shows "\<exists>m' n. NackModule_OnReceivedPacket env m s kf rec = Some (m', n) \<and> nm_ok m'"
proof -
  consider "\<not> nm_initialized m" | "nm_initialized m" "s = newest_seq_num m"
    | "nm_initialized m" "AheadOf16 (newest_seq_num m) s"
    | "nm_initialized m" "s \<noteq> newest_seq_num m" "\<not> AheadOf16 (newest_seq_num m) s" by blast
  then show ?thesis
  proof cases
    case 1
    then show ?thesis using receive_first [OF assms(1)] by blast
  next
    case 2
    then show ?thesis using assms(1) by (simp add: NackModule_OnReceivedPacket_def)
  next
    case 3
    then show ?thesis using receive_behind [OF assms(1) 3] by blast
  next
    case 4
    then have p: "pos (newest_seq_num m) s \<le> 22767" using assms(2) by (simp add: packet_ok_def)
    show ?thesis
    proof (cases rec)
      case True
      obtain m' where "NackModule_OnReceivedPacket env m s kf True = Some (m', 0)" "nm_ok m'"
        using receive_recovered [OF assms(1) 4 p] by blast
      with True show ?thesis by simp
    next
      case False
      then obtain ns ks calls evs where "nm_ok (after_packet m s ns ks calls evs)"
        "NackModule_OnReceivedPacket env m s kf rec =
          Some (send_batch True (GetNackBatch env (after_packet m s ns ks calls evs) kSeqNumOnly), 0)"
        using receive_new [OF assms(1) 4, of env kf] assms(2) by auto
      then show ?thesis using send_batch_ok [OF GetNackBatch_ok] by blast
    qed
  qed
qed

lemma ClearUpTo_ok:
  assumes "nm_ok m" "nm_initialized m \<longrightarrow> pos (win m) s < 32768"
  shows "\<exists>m'. NackModule_ClearUpTo m s = Some m' \<and> nm_ok m'"
proof (cases "nm_initialized m")
  case True
  have W: "windowed fst (win m) (nack_list m)" "windowed id (win m) (keyframe_list m)"
    "windowed id (win m) (recovered_list m)" "pos (win m) s < 32768"
    using assms True by (simp_all add: nm_ok_def)
  show ?thesis using True
    by (simp add: NackModule_ClearUpTo_def erase_below_window [OF W(1,4)] erase_below_window [OF W(2,4)]
        erase_below_window [OF W(3,4)] nm_ok_shorter [OF assms(1)] windowed_filter W)
next
  case False
  with assms show ?thesis by (simp add: NackModule_ClearUpTo_def nm_ok_def win_def)
qed

lemma Clear_ok: "nm_ok m \<Longrightarrow> nm_ok (NackModule_Clear m)"
  by (simp add: NackModule_Clear_def nm_ok_def win_def)

lemma UpdateRtt_ok: "nm_ok m \<Longrightarrow> nm_ok (NackModule_UpdateRtt m r)"
  by (simp add: NackModule_UpdateRtt_def nm_ok_def win_def)

lemma NackModule_init_ok: "\<exists>m. NackModule_init trial capacity = Some m \<and> nm_ok m"
  by (simp add: NackModule_init_def Histogram_init_def kNumReorderingBuckets_def kMaxReorderedPackets_def nm_ok_def)

subsection \<open>The state machine\<close>

datatype nack_op = Receive u16 bool bool | ClearUpTo u16 | UpdateRtt int | ClearAll | ProcessTick

fun nack_apply :: "'f nack_env \<Rightarrow> nack_module \<Rightarrow> nack_op \<Rightarrow> nack_module option" where
  "nack_apply env m (Receive s kf rec) = map_option fst (NackModule_OnReceivedPacket env m s kf rec)"
| "nack_apply env m (ClearUpTo s) = NackModule_ClearUpTo m s"
| "nack_apply env m (UpdateRtt r) = Some (NackModule_UpdateRtt m r)"
| "nack_apply env m ClearAll = Some (NackModule_Clear m)"
| "nack_apply env m ProcessTick = Some (NackModule_Process env m)"

fun op_ok :: "nack_module \<Rightarrow> nack_op \<Rightarrow> bool" where
  "op_ok m (Receive s kf rec) = packet_ok m s rec"
| "op_ok m (ClearUpTo s) = (nm_initialized m \<longrightarrow> pos (win m) s < 32768)"
| "op_ok m _ = True"

inductive nack_reach :: "'f nack_env \<Rightarrow> nack_module \<Rightarrow> bool" for env where
  start: "NackModule_init trial capacity = Some m \<Longrightarrow> nack_reach env m"
| step: "nack_reach env m \<Longrightarrow> op_ok m oper \<Longrightarrow> nack_apply env m oper = Some m' \<Longrightarrow> nack_reach env m'"

lemma nack_apply_ok:
  assumes "nm_ok m" "op_ok m oper"
  shows "\<exists>m'. nack_apply env m oper = Some m' \<and> nm_ok m'"
proof (cases oper)
  case (Receive s kf rec)
  then show ?thesis using receive_ok [OF assms(1), of s rec env kf] assms(2) by auto
next
  case (ClearUpTo s)
  then show ?thesis using ClearUpTo_ok [OF assms(1), of s] assms(2) by auto
qed (use assms in \<open>simp_all add: Clear_ok UpdateRtt_ok Process_ok\<close>)

lemma nack_reach_ok: "nack_reach env m \<Longrightarrow> nm_ok m"
proof (induction rule: nack_reach.induct)
  case (start trial capacity m)
  then show ?case using NackModule_init_ok [of trial capacity] by simp
next
  case (step m oper m')
  then show ?case using nack_apply_ok [of m oper env] by simp
qed

fun nack_run :: "'f nack_env \<Rightarrow> nack_module \<Rightarrow> nack_op list \<Rightarrow> nack_module option" where
  "nack_run env m [] = Some m"
| "nack_run env m (oper # opers) = do { m \<leftarrow> nack_apply env m oper; nack_run env m opers }"

subsection \<open>Requests\<close>

lemma batch_events:
  "nm_events (send_batch b (GetNackBatch env m opt)) = nm_events m @
     (let batch = map (\<lambda>(k, i). ni_seq_num i)
        (filter (\<lambda>(k, i). nack_due opt (env_clock env (nm_clock_calls m)) (m\<lparr>nm_clock_calls := nm_clock_calls m + 1\<rparr>) i)
          (nack_list m))
      in if batch = [] then [] else [SendNack batch b])"
  by (simp add: send_batch_def emit_def GetNackBatch_def TimeInMilliseconds_def batch_loop_eq Let_def)

lemma new_entry_due:
  assumes "nm_ok m" "added env m s calls new" "e \<in> set new" "pos (newest_seq_num m) s \<le> 22767"
    and "newest_seq_num m' = s" "send_nack_delay_ms m' = 0" "mono (env_clock env)"
  shows "nack_due kSeqNumOnly (env_clock env calls) m' (snd e)"
proof -
  have e: "pos (win m) (fst e) < pos (win m) s"
    using added_entry [OF assms(2,3,4)] pos_win_ahead [OF assms(4)] by simp
  have "pos (fst e) s = pos (win m) s - pos (win m) (fst e)" using e by (intro pos_shift) simp
  then have "unat (s - fst e) < 32768" using pos_win_ahead [OF assms(4)] e added_entry [OF assms(2,3,4)] assms(4)
    by (simp add: pos_def)
  then have a: "AheadOrAt16 s (fst e)" using e by (auto simp: AheadOrAt16_iff AheadOf16_spec ahead_spec_def)
  obtain j where "j < calls" "snd e = NackInfo (fst e) (fst e) (env_clock env j)"
    using assms(2,3) by (auto simp: added_def fresh_def)
  then show ?thesis using a assms(5,6) monoD [OF assms(7), of j calls]
    by (simp add: nack_due_def NackInfo_def)
qed

definition due_batch :: "'f nack_env \<Rightarrow> nack_module \<Rightarrow> nack_filter_options \<Rightarrow> u16 list" where
  "due_batch env m opt = map (\<lambda>(k, i). ni_seq_num i)
     (filter (\<lambda>(k, i). nack_due opt (env_clock env (nm_clock_calls m)) (m\<lparr>nm_clock_calls := nm_clock_calls m + 1\<rparr>) i)
       (nack_list m))"

lemma due_batch_events:
  "nm_events (send_batch b (GetNackBatch env m opt)) = nm_events m @
     (if due_batch env m opt = [] then [] else [SendNack (due_batch env m opt) b])"
  unfolding batch_events due_batch_def [symmetric] Let_def by (rule refl)

lemma added_in_batch:
  assumes "nm_ok m" "added env m s calls new" "pos (newest_seq_num m) s \<le> 22767" "set new \<subseteq> set ns"
    and "send_nack_delay_ms m = 0" "mono (env_clock env)"
    and k: "k \<in> set (seq_range (newest_seq_num m + 1) (unat (s - newest_seq_num m) - 1)) - set (recovered_list m)"
  shows "k \<in> set (due_batch env (after_packet m s ns ks calls evs) kSeqNumOnly)"
proof -
  have "k \<in> set (map fst new)" using assms(2) k by (simp add: added_def pos_def del: set_map)
  then obtain e where e: "e \<in> set new" "fst e = k" by auto
  have "nack_due kSeqNumOnly (env_clock env calls)
      (after_packet m s ns ks calls evs\<lparr>nm_clock_calls := calls + 1\<rparr>) (snd e)"
    using assms(5) by (intro new_entry_due [OF assms(1,2) e(1) assms(3) _ _ assms(6)]) (simp_all add: after_packet_def)
  moreover have "e \<in> set ns" using assms(4) e(1) by blast
  moreover have "ni_seq_num (snd e) = k" using added_entry [OF assms(2) e(1) assms(3)] e(2) by simp
  ultimately have "e \<in> {x \<in> set ns. nack_due kSeqNumOnly (env_clock env calls)
      (after_packet m s ns ks calls evs\<lparr>nm_clock_calls := calls + 1\<rparr>) (snd x)}" "k = ni_seq_num (snd e)" by simp_all
  then show ?thesis unfolding due_batch_def case_prod_unfold set_map set_filter
    by (intro image_eqI [of _ _ e]) (simp_all add: after_packet_def)
qed

subsection \<open>Properties\<close>

text \<open>A clock that advances one millisecond per call, fixed-point numbers in thousandths for the
  histogram, and a short history: packets 65533 and 65535 arrive, 65534 is requested.\<close>

definition example_env :: "int nack_env" where
  "example_env = \<lparr>env_clock = int, env_float = \<lparr>f_zero = 0, f_one = 1000, f_less = (<), f_le = (\<le>),
     f_add = (+), f_ratio = (\<lambda>a b. int (a * 1000 div b))\<rparr>, env_half = 500\<rparr>"

definition example_start :: nack_module where
  "example_start = the (NackModule_init 0 128)"

definition example_nacks :: nack_module where
  "example_nacks = the (nack_run example_env example_start [Receive 65533 True False, Receive 65535 False False])"

lemma example_nacks_reach: "nack_reach example_env example_nacks"
proof -
  let ?a = "the (nack_apply example_env example_start (Receive 65533 True False))"
  have "NackModule_init 0 128 = Some example_start" by code_simp
  then have "nack_reach example_env example_start" by (rule nack_reach.start)
  moreover have "op_ok example_start (Receive 65533 True False)"
    "nack_apply example_env example_start (Receive 65533 True False) = Some ?a" by code_simp+
  ultimately have "nack_reach example_env ?a" by (rule nack_reach.step)
  moreover have "op_ok ?a (Receive 65535 False False)"
    "nack_apply example_env ?a (Receive 65535 False False) = Some example_nacks" by code_simp+
  ultimately show ?thesis by (rule nack_reach.step)
qed

text \<open>C14: the list of packets to request stays bounded. In every reachable state it has at most 1000
  entries with distinct numbers, each between 1 and 10000 behind the newest packet and requested fewer
  than ten times.\<close>

theorem nack_list_bounds:
  assumes "nack_reach env m"
  shows "length (nack_list m) \<le> 1000 \<and> distinct (map fst (nack_list m)) \<and>
    (\<forall>(k, info) \<in> set (nack_list m). 0 < unat (newest_seq_num m - k) \<and>
       unat (newest_seq_num m - k) \<le> 10000 \<and> retries info < 10)"
proof -
  have ok: "nm_ok m" by (rule nack_reach_ok [OF assms])
  have "0 < pos k (newest_seq_num m) \<and> pos k (newest_seq_num m) \<le> 10000 \<and> retries i < 10"
    if "(k, i) \<in> set (nack_list m)" for k i
  proof -
    have e: "pos (win m) k < 10000" "retries i < 10"
      using ok that by (auto simp: nm_ok_def entry_ok_def kMaxNackRetries_def)
    then show ?thesis using pos_shift [of "win m" k "newest_seq_num m"] by (simp add: pos_win_newest)
  qed
  then show ?thesis using ok windowed_distinct [of fst "win m" "nack_list m"]
    by (auto simp: nm_ok_def kMaxNackPackets_def pos_def)
qed

theorem nack_list_bounds_witness:
  "length (nack_list example_nacks) \<le> 1000 \<and> map fst (nack_list example_nacks) = [65534] \<and>
    list_all (\<lambda>(k, info). unat (newest_seq_num example_nacks - k) \<le> 10000 \<and> retries info < 10)
      (nack_list example_nacks)"
proof -
  have "map fst (nack_list example_nacks) = [65534]" by code_simp
  with nack_list_bounds [OF example_nacks_reach] show ?thesis by (auto simp: list_all_iff)
qed

text \<open>C15: no operation faults. In every reachable state each operation within the window of the ordered
  containers is defined: no search in them is inconsistent and the assertion that a missing packet is
  not in the list yet holds; the state it leads to is reachable again.\<close>

theorem nack_module_safe:
  assumes "nack_reach env m" "op_ok m oper"
  shows "\<exists>m'. nack_apply env m oper = Some m' \<and> nack_reach env m'"
  using nack_apply_ok [OF nack_reach_ok [OF assms(1)] assms(2), of env] nack_reach.step [OF assms] by blast

theorem nack_module_safe_witness:
  "\<exists>m'. nack_apply example_env example_nacks (Receive 3 False False) = Some m' \<and> nack_reach example_env m'"
proof (rule nack_module_safe [OF example_nacks_reach])
  show "op_ok example_nacks (Receive 3 False False)" by code_simp
qed

text \<open>C5: a gap is requested at once. When a packet arrives ahead of the newest one and no delay is
  configured, every number in between that was not recovered is in a batch sent during the call, or a
  key frame is requested.\<close>

theorem gap_requested:
  assumes "nack_reach env m" "nm_initialized m" "s \<noteq> newest_seq_num m" "\<not> AheadOf16 (newest_seq_num m) s"
    and "packet_ok m s False" "send_nack_delay_ms m = 0" "mono (env_clock env)"
  shows "\<exists>m' evs. NackModule_OnReceivedPacket env m s kf False = Some (m', 0) \<and> nm_events m' = nm_events m @ evs \<and>
    (RequestKeyFrame \<in> set evs \<or>
     (\<forall>k \<in> set (seq_range (newest_seq_num m + 1) (unat (s - newest_seq_num m) - 1)) - set (recovered_list m).
        \<exists>batch. SendNack batch True \<in> set evs \<and> k \<in> set batch))"
proof -
  have ok: "nm_ok m" by (rule nack_reach_ok [OF assms(1)])
  have d: "pos (newest_seq_num m) s \<le> 22767" using assms(2,4,5) by (simp add: packet_ok_def)
  obtain ns ks calls evs where n: "nack_outcome env m s ns calls evs"
    "NackModule_OnReceivedPacket env m s kf False =
      Some (send_batch True (GetNackBatch env (after_packet m s ns ks calls evs) kSeqNumOnly), 0)"
    using receive_new [OF ok assms(2-5), of env kf] by blast
  let ?m = "after_packet m s ns ks calls evs"
  let ?batch = "due_batch env ?m kSeqNumOnly"
  let ?sent = "if ?batch = [] then [] else [SendNack ?batch True]"
  have E: "nm_events (send_batch True (GetNackBatch env ?m kSeqNumOnly)) = evs @ ?sent"
    unfolding due_batch_events by (simp add: after_packet_def)
  show ?thesis
  proof (cases "evs = nm_events m")
    case False
    then have "evs = nm_events m @ [RequestKeyFrame]" using n(1) by (auto simp: nack_outcome_def)
    with n(2) E show ?thesis by simp
  next
    case True
    then obtain i new where new: "ns = drop i (filter (\<lambda>e. pos (newest_seq_num m) s \<le> pos (win m) (fst e)) (nack_list m)) @ new"
      "added env m s calls new" using n(1) by (auto simp: nack_outcome_def)
    have "set new \<subseteq> set ns" using new(1) by simp
    note in_batch = added_in_batch [OF ok new(2) d this assms(6,7)]
    have sent: "\<exists>batch. SendNack batch True \<in> set ?sent \<and> k \<in> set batch" if "k \<in> set ?batch" for k
    proof -
      have "?batch \<noteq> []" using that by auto
      then have "SendNack ?batch True \<in> set ?sent" by simp
      with that show ?thesis by blast
    qed
    have "\<forall>k \<in> set (seq_range (newest_seq_num m + 1) (unat (s - newest_seq_num m) - 1)) - set (recovered_list m).
        \<exists>batch. SendNack batch True \<in> set ?sent \<and> k \<in> set batch"
      by (intro ballI sent in_batch)
    then show ?thesis unfolding n(2) using E [unfolded True]
      by (intro exI [of _ "send_batch True (GetNackBatch env ?m kSeqNumOnly)"] exI [of _ ?sent] conjI disjI2)
        (rule refl, simp only: True, assumption)
  qed
qed

theorem gap_requested_witness:
  "\<exists>m' evs. NackModule_OnReceivedPacket example_env example_nacks 3 False False = Some (m', 0) \<and>
    nm_events m' = nm_events example_nacks @ evs \<and>
    (RequestKeyFrame \<in> set evs \<or> (\<exists>batch. SendNack batch True \<in> set evs \<and> 1 \<in> set batch))"
proof -
  have "nm_initialized example_nacks" "3 \<noteq> newest_seq_num example_nacks"
    "\<not> AheadOf16 (newest_seq_num example_nacks) 3" "packet_ok example_nacks 3 False"
    "send_nack_delay_ms example_nacks = 0" by code_simp+
  moreover have "mono (env_clock example_env)" by (simp add: example_env_def mono_def)
  moreover have "1 \<in> set (seq_range (newest_seq_num example_nacks + 1)
      (unat (3 - newest_seq_num example_nacks) - 1)) - set (recovered_list example_nacks)" by code_simp
  ultimately show ?thesis using gap_requested [OF example_nacks_reach, of 3 False] by metis
qed

text \<open>The processing schedule. When \<open>Process\<close> runs at or after its due time, the next due time is in
  the future, at most one interval of 20 ms away, and still on the grid of the earlier ones, however
  many intervals were missed.\<close>

lemma process_schedule:
  assumes "next_process_time_ms m \<noteq> -1"
    and "now = env_clock env (nm_clock_calls m + 1)" "next_process_time_ms m \<le> now"
  shows "\<exists>n. next_process_time_ms (NackModule_Process env m) = next_process_time_ms m + 20 * n \<and>
    now < next_process_time_ms m + 20 * n \<and> next_process_time_ms m + 20 * n \<le> now + 20"
proof -
  let ?t = "next_process_time_ms m"
  have k: "kProcessIntervalMs = 20" by (simp add: kProcessIntervalMs_def kProcessFrequency_def)
  have p: "next_process_time_ms (NackModule_Process env m) = next_process_time ?t now"
    using assms(2) by (simp add: NackModule_Process_def send_batch_def emit_def GetNackBatch_def
        TimeInMilliseconds_def Let_def batch_loop_eq)
  have "(now - ?t) sdiv 20 = (now - ?t) div 20" using assms(3)
    by (cases "now = ?t") (simp_all add: signed_divide_int_def sgn_if)
  then have "next_process_time ?t now = ?t + 20 * (1 + (now - ?t) div 20)"
    using assms(1) by (simp add: next_process_time_def k algebra_simps)
  moreover have "20 * ((now - ?t) div 20) \<le> now - ?t" "now - ?t < 20 * ((now - ?t) div 20) + 20"
    by linarith+
  ultimately show ?thesis unfolding p by (intro exI [of _ "1 + (now - ?t) div 20"]) (simp add: algebra_simps)
qed

subsection \<open>Recovered packets\<close>

text \<open>Whether number \<open>k\<close> is in one of the requests.\<close>

definition requested :: "nack_event list \<Rightarrow> u16 \<Rightarrow> bool" where
  "requested es k = list_ex (\<lambda>e. case e of SendNack batch _ \<Rightarrow> k \<in> set batch | RequestKeyFrame \<Rightarrow> False) es"

definition avoids :: "u16 \<Rightarrow> nack_module \<Rightarrow> bool" where
  "avoids k m \<longleftrightarrow> (\<forall>e \<in> set (nack_list m). ni_seq_num (snd e) = fst e \<and> fst e \<noteq> k)"

definition unheard :: "u16 \<Rightarrow> nack_module \<Rightarrow> nack_module \<Rightarrow> bool" where
  "unheard k m m' \<longleftrightarrow> recovered_list m' = recovered_list m \<and> avoids k m' \<and>
     (\<exists>es. nm_events m' = nm_events m @ es \<and> \<not> requested es k)"

text \<open>The operations that leave \<open>recovered_list_\<close> alone.\<close>

fun keeps_recovered :: "nack_op \<Rightarrow> bool" where
  "keeps_recovered (Receive s kf rec) = (\<not> rec)"
| "keeps_recovered (ClearUpTo s) = False"
| "keeps_recovered ClearAll = False"
| "keeps_recovered oper = True"

lemma requested_append: "requested (a @ b) k \<longleftrightarrow> requested a k \<or> requested b k"
  by (simp add: requested_def)

lemma unheard_trans: "unheard k a b \<Longrightarrow> unheard k b c \<Longrightarrow> unheard k a c"
  unfolding unheard_def by (metis append.assoc requested_append)

lemma unheard_sub:
  "avoids k m \<Longrightarrow> set (nack_list m') \<subseteq> set (nack_list m) \<Longrightarrow> recovered_list m' = recovered_list m \<Longrightarrow>
   nm_events m' = nm_events m \<Longrightarrow> unheard k m m'"
  unfolding unheard_def avoids_def requested_def by (intro conjI exI [of _ "[]"]) auto

lemma split_key_sub: "set (snd (split_key key rest k)) \<subseteq> set rest"
  by (cases rest) (auto simp: split_key_def)

lemma store_sub:
  "erase_below key xs k = Some ys \<Longrightarrow> set ys \<subseteq> set xs"
  "store_erase key xs k = Some ys \<Longrightarrow> set ys \<subseteq> set xs"
  "store_assign key xs x = Some ys \<Longrightarrow> set ys \<subseteq> insert x (set xs)"
  using split_key_sub by (fastforce simp: erase_below_def store_erase_def store_assign_def bind_eq_Some_conv
      dest!: lower_bound_append)+

lemma add_one_nack_unheard:
  assumes "avoids k m" "windowed id w (recovered_list m)" "k \<in> set (recovered_list m)" "add_one_nack env m s = Some m'"
  shows "unheard k m m'"
proof (cases "s = k")
  case True
  have "pos w k < 32768" using assms(2,3) by (auto simp: windowed_def)
  then have "store_find id (recovered_list m) k = Some (find (\<lambda>x. id x = k) (recovered_list m))"
    by (rule store_find_window [OF assms(2)])
  moreover have "find (\<lambda>x. id x = k) (recovered_list m) \<noteq> None" using assms(3) by (auto simp: find_None_iff)
  ultimately have "m' = m" using assms(4) True by (simp add: add_one_nack_def)
  then show ?thesis using unheard_sub [OF assms(1)] by simp
next
  case False
  then have "recovered_list m' = recovered_list m" "nm_events m' = nm_events m"
    "\<forall>e \<in> set (nack_list m'). e \<in> set (nack_list m) \<or> ni_seq_num (snd e) = s \<and> fst e = s"
    using assms(4) by (auto simp: add_one_nack_def bind_eq_Some_conv dcheck_bind_Some TimeInMilliseconds_def NackInfo_def
        Let_def dest!: store_sub(3) split: if_splits)
  then show ?thesis using assms(1) False
    unfolding unheard_def avoids_def requested_def by (intro conjI exI [of _ "[]"]) auto
qed

lemma add_nacks_unheard:
  "avoids k m \<Longrightarrow> windowed id w (recovered_list m) \<Longrightarrow> k \<in> set (recovered_list m) \<Longrightarrow> add_nacks env m s e = Some m' \<Longrightarrow>
   unheard k m m'"
proof (induction env m s e rule: add_nacks.induct)
  case (1 env m s e)
  show ?case
  proof (cases "s = e")
    case True
    then have "m' = m" using 1(5) by (simp add: add_nacks.simps [of env m e e])
    then show ?thesis using unheard_sub [OF 1(2)] by simp
  next
    case False
    then obtain x where x: "add_one_nack env m s = Some x" "add_nacks env x (s + 1) e = Some m'"
      using 1(5) by (auto simp: add_nacks.simps [of env m s e] split: option.splits)
    have u: "unheard k m x" by (rule add_one_nack_unheard [OF 1(2-4) x(1)])
    then have "avoids k x" "recovered_list x = recovered_list m" by (simp_all add: unheard_def)
    then have "unheard k x m'" using 1(1) [OF False x(1)] 1(3,4) x(2) by simp
    with u show ?thesis by (rule unheard_trans)
  qed
qed

lemma remove_until_keyframe_sub:
  "remove_until_keyframe nacks ks = Some (nacks', ks', r) \<Longrightarrow> set nacks' \<subseteq> set nacks"
proof (induction nacks ks rule: remove_until_keyframe.induct)
  case (2 nacks k ks)
  then obtain a b where a: "lower_bound fst nacks k = Some (a, b)"
    "(if a \<noteq> [] then Some (b, k # ks, True) else remove_until_keyframe nacks ks) = Some (nacks', ks', r)"
    by (auto simp: bind_eq_Some_conv)
  then show ?case using 2(1) [OF a(1)] lower_bound_append [OF a(1)] by (auto split: if_splits)
qed simp

lemma make_room_sub:
  "make_room m n = Some m' \<Longrightarrow> set (nack_list m') \<subseteq> set (nack_list m) \<and> recovered_list m' = recovered_list m \<and>
     nm_events m' = nm_events m"
proof (induction m n rule: make_room.induct)
  case (1 m n)
  then obtain x r where x: "RemovePacketsUntilKeyFrame m = Some (x, r)"
    by (cases "RemovePacketsUntilKeyFrame m") (auto simp: make_room.simps [of m])
  then have s: "set (nack_list x) \<subseteq> set (nack_list m)" "recovered_list x = recovered_list m" "nm_events x = nm_events m"
    by (auto simp: RemovePacketsUntilKeyFrame_def bind_eq_Some_conv dest!: remove_until_keyframe_sub)
  show ?case
  proof (cases "r \<and> length (nack_list x) + n > kMaxNackPackets")
    case True
    then have "make_room x n = Some m'" using 1(2) x by (simp add: make_room.simps [of m])
    then show ?thesis using 1(1) [OF x] True s by auto
  next
    case False
    then have "m' = x" using 1(2) x by (auto simp: make_room.simps [of m])
    then show ?thesis using s by simp
  qed
qed

lemma AddPacketsToNack_unheard:
  assumes "avoids k m" "windowed id w (recovered_list m)" "k \<in> set (recovered_list m)" "AddPacketsToNack env m s e = Some m'"
  shows "unheard k m m'"
proof -
  obtain ns x where ns: "erase_below fst (nack_list m) (e - kMaxPacketAge) = Some ns"
    and x: "(if length ns + unat (ForwardDiff s e) > kMaxNackPackets then make_room (m\<lparr>nack_list := ns\<rparr>) (unat (ForwardDiff s e))
        else Some (m\<lparr>nack_list := ns\<rparr>)) = Some x"
    and m': "(if length (nack_list x) + unat (ForwardDiff s e) > kMaxNackPackets then Some (emit RequestKeyFrame (x\<lparr>nack_list := []\<rparr>))
        else add_nacks env x s e) = Some m'"
    using assms(4) by (auto simp: AddPacketsToNack_def bind_eq_Some_conv Let_def)
  have "set (nack_list x) \<subseteq> set (nack_list m) \<and> recovered_list x = recovered_list m \<and> nm_events x = nm_events m"
    using x make_room_sub [of "m\<lparr>nack_list := ns\<rparr>"] store_sub(1) [OF ns] by (auto split: if_splits)
  then have u: "unheard k m x" and r: "recovered_list x = recovered_list m" using unheard_sub [OF assms(1)] by blast+
  have "unheard k x m'"
  proof (cases "length (nack_list x) + unat (ForwardDiff s e) > kMaxNackPackets")
    case True
    then have "m' = emit RequestKeyFrame (x\<lparr>nack_list := []\<rparr>)" using m' by simp
    then show ?thesis unfolding unheard_def avoids_def
      by (intro conjI exI [of _ "[RequestKeyFrame]"]) (simp_all add: emit_def requested_def)
  next
    case False
    then show ?thesis using m' add_nacks_unheard [of k x w env s e m'] u r assms(2,3) by (simp add: unheard_def)
  qed
  with u show ?thesis by (rule unheard_trans)
qed

lemma send_batch_unheard:
  assumes "avoids k m"
  shows "unheard k m (send_batch b (GetNackBatch env m opt))"
proof -
  let ?m = "send_batch b (GetNackBatch env m opt)"
  let ?batch = "map (\<lambda>(k, i). ni_seq_num i)
    (filter (\<lambda>(k, i). nack_due opt (env_clock env (nm_clock_calls m)) (m\<lparr>nm_clock_calls := nm_clock_calls m + 1\<rparr>) i) (nack_list m))"
  have "k \<notin> set ?batch" using assms by (fastforce simp: avoids_def)
  then have "\<not> requested (if ?batch = [] then [] else [SendNack ?batch b]) k" by (simp add: requested_def)
  then have e: "\<exists>es. nm_events ?m = nm_events m @ es \<and> \<not> requested es k"
    unfolding batch_events Let_def by blast
  have r: "recovered_list ?m = recovered_list m"
    by (simp add: send_batch_def emit_def GetNackBatch_def TimeInMilliseconds_def batch_loop_eq Let_def)
  have "avoids k ?m" using assms
    by (fastforce simp: send_batch_def emit_def GetNackBatch_def TimeInMilliseconds_def batch_loop_eq Let_def avoids_def touch_def)
  with e r show ?thesis by (simp add: unheard_def)
qed

lemma quiet_apply:
  assumes "avoids k m" "windowed id w (recovered_list m)" "k \<in> set (recovered_list m)" "keeps_recovered oper"
    "nack_apply env m oper = Some m'"
  shows "unheard k m m'"
proof (cases oper)
  case (Receive s kf rec)
  then obtain n where r: "NackModule_OnReceivedPacket env m s kf False = Some (m', n)" using assms(4,5) by auto
  note same = unheard_sub [OF assms(1)]
  consider "\<not> nm_initialized m" | "nm_initialized m" "s = newest_seq_num m" | "nm_initialized m" "s \<noteq> newest_seq_num m" "AheadOf16 (newest_seq_num m) s"
    | "nm_initialized m" "s \<noteq> newest_seq_num m" "\<not> AheadOf16 (newest_seq_num m) s" by blast
  then show ?thesis
  proof cases
    case 4
    then obtain ks x where x: "AddPacketsToNack env (m\<lparr>keyframe_list := ks\<rparr>) (newest_seq_num m + 1) s = Some x"
      "m' = send_batch True (GetNackBatch env (x\<lparr>newest_seq_num := s\<rparr>) kSeqNumOnly)"
      using r by (auto simp: NackModule_OnReceivedPacket_def bind_eq_Some_conv Let_def)
    have a: "unheard k m (m\<lparr>keyframe_list := ks\<rparr>)" by (rule same) simp_all
    have b: "unheard k (m\<lparr>keyframe_list := ks\<rparr>) x" by (rule AddPacketsToNack_unheard [OF _ _ _ x(1)]) (use assms a in \<open>simp_all add: unheard_def\<close>)
    then have av: "avoids k x" by (simp add: unheard_def)
    have c: "unheard k x (x\<lparr>newest_seq_num := s\<rparr>)" by (rule unheard_sub [OF av]) simp_all
    have "unheard k (x\<lparr>newest_seq_num := s\<rparr>) m'" unfolding x(2) by (rule send_batch_unheard) (use c in \<open>simp add: unheard_def\<close>)
    then show ?thesis using a b c unheard_trans by blast
  qed (use r same in \<open>auto simp: NackModule_OnReceivedPacket_def bind_eq_Some_conv dest!: store_sub(2) split: option.splits if_splits\<close>)
next
  case (UpdateRtt t)
  then show ?thesis using assms(5) unheard_sub [OF assms(1)] by (auto simp: NackModule_UpdateRtt_def)
next
  case ProcessTick
  let ?x = "send_batch False (GetNackBatch env m kTimeOnly)"
  have u: "unheard k m ?x" by (rule send_batch_unheard [OF assms(1)])
  then have "avoids k ?x" by (simp add: unheard_def)
  moreover have "set (nack_list m') = set (nack_list ?x)" "recovered_list m' = recovered_list ?x" "nm_events m' = nm_events ?x"
    using assms(5) ProcessTick by (auto simp: NackModule_Process_def TimeInMilliseconds_def Let_def)
  ultimately have "unheard k ?x m'" by (intro unheard_sub) simp_all
  with u show ?thesis by (rule unheard_trans)
qed (use assms(4) in simp_all)

lemma quiet_run:
  "avoids k m \<Longrightarrow> windowed id w (recovered_list m) \<Longrightarrow> k \<in> set (recovered_list m) \<Longrightarrow> list_all keeps_recovered opers \<Longrightarrow>
   nack_run env m opers = Some m' \<Longrightarrow> unheard k m m'"
proof (induction opers arbitrary: m)
  case Nil
  then show ?case using unheard_sub [OF Nil(1)] by simp
next
  case (Cons oper opers)
  then obtain x where x: "nack_apply env m oper = Some x" "nack_run env x opers = Some m'" by (auto simp: bind_eq_Some_conv)
  have u: "unheard k m x" using quiet_apply [OF Cons.prems(1-3) _ x(1)] Cons.prems(4) by simp
  then have "unheard k x m'" using Cons.IH [of x] Cons.prems x(2) by (simp add: unheard_def)
  with u show ?case by (rule unheard_trans)
qed

text \<open>C32: an entry of \<open>recovered_list_\<close> outlives its packet. However many packets arrive after number \<open>k\<close> was recovered, as
  long as none of them is itself recovered and the lists are not cleared, the entry stays, and \<open>k\<close> is not requested,
  also when the numbers have wrapped around and \<open>k\<close> is the number of another packet that is missing.\<close>

theorem recovered_entry_goes_stale:
  assumes "nack_reach env m" "k \<in> set (recovered_list m)" "k \<notin> fst ` set (nack_list m)"
    and "list_all keeps_recovered opers" "nack_run env m opers = Some m'"
  shows "k \<in> set (recovered_list m') \<and> (\<exists>es. nm_events m' = nm_events m @ es \<and> \<not> requested es k)"
proof -
  have ok: "nm_ok m" by (rule nack_reach_ok [OF assms(1)])
  then have "avoids k m" using assms(3) by (auto simp: avoids_def nm_ok_def entry_ok_def)
  moreover have "windowed id (win m) (recovered_list m)" using ok by (simp add: nm_ok_def)
  ultimately have "unheard k m m'" using quiet_run assms(2,4,5) by blast
  then show ?thesis using assms(2) by (simp add: unheard_def)
qed

text \<open>Packet 5 is recovered; a round later packet 6 follows packet 4, and packet 5 of this round is not requested.\<close>

definition example_recovered :: nack_module where
  "example_recovered = the (nack_run example_env example_start [Receive 4 False False, Receive 5 False True])"

lemma example_recovered_reach: "nack_reach example_env example_recovered"
proof -
  let ?a = "the (nack_apply example_env example_start (Receive 4 False False))"
  have "NackModule_init 0 128 = Some example_start" by code_simp
  then have "nack_reach example_env example_start" by (rule nack_reach.start)
  moreover have "op_ok example_start (Receive 4 False False)"
    "nack_apply example_env example_start (Receive 4 False False) = Some ?a" by code_simp+
  ultimately have "nack_reach example_env ?a" by (rule nack_reach.step)
  moreover have "op_ok ?a (Receive 5 False True)" "nack_apply example_env ?a (Receive 5 False True) = Some example_recovered"
    by code_simp+
  ultimately show ?thesis by (rule nack_reach.step)
qed

theorem recovered_entry_goes_stale_witness:
  "\<exists>m' es. nack_run example_env example_recovered (map (\<lambda>s. Receive s False False) [20004, 40004, 60004, 4, 6]) = Some m' \<and>
     nm_events m' = nm_events example_recovered @ es \<and> newest_seq_num m' = 6 \<and> \<not> requested es 5"
proof -
  let ?r = "nack_run example_env example_recovered (map (\<lambda>s. Receive s False False) [20004, 40004, 60004, 4, 6])"
  have "5 \<in> set (recovered_list example_recovered)" "5 \<notin> fst ` set (nack_list example_recovered)"
    "list_all keeps_recovered (map (\<lambda>s. Receive s False False) [20004, 40004, 60004, 4, 6])"
    "?r = Some (the ?r)" "newest_seq_num (the ?r) = 6" by code_simp+
  then show ?thesis using recovered_entry_goes_stale [OF example_recovered_reach] by blast
qed

end
