(* ===== verification/Packet_Buffer.thy ===== *)
theory Packet_Buffer
  imports Seq_Store "HOL-Library.Code_Target_Nat"
begin

text \<open>
  Assembling frames from packets: class \<open>PacketBuffer\<close> of \<open>src/src/myrtc/video/packet_buffer.{h,cc}\<close>.

  The two vectors are lists; an access outside them is \<open>None\<close>. \<open>dataPtr\<close> is \<open>None\<close> when null. The
  frames handed to the callback are returned in order. What no operation reads of a packet
  (rotation, timing, colour space and the like) is one field \<open>pk_rest\<close> of any type; a frame keeps
  its first and its last packet, from which its constructor takes such fields. Counters and sizes
  are natural numbers: \<open>unique_frames_seen_\<close> would need \<open>2 ^ 31\<close> frames to overflow.
\<close>

subsection \<open>Data\<close>

datatype video_codec =
  kVideoCodecGeneric | kVideoCodecVP8 | kVideoCodecVP9 | kVideoCodecH264 | kVideoCodecMultiplex
datatype frame_kind = kEmptyFrame | kVideoFrameKey | kVideoFrameDelta

definition kNaluIdr :: u8 where "kNaluIdr = 5"
definition kNaluSps :: u8 where "kNaluSps = 7"
definition kNaluPps :: u8 where "kNaluPps = 8"
definition kMaxNalusPerPacket :: nat where "kMaxNalusPerPacket = 10"
definition kNoTemporalIdx :: u8 where "kNoTemporalIdx = 0xFF"

text \<open>\<open>pk_nalus\<close> has the NALU types of the H.264 header, if the packet has one.\<close>

record 'x vcm_packet =
  pk_timestamp :: u32
  pk_seqNum :: u16
  pk_dataPtr :: "bytes option"
  pk_sizeBytes :: nat
  pk_markerBit :: bool
  pk_timesNacked :: int
  pk_receive_time_ms :: int
  pk_frame_type :: frame_kind
  pk_first_in_frame :: bool
  pk_last_in_frame :: bool
  pk_codec :: video_codec
  pk_temporal_id :: u8
  pk_nalus :: "u8 list option"
  pk_rest :: 'x

record continuity_info =
  ci_seq_num :: u16
  frame_begin :: bool
  frame_end :: bool
  used :: bool
  continuous :: bool
  frame_created :: bool

definition ContinuityInfo_init :: continuity_info where
  "ContinuityInfo_init = \<lparr>ci_seq_num = 0, frame_begin = False, frame_end = False, used = False,
     continuous = False, frame_created = False\<rparr>"

record 'x rtp_frame =
  fr_first_seq_num :: u16
  fr_last_seq_num :: u16
  fr_times_nacked :: int
  fr_min_recv_time :: int
  fr_max_recv_time :: int
  fr_first_packet :: "'x vcm_packet"
  fr_last_packet :: "'x vcm_packet"
  fr_recv_times :: "int list"
  fr_image :: bytes

record 'x packet_buffer =
  pb_size :: nat
  pb_max_size :: nat
  first_seq_num :: u16
  first_packet_received :: bool
  is_cleared_to_first_seq_num :: bool
  data_buffer :: "'x vcm_packet list"
  sequence_buffer :: "continuity_info list"
  last_received_packet_ms :: "int option"
  last_received_keyframe_packet_ms :: "int option"
  unique_frames_seen :: nat
  newest_inserted_seq_num :: "u16 option"
  missing_packets :: "u16 list"
  sps_pps_idr_is_h264_keyframe :: bool
  timestamps_history_set :: "u32 list"
  timestamps_history_queue :: "u32 list"

definition vget :: "'a list \<Rightarrow> nat \<Rightarrow> 'a option" where
  "vget xs i = (if i < length xs then Some (xs ! i) else None)"

subsection \<open>Operations\<close>

text \<open>\<open>(n & (n - 1)) == 0\<close> on a 64-bit \<open>size_t\<close>. \<open>blank\<close> is a default-constructed packet.\<close>

definition pow2_check :: "nat \<Rightarrow> bool" where
  "pow2_check n \<longleftrightarrow> (of_nat n :: u64) AND (of_nat n - 1) = 0"

definition PacketBuffer_init :: "'x vcm_packet \<Rightarrow> nat \<Rightarrow> nat \<Rightarrow> bool \<Rightarrow> 'x packet_buffer option" where
  "PacketBuffer_init blank start_size max_size trial =
     do { dcheck (start_size \<le> max_size);
          dcheck (pow2_check start_size);
          dcheck (pow2_check max_size);
          Some \<lparr>pb_size = start_size, pb_max_size = max_size, first_seq_num = 0,
            first_packet_received = False, is_cleared_to_first_seq_num = False,
            data_buffer = replicate start_size blank,
            sequence_buffer = replicate start_size ContinuityInfo_init,
            last_received_packet_ms = None, last_received_keyframe_packet_ms = None,
            unique_frames_seen = 0, newest_inserted_seq_num = None, missing_packets = [],
            sps_pps_idr_is_h264_keyframe = trial,
            timestamps_history_set = [], timestamps_history_queue = []\<rparr> }"

definition slot :: "'x packet_buffer \<Rightarrow> u16 \<Rightarrow> nat" where
  "slot pb seq_num = unat seq_num mod pb_size pb"

definition free_slot :: "nat \<Rightarrow> 'x packet_buffer \<Rightarrow> 'x packet_buffer" where
  "free_slot i pb =
     pb\<lparr>data_buffer := (data_buffer pb)[i := (data_buffer pb ! i)\<lparr>pk_dataPtr := None\<rparr>],
        sequence_buffer := (sequence_buffer pb)[i := (sequence_buffer pb ! i)\<lparr>used := False\<rparr>]\<rparr>"

text \<open>The history set is a list without duplicates; only membership and its size matter.\<close>

definition OnTimestampReceived :: "'x packet_buffer \<Rightarrow> u32 \<Rightarrow> 'x packet_buffer option" where
  "OnTimestampReceived pb ts =
     (if ts \<in> set (timestamps_history_set pb) then Some pb
      else
        let pb = pb\<lparr>timestamps_history_set := ts # timestamps_history_set pb,
                    timestamps_history_queue := timestamps_history_queue pb @ [ts],
                    unique_frames_seen := unique_frames_seen pb + 1\<rparr>
        in if length (timestamps_history_set pb) > 1000 then
             (case timestamps_history_queue pb of
                [] \<Rightarrow> None
              | old # rest \<Rightarrow>
                  Some (pb\<lparr>timestamps_history_set := filter (\<lambda>t. t \<noteq> old) (timestamps_history_set pb),
                           timestamps_history_queue := rest\<rparr>))
           else Some pb)"

text \<open>The loop that enters the missing numbers; at most 65536 numbers are ever ahead.\<close>

fun insert_missing :: "nat \<Rightarrow> u16 \<Rightarrow> u16 \<Rightarrow> u16 list \<Rightarrow> (u16 \<times> u16 list) option" where
  "insert_missing 0 seq_num newest missing = None"
| "insert_missing (Suc n) seq_num newest missing =
     (if AheadOf16 seq_num newest then do {
        missing \<leftarrow> store_insert id missing newest;
        insert_missing n seq_num (newest + 1) missing }
      else Some (newest, missing))"

definition UpdateMissingPackets :: "'x packet_buffer \<Rightarrow> u16 \<Rightarrow> 'x packet_buffer option" where
  "UpdateMissingPackets pb seq_num =
     (let newest = (case newest_inserted_seq_num pb of None \<Rightarrow> seq_num | Some n \<Rightarrow> n)
      in if AheadOf16 seq_num newest then do {
           let old_seq_num = seq_num - 1000;
           missing \<leftarrow> erase_below id (missing_packets pb) old_seq_num;
           let newest = (if AheadOf16 old_seq_num newest then old_seq_num else newest);
           (newest, missing) \<leftarrow> insert_missing 65536 seq_num (newest + 1) missing;
           Some (pb\<lparr>newest_inserted_seq_num := Some newest, missing_packets := missing\<rparr>) }
         else do {
           missing \<leftarrow> store_erase id (missing_packets pb) seq_num;
           Some (pb\<lparr>newest_inserted_seq_num := Some newest, missing_packets := missing\<rparr>) })"

fun expand_loop ::
  "nat \<Rightarrow> (continuity_info \<times> 'x vcm_packet) list \<Rightarrow> continuity_info list \<Rightarrow> 'x vcm_packet list \<Rightarrow>
   continuity_info list \<times> 'x vcm_packet list" where
  "expand_loop new_size [] sb db = (sb, db)"
| "expand_loop new_size ((c, p) # slots) sb db =
     (if used c then
        (let index = unat (ci_seq_num c) mod new_size
         in expand_loop new_size slots (sb[index := c]) (db[index := p]))
      else expand_loop new_size slots sb db)"

definition ExpandBufferSize :: "'x vcm_packet \<Rightarrow> 'x packet_buffer \<Rightarrow> 'x packet_buffer \<times> bool" where
  "ExpandBufferSize blank pb =
     (if pb_size pb = pb_max_size pb then (pb, False)
      else
        let new_size = min (pb_max_size pb) (2 * pb_size pb);
            (sb, db) = expand_loop new_size (zip (sequence_buffer pb) (data_buffer pb))
              (replicate new_size ContinuityInfo_init) (replicate new_size blank)
        in (pb\<lparr>pb_size := new_size, sequence_buffer := sb, data_buffer := db\<rparr>, True))"

fun clear_slots :: "nat \<Rightarrow> 'x packet_buffer \<Rightarrow> 'x packet_buffer" where
  "clear_slots 0 pb = pb"
| "clear_slots (Suc n) pb = free_slot n (clear_slots n pb)"

definition PacketBuffer_Clear :: "'x packet_buffer \<Rightarrow> 'x packet_buffer" where
  "PacketBuffer_Clear pb =
     (clear_slots (pb_size pb) pb)\<lparr>first_packet_received := False, is_cleared_to_first_seq_num := False,
        last_received_packet_ms := None, last_received_keyframe_packet_ms := None,
        newest_inserted_seq_num := None, missing_packets := []\<rparr>"

fun clear_to_loop :: "nat \<Rightarrow> u16 \<Rightarrow> 'x packet_buffer \<Rightarrow> 'x packet_buffer option" where
  "clear_to_loop 0 seq_num pb = Some pb"
| "clear_to_loop (Suc n) seq_num pb =
     do { let index = slot pb (first_seq_num pb);
          p \<leftarrow> vget (data_buffer pb) index;
          c \<leftarrow> vget (sequence_buffer pb) index;
          dcheck (pk_seqNum p = ci_seq_num c);
          let pb = (if AheadOf16 seq_num (ci_seq_num c) then free_slot index pb else pb);
          clear_to_loop n seq_num (pb\<lparr>first_seq_num := first_seq_num pb + 1\<rparr>) }"

text \<open>\<open>erase(begin(), upper_bound(k) - 1)\<close> when the bound is not the beginning.\<close>

definition ClearTo :: "'x packet_buffer \<Rightarrow> u16 \<Rightarrow> 'x packet_buffer option" where
  "ClearTo pb seq_num =
     (if is_cleared_to_first_seq_num pb \<and> AheadOf16 (first_seq_num pb) seq_num then Some pb
      else if \<not> first_packet_received pb then Some pb
      else do {
        let seq_num = seq_num + 1;
        let diff = unat (ForwardDiff (first_seq_num pb) seq_num);
        pb \<leftarrow> clear_to_loop (min diff (pb_size pb)) seq_num pb;
        (before, rest) \<leftarrow> upper_bound id (missing_packets pb) seq_num;
        let missing = (if before \<noteq> [] then last before # rest else missing_packets pb);
        Some (pb\<lparr>first_seq_num := seq_num, is_cleared_to_first_seq_num := True,
                 missing_packets := missing\<rparr>) })"

fun clear_interval_loop :: "nat \<Rightarrow> u16 \<Rightarrow> 'x packet_buffer \<Rightarrow> 'x packet_buffer option" where
  "clear_interval_loop 0 seq_num pb = Some pb"
| "clear_interval_loop (Suc n) seq_num pb =
     do { let index = slot pb seq_num;
          c \<leftarrow> vget (sequence_buffer pb) index;
          p \<leftarrow> vget (data_buffer pb) index;
          dcheck (ci_seq_num c = seq_num);
          dcheck (ci_seq_num c = pk_seqNum p);
          clear_interval_loop n (seq_num + 1) (free_slot index pb) }"

definition ClearInterval :: "'x packet_buffer \<Rightarrow> u16 \<Rightarrow> u16 \<Rightarrow> 'x packet_buffer option" where
  "ClearInterval pb start_seq_num stop_seq_num =
     do { let iterations = unat (ForwardDiff start_seq_num (stop_seq_num + 1));
          dcheck (iterations \<le> pb_size pb);
          clear_interval_loop iterations start_seq_num pb }"

definition prev_index :: "'x packet_buffer \<Rightarrow> nat \<Rightarrow> nat" where
  "prev_index pb index = (if index > 0 then index - 1 else pb_size pb - 1)"

definition PotentialNewFrame :: "'x packet_buffer \<Rightarrow> u16 \<Rightarrow> bool option" where
  "PotentialNewFrame pb seq_num =
     do { let index = slot pb seq_num;
          let prev = prev_index pb index;
          c \<leftarrow> vget (sequence_buffer pb) index;
          if \<not> used c then Some False
          else if ci_seq_num c \<noteq> seq_num then Some False
          else if frame_created c then Some False
          else if frame_begin c then Some True
          else do {
            q \<leftarrow> vget (sequence_buffer pb) prev;
            if \<not> used q then Some False
            else if frame_created q then Some False
            else if ci_seq_num q \<noteq> ci_seq_num c - 1 then Some False
            else do {
              pq \<leftarrow> vget (data_buffer pb) prev;
              pc \<leftarrow> vget (data_buffer pb) index;
              if pk_timestamp pq \<noteq> pk_timestamp pc then Some False
              else Some (continuous q) } } }"

definition GetPacket :: "'x packet_buffer \<Rightarrow> u16 \<Rightarrow> 'x vcm_packet option option" where
  "GetPacket pb seq_num =
     do { c \<leftarrow> vget (sequence_buffer pb) (slot pb seq_num);
          if \<not> used c \<or> seq_num \<noteq> ci_seq_num c then Some None
          else do { p \<leftarrow> vget (data_buffer pb) (slot pb seq_num); Some (Some p) } }"

text \<open>The copying loop of \<open>GetEncodedImageBuffer\<close>: it visits the slots in turn, so one that has not
  come to its end after \<open>size_\<close> of them never does.\<close>

fun image_loop :: "nat \<Rightarrow> 'x packet_buffer \<Rightarrow> nat \<Rightarrow> nat \<Rightarrow> nat \<Rightarrow> bytes \<Rightarrow> bytes option" where
  "image_loop 0 pb index end_index frame_size acc = None"
| "image_loop (Suc n) pb index end_index frame_size acc =
     do { c \<leftarrow> vget (sequence_buffer pb) index;
          dcheck (used c);
          p \<leftarrow> vget (data_buffer pb) index;
          dcheck (length acc + pk_sizeBytes p \<le> frame_size);
          payload \<leftarrow> (if pk_sizeBytes p = 0 then Some [] else pk_dataPtr p);
          dcheck (pk_sizeBytes p \<le> length payload);
          let acc = acc @ take (pk_sizeBytes p) payload;
          let index = (index + 1) mod pb_size pb;
          if index = end_index then Some acc else image_loop n pb index end_index frame_size acc }"

definition GetEncodedImageBuffer :: "'x packet_buffer \<Rightarrow> nat \<Rightarrow> u16 \<Rightarrow> u16 \<Rightarrow> bytes option" where
  "GetEncodedImageBuffer pb frame_size first_seq last_seq =
     image_loop (pb_size pb) pb (slot pb first_seq) ((unat last_seq + 1) mod pb_size pb) frame_size []"

subsection \<open>Finding frames\<close>

text \<open>The local variables of the backward search in \<open>FindFrames\<close>.\<close>

record scan =
  sc_frame_size :: nat
  sc_max_nack_count :: int
  sc_start_seq_num :: u16
  sc_min_recv_time :: int
  sc_max_recv_time :: int
  sc_packet_infos :: "int list"
  sc_start_index :: nat
  has_h264_sps :: bool
  has_h264_pps :: bool
  has_h264_idr :: bool
  is_h264_keyframe :: bool

definition scan_init :: "'x vcm_packet \<Rightarrow> u16 \<Rightarrow> nat \<Rightarrow> scan" where
  "scan_init p seq_num index =
     \<lparr>sc_frame_size = 0, sc_max_nack_count = -1, sc_start_seq_num = seq_num,
      sc_min_recv_time = pk_receive_time_ms p, sc_max_recv_time = pk_receive_time_ms p,
      sc_packet_infos = [], sc_start_index = index, has_h264_sps = False, has_h264_pps = False,
      has_h264_idr = False, is_h264_keyframe = False\<rparr>"

definition scan_packet :: "'x vcm_packet \<Rightarrow> scan \<Rightarrow> scan" where
  "scan_packet p s =
     s\<lparr>sc_frame_size := sc_frame_size s + pk_sizeBytes p,
       sc_max_nack_count := max (sc_max_nack_count s) (pk_timesNacked p),
       sc_min_recv_time := min (sc_min_recv_time s) (pk_receive_time_ms p),
       sc_max_recv_time := max (sc_max_recv_time s) (pk_receive_time_ms p),
       sc_packet_infos := sc_packet_infos s @ [pk_receive_time_ms p]\<rparr>"

fun scan_nalus :: "u8 list \<Rightarrow> scan \<Rightarrow> scan" where
  "scan_nalus [] s = s"
| "scan_nalus (t # ts) s =
     scan_nalus ts
       (if t = kNaluSps then s\<lparr>has_h264_sps := True\<rparr>
        else if t = kNaluPps then s\<lparr>has_h264_pps := True\<rparr>
        else if t = kNaluIdr then s\<lparr>has_h264_idr := True\<rparr> else s)"

definition scan_h264 :: "bool \<Rightarrow> 'x vcm_packet \<Rightarrow> scan \<Rightarrow> scan \<times> bool" where
  "scan_h264 trial p s =
     (case pk_nalus p of
        None \<Rightarrow> (s, False)
      | Some ts \<Rightarrow>
          if length ts \<ge> kMaxNalusPerPacket then (s, False)
          else
            let s = scan_nalus ts s
            in (if trial \<and> has_h264_idr s \<and> has_h264_sps s \<and> has_h264_pps s \<or>
                   \<not> trial \<and> has_h264_idr s
                then s\<lparr>is_h264_keyframe := True\<rparr> else s, True))"

definition mark_created :: "bool \<Rightarrow> nat \<Rightarrow> 'x packet_buffer \<Rightarrow> 'x packet_buffer" where
  "mark_created b i pb =
     pb\<lparr>sequence_buffer := (sequence_buffer pb)[i := (sequence_buffer pb ! i)\<lparr>frame_created := b\<rparr>]\<rparr>"

text \<open>The loop \<open>while (true)\<close>. The first argument is \<open>size_ - tested_packets\<close>; the loop is left when it
  would become zero. The flag is false where the function returns from inside the loop. \<open>is_h265\<close>
  is constantly false in the source.\<close>

fun scan_back :: "nat \<Rightarrow> bool \<Rightarrow> u32 \<Rightarrow> 'x packet_buffer \<Rightarrow> scan \<Rightarrow> ('x packet_buffer \<times> scan \<times> bool) option" where
  "scan_back 0 is_h264 ts pb s = None"
| "scan_back (Suc n) is_h264 ts pb s =
     do { let i = sc_start_index s;
          p \<leftarrow> vget (data_buffer pb) i;
          c \<leftarrow> vget (sequence_buffer pb) i;
          let s = scan_packet p s;
          let pb = mark_created True i pb;
          if \<not> is_h264 \<and> frame_begin c then Some (pb, s, True)
          else do {
            let (s, go) = (if is_h264 then scan_h264 (sps_pps_idr_is_h264_keyframe pb) p s else (s, True));
            if \<not> go then Some (pb, s, False)
            else if n = 0 then Some (pb, s, True)
            else do {
              let j = prev_index pb i;
              let s = s\<lparr>sc_start_index := j\<rparr>;
              q \<leftarrow> vget (data_buffer pb) j;
              d \<leftarrow> vget (sequence_buffer pb) j;
              if is_h264 \<and> (\<not> used d \<or> pk_timestamp q \<noteq> ts) then Some (pb, s, True)
              else scan_back n is_h264 ts pb (s\<lparr>sc_start_seq_num := sc_start_seq_num s - 1\<rparr>) } } }"

text \<open>The loop that takes \<open>frame_created\<close> back; past \<open>size_\<close> steps it would run forever.\<close>

fun unmark_loop :: "nat \<Rightarrow> nat \<Rightarrow> nat \<Rightarrow> 'x packet_buffer \<Rightarrow> 'x packet_buffer option" where
  "unmark_loop 0 i stop pb = (if i = stop then Some pb else None)"
| "unmark_loop (Suc n) i stop pb =
     (if i = stop then Some pb
      else do {
        c \<leftarrow> vget (sequence_buffer pb) i;
        unmark_loop n ((i + 1) mod pb_size pb) stop (mark_created False i pb) })"

definition set_frame_type :: "nat \<Rightarrow> frame_kind \<Rightarrow> 'x packet_buffer \<Rightarrow> 'x packet_buffer" where
  "set_frame_type i k pb =
     pb\<lparr>data_buffer := (data_buffer pb)[i := (data_buffer pb ! i)\<lparr>pk_frame_type := k\<rparr>]\<rparr>"

text \<open>What happens between the search and the creation of the frame for H.264; the flag is false where
  the function returns.\<close>

definition h264_frame :: "'x packet_buffer \<Rightarrow> nat \<Rightarrow> scan \<Rightarrow> ('x packet_buffer \<times> bool) option" where
  "h264_frame pb index s =
     do { let first_index = slot pb (sc_start_seq_num s);
          dcheck (first_index < pb_size pb);
          let pb = set_frame_type first_index (if is_h264_keyframe s then kVideoFrameKey else kVideoFrameDelta) pb;
          p \<leftarrow> vget (data_buffer pb) (sc_start_index s);
          if pk_temporal_id p = kNoTemporalIdx \<and> \<not> is_h264_keyframe s then do {
            (before, rest) \<leftarrow> upper_bound id (missing_packets pb) (sc_start_seq_num s);
            if before \<noteq> [] then do {
              pb \<leftarrow> unmark_loop (pb_size pb) (sc_start_index s)
                (unat (of_nat ((index + 1) mod pb_size pb) :: u16)) pb;
              Some (pb, False) }
            else Some (pb, True) }
          else Some (pb, True) }"

definition create_frame :: "'x packet_buffer \<Rightarrow> u16 \<Rightarrow> scan \<Rightarrow> ('x packet_buffer \<times> 'x rtp_frame) option" where
  "create_frame pb seq_num s =
     do { (before, rest) \<leftarrow> upper_bound id (missing_packets pb) seq_num;
          let pb = pb\<lparr>missing_packets := rest\<rparr>;
          first_packet \<leftarrow> GetPacket pb (sc_start_seq_num s) \<bind> id;
          last_packet \<leftarrow> GetPacket pb seq_num \<bind> id;
          image \<leftarrow> GetEncodedImageBuffer pb (sc_frame_size s) (sc_start_seq_num s) seq_num;
          let frame = \<lparr>fr_first_seq_num = sc_start_seq_num s, fr_last_seq_num = seq_num,
            fr_times_nacked = sc_max_nack_count s, fr_min_recv_time = sc_min_recv_time s,
            fr_max_recv_time = sc_max_recv_time s, fr_first_packet = first_packet,
            fr_last_packet = last_packet, fr_recv_times = rev (sc_packet_infos s), fr_image = image\<rparr>;
          pb \<leftarrow> ClearInterval pb (sc_start_seq_num s) seq_num;
          Some (pb, frame) }"

text \<open>One complete frame that ends at \<open>seq_num\<close>: the new state, the frame, and whether to go on.\<close>

definition frame_at :: "'x packet_buffer \<Rightarrow> u16 \<Rightarrow> ('x packet_buffer \<times> 'x rtp_frame list \<times> bool) option" where
  "frame_at pb seq_num =
     do { let index = slot pb seq_num;
          p \<leftarrow> vget (data_buffer pb) index;
          let is_h264 = (pk_codec p = kVideoCodecH264);
          (pb, s, go) \<leftarrow> scan_back (pb_size pb) is_h264 (pk_timestamp p) pb (scan_init p seq_num index);
          if \<not> go then Some (pb, [], False)
          else do {
            (pb, go) \<leftarrow> (if is_h264 then h264_frame pb index s else Some (pb, True));
            if \<not> go then Some (pb, [], False)
            else do {
              (pb, frame) \<leftarrow> create_frame pb seq_num s;
              Some (pb, [frame], True) } } }"

definition set_continuous :: "nat \<Rightarrow> 'x packet_buffer \<Rightarrow> 'x packet_buffer" where
  "set_continuous i pb =
     pb\<lparr>sequence_buffer := (sequence_buffer pb)[i := (sequence_buffer pb ! i)\<lparr>continuous := True\<rparr>]\<rparr>"

text \<open>The outer loop; the first argument is \<open>size_ - i\<close>.\<close>

fun find_frames_loop :: "nat \<Rightarrow> 'x packet_buffer \<Rightarrow> u16 \<Rightarrow> ('x packet_buffer \<times> 'x rtp_frame list) option" where
  "find_frames_loop 0 pb seq_num = Some (pb, [])"
| "find_frames_loop (Suc n) pb seq_num =
     do { new \<leftarrow> PotentialNewFrame pb seq_num;
          if \<not> new then Some (pb, [])
          else do {
            let index = slot pb seq_num;
            let pb = set_continuous index pb;
            c \<leftarrow> vget (sequence_buffer pb) index;
            (pb, frames, go) \<leftarrow> (if frame_end c then frame_at pb seq_num else Some (pb, [], True));
            if \<not> go then Some (pb, frames)
            else do {
              (pb, more) \<leftarrow> find_frames_loop n pb (seq_num + 1);
              Some (pb, frames @ more) } } }"

definition FindFrames :: "'x packet_buffer \<Rightarrow> u16 \<Rightarrow> ('x packet_buffer \<times> 'x rtp_frame list) option" where
  "FindFrames pb seq_num = find_frames_loop (pb_size pb) pb seq_num"

subsection \<open>Inserting\<close>

text \<open>\<open>while (ExpandBufferSize() && sequence_buffer_[seq_num % size_].used)\<close>: each round enlarges the
  buffer, so \<open>max_size_\<close> rounds are enough.\<close>

fun expand_while :: "nat \<Rightarrow> 'x vcm_packet \<Rightarrow> 'x packet_buffer \<Rightarrow> u16 \<Rightarrow> 'x packet_buffer option" where
  "expand_while 0 blank pb seq_num = None"
| "expand_while (Suc n) blank pb seq_num =
     (let (pb, grown) = ExpandBufferSize blank pb
      in if \<not> grown then Some pb
         else do {
           c \<leftarrow> vget (sequence_buffer pb) (slot pb seq_num);
           if used c then expand_while n blank pb seq_num else Some pb })"

definition store_packet :: "'x packet_buffer \<Rightarrow> 'x vcm_packet \<Rightarrow> 'x packet_buffer" where
  "store_packet pb packet =
     (let index = slot pb (pk_seqNum packet)
      in pb\<lparr>sequence_buffer := (sequence_buffer pb)[index :=
               \<lparr>ci_seq_num = pk_seqNum packet, frame_begin = pk_first_in_frame packet,
                frame_end = pk_last_in_frame packet, used = True, continuous = False,
                frame_created = False\<rparr>],
             data_buffer := (data_buffer pb)[index := packet]\<rparr>)"

text \<open>What follows the choice of a free slot.\<close>

definition insert_at ::
  "'x packet_buffer \<Rightarrow> 'x vcm_packet \<Rightarrow> int \<Rightarrow> ('x packet_buffer \<times> 'x rtp_frame list \<times> bool) option" where
  "insert_at pb packet now_ms =
     do { pb \<leftarrow> UpdateMissingPackets (store_packet pb packet) (pk_seqNum packet);
          let pb = pb\<lparr>last_received_packet_ms := Some now_ms,
            last_received_keyframe_packet_ms :=
              (if pk_frame_type packet = kVideoFrameKey then Some now_ms
               else last_received_keyframe_packet_ms pb)\<rparr>;
          (pb, frames) \<leftarrow> FindFrames pb (pk_seqNum packet);
          Some (pb, frames, True) }"

definition InsertPacket ::
  "'x vcm_packet \<Rightarrow> 'x packet_buffer \<Rightarrow> 'x vcm_packet \<Rightarrow> int \<Rightarrow> ('x packet_buffer \<times> 'x rtp_frame list \<times> bool) option" where
  "InsertPacket blank pb packet now_ms =
     do { pb \<leftarrow> OnTimestampReceived pb (pk_timestamp packet);
          let seq_num = pk_seqNum packet;
          if first_packet_received pb \<and> AheadOf16 (first_seq_num pb) seq_num \<and> is_cleared_to_first_seq_num pb
          then Some (pb, [], True)
          else do {
            let pb = (if \<not> first_packet_received pb then pb\<lparr>first_seq_num := seq_num, first_packet_received := True\<rparr>
                      else if AheadOf16 (first_seq_num pb) seq_num then pb\<lparr>first_seq_num := seq_num\<rparr> else pb);
            c \<leftarrow> vget (sequence_buffer pb) (slot pb seq_num);
            p \<leftarrow> vget (data_buffer pb) (slot pb seq_num);
            if \<not> used c then insert_at pb packet now_ms
            else if pk_seqNum p = seq_num then Some (pb, [], True)
            else do {
              pb \<leftarrow> expand_while (Suc (pb_max_size pb)) blank pb seq_num;
              c \<leftarrow> vget (sequence_buffer pb) (slot pb seq_num);
              if used c then Some (PacketBuffer_Clear pb, [], False)
              else insert_at pb packet now_ms } } }"

definition PaddingReceived :: "'x packet_buffer \<Rightarrow> u16 \<Rightarrow> ('x packet_buffer \<times> 'x rtp_frame list) option" where
  "PaddingReceived pb seq_num =
     do { pb \<leftarrow> UpdateMissingPackets pb seq_num; FindFrames pb (seq_num + 1) }"

end
