(* ===== verification/Packet_Slots.thy ===== *)
theory Packet_Slots
  imports Packet_Buffer Nack_Lemmas
begin

text \<open>
  Lemmas on \<open>PacketBuffer\<close>: what its operations keep. Clearing and the search for frames only release
  or flag slots and drop the oldest missing numbers. The locale \<open>pb_frame\<close> is this contract for
  any reflexive and transitive relation that the elementary updates respect; it is interpreted on
  \<open>keeps_slots\<close> (which packet is in which slot) and on \<open>prunes\<close> (the missing numbers).
\<close>

subsection \<open>What a run of the search consists of\<close>

lemma frame_at_cases:
  assumes "frame_at pb q = Some (pb', frs, go)"
  obtains p x s g where "vget (data_buffer pb) (slot pb q) = Some p"
    and "scan_back (pb_size pb) (pk_codec p = kVideoCodecH264) (pk_timestamp p) pb
      (scan_init p q (slot pb q)) = Some (x, s, g)"
    and "pb' = x \<and> frs = [] \<or> (\<exists>y. (y = x \<or> (\<exists>b. h264_frame x (slot pb q) s = Some (y, b))) \<and>
      (pb' = y \<and> frs = [] \<or> (\<exists>fr. create_frame y q s = Some (pb', fr) \<and> frs = [fr])))"
proof -
  obtain p where p: "vget (data_buffer pb) (slot pb q) = Some p"
    using assms by (cases "vget (data_buffer pb) (slot pb q)") (simp_all add: frame_at_def)
  define h where "h = (pk_codec p = kVideoCodecH264)"
  obtain x s g where x: "scan_back (pb_size pb) h (pk_timestamp p) pb (scan_init p q (slot pb q)) = Some (x, s, g)"
    using assms p by (cases "scan_back (pb_size pb) h (pk_timestamp p) pb (scan_init p q (slot pb q))")
      (auto simp: frame_at_def h_def)
  define r where "r = (if h then h264_frame x (slot pb q) s else Some (x, True))"
  have e: "(if \<not> g then Some (x, [], False) else r \<bind> (\<lambda>(y, go). if \<not> go then Some (y, [], False)
      else create_frame y q s \<bind> (\<lambda>(z, fr). Some (z, [fr], True)))) = Some (pb', frs, go)"
    using assms p x [unfolded h_def] unfolding r_def h_def by (simp add: frame_at_def Let_def del: bind_assoc)
  have "pb' = x \<and> frs = [] \<or> (\<exists>y. (y = x \<or> (\<exists>b. h264_frame x (slot pb q) s = Some (y, b))) \<and>
      (pb' = y \<and> frs = [] \<or> (\<exists>fr. create_frame y q s = Some (pb', fr) \<and> frs = [fr])))"
  proof (cases g)
    case True
    with e obtain y b where y: "r = Some (y, b)" by (cases r) auto
    then have "y = x \<or> (\<exists>b. h264_frame x (slot pb q) s = Some (y, b))" by (auto simp: r_def split: if_splits)
    moreover have "pb' = y \<and> frs = [] \<or> (\<exists>fr. create_frame y q s = Some (pb', fr) \<and> frs = [fr])"
      using e y True by (cases b; cases "create_frame y q s") auto
    ultimately show ?thesis by blast
  qed (use e in simp)
  with that p x [unfolded h_def] show thesis by blast
qed

lemma find_loop_cases:
  assumes "find_frames_loop (Suc n) pb q = Some (pb', frs)"
  obtains "pb' = pb" "frs = []"
  | x fs where "frame_at (set_continuous (slot pb q) pb) q = Some (x, fs, True) \<or>
        x = set_continuous (slot pb q) pb \<and> fs = []"
      and "\<exists>more. find_frames_loop n x (q + 1) = Some (pb', more) \<and> frs = fs @ more"
  | "frame_at (set_continuous (slot pb q) pb) q = Some (pb', frs, False)"
proof -
  let ?pb = "set_continuous (slot pb q) pb"
  obtain new where new: "PotentialNewFrame pb q = Some new"
    using assms by (cases "PotentialNewFrame pb q") simp_all
  show thesis
  proof (cases new)
    case True
    obtain c where c: "vget (sequence_buffer ?pb) (slot pb q) = Some c"
      using assms new True by (cases "vget (sequence_buffer ?pb) (slot pb q)") (simp_all add: Let_def)
    define r where "r = (if frame_end c then frame_at ?pb q else Some (?pb, [], True))"
    have e: "r \<bind> (\<lambda>(x, fs, go). if \<not> go then Some (x, fs) else find_frames_loop n x (q + 1) \<bind>
        (\<lambda>(y, more). Some (y, fs @ more))) = Some (pb', frs)"
      using assms new True c by (simp add: r_def Let_def del: bind_assoc)
    then obtain x fs go where r: "r = Some (x, fs, go)" by (cases r) auto
    show thesis
    proof (cases go)
      case True
      with e r have "\<exists>more. find_frames_loop n x (q + 1) = Some (pb', more) \<and> frs = fs @ more"
        by (cases "find_frames_loop n x (q + 1)") auto
      then show thesis using that(2) [of x fs] r True by (auto simp: r_def split: if_splits)
    next
      case False
      then show thesis using that(3) e r by (auto simp: r_def split: if_splits)
    qed
  qed (use assms new that(1) in simp)
qed

subsection \<open>Relations kept by clearing and searching\<close>

locale pb_frame =
  fixes R :: "'x packet_buffer \<Rightarrow> 'x packet_buffer \<Rightarrow> bool"
  assumes R_refl: "R pb pb"
    and R_trans: "R pb pb1 \<Longrightarrow> R pb1 pb2 \<Longrightarrow> R pb pb2"
    and R_free: "R pb (free_slot i pb)"
    and R_mark: "R pb (mark_created m i pb)"
    and R_continuous: "R pb (set_continuous i pb)"
    and R_frame_type: "R pb (set_frame_type i k pb)"
    and R_first: "R pb (pb\<lparr>first_seq_num := s\<rparr>)"
    and R_cleared: "R pb (pb\<lparr>is_cleared_to_first_seq_num := m\<rparr>)"
    and R_missing: "R pb (pb\<lparr>missing_packets := drop j (missing_packets pb)\<rparr>)"
begin

lemma R_clear_to: "clear_to_loop n s pb = Some pb' \<Longrightarrow> R pb pb'"
proof (induction n arbitrary: pb)
  case (Suc n)
  then consider "clear_to_loop n s (free_slot (slot pb (first_seq_num pb)) pb\<lparr>first_seq_num :=
        first_seq_num (free_slot (slot pb (first_seq_num pb)) pb) + 1\<rparr>) = Some pb'"
    | "clear_to_loop n s (pb\<lparr>first_seq_num := first_seq_num pb + 1\<rparr>) = Some pb'"
    by (auto simp: bind_eq_Some_conv dcheck_bind_Some Let_def split: if_splits)
  then show ?case
  proof cases
    case 1
    from R_trans [OF R_trans [OF R_free R_first] Suc.IH [OF 1]] show ?thesis .
  next
    case 2
    from R_trans [OF R_first Suc.IH [OF 2]] show ?thesis .
  qed
qed (simp add: R_refl)

lemma R_ClearTo:
  assumes "ClearTo pb s = Some pb'"
  shows "R pb pb'"
proof (cases "is_cleared_to_first_seq_num pb \<and> AheadOf16 (first_seq_num pb) s \<or> \<not> first_packet_received pb")
  case True
  with assms show ?thesis by (auto simp: ClearTo_def R_refl split: if_splits)
next
  case False
  then obtain x a r where x: "clear_to_loop (min (unat (ForwardDiff (first_seq_num pb) (s + 1))) (pb_size pb)) (s + 1) pb = Some x"
    "upper_bound id (missing_packets x) (s + 1) = Some (a, r)"
    and e: "pb' = x\<lparr>first_seq_num := s + 1, is_cleared_to_first_seq_num := True,
      missing_packets := (if a \<noteq> [] then last a # r else missing_packets x)\<rparr>"
    using assms by (auto simp: ClearTo_def bind_eq_Some_conv Let_def)
  have "(if a \<noteq> [] then last a # r else missing_packets x) = drop (length a - 1) (missing_packets x)"
    using upper_bound_append [OF x(2)] by (cases a rule: rev_cases) auto
  moreover have "R x (x\<lparr>first_seq_num := s + 1, is_cleared_to_first_seq_num := True,
      missing_packets := drop (length a - 1) (missing_packets x)\<rparr>)"
  proof -
    have "R (x\<lparr>first_seq_num := s + 1, is_cleared_to_first_seq_num := True\<rparr>)
        (x\<lparr>first_seq_num := s + 1, is_cleared_to_first_seq_num := True,
           missing_packets := drop (length a - 1) (missing_packets x)\<rparr>)"
      using R_missing [of "x\<lparr>first_seq_num := s + 1, is_cleared_to_first_seq_num := True\<rparr>" "length a - 1"] by simp
    then show ?thesis by (rule R_trans [OF R_trans [OF R_first R_cleared]])
  qed
  ultimately show ?thesis using R_trans [OF R_clear_to [OF x(1)]] e by simp
qed

lemma R_clear_slots: "R pb (clear_slots n pb)"
  by (induction n) (auto simp: R_refl intro: R_trans R_free)

lemma R_clear_interval: "clear_interval_loop n s pb = Some pb' \<Longrightarrow> R pb pb'"
proof (induction n arbitrary: s pb)
  case (Suc n)
  then have "clear_interval_loop n (s + 1) (free_slot (slot pb s) pb) = Some pb'"
    by (auto simp: bind_eq_Some_conv dcheck_bind_Some Let_def)
  then show ?case using Suc.IH R_trans [OF R_free] by blast
qed (simp add: R_refl)

lemma R_ClearInterval: "ClearInterval pb s t = Some pb' \<Longrightarrow> R pb pb'"
  by (auto simp: ClearInterval_def dcheck_bind_Some Let_def dest: R_clear_interval)

lemma R_scan_back: "scan_back n h ts pb s = Some (pb', s', go) \<Longrightarrow> R pb pb'"
proof (induction n arbitrary: pb s)
  case (Suc n)
  then consider "pb' = mark_created True (sc_start_index s) pb"
    | x where "scan_back n h ts (mark_created True (sc_start_index s) pb) x = Some (pb', s', go)"
    by (auto simp: bind_eq_Some_conv Let_def split: if_splits prod.splits)
  then show ?case
  proof cases
    case (2 x)
    then show ?thesis using Suc.IH R_trans [OF R_mark] by blast
  qed (simp add: R_mark)
qed simp

lemma R_unmark: "unmark_loop n i stop pb = Some pb' \<Longrightarrow> R pb pb'"
proof (induction n arbitrary: i pb)
  case (Suc n)
  show ?case
  proof (cases "i = stop")
    case False
    then have "unmark_loop n ((i + 1) mod pb_size pb) stop (mark_created False i pb) = Some pb'"
      using Suc.prems by (auto simp: bind_eq_Some_conv)
    then show ?thesis using Suc.IH R_trans [OF R_mark] by blast
  qed (use Suc.prems in \<open>simp add: R_refl\<close>)
qed (simp add: R_refl split: if_splits)

lemma R_h264_frame: "h264_frame pb i s = Some (pb', go) \<Longrightarrow> R pb pb'"
  unfolding h264_frame_def
  by (auto simp: bind_eq_Some_conv dcheck_bind_Some Let_def dest!: R_unmark split: if_splits
      intro: R_trans [OF R_frame_type] R_frame_type)

lemma R_create_frame:
  assumes "create_frame pb q s = Some (pb', fr)"
  shows "R pb pb'"
proof -
  obtain before rest where u: "upper_bound id (missing_packets pb) q = Some (before, rest)"
    using assms by (cases "upper_bound id (missing_packets pb) q") (auto simp: create_frame_def)
  let ?pb = "pb\<lparr>missing_packets := rest\<rparr>"
  have "\<exists>x. ClearInterval ?pb (sc_start_seq_num s) q = Some x \<and> x = pb'"
  proof (cases "ClearInterval ?pb (sc_start_seq_num s) q")
    case None
    with assms u show ?thesis
      by (cases "GetPacket ?pb (sc_start_seq_num s) \<bind> id"; cases "GetPacket ?pb q \<bind> id";
          cases "GetEncodedImageBuffer ?pb (sc_frame_size s) (sc_start_seq_num s) q")
        (simp_all add: create_frame_def Let_def del: bind_assoc)
  next
    case (Some x)
    with assms u show ?thesis
      by (cases "GetPacket ?pb (sc_start_seq_num s) \<bind> id"; cases "GetPacket ?pb q \<bind> id";
          cases "GetEncodedImageBuffer ?pb (sc_frame_size s) (sc_start_seq_num s) q")
        (simp_all add: create_frame_def Let_def del: bind_assoc)
  qed
  then have "R ?pb pb'" using R_ClearInterval by blast
  moreover have "rest = drop (length before) (missing_packets pb)" using upper_bound_append [OF u] by simp
  then have "R pb ?pb" using R_missing by simp
  ultimately show ?thesis by (rule R_trans [rotated])
qed

lemma R_frame_at:
  assumes "frame_at pb q = Some (pb', frs, go)"
  shows "R pb pb'"
  using assms
proof (rule frame_at_cases)
  fix p x s g
  assume x: "scan_back (pb_size pb) (pk_codec p = kVideoCodecH264) (pk_timestamp p) pb
      (scan_init p q (slot pb q)) = Some (x, s, g)"
    and c: "pb' = x \<and> frs = [] \<or> (\<exists>y. (y = x \<or> (\<exists>b. h264_frame x (slot pb q) s = Some (y, b))) \<and>
      (pb' = y \<and> frs = [] \<or> (\<exists>fr. create_frame y q s = Some (pb', fr) \<and> frs = [fr])))"
  have k: "R pb x" by (rule R_scan_back [OF x])
  then have "R pb y" if "y = x \<or> (\<exists>b. h264_frame x (slot pb q) s = Some (y, b))" for y
    using that R_trans [OF k R_h264_frame] by blast
  with c k R_create_frame R_trans show "R pb pb'" by blast
qed

lemma R_find_loop: "find_frames_loop n pb q = Some (pb', frs) \<Longrightarrow> R pb pb'"
proof (induction n arbitrary: pb q frs)
  case (Suc n)
  from Suc.prems show ?case
  proof (cases rule: find_loop_cases)
    case (2 x fs)
    then have "R (set_continuous (slot pb q) pb) x" using R_frame_at R_refl by blast
    then have "R pb x" by (rule R_trans [OF R_continuous])
    then show ?thesis using 2(2) Suc.IH R_trans by blast
  next
    case 3
    then show ?thesis using R_trans [OF R_continuous R_frame_at] by blast
  qed (simp add: R_refl)
qed (simp add: R_refl)

lemma R_FindFrames: "FindFrames pb q = Some (pb', frs) \<Longrightarrow> R pb pb'"
  unfolding FindFrames_def by (rule R_find_loop)

end

subsection \<open>Slots\<close>

text \<open>A buffer of \<open>2 ^ a\<close> slots that may grow to \<open>2 ^ b\<close>, at most half as many as there are sequence numbers. Both vectors
  agree on the number in a slot, and a used slot is the one its number belongs to.\<close>

definition pb_ok :: "'x packet_buffer \<Rightarrow> bool" where
  "pb_ok pb \<longleftrightarrow> (\<exists>a b. pb_size pb = 2 ^ a \<and> pb_max_size pb = 2 ^ b \<and> a \<le> b \<and> b \<le> 15) \<and>
     length (data_buffer pb) = pb_size pb \<and> length (sequence_buffer pb) = pb_size pb \<and>
     (\<forall>i < pb_size pb. pk_seqNum (data_buffer pb ! i) = ci_seq_num (sequence_buffer pb ! i) \<and>
        (used (sequence_buffer pb ! i) \<longrightarrow> slot pb (ci_seq_num (sequence_buffer pb ! i)) = i))"

definition payload_of :: "'x vcm_packet \<Rightarrow> bytes option \<times> nat" where
  "payload_of p = (pk_dataPtr p, pk_sizeBytes p)"

definition keeps_slots :: "'x packet_buffer \<Rightarrow> 'x packet_buffer \<Rightarrow> bool" where
  "keeps_slots pb pb' \<longleftrightarrow> pb_size pb' = pb_size pb \<and> pb_max_size pb' = pb_max_size pb \<and>
     length (data_buffer pb') = length (data_buffer pb) \<and>
     length (sequence_buffer pb') = length (sequence_buffer pb) \<and>
     (\<forall>i < length (sequence_buffer pb).
        ci_seq_num (sequence_buffer pb' ! i) = ci_seq_num (sequence_buffer pb ! i) \<and>
        (used (sequence_buffer pb' ! i) \<longrightarrow> used (sequence_buffer pb ! i) \<and>
           payload_of (data_buffer pb' ! i) = payload_of (data_buffer pb ! i))) \<and>
     (\<forall>i < length (data_buffer pb). pk_seqNum (data_buffer pb' ! i) = pk_seqNum (data_buffer pb ! i)) \<and>
     timestamps_history_set pb' = timestamps_history_set pb \<and>
     timestamps_history_queue pb' = timestamps_history_queue pb \<and>
     unique_frames_seen pb' = unique_frames_seen pb"

lemma pb_ok_size: "pb_ok pb \<Longrightarrow> 0 < pb_size pb"
  by (auto simp: pb_ok_def)

lemma pb_ok_slot: "pb_ok pb \<Longrightarrow> slot pb s < pb_size pb"
  by (drule pb_ok_size) (simp add: slot_def)

lemma keeps_slots_trans: "keeps_slots a b \<Longrightarrow> keeps_slots b c \<Longrightarrow> keeps_slots a c"
  unfolding keeps_slots_def by (elim conjE) simp

lemma nth_update_field: "f x = f (xs ! i) \<Longrightarrow> f (xs[i := x] ! j) = f (xs ! j)"
  by (cases "i < length xs"; cases "i = j") (simp_all add: list_update_beyond)

lemma freed_slot_fields:
  "pk_seqNum (ds[i := (ds ! i)\<lparr>pk_dataPtr := None\<rparr>] ! j) = pk_seqNum (ds ! j)"
  "ci_seq_num (cs[i := (cs ! i)\<lparr>used := False\<rparr>] ! j) = ci_seq_num (cs ! j)"
  by (rule nth_update_field, simp)+

lemma freed_slot_used:
  "j < length cs \<Longrightarrow> used (cs[i := (cs ! i)\<lparr>used := False\<rparr>] ! j) \<longleftrightarrow> i \<noteq> j \<and> used (cs ! j)"
  by (cases "i = j") simp_all

lemma keeps_slots_free: "keeps_slots pb (free_slot i pb)"
  by (simp add: keeps_slots_def free_slot_def freed_slot_fields freed_slot_used)

lemma keeps_slots_flag:
  assumes "\<And>c. ci_seq_num (f c) = ci_seq_num c" "\<And>c. used (f c) = used c"
  shows "keeps_slots pb (pb\<lparr>sequence_buffer := (sequence_buffer pb)[i := f (sequence_buffer pb ! i)]\<rparr>)"
proof -
  let ?cs = "(sequence_buffer pb)[i := f (sequence_buffer pb ! i)]"
  have "ci_seq_num (?cs ! j) = ci_seq_num (sequence_buffer pb ! j)" "used (?cs ! j) = used (sequence_buffer pb ! j)" for j
    by (rule nth_update_field, rule assms)+
  then show ?thesis by (simp add: keeps_slots_def)
qed

lemma keeps_slots_frame_type: "keeps_slots pb (set_frame_type i k pb)"
proof -
  let ?ds = "(data_buffer pb)[i := (data_buffer pb ! i)\<lparr>pk_frame_type := k\<rparr>]"
  have "pk_seqNum (?ds ! j) = pk_seqNum (data_buffer pb ! j)" "payload_of (?ds ! j) = payload_of (data_buffer pb ! j)" for j
    by (rule nth_update_field, simp add: payload_of_def)+
  then show ?thesis by (simp add: keeps_slots_def set_frame_type_def)
qed

interpretation sl: pb_frame keeps_slots
proof
  show "keeps_slots pb (mark_created m i pb)" for pb :: "'a packet_buffer" and m i
    unfolding mark_created_def by (rule keeps_slots_flag) simp_all
  show "keeps_slots pb (set_continuous i pb)" for pb :: "'a packet_buffer" and i
    unfolding set_continuous_def by (rule keeps_slots_flag) simp_all
qed (rule keeps_slots_trans keeps_slots_free keeps_slots_frame_type, assumption+ |
     rule keeps_slots_free keeps_slots_frame_type | simp add: keeps_slots_def)+

lemma keeps_fields [simp]:
  "keeps_slots pb (pb'\<lparr>first_seq_num := x1\<rparr>) = keeps_slots pb pb'"
  "keeps_slots pb (pb'\<lparr>missing_packets := x2\<rparr>) = keeps_slots pb pb'"
  "keeps_slots pb (pb'\<lparr>newest_inserted_seq_num := x3\<rparr>) = keeps_slots pb pb'"
  "keeps_slots pb (pb'\<lparr>is_cleared_to_first_seq_num := x4\<rparr>) = keeps_slots pb pb'"
  "keeps_slots pb (pb'\<lparr>first_packet_received := x5\<rparr>) = keeps_slots pb pb'"
  "keeps_slots pb (pb'\<lparr>last_received_packet_ms := x6\<rparr>) = keeps_slots pb pb'"
  "keeps_slots pb (pb'\<lparr>last_received_keyframe_packet_ms := x7\<rparr>) = keeps_slots pb pb'"
  by (simp_all add: keeps_slots_def)

lemma keeps_Clear: "keeps_slots pb (PacketBuffer_Clear pb)"
  by (simp add: PacketBuffer_Clear_def sl.R_clear_slots)

lemma keeps_UpdateMissing: "UpdateMissingPackets pb q = Some pb' \<Longrightarrow> keeps_slots pb pb'"
  by (auto simp: UpdateMissingPackets_def bind_eq_Some_conv Let_def sl.R_refl split: if_splits)

lemma keeps_ok:
  assumes "keeps_slots pb pb'" "pb_ok pb"
  shows "pb_ok pb'"
  using assms unfolding pb_ok_def keeps_slots_def slot_def by (elim conjE) simp

subsection \<open>Missing numbers\<close>

definition prunes :: "'x packet_buffer \<Rightarrow> 'x packet_buffer \<Rightarrow> bool" where
  "prunes pb pb' \<longleftrightarrow> newest_inserted_seq_num pb' = newest_inserted_seq_num pb \<and>
     (\<exists>j. missing_packets pb' = drop j (missing_packets pb))"

lemma prunes_same: "newest_inserted_seq_num pb' = newest_inserted_seq_num pb \<Longrightarrow>
    missing_packets pb' = missing_packets pb \<Longrightarrow> prunes pb pb'"
  by (auto simp: prunes_def intro: exI [of _ 0])

interpretation mp: pb_frame prunes
proof
  show "prunes a c" if "prunes a b" "prunes b c" for a b c :: "'a packet_buffer"
    using that by (auto simp: prunes_def)
  show "prunes pb (pb\<lparr>missing_packets := drop j (missing_packets pb)\<rparr>)" for pb :: "'a packet_buffer" and j
    by (auto simp: prunes_def)
qed (auto intro!: prunes_same simp: free_slot_def mark_created_def set_continuous_def set_frame_type_def)

end
