(* ===== verification/Packet_Lookup.thy ===== *)
theory Packet_Lookup
  imports Packet_Slots
begin

text \<open>
  \<open>PacketBuffer\<close> as a container: which packet a number finds (\<open>held\<close>), that growing the buffer loses
  none, and what storing a packet changes.
\<close>

definition held :: "'x packet_buffer \<Rightarrow> u16 \<Rightarrow> 'x vcm_packet option" where
  "held pb s =
     (let c = sequence_buffer pb ! slot pb s
      in if used c \<and> ci_seq_num c = s then Some (data_buffer pb ! slot pb s) else None)"

text \<open>The flags kept with it.\<close>

definition info :: "'x packet_buffer \<Rightarrow> u16 \<Rightarrow> continuity_info option" where
  "info pb s =
     (let c = sequence_buffer pb ! slot pb s in if used c \<and> ci_seq_num c = s then Some c else None)"

lemma vget_slot:
  assumes "pb_ok pb"
  shows "vget (sequence_buffer pb) (slot pb s) = Some (sequence_buffer pb ! slot pb s)"
    "vget (data_buffer pb) (slot pb s) = Some (data_buffer pb ! slot pb s)"
  using pb_ok_slot [OF assms, of s] assms by (simp_all add: vget_def pb_ok_def)

lemma GetPacket_held: "pb_ok pb \<Longrightarrow> GetPacket pb s = Some (held pb s)"
  by (auto simp: GetPacket_def held_def vget_slot Let_def)

subsection \<open>Growing\<close>

lemma expand_loop_length:
  "expand_loop n slots sb db = (sb', db') \<Longrightarrow> length sb' = length sb \<and> length db' = length db"
  by (induction n slots sb db rule: expand_loop.induct) (auto simp: Let_def split: if_splits)

abbreviation index_in :: "nat \<Rightarrow> continuity_info \<Rightarrow> nat" where
  "index_in n c \<equiv> unat (ci_seq_num c) mod n"

text \<open>A slot of the new vectors has the used element that belongs there, if any; no two do.\<close>

lemma expand_loop_nth:
  assumes "distinct (map (\<lambda>x. index_in n (fst x)) (filter (\<lambda>x. used (fst x)) slots))"
    and "expand_loop n slots sb db = (sb', db')" "i < length sb" "length db = length sb"
  shows "(\<forall>(c, p) \<in> set slots. used c \<longrightarrow> index_in n c = i \<longrightarrow> sb' ! i = c \<and> db' ! i = p) \<and>
    ((\<forall>(c, p) \<in> set slots. used c \<longrightarrow> index_in n c \<noteq> i) \<longrightarrow> sb' ! i = sb ! i \<and> db' ! i = db ! i)"
  using assms
proof (induction n slots sb db rule: expand_loop.induct)
  case (2 n c p slots sb db)
  show ?case
  proof (cases "used c")
    case False
    then show ?thesis using 2 by simp
  next
    case True
    let ?k = "index_in n c"
    have d: "\<forall>x \<in> set slots. used (fst x) \<longrightarrow> index_in n (fst x) \<noteq> ?k"
      "distinct (map (\<lambda>x. index_in n (fst x)) (filter (\<lambda>x. used (fst x)) slots))"
      using 2(3) True by (auto simp: image_iff)
    have IH: "(\<forall>(c, p) \<in> set slots. used c \<longrightarrow> index_in n c = i \<longrightarrow> sb' ! i = c \<and> db' ! i = p) \<and>
      ((\<forall>(c, p) \<in> set slots. used c \<longrightarrow> index_in n c \<noteq> i) \<longrightarrow>
        sb' ! i = sb[?k := c] ! i \<and> db' ! i = db[?k := p] ! i)"
      using 2(1) [OF True refl d(2)] 2(4-6) True by (simp add: Let_def)
    show ?thesis
    proof (cases "?k = i")
      case True
      then have "\<forall>(c', p') \<in> set slots. used c' \<longrightarrow> index_in n c' \<noteq> i" using d(1) by auto
      then show ?thesis using IH True \<open>used c\<close> 2(5,6) by auto
    next
      case False
      then show ?thesis using IH by auto
    qed
  qed
qed simp

lemma pow2_step:
  assumes "pb_ok pb" "pb_size pb \<noteq> pb_max_size pb"
  shows "min (pb_max_size pb) (2 * pb_size pb) = 2 * pb_size pb"
    and "\<exists>a b. 2 * pb_size pb = 2 ^ a \<and> pb_max_size pb = 2 ^ b \<and> a \<le> b \<and> b \<le> 15"
proof -
  obtain a b where ab: "pb_size pb = 2 ^ a" "pb_max_size pb = 2 ^ b" "a \<le> b" "b \<le> 15"
    using assms(1) by (auto simp: pb_ok_def)
  with assms(2) have lt: "Suc a \<le> b" by (cases "a = b") auto
  then have "(2 :: nat) ^ Suc a \<le> 2 ^ b" by (rule power_increasing) simp
  with ab show "min (pb_max_size pb) (2 * pb_size pb) = 2 * pb_size pb" by simp
  show "\<exists>a b. 2 * pb_size pb = 2 ^ a \<and> pb_max_size pb = 2 ^ b \<and> a \<le> b \<and> b \<le> 15"
    using ab lt by (intro exI [of _ "Suc a"] exI [of _ b]) simp
qed

lemma distinct_by_position:
  assumes "\<And>i. i < length xs \<Longrightarrow> P (xs ! i) \<Longrightarrow> g (f (xs ! i)) = i + (k :: nat)"
  shows "distinct (map f (filter P xs))"
  using assms
proof (induction xs arbitrary: k)
  case (Cons x xs)
  have t: "g (f (xs ! i)) = i + Suc k" if "i < length xs" "P (xs ! i)" for i
    using Cons.prems [of "Suc i"] that by simp
  then have "distinct (map f (filter P xs))" by (rule Cons.IH)
  moreover have "f x \<notin> f ` {y \<in> set xs. P y}" if "P x"
  proof
    assume "f x \<in> f ` {y \<in> set xs. P y}"
    then obtain i where "i < length xs" "P (xs ! i)" "f x = f (xs ! i)" by (auto simp: in_set_conv_nth)
    with t [of i] Cons.prems [of 0] that show False by simp
  qed
  ultimately show ?case by simp
qed simp

lemma used_index_distinct:
  assumes "pb_ok pb" "pb_size pb dvd n"
  shows "distinct (map (\<lambda>x. index_in n (fst x))
    (filter (\<lambda>x. used (fst x)) (zip (sequence_buffer pb) (data_buffer pb))))"
proof (rule distinct_by_position [of _ _ "\<lambda>m. m mod pb_size pb" _ 0])
  fix i assume i: "i < length (zip (sequence_buffer pb) (data_buffer pb))"
    and u: "used (fst (zip (sequence_buffer pb) (data_buffer pb) ! i))"
  from i have "i < pb_size pb" "fst (zip (sequence_buffer pb) (data_buffer pb) ! i) = sequence_buffer pb ! i"
    using assms(1) by (simp_all add: pb_ok_def)
  with u assms show "index_in n (fst (zip (sequence_buffer pb) (data_buffer pb) ! i)) mod pb_size pb = i + 0"
    by (simp add: pb_ok_def slot_def mod_mod_cancel)
qed

text \<open>The new vectors, slot by slot.\<close>

lemma expand_slots:
  assumes "pb_ok pb" "pb_size pb \<noteq> pb_max_size pb" "ExpandBufferSize blank pb = (pb', grown)"
  shows "grown \<and> pb_size pb' = 2 * pb_size pb \<and> pb_max_size pb' = pb_max_size pb \<and>
    length (sequence_buffer pb') = 2 * pb_size pb \<and> length (data_buffer pb') = 2 * pb_size pb"
    and "j < pb_size pb \<Longrightarrow> used (sequence_buffer pb ! j) \<Longrightarrow>
      sequence_buffer pb' ! index_in (2 * pb_size pb) (sequence_buffer pb ! j) = sequence_buffer pb ! j \<and>
      data_buffer pb' ! index_in (2 * pb_size pb) (sequence_buffer pb ! j) = data_buffer pb ! j"
    and "i < 2 * pb_size pb \<Longrightarrow>
      (\<exists>j < pb_size pb. used (sequence_buffer pb ! j) \<and> index_in (2 * pb_size pb) (sequence_buffer pb ! j) = i) \<or>
      sequence_buffer pb' ! i = ContinuityInfo_init \<and> data_buffer pb' ! i = blank"
proof -
  let ?n = "2 * pb_size pb" and ?z = "zip (sequence_buffer pb) (data_buffer pb)"
  obtain sb db where e: "expand_loop ?n ?z (replicate ?n ContinuityInfo_init) (replicate ?n blank) = (sb, db)"
    by fastforce
  have p: "pb' = pb\<lparr>pb_size := ?n, sequence_buffer := sb, data_buffer := db\<rparr>" "grown"
    using assms(2,3) e pow2_step(1) [OF assms(1,2)] by (auto simp: ExpandBufferSize_def)
  have l: "length sb = ?n" "length db = ?n" using expand_loop_length [OF e] by simp_all
  show "grown \<and> pb_size pb' = 2 * pb_size pb \<and> pb_max_size pb' = pb_max_size pb \<and>
    length (sequence_buffer pb') = 2 * pb_size pb \<and> length (data_buffer pb') = 2 * pb_size pb"
    using p l by simp
  have z: "length (sequence_buffer pb) = pb_size pb" "length (data_buffer pb) = pb_size pb"
    using assms(1) by (simp_all add: pb_ok_def)
  have d: "distinct (map (\<lambda>x. index_in ?n (fst x)) (filter (\<lambda>x. used (fst x)) ?z))"
    by (rule used_index_distinct [OF assms(1)]) simp
  note nth = expand_loop_nth [OF d e, simplified]
  show "sequence_buffer pb' ! index_in ?n (sequence_buffer pb ! j) = sequence_buffer pb ! j \<and>
      data_buffer pb' ! index_in ?n (sequence_buffer pb ! j) = data_buffer pb ! j"
    if "j < pb_size pb" "used (sequence_buffer pb ! j)" for j
  proof -
    have "(sequence_buffer pb ! j, data_buffer pb ! j) \<in> set ?z" using that z by (auto simp: set_zip)
    moreover have "index_in ?n (sequence_buffer pb ! j) < ?n" using that by simp
    ultimately show ?thesis using nth [of "index_in ?n (sequence_buffer pb ! j)"] that p by fastforce
  qed
  show "(\<exists>j < pb_size pb. used (sequence_buffer pb ! j) \<and> index_in ?n (sequence_buffer pb ! j) = i) \<or>
      sequence_buffer pb' ! i = ContinuityInfo_init \<and> data_buffer pb' ! i = blank" if i: "i < ?n" for i
  proof (cases "\<exists>j < pb_size pb. used (sequence_buffer pb ! j) \<and> index_in ?n (sequence_buffer pb ! j) = i")
    case False
    then have "\<forall>(c, p) \<in> set ?z. used c \<longrightarrow> index_in ?n c \<noteq> i" using z by (auto simp: set_zip)
    then show ?thesis using nth [OF i] i p by simp
  qed simp
qed

lemma ExpandBufferSize_ok:
  assumes "pb_ok pb" "pk_seqNum blank = 0" "ExpandBufferSize blank pb = (pb', grown)"
  shows "pb_ok pb'" and "held pb' s = held pb s" and "info pb' s = info pb s"
proof -
  have "pb_ok pb' \<and> held pb' s = held pb s \<and> info pb' s = info pb s"
  proof (cases "pb_size pb = pb_max_size pb")
    case True
    with assms show ?thesis by (simp add: ExpandBufferSize_def)
  next
    case False
    let ?n = "2 * pb_size pb"
    note E = expand_slots [OF assms(1) False assms(3)]
    have slot: "slot pb' k = unat k mod ?n" for k using E(1) by (simp add: slot_def)
    have ok: "pk_seqNum (data_buffer pb' ! i) = ci_seq_num (sequence_buffer pb' ! i) \<and>
        (used (sequence_buffer pb' ! i) \<longrightarrow> slot pb' (ci_seq_num (sequence_buffer pb' ! i)) = i)" if i: "i < ?n" for i
    proof -
      consider j where "j < pb_size pb" "used (sequence_buffer pb ! j)" "index_in ?n (sequence_buffer pb ! j) = i"
        | "sequence_buffer pb' ! i = ContinuityInfo_init" "data_buffer pb' ! i = blank" using E(3) [OF i] by blast
      then show ?thesis
      proof cases
        case (1 j)
        then show ?thesis using E(2) [of j] assms(1) slot by (auto simp: pb_ok_def)
      qed (simp add: assms(2) ContinuityInfo_init_def)
    qed
    have "pb_ok pb'" using ok E(1) pow2_step(2) [OF assms(1) False] by (simp add: pb_ok_def)
    moreover have "held pb' s = held pb s \<and> info pb' s = info pb s"
    proof (cases "used (sequence_buffer pb ! slot pb s) \<and> ci_seq_num (sequence_buffer pb ! slot pb s) = s")
      case True
      then show ?thesis using E(2) [of "slot pb s"] pb_ok_slot [OF assms(1), of s] slot [of s]
        by (simp add: held_def info_def Let_def)
    next
      case no: False
      have "unat s mod ?n < ?n" using pb_ok_size [OF assms(1)] by simp
      from E(3) [OF this] have "\<not> (used (sequence_buffer pb' ! (unat s mod ?n)) \<and>
          ci_seq_num (sequence_buffer pb' ! (unat s mod ?n)) = s)"
      proof
        assume "\<exists>j < pb_size pb. used (sequence_buffer pb ! j) \<and> index_in ?n (sequence_buffer pb ! j) = unat s mod ?n"
        then obtain j where j: "j < pb_size pb" "used (sequence_buffer pb ! j)"
          "index_in ?n (sequence_buffer pb ! j) = unat s mod ?n" by blast
        then have "sequence_buffer pb' ! (unat s mod ?n) = sequence_buffer pb ! j" using E(2) [OF j(1,2)] by simp
        moreover have "slot pb (ci_seq_num (sequence_buffer pb ! j)) = j" using assms(1) j by (simp add: pb_ok_def)
        ultimately show ?thesis using no j(2) by auto
      qed (simp add: ContinuityInfo_init_def)
      then show ?thesis using no slot [of s] by (auto simp: held_def info_def Let_def)
    qed
    ultimately show ?thesis by simp
  qed
  then show "pb_ok pb'" "held pb' s = held pb s" "info pb' s = info pb s" by simp_all
qed

text \<open>The state besides the slots.\<close>

definition same_log :: "'x packet_buffer \<Rightarrow> 'x packet_buffer \<Rightarrow> bool" where
  "same_log pb pb' \<longleftrightarrow> pb_max_size pb' = pb_max_size pb \<and>
     missing_packets pb' = missing_packets pb \<and>
     newest_inserted_seq_num pb' = newest_inserted_seq_num pb \<and>
     timestamps_history_set pb' = timestamps_history_set pb \<and>
     timestamps_history_queue pb' = timestamps_history_queue pb \<and>
     unique_frames_seen pb' = unique_frames_seen pb"

lemma same_log_refl [simp]: "same_log pb pb"
  by (simp add: same_log_def)

lemma same_log_trans: "same_log a b \<Longrightarrow> same_log b c \<Longrightarrow> same_log a c"
  by (simp add: same_log_def)

lemma ExpandBufferSize_log: "ExpandBufferSize blank pb = (pb', grown) \<Longrightarrow> same_log pb pb'"
  by (auto simp: ExpandBufferSize_def same_log_def Let_def split: if_splits prod.splits)

text \<open>The loop that expands until the slot is free ends.\<close>

lemma expand_while_ok:
  assumes "pb_ok pb" "pk_seqNum blank = 0" "pb_max_size pb - pb_size pb < n"
    and "used (sequence_buffer pb ! slot pb s)"
  shows "\<exists>pb'. expand_while n blank pb s = Some pb' \<and> pb_ok pb' \<and> (\<forall>k. held pb' k = held pb k \<and> info pb' k = info pb k) \<and>
    same_log pb pb' \<and> (used (sequence_buffer pb' ! slot pb' s) \<longrightarrow> pb_size pb' = pb_max_size pb')"
  using assms
proof (induction n arbitrary: pb)
  case (Suc n)
  obtain x grown where x: "ExpandBufferSize blank pb = (x, grown)" by fastforce
  have ok: "pb_ok x" "\<And>k. held x k = held pb k \<and> info x k = info pb k" "same_log pb x"
    using ExpandBufferSize_ok [OF Suc.prems(1,2) x] ExpandBufferSize_log [OF x] by simp_all
  show ?case
  proof (cases "pb_size pb = pb_max_size pb")
    case True
    then have "x = pb" "\<not> grown" using x by (simp_all add: ExpandBufferSize_def)
    with True x Suc.prems show ?thesis by (intro exI [of _ pb]) simp
  next
    case False
    have g: "grown" "pb_size x = 2 * pb_size pb" "pb_max_size x = pb_max_size pb"
      using expand_slots(1) [OF Suc.prems(1) False x] by simp_all
    show ?thesis
    proof (cases "used (sequence_buffer x ! slot x s)")
      case True
      have "pb_size pb \<le> pb_max_size pb" using Suc.prems(1) by (auto simp: pb_ok_def)
      then have "pb_max_size x - pb_size x < n"
        using g False pb_ok_size [OF Suc.prems(1)] Suc.prems(3) by linarith
      from Suc.IH [OF ok(1) Suc.prems(2) this True] obtain y where y: "expand_while n blank x s = Some y" "pb_ok y"
        "\<forall>k. held y k = held x k \<and> info y k = info x k" "same_log x y"
        "used (sequence_buffer y ! slot y s) \<longrightarrow> pb_size y = pb_max_size y" by blast
      have "expand_while (Suc n) blank pb s = Some y"
        using x g(1) True y(1) by (simp add: vget_slot [OF ok(1)])
      with y ok same_log_trans [OF ok(3) y(4)] show ?thesis by (intro exI [of _ y]) simp
    next
      case free: False
      then have "expand_while (Suc n) blank pb s = Some x"
        using x g(1) by (simp add: vget_slot [OF ok(1)])
      with ok free show ?thesis by (intro exI [of _ x]) simp
    qed
  qed
qed simp

subsection \<open>Storing\<close>

lemma store_packet_ok:
  assumes "pb_ok pb"
  shows "pb_ok (store_packet pb p)"
proof -
  let ?i = "slot pb (pk_seqNum p)"
  have "?i < pb_size pb" by (rule pb_ok_slot [OF assms])
  then show ?thesis using assms
    by (auto simp: pb_ok_def store_packet_def slot_def Let_def nth_list_update)
qed

lemma held_store_packet:
  assumes "pb_ok pb" "\<not> used (sequence_buffer pb ! slot pb (pk_seqNum p))"
  shows "held (store_packet pb p) s = (if s = pk_seqNum p then Some p else held pb s)"
    and "info (store_packet pb p) s = (if s = pk_seqNum p then
      Some \<lparr>ci_seq_num = s, frame_begin = pk_first_in_frame p, frame_end = pk_last_in_frame p, used = True,
        continuous = False, frame_created = False\<rparr> else info pb s)"
proof -
  let ?i = "slot pb (pk_seqNum p)"
  have i: "?i < pb_size pb" by (rule pb_ok_slot [OF assms(1)])
  have l: "length (data_buffer pb) = pb_size pb" "length (sequence_buffer pb) = pb_size pb"
    using assms(1) by (simp_all add: pb_ok_def)
  have s: "slot (store_packet pb p) s = slot pb s" by (simp add: slot_def store_packet_def Let_def)
  show "held (store_packet pb p) s = (if s = pk_seqNum p then Some p else held pb s)"
    using i l s assms(2) by (cases "slot pb s = ?i") (auto simp: held_def Let_def store_packet_def)
  show "info (store_packet pb p) s = (if s = pk_seqNum p then
      Some \<lparr>ci_seq_num = s, frame_begin = pk_first_in_frame p, frame_end = pk_last_in_frame p, used = True,
        continuous = False, frame_created = False\<rparr> else info pb s)"
    using i l s assms(2) by (cases "slot pb s = ?i") (auto simp: info_def Let_def store_packet_def)
qed

lemma store_packet_log: "same_log pb (store_packet pb p)"
  by (simp add: same_log_def store_packet_def Let_def)

end
