(* ===== verification/Packet_Missing.thy ===== *)
theory Packet_Missing
  imports Packet_Lookup
begin

text \<open>
  \<open>PacketBuffer\<close>: the list of missing numbers (\<open>UpdateMissingPackets\<close>) and the history of timestamps
  (\<open>OnTimestampReceived\<close>), both bounded by 1000 entries.
\<close>

subsection \<open>Missing numbers\<close>

definition missing_ok :: "'x packet_buffer \<Rightarrow> bool" where
  "missing_ok pb \<longleftrightarrow>
     (case newest_inserted_seq_num pb of
        None \<Rightarrow> missing_packets pb = []
      | Some n \<Rightarrow> windowed id (n - 1000) (missing_packets pb) \<and>
                  (\<forall>k \<in> set (missing_packets pb). pos (n - 1000) k < 1000))"

lemma pos_1000: "pos (n - 1000) n = 1000"
  by (simp add: pos_def)

lemma missing_ok_length:
  assumes "missing_ok pb"
  shows "length (missing_packets pb) \<le> 1000"
proof (cases "newest_inserted_seq_num pb")
  case (Some n)
  let ?ps = "map (pos (n - 1000)) (missing_packets pb)"
  have w: "windowed id (n - 1000) (missing_packets pb)" "set ?ps \<subseteq> {..<1000}"
    using assms Some by (auto simp: missing_ok_def)
  have "distinct ?ps" using windowed_distinct [OF w(1)] by (simp add: distinct_map inj_on_def)
  then have "length ?ps = card (set ?ps)" by (rule distinct_card [symmetric])
  also have "\<dots> \<le> 1000" using card_mono [OF _ w(2)] by simp
  finally show ?thesis by simp
qed (use assms in \<open>simp add: missing_ok_def\<close>)

lemma AheadOf_window:
  assumes "pos w a < 32768" "pos w b < 32768"
  shows "AheadOf16 a b \<longleftrightarrow> pos w b < pos w a"
  using comp_window [OF assms(2,1)] by (simp add: DescendingSeqNumComp_def)

lemma insert_missing_spec:
  assumes "windowed id w xs" "\<forall>k \<in> set xs. pos w k < pos w cur" "pos w cur + m = pos w s" "pos w s < 32768"
    and "m < fuel"
  shows "insert_missing fuel s cur xs = Some (s, xs @ seq_range cur m) \<and> windowed id w (xs @ seq_range cur m)"
  using assms
proof (induction m arbitrary: fuel cur xs)
  case 0
  then have "pos w cur = pos w s" by linarith
  then have "cur = s" by (simp only: pos_eq_iff)
  then show ?case using 0 by (cases fuel) (simp_all add: AheadOf16_def)
next
  case (Suc m)
  then obtain f where f: "fuel = Suc f" by (cases fuel) auto
  have p: "pos w cur < 32768" "pos w (cur + 1) = pos w cur + 1"
    using Suc.prems pos_Suc [of w cur] by simp_all
  have a: "AheadOf16 s cur" using AheadOf_window [of w s cur] Suc.prems p by simp
  have i: "store_insert id xs cur = Some (xs @ [cur])" "windowed id w (xs @ [cur])"
    using store_insert_last [of id w xs cur] store_assign_last(2) [of id w xs cur] Suc.prems p by simp_all
  have "insert_missing f s (cur + 1) (xs @ [cur]) = Some (s, (xs @ [cur]) @ seq_range (cur + 1) m) \<and>
      windowed id w ((xs @ [cur]) @ seq_range (cur + 1) m)"
    using Suc.prems p f by (intro Suc.IH [OF i(2)]) auto
  then show ?case using a i f by (simp add: id_def)
qed

text \<open>After a newer packet: what has become too old is gone and the gap is added.\<close>

lemma UpdateMissingPackets_ahead:
  assumes "missing_ok pb" "newest_inserted_seq_num pb = Some n" "AheadOf16 s n" "pos n s \<noteq> 32768"
  defines "d \<equiv> pos n s"
  shows "\<exists>ms. ms = filter (\<lambda>k. d \<le> pos (n - 1000) k) (missing_packets pb) @ seq_range (s - of_nat (min d 1000) + 1) (min d 1000 - 1) \<and>
    UpdateMissingPackets pb s = Some (pb\<lparr>newest_inserted_seq_num := Some s, missing_packets := ms\<rparr>) \<and>
    windowed id (s - 1000) ms \<and> (\<forall>k \<in> set ms. pos (s - 1000) k < 1000)"
proof -
  let ?w = "n - 1000" and ?v = "s - 1000"
  let ?old = "filter (\<lambda>k. d \<le> pos ?w k) (missing_packets pb)"
  have d: "0 < d" "d < 32768" using assms(3,4) by (auto simp: AheadOf16_spec ahead_spec_def pos_def d_def unat_gt_0)
  have W: "windowed id ?w (missing_packets pb)" "\<forall>k \<in> set (missing_packets pb). pos ?w k < 1000"
    using assms(1,2) by (simp_all add: missing_ok_def)
  have v: "pos ?w ?v = d" by (simp add: pos_def d_def)
  have erase: "erase_below id (missing_packets pb) ?v = Some ?old"
    using erase_below_window [OF W(1), of ?v] d v by simp
  have old: "windowed id ?v ?old"
    by (rule windowed_forward [OF windowed_filter [OF W(1)]]) (simp add: v)
  have ps: "pos ?v s = 1000" by (rule pos_1000)
  define start where "start = (if AheadOf16 ?v n then ?v else n)"
  have start: "start = s - of_nat (min d 1000)" "pos ?v start = 1000 - min d 1000"
  proof -
    have n: "n = s - of_nat d" by (simp add: d_def pos_def)
    have "AheadOf16 ?v n \<longleftrightarrow> 1000 < d"
    proof (cases "1000 \<le> d")
      case True
      have "pos n ?v = d - 1000" using pos_shift [of ?w n ?v] True v by (simp add: pos_1000)
      then show ?thesis using AheadOf_window [of n ?v n] d True by auto
    next
      case False
      have "pos ?v n = 1000 - d" using pos_shift [of ?w ?v n] False v by (simp add: pos_1000)
      then show ?thesis using AheadOf_window [of ?v ?v n] False by simp
    qed
    then show s: "start = s - of_nat (min d 1000)" using n by (auto simp: start_def min_def)
    show "pos ?v start = 1000 - min d 1000"
    proof (cases "1000 < d")
      case True
      then show ?thesis using s by (simp add: min_def)
    next
      case False
      then have "start = n" using s n by (simp add: min_def)
      moreover have "pos ?v n = 1000 - d" using pos_shift [of ?w ?v n] False v by (simp add: pos_1000)
      ultimately show ?thesis using False by simp
    qed
  qed
  have oldpos: "pos ?v k < pos ?v start + 1" if "k \<in> set ?old" for k
  proof -
    have k: "pos ?w k < 1000" "d \<le> pos ?w k" using that W(2) by auto
    then have "pos ?v k = pos ?w k - d" using pos_shift [of ?w ?v k] v by simp
    then show ?thesis using k start(2) by (auto simp: min_def)
  qed
  have s1: "pos ?v (start + 1) = 1000 - min d 1000 + 1" using pos_Suc [of ?v start] start(2) by simp
  have ins: "insert_missing 65536 s (start + 1) ?old = Some (s, ?old @ seq_range (start + 1) (min d 1000 - 1)) \<and>
      windowed id ?v (?old @ seq_range (start + 1) (min d 1000 - 1))"
    using oldpos s1 start(2) ps d by (intro insert_missing_spec [OF old]) auto
  have "pos ?v k < 1000" if "k \<in> set (?old @ seq_range (start + 1) (min d 1000 - 1))" for k
  proof (cases "k \<in> set ?old")
    case True
    then show ?thesis using oldpos [OF True] start(2) d by simp
  next
    case False
    with that have "k \<in> set (seq_range (start + 1) (min d 1000 - 1))" by auto
    from seq_range_pos [OF this, of ?v] s1 d(1) show ?thesis by (auto simp: min_def split: if_splits)
  qed
  moreover have "UpdateMissingPackets pb s = Some (pb\<lparr>newest_inserted_seq_num := Some s,
      missing_packets := ?old @ seq_range (start + 1) (min d 1000 - 1)\<rparr>)"
    using assms(2,3) erase ins by (simp add: UpdateMissingPackets_def Let_def start_def)
  ultimately show ?thesis using ins start(1) by simp
qed

lemma UpdateMissingPackets_behind:
  assumes "missing_ok pb" "newest_inserted_seq_num pb = Some n" "\<not> AheadOf16 s n"
  shows "UpdateMissingPackets pb s =
    Some (pb\<lparr>newest_inserted_seq_num := Some n, missing_packets := filter (\<lambda>k. k \<noteq> s) (missing_packets pb)\<rparr>)"
proof -
  have "windowed id (n - 1000) (missing_packets pb)" "\<forall>k \<in> set (missing_packets pb). pos (n - 1000) (id k) < pos (n - 1000) n"
    using assms(1,2) by (simp_all add: missing_ok_def pos_1000)
  then obtain v where v: "windowed id v (missing_packets pb)" "pos v s < 32768"
    using window_behind [of id "n - 1000" "missing_packets pb" n s] not_ahead_pos [OF assms(3)]
    by (auto simp: pos_1000)
  show ?thesis using assms(2,3) by (simp add: UpdateMissingPackets_def store_erase_window [OF v])
qed

lemma UpdateMissingPackets_first:
  assumes "missing_ok pb" "newest_inserted_seq_num pb = None"
  shows "UpdateMissingPackets pb s = Some (pb\<lparr>newest_inserted_seq_num := Some s, missing_packets := []\<rparr>)"
  using assms by (simp add: UpdateMissingPackets_def missing_ok_def AheadOf16_def store_erase_def split_key_def)

definition jump_ok :: "'x packet_buffer \<Rightarrow> u16 \<Rightarrow> bool" where
  "jump_ok pb s \<longleftrightarrow> (case newest_inserted_seq_num pb of None \<Rightarrow> True | Some n \<Rightarrow> s - n \<noteq> 0x8000)"

lemma UpdateMissingPackets_ok:
  assumes "missing_ok pb" "jump_ok pb s"
  shows "\<exists>pb'. UpdateMissingPackets pb s = Some pb' \<and> missing_ok pb'"
proof (cases "newest_inserted_seq_num pb")
  case None
  then show ?thesis using UpdateMissingPackets_first [OF assms(1) None, of s] by (simp add: missing_ok_def)
next
  case (Some n)
  show ?thesis
  proof (cases "AheadOf16 s n")
    case True
    have "s - n \<noteq> 0x8000" using assms(2) Some by (simp add: jump_ok_def)
    then have "pos n s \<noteq> 32768"
      using unsigned_word_eqI [of "s - n" "0x8000 :: u16", where ?'a = nat] by (auto simp: pos_def)
    from UpdateMissingPackets_ahead [OF assms(1) Some True this] show ?thesis by (auto simp: missing_ok_def)
  next
    case False
    then show ?thesis using UpdateMissingPackets_behind [OF assms(1) Some False] assms(1) Some
      by (auto simp: missing_ok_def windowed_filter)
  qed
qed

lemma missing_ok_prunes: "prunes pb pb' \<Longrightarrow> missing_ok pb \<Longrightarrow> missing_ok pb'"
  by (auto simp: prunes_def missing_ok_def windowed_drop split: option.splits dest: in_set_dropD)

subsection \<open>The history of timestamps\<close>

definition history_ok :: "'x packet_buffer \<Rightarrow> bool" where
  "history_ok pb \<longleftrightarrow> distinct (timestamps_history_queue pb) \<and> distinct (timestamps_history_set pb) \<and>
     set (timestamps_history_set pb) = set (timestamps_history_queue pb) \<and>
     length (timestamps_history_queue pb) \<le> 1000"

lemma history_same_length:
  "history_ok pb \<Longrightarrow> length (timestamps_history_set pb) = length (timestamps_history_queue pb)"
  by (metis distinct_card history_ok_def)

text \<open>The history is the list of the last 1000 different timestamps.\<close>

definition remember :: "u32 \<Rightarrow> u32 list \<Rightarrow> u32 list" where
  "remember ts q = (if ts \<in> set q then q else drop (length q + 1 - 1000) (q @ [ts]))"

lemma OnTimestampReceived_ok:
  assumes "history_ok pb"
  shows "\<exists>pb'. OnTimestampReceived pb ts = Some pb' \<and> history_ok pb' \<and>
    timestamps_history_queue pb' = remember ts (timestamps_history_queue pb) \<and>
    unique_frames_seen pb' = unique_frames_seen pb +
      (if ts \<in> set (timestamps_history_queue pb) then 0 else 1) \<and>
    pb'\<lparr>timestamps_history_queue := [], timestamps_history_set := [], unique_frames_seen := 0\<rparr> =
      pb\<lparr>timestamps_history_queue := [], timestamps_history_set := [], unique_frames_seen := 0\<rparr>"
proof (cases "ts \<in> set (timestamps_history_queue pb)")
  case True
  with assms show ?thesis by (auto simp: OnTimestampReceived_def history_ok_def remember_def)
next
  case new: False
  let ?q = "timestamps_history_queue pb" and ?s = "timestamps_history_set pb"
  have H: "distinct ?q" "distinct ?s" "set ?s = set ?q" "length ?q \<le> 1000" "length ?s = length ?q"
    using assms history_same_length [OF assms] by (simp_all add: history_ok_def)
  show ?thesis
  proof (cases "length ?q = 1000")
    case True
    then obtain old rest where q: "?q = old # rest" by (cases ?q) auto
    then have "set (filter (\<lambda>t. t \<noteq> old) (ts # ?s)) = set (rest @ [ts])" "distinct (filter (\<lambda>t. t \<noteq> old) (ts # ?s))"
      using H new by auto
    moreover have "remember ts ?q = rest @ [ts]" using new q True by (simp add: remember_def)
    moreover have "distinct (rest @ [ts])" "length (rest @ [ts]) \<le> 1000" using H(1) new q True by auto
    ultimately show ?thesis using new H True q
      by (simp add: OnTimestampReceived_def history_ok_def Let_def)
  next
    case False
    then have "remember ts ?q = ?q @ [ts]" using new H(4) by (simp add: remember_def)
    then show ?thesis using new H False
      by (simp add: OnTimestampReceived_def history_ok_def Let_def)
  qed
qed

end
