(* ===== verification/Packet_Frames.thy ===== *)
theory Packet_Frames
  imports Packet_Missing
begin

text \<open>
  What \<open>FindFrames\<close> hands out. A frame is made of packets with consecutive numbers that are in the
  buffer, its image is their payloads in order, and they leave the buffer with it.
\<close>

subsection \<open>Slots of consecutive numbers\<close>

lemma slot_Suc:
  assumes "pb_ok pb"
  shows "slot pb (s + 1) = (slot pb s + 1) mod pb_size pb"
proof -
  obtain a where a: "pb_size pb = 2 ^ a" "a \<le> 16" using assms by (auto simp: pb_ok_def)
  then have "pb_size pb dvd 2 ^ 16" using le_imp_power_dvd [of a 16 "2 :: nat"] by simp
  then have d: "pb_size pb dvd 65536" by simp
  have "unat (s + 1) = (unat s + 1) mod 65536" by (simp add: unat_word_ariths)
  then show ?thesis using mod_mod_cancel [OF d, of "unat s + 1"] by (simp add: slot_def mod_simps)
qed

lemma slot_add:
  assumes "pb_ok pb"
  shows "slot pb (s + of_nat j) = (slot pb s + j) mod pb_size pb"
proof (induction j)
  case 0
  then show ?case using pb_ok_slot [OF assms, of s] by simp
next
  case (Suc j)
  have e: "s + of_nat (Suc j) = (s + of_nat j) + 1" by (simp add: algebra_simps)
  show ?case unfolding e using slot_Suc [OF assms, of "s + of_nat j"] Suc by (simp add: mod_simps)
qed

lemma seq_range_map: "seq_range s n = map (\<lambda>j. s + of_nat j) [0..<n]"
proof (induction n arbitrary: s)
  case (Suc n)
  have "map (\<lambda>j. s + of_nat j) [0..<Suc n] = s # map (\<lambda>j. s + of_nat (Suc j)) [0..<n]"
    by (simp add: map_upt_Suc del: upt_Suc)
  then show ?case using Suc [of "s + 1"] by (simp add: algebra_simps)
qed simp

subsection \<open>The image\<close>

lemma dcheck_Some_iff: "dcheck b = Some u \<longleftrightarrow> b"
  by (simp add: dcheck_def)

definition packet_bytes :: "'x vcm_packet \<Rightarrow> bytes" where
  "packet_bytes p = (case pk_dataPtr p of None \<Rightarrow> [] | Some b \<Rightarrow> take (pk_sizeBytes p) b)"

lemma packet_bytes_payload: "payload_of p = payload_of q \<Longrightarrow> packet_bytes p = packet_bytes q"
  by (auto simp: payload_of_def packet_bytes_def split: option.split)

lemma image_loop_Some:
  assumes "image_loop fuel pb i e fs acc = Some img" "i < pb_size pb"
  shows "\<exists>m. 0 < m \<and> m \<le> fuel \<and> (i + m) mod pb_size pb = e \<and> (\<forall>j. 0 < j \<and> j < m \<longrightarrow> (i + j) mod pb_size pb \<noteq> e) \<and>
    (\<forall>j < m. used (sequence_buffer pb ! ((i + j) mod pb_size pb))) \<and>
    img = acc @ concat (map (\<lambda>j. packet_bytes (data_buffer pb ! ((i + j) mod pb_size pb))) [0..<m])"
  using assms
proof (induction fuel arbitrary: i acc)
  case (Suc fuel)
  let ?n = "pb_size pb" and ?p = "data_buffer pb ! i" and ?i = "(i + 1) mod pb_size pb"
  have u: "used (sequence_buffer pb ! i)"
    and e: "(if ?i = e then Some (acc @ packet_bytes ?p) else image_loop fuel pb ?i e fs (acc @ packet_bytes ?p)) = Some img"
    using Suc.prems(1)
    by (auto simp: bind_eq_Some_conv dcheck_Some_iff vget_def Let_def packet_bytes_def split: if_splits option.splits)
  show ?case
  proof (cases "?i = e")
    case True
    then show ?thesis using u e Suc.prems(2) by (intro exI [of _ 1]) auto
  next
    case False
    have "?i < ?n" using Suc.prems(2) by simp
    with Suc.IH [of ?i "acc @ packet_bytes ?p"] e False obtain m where m: "0 < m" "m \<le> fuel" "(?i + m) mod ?n = e"
      "\<forall>j. 0 < j \<and> j < m \<longrightarrow> (?i + j) mod ?n \<noteq> e" "\<forall>j < m. used (sequence_buffer pb ! ((?i + j) mod ?n))"
      "img = (acc @ packet_bytes ?p) @ concat (map (\<lambda>j. packet_bytes (data_buffer pb ! ((?i + j) mod ?n))) [0..<m])"
      by auto
    have s: "(?i + j) mod ?n = (i + Suc j) mod ?n" for j by (simp add: mod_simps)
    have "(i + j) mod ?n \<noteq> e" if "0 < j" "j < Suc m" for j
    proof (cases j)
      case (Suc k)
      then show ?thesis using m(4) False that s [of k] by (cases k) auto
    qed (use that in simp)
    moreover have "used (sequence_buffer pb ! ((i + j) mod ?n))" if "j < Suc m" for j
    proof (cases j)
      case 0
      then show ?thesis using u Suc.prems(2) by simp
    next
      case (Suc k)
      then show ?thesis using m(5) that s [of k] by auto
    qed
    moreover have "img = acc @ concat (map (\<lambda>j. packet_bytes (data_buffer pb ! ((i + j) mod ?n))) [0..<Suc m])"
      using m(6) Suc.prems(2) s by (simp add: map_upt_Suc del: upt_Suc)
    ultimately show ?thesis using m(1-3) s [of m] by (intro exI [of _ "Suc m"]) simp
  qed
qed simp

subsection \<open>The cleared interval\<close>

lemma free_slot_fields [simp]:
  "pb_size (free_slot i pb) = pb_size pb" "slot (free_slot i pb) s = slot pb s"
  "length (sequence_buffer (free_slot i pb)) = length (sequence_buffer pb)"
  "ci_seq_num (sequence_buffer (free_slot i pb) ! j) = ci_seq_num (sequence_buffer pb ! j)"
  by (simp_all add: free_slot_def slot_def freed_slot_fields)

lemma clear_interval_numbers:
  "clear_interval_loop n s pb = Some pb' \<Longrightarrow> j < n \<Longrightarrow>
     ci_seq_num (sequence_buffer pb ! slot pb (s + of_nat j)) = s + of_nat j"
proof (induction n arbitrary: s pb j)
  case (Suc n)
  from Suc.prems(1) have a: "ci_seq_num (sequence_buffer pb ! slot pb s) = s"
    "clear_interval_loop n (s + 1) (free_slot (slot pb s) pb) = Some pb'"
    by (auto simp: bind_eq_Some_conv dcheck_Some_iff vget_def Let_def split: if_splits)
  show ?case
  proof (cases j)
    case (Suc k)
    then show ?thesis using Suc.IH [OF a(2), of k] Suc.prems(2) by (simp add: add.assoc)
  qed (use a in simp)
qed simp

text \<open>Slots that are not in use stay so.\<close>

lemma keeps_unused:
  "keeps_slots pb pb' \<Longrightarrow> i < length (sequence_buffer pb) \<Longrightarrow> \<not> used (sequence_buffer pb ! i) \<Longrightarrow>
     \<not> used (sequence_buffer pb' ! i)"
  by (auto simp: keeps_slots_def)

lemma clear_interval_released:
  assumes "pb_ok pb"
  shows "clear_interval_loop n s pb = Some pb' \<Longrightarrow> j < n \<Longrightarrow>
     \<not> used (sequence_buffer pb' ! slot pb (s + of_nat j))"
  using assms
proof (induction n arbitrary: s pb j)
  case (Suc n)
  let ?pb = "free_slot (slot pb s) pb"
  from Suc.prems(1) have a: "clear_interval_loop n (s + 1) ?pb = Some pb'"
    by (auto simp: bind_eq_Some_conv dcheck_Some_iff Let_def)
  have ok: "pb_ok ?pb" by (rule keeps_ok [OF keeps_slots_free Suc.prems(3)])
  show ?case
  proof (cases j)
    case 0
    have l: "slot pb s < length (sequence_buffer pb)" using pb_ok_slot [OF Suc.prems(3)] Suc.prems(3) by (simp add: pb_ok_def)
    then have "\<not> used (sequence_buffer ?pb ! slot pb s)" by (simp add: free_slot_def)
    then show ?thesis using keeps_unused [OF sl.R_clear_interval [OF a]] l 0 by simp
  next
    case (Suc k)
    then show ?thesis using Suc.IH [OF a _ ok, of k] Suc.prems(2) by (simp add: add.assoc)
  qed
qed simp

subsection \<open>One frame\<close>

text \<open>The numbers of a frame, and that it consists of the packets a lookup finds under them.\<close>

definition frame_numbers :: "'x rtp_frame \<Rightarrow> u16 list" where
  "frame_numbers fr = seq_range (fr_first_seq_num fr) (unat (fr_last_seq_num fr - fr_first_seq_num fr) + 1)"

definition frame_from :: "(u16 \<Rightarrow> 'x vcm_packet option) \<Rightarrow> 'x rtp_frame \<Rightarrow> bool" where
  "frame_from lookup fr \<longleftrightarrow> (\<forall>k \<in> set (frame_numbers fr). lookup k \<noteq> None) \<and>
     fr_image fr = concat (map (\<lambda>k. packet_bytes (the (lookup k))) (frame_numbers fr))"

lemma keeps_held:
  assumes "keeps_slots pb pb'" "pb_ok pb" "held pb' k = Some p"
  shows "\<exists>q. held pb k = Some q \<and> packet_bytes q = packet_bytes p"
proof -
  have "slot pb' k = slot pb k" "slot pb k < length (sequence_buffer pb)"
    using assms(1) pb_ok_slot [OF assms(2), of k] assms(2) by (simp_all add: keeps_slots_def slot_def pb_ok_def)
  then show ?thesis using assms(1,3)
    by (auto simp: held_def Let_def keeps_slots_def intro!: packet_bytes_payload split: if_splits)
qed

lemma keeps_not_held:
  assumes "keeps_slots pb pb'" "pb_ok pb" "held pb k = None"
  shows "held pb' k = None"
  using keeps_held [OF assms(1,2), of k] assms(3) by (cases "held pb' k") auto

lemma frame_from_keeps:
  assumes "keeps_slots pb pb'" "pb_ok pb" "frame_from (held pb') fr"
  shows "frame_from (held pb) fr"
proof -
  have h: "held pb k \<noteq> None \<and> packet_bytes (the (held pb k)) = packet_bytes (the (held pb' k))"
    if "k \<in> set (frame_numbers fr)" for k
  proof -
    from that assms(3) obtain p where "held pb' k = Some p" by (auto simp: frame_from_def)
    then show ?thesis using keeps_held [OF assms(1,2)] by fastforce
  qed
  have "map (\<lambda>k. packet_bytes (the (held pb' k))) (frame_numbers fr) =
      map (\<lambda>k. packet_bytes (the (held pb k))) (frame_numbers fr)"
    by (rule map_cong) (simp_all add: h)
  then have "fr_image fr = concat (map (\<lambda>k. packet_bytes (the (held pb k))) (frame_numbers fr))"
    using assms(3) unfolding frame_from_def by (elim conjE) (simp only:)
  then show ?thesis unfolding frame_from_def using h by blast
qed

text \<open>The search goes back at most one packet per slot.\<close>

lemma scan_fields [simp]:
  "sc_start_seq_num (scan_packet p s) = sc_start_seq_num s"
  "sc_start_seq_num (scan_nalus ts s) = sc_start_seq_num s"
  "sc_start_seq_num (fst (scan_h264 b p s)) = sc_start_seq_num s"
proof -
  show n: "sc_start_seq_num (scan_nalus ts s) = sc_start_seq_num s" for ts
    by (induction ts s rule: scan_nalus.induct) auto
  show "sc_start_seq_num (scan_packet p s) = sc_start_seq_num s" by (simp add: scan_packet_def)
  have "sc_start_seq_num (scan_nalus ts s) = sc_start_seq_num s" for ts by (rule n)
  then show "sc_start_seq_num (fst (scan_h264 b p s)) = sc_start_seq_num s"
    by (simp add: scan_h264_def Let_def split: option.split)
qed

lemma scan_h264_start: "scan_h264 b p s = (s', g) \<Longrightarrow> sc_start_seq_num s' = sc_start_seq_num s"
  using scan_fields(3) [of b p s] by simp

lemma scan_back_start:
  "scan_back n h ts pb s = Some (pb', s', go) \<Longrightarrow>
     \<exists>t < n. sc_start_seq_num s' = sc_start_seq_num s - of_nat t"
proof (induction n arbitrary: pb s)
  case (Suc n)
  let ?i = "sc_start_index s" and ?pb = "mark_created True (sc_start_index s) pb"
  obtain p c where p: "vget (data_buffer pb) ?i = Some p" "vget (sequence_buffer pb) ?i = Some c"
    using Suc.prems by (cases "vget (data_buffer pb) ?i"; cases "vget (sequence_buffer pb) ?i") simp_all
  obtain r g where r: "(if h then scan_h264 (sps_pps_idr_is_h264_keyframe ?pb) p (scan_packet p s)
      else (scan_packet p s, True)) = (r, g)" by fastforce
  have rs: "sc_start_seq_num r = sc_start_seq_num s"
    using r by (auto dest: scan_h264_start split: if_splits)
  let ?j = "prev_index ?pb ?i" and ?r = "r\<lparr>sc_start_index := prev_index ?pb ?i\<rparr>"
  have e: "(if \<not> h \<and> frame_begin c then Some (?pb, scan_packet p s, True)
      else if \<not> g then Some (?pb, r, False) else if n = 0 then Some (?pb, r, True)
      else vget (data_buffer ?pb) ?j \<bind> (\<lambda>q. vget (sequence_buffer ?pb) ?j \<bind> (\<lambda>d.
        if h \<and> (\<not> used d \<or> pk_timestamp q \<noteq> ts) then Some (?pb, ?r, True)
        else scan_back n h ts ?pb (?r\<lparr>sc_start_seq_num := sc_start_seq_num ?r - 1\<rparr>))))
      = Some (pb', s', go)"
    using Suc.prems by (simp only: scan_back.simps Let_def p bind.bind_lunit r prod.case)
  consider "sc_start_seq_num s' = sc_start_seq_num s"
    | x y where "scan_back n h ts x y = Some (pb', s', go)" "sc_start_seq_num y = sc_start_seq_num s - 1"
  proof (cases "(\<not> h \<and> frame_begin c) \<or> \<not> g \<or> n = 0")
    case True
    with e rs that(1) show thesis by (auto split: if_splits)
  next
    case False
    obtain q where q: "vget (data_buffer ?pb) ?j = Some q"
      using e False by (cases "vget (data_buffer ?pb) ?j") (auto split: if_splits)
    obtain d where d: "vget (sequence_buffer ?pb) ?j = Some d"
      using e False q by (cases "vget (sequence_buffer ?pb) ?j") (auto split: if_splits)
    show thesis
    proof (cases "h \<and> (\<not> used d \<or> pk_timestamp q \<noteq> ts)")
      case True
      with e False q d have "s' = ?r" by (auto split: if_splits)
      with rs that(1) show thesis by simp
    next
      case more: False
      with e False q d have "scan_back n h ts ?pb (?r\<lparr>sc_start_seq_num := sc_start_seq_num ?r - 1\<rparr>) = Some (pb', s', go)"
        by (auto split: if_splits)
      with rs that(2) show thesis by simp
    qed
  qed
  then show ?case
  proof cases
    case 1
    then show ?thesis by (intro exI [of _ 0]) simp
  next
    case (2 x y)
    from Suc.IH [OF 2(1)] 2(2) obtain t where "t < n" "sc_start_seq_num s' = sc_start_seq_num s - 1 - of_nat t" by auto
    then show ?thesis by (intro exI [of _ "Suc t"]) (simp add: algebra_simps)
  qed
qed simp

lemma create_frame_cases:
  assumes "create_frame pb q s = Some (pb', fr)"
  shows "\<exists>rest img. GetEncodedImageBuffer (pb\<lparr>missing_packets := rest\<rparr>) (sc_frame_size s) (sc_start_seq_num s) q = Some img \<and>
    ClearInterval (pb\<lparr>missing_packets := rest\<rparr>) (sc_start_seq_num s) q = Some pb' \<and>
    fr_first_seq_num fr = sc_start_seq_num s \<and> fr_last_seq_num fr = q \<and> fr_image fr = img"
proof -
  obtain before rest where u: "upper_bound id (missing_packets pb) q = Some (before, rest)"
    using assms by (cases "upper_bound id (missing_packets pb) q") (auto simp: create_frame_def)
  let ?pb = "pb\<lparr>missing_packets := rest\<rparr>"
  obtain p1 p2 img x where x: "GetPacket ?pb (sc_start_seq_num s) \<bind> id = Some p1" "GetPacket ?pb q \<bind> id = Some p2"
    "GetEncodedImageBuffer ?pb (sc_frame_size s) (sc_start_seq_num s) q = Some img"
    "ClearInterval ?pb (sc_start_seq_num s) q = Some x"
    using assms u by (cases "GetPacket ?pb (sc_start_seq_num s) \<bind> id"; cases "GetPacket ?pb q \<bind> id";
        cases "GetEncodedImageBuffer ?pb (sc_frame_size s) (sc_start_seq_num s) q";
        cases "ClearInterval ?pb (sc_start_seq_num s) q")
      (simp_all add: create_frame_def Let_def del: bind_assoc)
  then show ?thesis using assms u
    by (intro exI [of _ rest] exI [of _ img]) (auto simp: create_frame_def Let_def simp del: bind_assoc)
qed

lemma mod_unique_le:
  fixes m n k :: nat
  assumes "m \<le> n" "0 < m" "n \<le> k" "(i + n) mod k = (i + m) mod k"
  shows "m = n"
proof (rule ccontr)
  assume ne: "m \<noteq> n"
  have "k dvd (i + n) - (i + m)" using mod_eq_dvd_iff_nat [of "i + m" "i + n" k] assms(1,4) by simp
  then have "k dvd n - m" by simp
  then have "k \<le> n - m" using ne assms(1) by (intro dvd_imp_le) simp_all
  with assms(1-3) ne show False by linarith
qed

lemma mod_unique:
  fixes m n k :: nat
  assumes "0 < m" "m \<le> k" "0 < n" "n \<le> k" "(i + m) mod k = (i + n) mod k"
  shows "m = n"
proof (cases "m \<le> n")
  case True
  from mod_unique_le [OF True assms(1,4) assms(5) [symmetric]] show ?thesis .
next
  case False
  then have "n \<le> m" by simp
  from mod_unique_le [OF this assms(3,2,5)] show ?thesis by simp
qed

lemma pb_ok_small: "pb_ok pb \<Longrightarrow> pb_size pb \<le> 32768"
proof -
  assume "pb_ok pb"
  then obtain a where "pb_size pb = 2 ^ a" "a \<le> 15" by (auto simp: pb_ok_def)
  then show ?thesis using power_increasing [of a 15 "2 :: nat"] by simp
qed

lemma back_numbers:
  fixes f q :: u16
  assumes "t < 32768" "f = q - of_nat t"
  shows "unat (q - f) = t" "unat (ForwardDiff f (q + 1)) = t + 1" "q + 1 = f + of_nat (t + 1)"
proof -
  have "q - f = of_nat t" using assms(2) by simp
  then show u: "unat (q - f) = t" using assms(1) by (simp add: unat_of_nat)
  show q: "q + 1 = f + of_nat (t + 1)" using assms(2) by simp
  then have "q + 1 - f = of_nat (t + 1)" by simp
  then show "unat (ForwardDiff f (q + 1)) = t + 1" using assms(1)
    unfolding ForwardDiff_def by (simp add: unat_of_nat del: of_nat_Suc of_nat_add)
qed

lemma create_frame_spec:
  assumes ok: "pb_ok pb" and "create_frame pb q s = Some (pb', fr)"
    and t: "sc_start_seq_num s = q - of_nat t" "t < pb_size pb"
  shows "frame_from (held pb) fr \<and> (\<forall>k \<in> set (frame_numbers fr). held pb' k = None)"
proof -
  let ?f = "sc_start_seq_num s" and ?n = "t + 1"
  obtain rest img where c: "GetEncodedImageBuffer (pb\<lparr>missing_packets := rest\<rparr>) (sc_frame_size s) ?f q = Some img"
    "ClearInterval (pb\<lparr>missing_packets := rest\<rparr>) ?f q = Some pb'"
    and fr: "fr_first_seq_num fr = ?f" "fr_last_seq_num fr = q" "fr_image fr = img"
    using create_frame_cases [OF assms(2)] by blast
  define x where "x = pb\<lparr>missing_packets := rest\<rparr>"
  have x: "pb_ok x" "pb_size x = pb_size pb" "\<And>k. slot x k = slot pb k" "\<And>k. held x k = held pb k"
    using ok by (simp_all add: x_def pb_ok_def slot_def held_def Let_def)
  note N = back_numbers [OF order.strict_trans2 [OF t(2) pb_ok_small [OF ok]] t(1)]
  have nums: "frame_numbers fr = map (\<lambda>j. ?f + of_nat j) [0..<?n]"
    using N(1) fr by (simp add: frame_numbers_def seq_range_map)
  have sl: "slot x (?f + of_nat j) = (slot x ?f + j) mod pb_size x" for j by (rule slot_add [OF x(1)])
  have "clear_interval_loop ?n ?f x = Some pb'"
    using c(2) N(2) by (simp add: ClearInterval_def x_def [symmetric] Let_def dcheck_bind_Some)
  note cl = clear_interval_numbers [OF this] clear_interval_released [OF x(1) this] sl.R_clear_interval [OF this]
  have "(unat q + 1) mod pb_size x = (slot x ?f + ?n) mod pb_size x"
    using slot_Suc [OF x(1), of q] sl [of ?n] N(3) by (simp add: slot_def mod_simps)
  with c(1) have "image_loop (pb_size x) x (slot x ?f) ((slot x ?f + ?n) mod pb_size x) (sc_frame_size s) [] = Some img"
    by (simp add: GetEncodedImageBuffer_def x_def [symmetric])
  from image_loop_Some [OF this pb_ok_slot [OF x(1)]] obtain m where m: "0 < m" "m \<le> pb_size x"
    "(slot x ?f + m) mod pb_size x = (slot x ?f + ?n) mod pb_size x"
    "\<forall>j < m. used (sequence_buffer x ! ((slot x ?f + j) mod pb_size x))"
    "img = concat (map (\<lambda>j. packet_bytes (data_buffer x ! ((slot x ?f + j) mod pb_size x))) [0..<m])" by auto
  have mn: "m = ?n" using mod_unique [OF m(1,2) _ _ m(3)] t(2) x(2) by simp
  have held: "held pb (?f + of_nat j) = Some (data_buffer x ! ((slot x ?f + j) mod pb_size x))" if "j < ?n" for j
    using m(4) mn that cl(1) [of j] sl [of j] unfolding x(4) [symmetric] by (simp add: held_def Let_def)
  have "map (\<lambda>j. packet_bytes (data_buffer x ! ((slot x ?f + j) mod pb_size x))) [0..<m] =
      map (\<lambda>k. packet_bytes (the (held pb k))) (frame_numbers fr)"
    unfolding nums mn map_map
  proof (rule map_cong [OF refl])
    fix j assume "j \<in> set [0..<?n]"
    then have "j < ?n" by (simp only: atLeastLessThan_iff set_upt)
    from held [OF this] show "packet_bytes (data_buffer x ! ((slot x ?f + j) mod pb_size x)) =
        ((\<lambda>k. packet_bytes (the (held pb k))) \<circ> (\<lambda>j. ?f + of_nat j)) j" by simp
  qed
  then have "frame_from (held pb) fr" using fr(3) m(5) held by (auto simp: frame_from_def nums)
  moreover have "held pb' k = None" if "k \<in> set (frame_numbers fr)" for k
  proof -
    from that obtain j where j: "j < ?n" "k = ?f + of_nat j" unfolding nums set_map set_upt by auto
    have "slot pb' k = slot x k" using cl(3) by (simp add: keeps_slots_def slot_def)
    then show ?thesis using cl(2) [OF j(1)] j(2) by (simp add: held_def Let_def)
  qed
  ultimately show ?thesis by blast
qed

subsection \<open>All frames\<close>

lemma frame_at_spec:
  assumes ok: "pb_ok pb" and "frame_at pb q = Some (pb', frs, go)"
  shows "frs = [] \<or> (\<exists>fr. frs = [fr] \<and> frame_from (held pb) fr \<and> (\<forall>k \<in> set (frame_numbers fr). held pb' k = None))"
  using assms(2)
proof (rule frame_at_cases)
  fix p x s g
  assume x: "scan_back (pb_size pb) (pk_codec p = kVideoCodecH264) (pk_timestamp p) pb
      (scan_init p q (slot pb q)) = Some (x, s, g)"
    and c: "pb' = x \<and> frs = [] \<or> (\<exists>y. (y = x \<or> (\<exists>b. h264_frame x (slot pb q) s = Some (y, b))) \<and>
      (pb' = y \<and> frs = [] \<or> (\<exists>fr. create_frame y q s = Some (pb', fr) \<and> frs = [fr])))"
  have kx: "keeps_slots pb x" by (rule sl.R_scan_back [OF x])
  obtain t where t: "t < pb_size pb" "sc_start_seq_num s = q - of_nat t"
    using scan_back_start [OF x] by (auto simp: scan_init_def)
  have "frame_from (held pb) fr \<and> (\<forall>k \<in> set (frame_numbers fr). held pb' k = None)"
    if y: "y = x \<or> (\<exists>b. h264_frame x (slot pb q) s = Some (y, b))" and fr: "create_frame y q s = Some (pb', fr)" for y fr
  proof -
    have ky: "keeps_slots pb y" using y kx keeps_slots_trans [OF kx sl.R_h264_frame] by blast
    have "frame_from (held y) fr \<and> (\<forall>k \<in> set (frame_numbers fr). held pb' k = None)"
      using create_frame_spec [OF keeps_ok [OF ky ok] fr t(2)] t(1) ky by (simp add: keeps_slots_def)
    then show ?thesis using frame_from_keeps [OF ky ok] by blast
  qed
  with c show ?thesis by blast
qed

lemma seq_range_distinct: "n \<le> 65536 \<Longrightarrow> distinct (seq_range s n)"
  unfolding seq_range_map distinct_map
proof (intro conjI inj_onI)
  fix i j assume a: "n \<le> 65536" "i \<in> set [0..<n]" "j \<in> set [0..<n]" "s + of_nat i = s + of_nat j"
  then have "(of_nat i :: u16) = of_nat j" by simp
  then have "unat (of_nat i :: u16) = unat (of_nat j :: u16)" by simp
  with a(1-3) show "i = j" by (simp add: unat_of_nat)
qed simp

lemma frame_numbers_distinct: "distinct (frame_numbers fr)"
  unfolding frame_numbers_def
  by (rule seq_range_distinct) (use pos_less [of "fr_first_seq_num fr" "fr_last_seq_num fr"] in \<open>simp add: pos_def\<close>)

text \<open>No packet is in two frames.\<close>

definition frames_from :: "'x packet_buffer \<Rightarrow> 'x packet_buffer \<Rightarrow> 'x rtp_frame list \<Rightarrow> bool" where
  "frames_from pb pb' frs \<longleftrightarrow> list_all (frame_from (held pb)) frs \<and>
     (\<forall>k \<in> set (concat (map frame_numbers frs)). held pb' k = None) \<and> distinct (concat (map frame_numbers frs))"

lemma frame_at_frames: "pb_ok pb \<Longrightarrow> frame_at pb q = Some (pb', frs, go) \<Longrightarrow> frames_from pb pb' frs"
  using frame_at_spec [of pb q pb' frs go] by (auto simp: frames_from_def frame_numbers_distinct)

lemma frames_from_keeps:
  assumes "keeps_slots pb x" "pb_ok pb" "frames_from x pb' frs"
  shows "frames_from pb pb' frs"
  using assms(3) frame_from_keeps [OF assms(1,2)] by (auto simp: frames_from_def list_all_iff)

lemma frames_from_append:
  assumes k: "keeps_slots pb x" "keeps_slots x pb'" and ok: "pb_ok pb"
    and f: "frames_from pb x fs" "frames_from x pb' gs"
  shows "frames_from pb pb' (fs @ gs)"
proof -
  have okx: "pb_ok x" by (rule keeps_ok [OF k(1) ok])
  have "k \<notin> set (concat (map frame_numbers gs))" if "k \<in> set (concat (map frame_numbers fs))" for k
  proof -
    have "held x k = None" using f(1) that by (auto simp: frames_from_def)
    then show ?thesis using f(2) by (fastforce simp: frames_from_def frame_from_def list_all_iff)
  qed
  moreover have "held pb' k = None" if "k \<in> set (concat (map frame_numbers fs))" for k
    using f(1) that by (intro keeps_not_held [OF k(2) okx]) (auto simp: frames_from_def)
  ultimately show ?thesis using f(1) frames_from_keeps [OF k(1) ok f(2)]
    by (auto simp: frames_from_def)
qed

lemma find_loop_frames:
  "pb_ok pb \<Longrightarrow> find_frames_loop n pb q = Some (pb', frs) \<Longrightarrow> frames_from pb pb' frs"
proof (induction n arbitrary: pb q frs)
  case (Suc n)
  let ?pb = "set_continuous (slot pb q) pb"
  have k: "keeps_slots pb ?pb" by (rule sl.R_continuous)
  have ok: "pb_ok ?pb" by (rule keeps_ok [OF k Suc.prems(1)])
  from Suc.prems(2) show ?case
  proof (cases rule: find_loop_cases)
    case (2 x fs)
    then obtain more where m: "find_frames_loop n x (q + 1) = Some (pb', more)" "frs = fs @ more" by blast
    have fs: "frames_from ?pb x fs" using 2(1) frame_at_frames [OF ok] by (auto simp: frames_from_def)
    have kx: "keeps_slots ?pb x" using 2(1) sl.R_frame_at sl.R_refl by blast
    have "frames_from ?pb pb' (fs @ more)"
      using frames_from_append [OF kx sl.R_find_loop [OF m(1)] ok fs Suc.IH [OF keeps_ok [OF kx ok] m(1)]] .
    then show ?thesis using frames_from_keeps [OF k Suc.prems(1)] m(2) by blast
  next
    case 3
    then show ?thesis using frames_from_keeps [OF k Suc.prems(1) frame_at_frames [OF ok]] by blast
  qed (simp add: frames_from_def)
qed (simp add: frames_from_def)

lemma FindFrames_frames:
  "pb_ok pb \<Longrightarrow> FindFrames pb q = Some (pb', frs) \<Longrightarrow> frames_from pb pb' frs"
  unfolding FindFrames_def by (rule find_loop_frames)

end
