(* ===== verification/Packet_Invariant.thy ===== *)
theory Packet_Invariant
  imports Packet_Frames
begin

text \<open>
  \<open>PacketBuffer\<close> as a state machine: its public operations as steps (\<open>pb_op\<close>, \<open>pb_apply\<close>), the states
  they reach from the constructor (\<open>pb_reach\<close>), and what holds in all of them.

  A number that jumps by exactly half the range from the newest one is ordered by its value, which
  the ordered set of missing numbers cannot follow; \<open>jump_ok\<close> excludes it. \<open>blank\<close> is a
  default-constructed packet, whose \<open>seqNum\<close> is zero.
\<close>

subsection \<open>The result of an insertion\<close>

definition same_view :: "'x packet_buffer \<Rightarrow> 'x packet_buffer \<Rightarrow> bool" where
  "same_view pb y \<longleftrightarrow> (\<forall>k. held y k = held pb k \<and> info y k = info pb k) \<and>
     missing_packets y = missing_packets pb \<and> newest_inserted_seq_num y = newest_inserted_seq_num pb"

lemma OnTimestamp_fields:
  "OnTimestampReceived pb ts = Some x \<Longrightarrow> pb_size x = pb_size pb \<and> pb_max_size x = pb_max_size pb \<and>
     data_buffer x = data_buffer pb \<and> sequence_buffer x = sequence_buffer pb \<and>
     missing_packets x = missing_packets pb \<and> newest_inserted_seq_num x = newest_inserted_seq_num pb \<and>
     first_packet_received x = first_packet_received pb \<and> first_seq_num x = first_seq_num pb \<and>
     is_cleared_to_first_seq_num x = is_cleared_to_first_seq_num pb"
  by (auto simp: OnTimestampReceived_def Let_def split: if_splits list.splits)

lemma view_by_fields:
  assumes "pb_size y = pb_size pb" "data_buffer y = data_buffer pb" "sequence_buffer y = sequence_buffer pb"
    "missing_packets y = missing_packets pb" "newest_inserted_seq_num y = newest_inserted_seq_num pb"
  shows "same_view pb y"
  using assms by (simp add: same_view_def held_def info_def slot_def Let_def)

lemma pb_ok_by_fields:
  assumes "pb_ok pb" "pb_size y = pb_size pb" "pb_max_size y = pb_max_size pb"
    "data_buffer y = data_buffer pb" "sequence_buffer y = sequence_buffer pb"
  shows "pb_ok y"
  using assms by (simp add: pb_ok_def slot_def)

lemma history_ok_by_fields:
  assumes "history_ok pb" "timestamps_history_set y = timestamps_history_set pb"
    "timestamps_history_queue y = timestamps_history_queue pb"
  shows "history_ok y"
  using assms by (simp add: history_ok_def)

text \<open>The first number after a packet has been let in.\<close>

definition admit :: "'x packet_buffer \<Rightarrow> u16 \<Rightarrow> 'x packet_buffer" where
  "admit x s = (if \<not> first_packet_received x then x\<lparr>first_seq_num := s, first_packet_received := True\<rparr>
     else if AheadOf16 (first_seq_num x) s then x\<lparr>first_seq_num := s\<rparr> else x)"

lemma admit_fields [simp]:
  "pb_size (admit x s) = pb_size x" "pb_max_size (admit x s) = pb_max_size x"
  "data_buffer (admit x s) = data_buffer x" "sequence_buffer (admit x s) = sequence_buffer x"
  "missing_packets (admit x s) = missing_packets x" "newest_inserted_seq_num (admit x s) = newest_inserted_seq_num x"
  "timestamps_history_set (admit x s) = timestamps_history_set x"
  "timestamps_history_queue (admit x s) = timestamps_history_queue x" "slot (admit x s) k = slot x k"
  by (simp_all add: admit_def slot_def)

lemma InsertPacket_eq:
  assumes "OnTimestampReceived pb (pk_timestamp p) = Some x" "pb_ok pb"
  defines "s \<equiv> pk_seqNum p"
  defines "z \<equiv> admit x s"
  shows "InsertPacket blank pb p now =
    (if first_packet_received x \<and> AheadOf16 (first_seq_num x) s \<and> is_cleared_to_first_seq_num x then Some (x, [], True)
     else if \<not> used (sequence_buffer z ! slot z s) then insert_at z p now
     else if pk_seqNum (data_buffer z ! slot z s) = s then Some (z, [], True)
     else do { w \<leftarrow> expand_while (Suc (pb_max_size z)) blank z s;
               c \<leftarrow> vget (sequence_buffer w) (slot w s);
               if used c then Some (PacketBuffer_Clear w, [], False) else insert_at w p now })"
proof -
  have "pb_ok z" using OnTimestamp_fields [OF assms(1)] pb_ok_by_fields [OF assms(2), of z] by (simp add: z_def)
  from vget_slot [OF this, of s] show ?thesis
    unfolding InsertPacket_def assms(1) by (simp add: z_def s_def admit_def [symmetric] Let_def)
qed

text \<open>The state \<open>y\<close> before the packet is stored: only the history and the size may differ.\<close>

lemma InsertPacket_outcome:
  assumes "pb_ok pb" "history_ok pb" "pk_seqNum blank = 0"
  shows "\<exists>y. pb_ok y \<and> same_view pb y \<and> history_ok y \<and> pb_max_size y = pb_max_size pb \<and>
    timestamps_history_queue y = remember (pk_timestamp p) (timestamps_history_queue pb) \<and>
    (InsertPacket blank pb p now = Some (y, [], True) \<or>
     pb_size y = pb_max_size y \<and> InsertPacket blank pb p now = Some (PacketBuffer_Clear y, [], False) \<or>
     \<not> used (sequence_buffer y ! slot y (pk_seqNum p)) \<and> InsertPacket blank pb p now = insert_at y p now)"
proof -
  let ?s = "pk_seqNum p" and ?q = "remember (pk_timestamp p) (timestamps_history_queue pb)"
  obtain x where x: "OnTimestampReceived pb (pk_timestamp p) = Some x" "history_ok x"
    "timestamps_history_queue x = ?q" using OnTimestampReceived_ok [OF assms(2)] by blast
  note fx = OnTimestamp_fields [OF x(1)]
  let ?old = "first_packet_received x \<and> AheadOf16 (first_seq_num x) ?s \<and> is_cleared_to_first_seq_num x"
  define z where "z = admit x ?s"
  have z: "pb_ok z" "same_view pb z" "history_ok z" "pb_max_size z = pb_max_size pb" "timestamps_history_queue z = ?q"
    using fx x pb_ok_by_fields [OF assms(1), of z] view_by_fields [of z pb] history_ok_by_fields [OF x(2), of z]
    by (auto simp: z_def)
  note e = InsertPacket_eq [OF x(1) assms(1), of blank now, folded z_def]
  consider "?old" | "\<not> ?old" "\<not> used (sequence_buffer z ! slot z ?s)"
    | "\<not> ?old" "used (sequence_buffer z ! slot z ?s)" "pk_seqNum (data_buffer z ! slot z ?s) = ?s"
    | "\<not> ?old" "used (sequence_buffer z ! slot z ?s)" "pk_seqNum (data_buffer z ! slot z ?s) \<noteq> ?s" by blast
  then show ?thesis
  proof cases
    case 1
    then show ?thesis using e x fx pb_ok_by_fields [OF assms(1), of x] view_by_fields [of x pb]
      by (intro exI [of _ x]) simp
  next
    case 2
    have "InsertPacket blank pb p now = insert_at z p now" unfolding e if_not_P [OF 2(1)] if_P [OF 2(2)] ..
    with 2 z show ?thesis by (intro exI [of _ z]) simp
  next
    case 3
    have "InsertPacket blank pb p now = Some (z, [], True)" unfolding e if_not_P [OF 3(1)] using 3(2,3) by simp
    with z show ?thesis by (intro exI [of _ z]) simp
  next
    case 4
    obtain w where w: "expand_while (Suc (pb_max_size z)) blank z ?s = Some w" "pb_ok w"
      "\<forall>k. held w k = held z k \<and> info w k = info z k" "same_log z w"
      "used (sequence_buffer w ! slot w ?s) \<longrightarrow> pb_size w = pb_max_size w"
      using expand_while_ok [OF z(1) assms(3) le_imp_less_Suc [OF diff_le_self] 4(2)] by blast
    have "same_view pb w" "history_ok w" "pb_max_size w = pb_max_size pb" "timestamps_history_queue w = ?q"
      using w(3,4) z history_ok_by_fields [OF z(3), of w] by (auto simp: same_view_def same_log_def)
    moreover have "InsertPacket blank pb p now =
        (if used (sequence_buffer w ! slot w ?s) then Some (PacketBuffer_Clear w, [], False) else insert_at w p now)"
      unfolding e if_not_P [OF 4(1)] using 4(2,3) w(1) by (simp add: vget_slot [OF w(2)])
    ultimately show ?thesis using w(2,5) by (intro exI [of _ w]) auto
  qed
qed

lemma insert_at_cases:
  assumes "insert_at y p now = Some (pb', frs, done)"
  obtains u where "UpdateMissingPackets (store_packet y p) (pk_seqNum p) = Some u"
    and "\<exists>a b. FindFrames (u\<lparr>last_received_packet_ms := a, last_received_keyframe_packet_ms := b\<rparr>) (pk_seqNum p) =
      Some (pb', frs)" and "done"
proof -
  obtain u where u: "UpdateMissingPackets (store_packet y p) (pk_seqNum p) = Some u"
    using assms by (cases "UpdateMissingPackets (store_packet y p) (pk_seqNum p)") (simp_all add: insert_at_def)
  with assms that show thesis
    by (auto simp: insert_at_def Let_def bind_eq_Some_conv split: prod.splits)
qed

subsection \<open>The state machine\<close>

datatype 'x pb_op = Insert "'x vcm_packet" int | Padding u16 | Clear_to u16 | Clear_all

fun pb_apply :: "'x vcm_packet \<Rightarrow> 'x packet_buffer \<Rightarrow> 'x pb_op \<Rightarrow> ('x packet_buffer \<times> 'x rtp_frame list) option" where
  "pb_apply blank pb (Insert p now) = do { (pb, frames, ok) \<leftarrow> InsertPacket blank pb p now; Some (pb, frames) }"
| "pb_apply blank pb (Padding s) = PaddingReceived pb s"
| "pb_apply blank pb (Clear_to s) = do { pb \<leftarrow> ClearTo pb s; Some (pb, []) }"
| "pb_apply blank pb Clear_all = Some (PacketBuffer_Clear pb, [])"

fun pb_op_ok :: "'x packet_buffer \<Rightarrow> 'x pb_op \<Rightarrow> bool" where
  "pb_op_ok pb (Insert p now) = jump_ok pb (pk_seqNum p)"
| "pb_op_ok pb (Padding s) = jump_ok pb s"
| "pb_op_ok pb oper = True"

inductive pb_reach :: "'x vcm_packet \<Rightarrow> 'x packet_buffer \<Rightarrow> bool" for blank where
  start: "PacketBuffer_init blank (2 ^ a) (2 ^ b) trial = Some pb \<Longrightarrow> b \<le> 15 \<Longrightarrow> pb_reach blank pb"
| step: "pb_reach blank pb \<Longrightarrow> pb_op_ok pb oper \<Longrightarrow> pb_apply blank pb oper = Some (pb', frames) \<Longrightarrow> pb_reach blank pb'"

definition pb_inv :: "'x packet_buffer \<Rightarrow> bool" where
  "pb_inv pb \<longleftrightarrow> pb_ok pb \<and> missing_ok pb \<and> history_ok pb"

lemma keeps_history: "keeps_slots pb pb' \<Longrightarrow> history_ok pb \<Longrightarrow> history_ok pb'"
  by (simp add: keeps_slots_def history_ok_def)

lemma inv_keeps:
  assumes "keeps_slots pb pb'" "missing_ok pb'" "pb_inv pb"
  shows "pb_inv pb'"
  using assms keeps_ok [OF assms(1)] keeps_history [OF assms(1)] by (simp add: pb_inv_def)

lemma inv_both:
  assumes "keeps_slots pb pb'" "prunes pb pb'" "pb_inv pb"
  shows "pb_inv pb'"
  using inv_keeps [OF assms(1) missing_ok_prunes [OF assms(2)] assms(3)] assms(3) by (simp add: pb_inv_def)

lemma inv_FindFrames: "pb_inv pb \<Longrightarrow> FindFrames pb q = Some (pb', frs) \<Longrightarrow> pb_inv pb'"
  using inv_both sl.R_FindFrames mp.R_FindFrames by blast

lemma inv_Clear: "pb_inv pb \<Longrightarrow> pb_inv (PacketBuffer_Clear pb)"
  by (rule inv_keeps [OF keeps_Clear]) (simp_all add: missing_ok_def PacketBuffer_Clear_def)

lemma inv_UpdateMissing:
  assumes "pb_inv pb" "jump_ok pb s" "UpdateMissingPackets pb s = Some pb'"
  shows "pb_inv pb'"
proof (rule inv_keeps [OF keeps_UpdateMissing [OF assms(3)] _ assms(1)])
  show "missing_ok pb'" using UpdateMissingPackets_ok [of pb s] assms by (auto simp: pb_inv_def)
qed

lemma inv_times: "pb_inv (u\<lparr>last_received_packet_ms := a, last_received_keyframe_packet_ms := b\<rparr>) = pb_inv u"
  by (simp add: pb_inv_def pb_ok_def missing_ok_def history_ok_def slot_def split: option.split)

lemma inv_store: "pb_inv y \<Longrightarrow> pb_inv (store_packet y p)"
  using store_packet_ok [of y p] store_packet_log [of y p] missing_ok_prunes [OF prunes_same, of "store_packet y p" y]
  by (simp add: pb_inv_def same_log_def history_ok_def)

lemma view_inv: "same_view pb y \<Longrightarrow> pb_ok y \<Longrightarrow> history_ok y \<Longrightarrow> missing_ok pb \<Longrightarrow> pb_inv y"
  using missing_ok_prunes [OF prunes_same, of y pb] by (simp add: pb_inv_def same_view_def)

lemma view_jump: "same_view pb y \<Longrightarrow> jump_ok (store_packet y p) s = jump_ok pb s"
  using store_packet_log [of y p] by (simp add: same_view_def same_log_def jump_ok_def)

lemma inv_InsertPacket:
  assumes "pb_inv pb" "pk_seqNum blank = 0" "jump_ok pb (pk_seqNum p)"
    and "InsertPacket blank pb p now = Some (pb', frs, done)"
  shows "pb_inv pb'"
proof -
  have ok: "pb_ok pb" "history_ok pb" "missing_ok pb" using assms(1) by (simp_all add: pb_inv_def)
  from InsertPacket_outcome [OF ok(1,2) assms(2), of p now] obtain y where y: "pb_ok y" "same_view pb y" "history_ok y"
    and c: "InsertPacket blank pb p now = Some (y, [], True) \<or>
      InsertPacket blank pb p now = Some (PacketBuffer_Clear y, [], False) \<or>
      InsertPacket blank pb p now = insert_at y p now" by blast
  have i: "pb_inv y" by (rule view_inv [OF y(2,1,3) ok(3)])
  from c assms(4) consider "pb' = y" | "pb' = PacketBuffer_Clear y" | "insert_at y p now = Some (pb', frs, done)" by auto
  then show ?thesis
  proof cases
    case 3
    then show ?thesis
    proof (rule insert_at_cases)
      fix u assume u: "UpdateMissingPackets (store_packet y p) (pk_seqNum p) = Some u"
        and "\<exists>a b. FindFrames (u\<lparr>last_received_packet_ms := a, last_received_keyframe_packet_ms := b\<rparr>) (pk_seqNum p) =
          Some (pb', frs)"
      moreover have "pb_inv u"
        using inv_UpdateMissing [OF inv_store [OF i] _ u] assms(3) view_jump [OF y(2)] by simp
      ultimately show ?thesis using inv_FindFrames inv_times by blast
    qed
  qed (use i inv_Clear in simp_all)
qed

lemma inv_apply:
  assumes "pb_inv pb" "pk_seqNum blank = 0" "pb_op_ok pb oper" "pb_apply blank pb oper = Some (pb', frs)"
  shows "pb_inv pb'"
proof (cases oper)
  case (Insert p now)
  then show ?thesis using assms inv_InsertPacket [OF assms(1,2), of p now]
    by (auto simp: bind_eq_Some_conv split: prod.splits)
next
  case (Padding s)
  then show ?thesis using assms inv_UpdateMissing [OF assms(1), of s] inv_FindFrames
    by (auto simp: PaddingReceived_def bind_eq_Some_conv)
next
  case (Clear_to s)
  then show ?thesis using assms inv_both [OF sl.R_ClearTo mp.R_ClearTo] by (auto simp: bind_eq_Some_conv)
qed (use assms inv_Clear in auto)

lemma init_inv:
  assumes "PacketBuffer_init blank (2 ^ a) (2 ^ b) trial = Some pb" "b \<le> 15" "pk_seqNum blank = 0"
  shows "pb_inv pb"
proof -
  have p: "pb = \<lparr>pb_size = 2 ^ a, pb_max_size = 2 ^ b, first_seq_num = 0,
            first_packet_received = False, is_cleared_to_first_seq_num = False,
            data_buffer = replicate (2 ^ a) blank,
            sequence_buffer = replicate (2 ^ a) ContinuityInfo_init,
            last_received_packet_ms = None, last_received_keyframe_packet_ms = None,
            unique_frames_seen = 0, newest_inserted_seq_num = None, missing_packets = [],
            sps_pps_idr_is_h264_keyframe = trial,
            timestamps_history_set = [], timestamps_history_queue = []\<rparr>"
    and "(2 :: nat) ^ a \<le> 2 ^ b"
    using assms(1) by (auto simp: PacketBuffer_init_def bind_eq_Some_conv dcheck_Some_iff)
  then have "a \<le> b" by simp
  with assms(2,3) show ?thesis
    by (auto simp: p pb_inv_def pb_ok_def missing_ok_def history_ok_def ContinuityInfo_init_def
        intro!: exI [of _ a] exI [of _ b])
qed

lemma pb_reach_inv: "pb_reach blank pb \<Longrightarrow> pk_seqNum blank = 0 \<Longrightarrow> pb_inv pb"
  by (induction rule: pb_reach.induct) (auto intro: init_inv inv_apply)

end
