(* ===== verification/Packet_Clear.thy ===== *)
theory Packet_Clear
  imports Packet_Invariant
begin

text \<open>
  Releasing packets: what \<open>ClearTo\<close> and \<open>Clear\<close> leave in the buffer, and that they return.
\<close>

subsection \<open>Slots\<close>

lemma held_free_slot:
  assumes "pb_ok pb"
  shows "held (free_slot i pb) k = (if slot pb k = i then None else held pb k)"
proof -
  have "slot pb k < length (sequence_buffer pb)" "slot pb k < length (data_buffer pb)"
    using pb_ok_slot [OF assms, of k] assms by (simp_all add: pb_ok_def)
  then show ?thesis by (auto simp: held_def Let_def free_slot_def slot_def nth_list_update split: if_splits)
qed

lemma held_first [simp]: "held (pb\<lparr>first_seq_num := s\<rparr>) k = held pb k"
  by (simp add: held_def slot_def Let_def)

lemma pb_ok_first [simp]: "pb_ok (pb\<lparr>first_seq_num := s\<rparr>) = pb_ok pb"
  by (simp add: pb_ok_def slot_def)

lemma pb_ok_free: "pb_ok pb \<Longrightarrow> pb_ok (free_slot i pb)"
  by (rule keeps_ok [OF keeps_slots_free])

lemma clear_to_held:
  assumes "pb_ok pb"
  shows "\<exists>pb'. clear_to_loop n q pb = Some pb' \<and> missing_packets pb' = missing_packets pb \<and>
    (\<forall>k. held pb' k = (if AheadOf16 q k \<and> (\<exists>j < n. slot pb (first_seq_num pb + of_nat j) = slot pb k) then None
      else held pb k))"
  using assms
proof (induction n arbitrary: pb)
  case (Suc n)
  let ?i = "slot pb (first_seq_num pb)"
  let ?c = "sequence_buffer pb ! ?i"
  define x where "x = (if AheadOf16 q (ci_seq_num ?c) then free_slot ?i pb else pb)"
  have "pk_seqNum (data_buffer pb ! ?i) = ci_seq_num ?c"
    using Suc.prems pb_ok_slot [OF Suc.prems] by (simp add: pb_ok_def)
  then have e: "clear_to_loop (Suc n) q pb = clear_to_loop n q (x\<lparr>first_seq_num := first_seq_num pb + 1\<rparr>)"
    using vget_slot [OF Suc.prems, of "first_seq_num pb"]
    by (auto simp: x_def Let_def dcheck_bind_Some dcheck_def free_slot_def)
  have x: "pb_ok x" "missing_packets x = missing_packets pb" "\<And>k. slot x k = slot pb k"
    using Suc.prems pb_ok_free by (auto simp: x_def) (auto simp: free_slot_def)
  have hx: "held x k = (if AheadOf16 q k \<and> slot pb k = ?i then None else held pb k)" for k
  proof (cases "slot pb k = ?i")
    case True
    then show ?thesis using held_free_slot [OF Suc.prems, of ?i k]
      by (cases "ci_seq_num ?c = k") (auto simp: x_def held_def Let_def)
  next
    case False
    then show ?thesis using held_free_slot [OF Suc.prems, of ?i k] by (simp add: x_def)
  qed
  have sx: "slot (x\<lparr>first_seq_num := s\<rparr>) k = slot pb k" for s k using x(3) by (simp add: slot_def)
  have "(\<exists>j < Suc n. slot pb (first_seq_num pb + of_nat j) = slot pb k) \<longleftrightarrow>
      slot pb k = ?i \<or> (\<exists>j < n. slot pb (first_seq_num pb + 1 + of_nat j) = slot pb k)" for k
    by (auto simp: Ex_less_Suc2 algebra_simps)
  moreover from Suc.IH [of "x\<lparr>first_seq_num := first_seq_num pb + 1\<rparr>"] x(1) obtain pb' where
    "clear_to_loop n q (x\<lparr>first_seq_num := first_seq_num pb + 1\<rparr>) = Some pb'" "missing_packets pb' = missing_packets x"
    "\<And>k. held pb' k = (if AheadOf16 q k \<and> (\<exists>j < n. slot pb (first_seq_num pb + 1 + of_nat j) = slot pb k) then None
      else held x k)" unfolding sx held_first pb_ok_first by fastforce
  ultimately show ?case using e hx x(2) by (intro exI [of _ pb']) auto
qed simp

lemma held_clear_slots:
  "pb_ok pb \<Longrightarrow> held (clear_slots n pb) k = (if slot pb k < n then None else held pb k)"
proof (induction n)
  case (Suc n)
  have k: "keeps_slots pb (clear_slots n pb)" by (rule sl.R_clear_slots)
  then have "slot (clear_slots n pb) k = slot pb k" by (simp add: keeps_slots_def slot_def)
  then show ?case using Suc held_free_slot [OF keeps_ok [OF k Suc.prems]] by auto
qed simp

lemma held_Clear: "pb_ok pb \<Longrightarrow> held (PacketBuffer_Clear pb) k = None"
  using held_clear_slots [of pb "pb_size pb" k] pb_ok_slot [of pb k]
  by (auto simp: PacketBuffer_Clear_def held_def slot_def Let_def split: if_splits)

subsection \<open>The whole operation\<close>

text \<open>The numbers that the ordered set of missing numbers can be searched for.\<close>

definition near :: "'x packet_buffer \<Rightarrow> u16 \<Rightarrow> bool" where
  "near pb q \<longleftrightarrow> (case newest_inserted_seq_num pb of None \<Rightarrow> True
     | Some n \<Rightarrow> pos (n - 1000) q < 32768 \<or> \<not> AheadOf16 q n)"

lemma near_window:
  assumes "missing_ok pb" "near pb q"
  shows "\<exists>w. windowed id w (missing_packets pb) \<and> pos w q < 32768"
proof (cases "newest_inserted_seq_num pb")
  case None
  then show ?thesis using assms(1) by (intro exI [of _ q]) (simp add: missing_ok_def)
next
  case (Some n)
  have w: "windowed id (n - 1000) (missing_packets pb)"
    "\<forall>k \<in> set (missing_packets pb). pos (n - 1000) (id k) < pos (n - 1000) n"
    using assms(1) Some by (simp_all add: missing_ok_def pos_1000)
  from assms(2) Some consider "pos (n - 1000) q < 32768" | "\<not> AheadOf16 q n" by (auto simp: near_def)
  then show ?thesis
  proof cases
    case 2
    from window_behind [OF w _ not_ahead_pos [OF 2]] show ?thesis by (simp add: pos_1000 id_def)
  qed (use w in blast)
qed

lemma near_upper_bound:
  assumes "missing_ok pb" "near pb q"
  shows "\<exists>a b. upper_bound id (missing_packets pb) q = Some (a, b)"
  using near_window [OF assms] upper_bound_window by blast

lemma ClearTo_held:
  assumes "pb_inv pb" "near pb (s + 1)" "first_packet_received pb"
    and "\<not> (is_cleared_to_first_seq_num pb \<and> AheadOf16 (first_seq_num pb) s)"
  shows "\<exists>pb'. ClearTo pb s = Some pb' \<and> first_seq_num pb' = s + 1 \<and> is_cleared_to_first_seq_num pb' \<and>
    (\<forall>k. held pb' k = (if AheadOf16 (s + 1) k \<and> (\<exists>j < min (pos (first_seq_num pb) (s + 1)) (pb_size pb).
      slot pb (first_seq_num pb + of_nat j) = slot pb k) then None else held pb k))"
proof -
  have ok: "pb_ok pb" "missing_ok pb" using assms(1) by (simp_all add: pb_inv_def)
  have d: "unat (ForwardDiff (first_seq_num pb) (s + 1)) = pos (first_seq_num pb) (s + 1)"
    by (simp add: ForwardDiff_def pos_def)
  obtain x where x: "clear_to_loop (min (pos (first_seq_num pb) (s + 1)) (pb_size pb)) (s + 1) pb = Some x"
    "missing_packets x = missing_packets pb"
    "\<And>k. held x k = (if AheadOf16 (s + 1) k \<and> (\<exists>j < min (pos (first_seq_num pb) (s + 1)) (pb_size pb).
      slot pb (first_seq_num pb + of_nat j) = slot pb k) then None else held pb k)"
    using clear_to_held [OF ok(1)] by blast
  obtain a b where "upper_bound id (missing_packets x) (s + 1) = Some (a, b)"
    using near_upper_bound [OF ok(2) assms(2)] x(2) by auto
  then have "ClearTo pb s = Some (x\<lparr>first_seq_num := s + 1, is_cleared_to_first_seq_num := True,
      missing_packets := (if a \<noteq> [] then last a # b else missing_packets x)\<rparr>)"
    using assms(3,4) x(1) d by (auto simp: ClearTo_def Let_def)
  moreover have "held (x\<lparr>first_seq_num := s + 1, is_cleared_to_first_seq_num := True, missing_packets := m\<rparr>) k = held x k" for m k
    by (simp add: held_def slot_def Let_def)
  ultimately show ?thesis using x(3) by simp
qed

lemma ClearTo_returns:
  assumes "pb_inv pb" "near pb (s + 1)"
  shows "\<exists>pb'. ClearTo pb s = Some pb'"
proof (cases "is_cleared_to_first_seq_num pb \<and> AheadOf16 (first_seq_num pb) s \<or> \<not> first_packet_received pb")
  case True
  then show ?thesis by (auto simp: ClearTo_def)
next
  case False
  then show ?thesis using ClearTo_held [OF assms] by blast
qed

text \<open>Which numbers a call of \<open>ClearTo\<close> releases: those behind \<open>seq_num + 1\<close> whose slot it comes by.\<close>

definition releases :: "'x packet_buffer \<Rightarrow> u16 \<Rightarrow> u16 \<Rightarrow> bool" where
  "releases pb s k \<longleftrightarrow> first_packet_received pb \<and> \<not> (is_cleared_to_first_seq_num pb \<and> AheadOf16 (first_seq_num pb) s) \<and>
     AheadOf16 (s + 1) k \<and>
     list_ex (\<lambda>j. slot pb (first_seq_num pb + of_nat j) = slot pb k)
       [0..<min (unat (ForwardDiff (first_seq_num pb) (s + 1))) (pb_size pb)]"

lemma ClearTo_releases:
  assumes "pb_ok pb" "ClearTo pb s = Some pb'"
  shows "held pb' k = (if releases pb s k then None else held pb k)"
proof (cases "is_cleared_to_first_seq_num pb \<and> AheadOf16 (first_seq_num pb) s \<or> \<not> first_packet_received pb")
  case True
  with assms(2) show ?thesis by (auto simp: ClearTo_def releases_def split: if_splits)
next
  case False
  let ?n = "min (unat (ForwardDiff (first_seq_num pb) (s + 1))) (pb_size pb)"
  obtain x ms where x: "clear_to_loop ?n (s + 1) pb = Some x"
    "pb' = x\<lparr>first_seq_num := s + 1, is_cleared_to_first_seq_num := True, missing_packets := ms\<rparr>"
    using assms(2) False by (auto simp: ClearTo_def bind_eq_Some_conv Let_def)
  then have "held pb' k = held x k" by (simp add: held_def slot_def Let_def)
  also have "\<dots> = (if AheadOf16 (s + 1) k \<and> (\<exists>j < ?n. slot pb (first_seq_num pb + of_nat j) = slot pb k) then None
      else held pb k)" using clear_to_held [OF assms(1), of ?n "s + 1"] x(1) by auto
  also have "\<dots> = (if releases pb s k then None else held pb k)"
    using False by (auto simp: releases_def list_ex_iff)
  finally show ?thesis .
qed

end
