(* ===== verification/Packet_Search.thy ===== *)
theory Packet_Search
  imports Packet_Clear
begin

text \<open>
  The search for frames returns. For packets of codecs other than H.264 whose payload is as long as
  they say, the search backwards, the copying of the image and the releasing of the
  interval are defined, and the frame is exactly the packets back to its first.
\<close>

subsection \<open>What is in the buffer under a number\<close>

definition view :: "'x packet_buffer \<Rightarrow> u16 \<Rightarrow> (continuity_info \<times> 'x vcm_packet) option" where
  "view pb s =
     (let c = sequence_buffer pb ! slot pb s
      in if used c \<and> ci_seq_num c = s then Some (c, data_buffer pb ! slot pb s) else None)"

lemma held_view: "held pb s = map_option snd (view pb s)"
  by (simp add: held_def view_def Let_def)

lemma info_view: "info pb s = map_option fst (view pb s)"
  by (simp add: info_def view_def Let_def)

lemma view_by_parts: "held y k = held pb k \<Longrightarrow> info y k = info pb k \<Longrightarrow> view y k = view pb k"
  by (cases "view y k"; cases "view pb k") (auto simp: held_view info_view)

lemma view_slot:
  "view pb s = Some (c, p) \<Longrightarrow> sequence_buffer pb ! slot pb s = c \<and> data_buffer pb ! slot pb s = p \<and> used c \<and> ci_seq_num c = s"
  by (auto simp: view_def Let_def split: if_splits)

lemma view_other: "view pb q \<noteq> None \<Longrightarrow> slot pb k = slot pb q \<Longrightarrow> k \<noteq> q \<Longrightarrow> view pb k = None"
  by (auto simp: view_def Let_def split: if_splits)

lemma view_flag:
  assumes "pb_ok pb" "view pb q = Some (c, p)" "used c'" "ci_seq_num c' = q"
  shows "view (pb\<lparr>sequence_buffer := (sequence_buffer pb)[slot pb q := c']\<rparr>) k =
    (if k = q then Some (c', p) else view pb k)"
proof -
  have l: "slot pb q < length (sequence_buffer pb)" using pb_ok_slot [OF assms(1), of q] assms(1) by (simp add: pb_ok_def)
  show ?thesis
  proof (cases "slot pb k = slot pb q")
    case True
    then show ?thesis using l assms(2-4) view_slot [OF assms(2)] view_other [of pb q k]
      by (auto simp: view_def slot_def Let_def)
  next
    case False
    then show ?thesis by (auto simp: view_def slot_def Let_def)
  qed
qed

lemma view_free_slot:
  assumes "pb_ok pb"
  shows "view (free_slot i pb) k = (if slot pb k = i then None else view pb k)"
proof -
  have "slot pb k < length (sequence_buffer pb)" "slot pb k < length (data_buffer pb)"
    using pb_ok_slot [OF assms, of k] assms by (simp_all add: pb_ok_def)
  then show ?thesis by (auto simp: view_def Let_def free_slot_def slot_def nth_list_update split: if_splits)
qed

lemma slot_prev: "pb_ok pb \<Longrightarrow> prev_index pb (slot pb q) = slot pb (q - 1)"
  using slot_Suc [of pb "q - 1"] pb_ok_slot [of pb "q - 1"] pb_ok_size [of pb]
  by (auto simp: prev_index_def mod_Suc split: if_splits)

subsection \<open>The image\<close>

definition payload_ok :: "'x vcm_packet \<Rightarrow> bool" where
  "payload_ok p \<longleftrightarrow> (case pk_dataPtr p of None \<Rightarrow> pk_sizeBytes p = 0 | Some b \<Rightarrow> pk_sizeBytes p \<le> length b)"

lemma image_loop_returns:
  assumes "pb_ok pb" "i < pb_size pb" "0 < m" "m \<le> fuel" "(i + m) mod pb_size pb = e"
    and "\<And>j. j < m \<Longrightarrow> used (sequence_buffer pb ! ((i + j) mod pb_size pb)) \<and>
      payload_ok (data_buffer pb ! ((i + j) mod pb_size pb))"
    and "length acc + (\<Sum>j < m. pk_sizeBytes (data_buffer pb ! ((i + j) mod pb_size pb))) \<le> fs"
  shows "image_loop fuel pb i e fs acc \<noteq> None"
  using assms(2-)
proof (induction fuel arbitrary: i m acc)
  case (Suc fuel)
  let ?n = "pb_size pb" and ?p = "data_buffer pb ! i" and ?i = "(i + 1) mod pb_size pb"
  have u: "used (sequence_buffer pb ! i)" "payload_ok ?p" using Suc.prems(1,2) Suc.prems(5) [of 0] by simp_all
  have v: "vget (sequence_buffer pb) i = Some (sequence_buffer pb ! i)" "vget (data_buffer pb) i = Some ?p"
    using Suc.prems(1) assms(1) by (simp_all add: vget_def pb_ok_def)
  obtain m' where m: "m = Suc m'" using Suc.prems(2) by (cases m) auto
  have s: "(\<Sum>j < m. pk_sizeBytes (data_buffer pb ! ((i + j) mod ?n))) =
      pk_sizeBytes ?p + (\<Sum>j < m'. pk_sizeBytes (data_buffer pb ! ((?i + j) mod ?n)))"
    unfolding m sum.lessThan_Suc_shift using Suc.prems(1) by (simp add: mod_simps)
  obtain payload where payload: "(if pk_sizeBytes ?p = 0 then Some [] else pk_dataPtr ?p) = Some payload"
    "pk_sizeBytes ?p \<le> length payload"
    using u(2) by (cases "pk_sizeBytes ?p = 0"; cases "pk_dataPtr ?p") (auto simp: payload_ok_def)
  have e: "image_loop (Suc fuel) pb i e fs acc =
      (if ?i = e then Some (acc @ take (pk_sizeBytes ?p) payload)
       else image_loop fuel pb ?i e fs (acc @ take (pk_sizeBytes ?p) payload))"
    using v u payload s Suc.prems(6) by (simp add: dcheck_def Let_def)
  show ?case
  proof (cases "?i = e")
    case False
    have "0 < m'" using False Suc.prems(4) by (cases m') (auto simp: m)
    moreover have "(?i + m') mod ?n = e" using Suc.prems(4) by (simp add: m mod_simps)
    moreover have "?i < ?n" using pb_ok_size [OF assms(1)] by simp
    moreover have "used (sequence_buffer pb ! ((?i + j) mod ?n)) \<and> payload_ok (data_buffer pb ! ((?i + j) mod ?n))"
      if "j < m'" for j using Suc.prems(5) [of "Suc j"] that by (simp add: m mod_simps)
    moreover have "length (acc @ take (pk_sizeBytes ?p) payload) +
        (\<Sum>j < m'. pk_sizeBytes (data_buffer pb ! ((?i + j) mod ?n))) \<le> fs"
      using Suc.prems(6) s payload(2) by simp
    ultimately have "image_loop fuel pb ?i e fs (acc @ take (pk_sizeBytes ?p) payload) \<noteq> None"
      using Suc.prems(3) by (intro Suc.IH [of _ m']) (simp_all add: m)
    then show ?thesis using e False by simp
  qed (use e in simp)
qed simp

subsection \<open>Releasing an interval\<close>

lemma clear_interval_returns:
  assumes "pb_ok pb" "\<And>j. j < n \<Longrightarrow> ci_seq_num (sequence_buffer pb ! slot pb (f + of_nat j)) = f + of_nat j"
  shows "\<exists>pb'. clear_interval_loop n f pb = Some pb' \<and>
    (\<forall>k. view pb' k = (if k \<in> set (seq_range f n) then None else view pb k))"
  using assms
proof (induction n arbitrary: f pb)
  case (Suc n)
  let ?i = "slot pb f"
  let ?pb = "free_slot ?i pb"
  have c: "ci_seq_num (sequence_buffer pb ! ?i) = f" using Suc.prems(2) [of 0] by simp
  then have "pk_seqNum (data_buffer pb ! ?i) = f" using Suc.prems(1) pb_ok_slot [OF Suc.prems(1), of f] by (simp add: pb_ok_def)
  with c have e: "clear_interval_loop (Suc n) f pb = clear_interval_loop n (f + 1) ?pb"
    by (simp add: vget_slot [OF Suc.prems(1)] dcheck_def Let_def)
  have "ci_seq_num (sequence_buffer ?pb ! slot ?pb (f + 1 + of_nat j)) = f + 1 + of_nat j" if "j < n" for j
    using Suc.prems(2) [of "Suc j"] that by (simp add: add.assoc)
  from Suc.IH [OF pb_ok_free [OF Suc.prems(1)] this] obtain pb' where p: "clear_interval_loop n (f + 1) ?pb = Some pb'"
    "\<forall>k. view pb' k = (if k \<in> set (seq_range (f + 1) n) then None else view ?pb k)" by blast
  have none: "view pb k = None" if "slot pb k = ?i" "k \<noteq> f" for k
    unfolding view_def Let_def that(1) c using that(2) by simp
  have "view ?pb k = (if k = f then None else view pb k)" for k
    unfolding view_free_slot [OF Suc.prems(1)] using none by simp
  then have "view pb' k = (if k \<in> set (seq_range f (Suc n)) then None else view pb k)" for k using p(2) by simp
  then show ?case using e p(1) by simp
qed simp


subsection \<open>The search backwards\<close>

definition chained :: "'x packet_buffer \<Rightarrow> bool" where
  "chained pb \<longleftrightarrow> (\<forall>k c p. view pb k = Some (c, p) \<longrightarrow> continuous c \<longrightarrow> \<not> frame_begin c \<longrightarrow>
     (\<exists>d r. view pb (k - 1) = Some (d, r) \<and> continuous d))"

definition size_at :: "'x packet_buffer \<Rightarrow> u16 \<Rightarrow> nat" where
  "size_at pb k = pk_sizeBytes (data_buffer pb ! slot pb k)"

lemma view_mark:
  assumes "pb_ok pb" "view pb q = Some (c, p)"
  shows "view (mark_created b (slot pb q) pb) k = (if k = q then Some (c\<lparr>frame_created := b\<rparr>, p) else view pb k)"
  unfolding mark_created_def using view_slot [OF assms(2)]
  by (subst view_flag [OF assms]) simp_all

lemma chained_mark:
  assumes "pb_ok pb" "view pb q = Some (c, p)" "chained pb"
  shows "chained (mark_created b (slot pb q) pb)"
  unfolding chained_def view_mark [OF assms(1,2)]
proof (intro allI impI)
  fix k d r
  assume a: "(if k = q then Some (c\<lparr>frame_created := b\<rparr>, p) else view pb k) = Some (d, r)" "continuous d" "\<not> frame_begin d"
  then obtain d' where "view pb k = Some (d', r)" "continuous d'" "\<not> frame_begin d'"
    using assms(2) by (cases "k = q") auto
  then obtain e s where "view pb (k - 1) = Some (e, s)" "continuous e" using assms(3) unfolding chained_def by blast
  then show "\<exists>d r. (if k - 1 = q then Some (c\<lparr>frame_created := b\<rparr>, p) else view pb (k - 1)) = Some (d, r) \<and> continuous d"
    using assms(2) by auto
qed

lemma mark_fields [simp]:
  "pb_size (mark_created b i pb) = pb_size pb" "data_buffer (mark_created b i pb) = data_buffer pb"
  "slot (mark_created b i pb) k = slot pb k" "prev_index (mark_created b i pb) j = prev_index pb j"
  by (simp_all add: mark_created_def slot_def prev_index_def)

lemma pb_ok_mark: "pb_ok pb \<Longrightarrow> pb_ok (mark_created b i pb)"
  by (rule keeps_ok [OF sl.R_mark])

lemma scan_back_returns:
  assumes "pb_ok pb" "chained pb" "view pb q = Some (c, p)" "continuous c" "0 < n"
    and "sc_start_index s = slot pb q" "sc_start_seq_num s = q"
  shows "\<exists>pb' s' t. scan_back n False ts pb s = Some (pb', s', True) \<and> t < n \<and> sc_start_seq_num s' = q - of_nat t \<and>
    (\<forall>j \<le> t. view pb (q - of_nat j) \<noteq> None \<and> continuous (fst (the (view pb (q - of_nat j)))) \<and>
      (j < t \<longrightarrow> \<not> frame_begin (fst (the (view pb (q - of_nat j)))))) \<and>
    (frame_begin (fst (the (view pb (q - of_nat t)))) \<or> Suc t = n) \<and>
    sc_frame_size s' = sc_frame_size s + (\<Sum>j \<le> t. size_at pb (q - of_nat j)) \<and>
    data_buffer pb' = data_buffer pb \<and> (\<forall>k. held pb' k = held pb k) \<and>
    (\<forall>k. k \<notin> (\<lambda>j. q - of_nat j) ` {..t} \<longrightarrow> view pb' k = view pb k)"
  using assms
proof (induction n arbitrary: pb q c p s)
  case (Suc n)
  let ?i = "slot pb q" and ?pb = "mark_created True (slot pb q) pb"
  note ok = Suc.prems(1) and w = view_slot [OF Suc.prems(3)]
  have v: "vget (data_buffer pb) ?i = Some p" "vget (sequence_buffer pb) ?i = Some c" using vget_slot [OF ok, of q] w by simp_all
  have vm: "view ?pb k = (if k = q then Some (c\<lparr>frame_created := True\<rparr>, p) else view pb k)" for k
    by (rule view_mark [OF ok Suc.prems(3)])
  have hm: "held ?pb k = held pb k" for k using vm [of k] Suc.prems(3) by (simp add: held_view)
  have sz: "size_at pb q = pk_sizeBytes p" using w by (simp add: size_at_def)
  have okm: "pb_ok ?pb" by (rule pb_ok_mark [OF ok])
  have p1: "prev_index pb ?i = slot pb (q - 1)" by (rule slot_prev [OF ok])
  show ?case
  proof (cases "frame_begin c \<or> n = 0")
    case True
    then have "scan_back (Suc n) False ts pb s = Some (?pb, scan_packet p s, True)" using v Suc.prems(6) by (auto simp: Let_def)
    moreover have "sc_frame_size (scan_packet p s) = sc_frame_size s + size_at pb q" by (simp add: scan_packet_def sz)
    ultimately show ?thesis using True hm vm Suc.prems(3,4,7)
      by (intro exI [of _ ?pb] exI [of _ "scan_packet p s"] exI [of _ "0 :: nat"]) auto
  next
    case False
    let ?s = "(scan_packet p s)\<lparr>sc_start_index := slot pb (q - 1), sc_start_seq_num := q - 1\<rparr>"
    obtain d r where d: "view pb (q - 1) = Some (d, r)" "continuous d"
      using Suc.prems(2-4) False unfolding chained_def by blast
    have vp: "vget (data_buffer ?pb) (slot pb (q - 1)) \<noteq> None" "vget (sequence_buffer ?pb) (slot pb (q - 1)) \<noteq> None"
      using vget_slot [OF okm, of "q - 1"] by simp_all
    have e: "scan_back (Suc n) False ts pb s = scan_back n False ts ?pb ?s"
      using v vp False Suc.prems(6,7) p1 by (auto simp: Let_def scan_packet_def)
    have ne: "q - 1 \<noteq> q" by simp
    have "view ?pb (q - 1) = Some (d, r)" using vm [of "q - 1"] d(1) ne by simp
    from Suc.IH [OF okm chained_mark [OF ok Suc.prems(3,2)] this d(2), of ?s] False obtain pb' s' t where
      r: "scan_back n False ts ?pb ?s = Some (pb', s', True)" "t < n" "sc_start_seq_num s' = q - 1 - of_nat t"
      "\<forall>j \<le> t. view ?pb (q - 1 - of_nat j) \<noteq> None \<and> continuous (fst (the (view ?pb (q - 1 - of_nat j)))) \<and>
        (j < t \<longrightarrow> \<not> frame_begin (fst (the (view ?pb (q - 1 - of_nat j)))))"
      "frame_begin (fst (the (view ?pb (q - 1 - of_nat t)))) \<or> Suc t = n"
      "sc_frame_size s' = sc_frame_size ?s + (\<Sum>j \<le> t. size_at ?pb (q - 1 - of_nat j))"
      "data_buffer pb' = data_buffer ?pb" "\<forall>k. held pb' k = held ?pb k"
      "\<forall>k. k \<notin> (\<lambda>j. q - 1 - of_nat j) ` {..t} \<longrightarrow> view pb' k = view ?pb k" by auto
    have g: "q - of_nat (Suc j) = q - 1 - of_nat j" for j by (simp add: algebra_simps)
    have vn: "view ?pb k = None \<longleftrightarrow> view pb k = None"
      "frame_begin (fst (the (view ?pb k))) = frame_begin (fst (the (view pb k)))"
      "continuous (fst (the (view ?pb k))) = continuous (fst (the (view pb k)))" for k
      using vm [of k] Suc.prems(3) by (cases "k = q"; simp)+
    have "view pb (q - of_nat j) \<noteq> None \<and> continuous (fst (the (view pb (q - of_nat j)))) \<and>
        (j < Suc t \<longrightarrow> \<not> frame_begin (fst (the (view pb (q - of_nat j)))))"
      if "j \<le> Suc t" for j
    proof (cases j)
      case 0
      then show ?thesis using Suc.prems(3,4) False by simp
    next
      case (Suc i)
      then have "i \<le> t" using that by simp
      then show ?thesis unfolding Suc g using r(4) by (simp add: vn del: not_None_eq)
    qed
    moreover have "frame_begin (fst (the (view pb (q - of_nat (Suc t))))) \<or> Suc (Suc t) = Suc n"
      unfolding g using r(5) by (simp add: vn)
    moreover have "sc_frame_size s' = sc_frame_size s + (\<Sum>j \<le> Suc t. size_at pb (q - of_nat j))"
      unfolding sum.atMost_Suc_shift g using r(6) sz by (simp add: scan_packet_def size_at_def)
    moreover have "view pb' k = view pb k" if "k \<notin> (\<lambda>j. q - of_nat j) ` {..Suc t}" for k
    proof -
      have "k \<notin> (\<lambda>j. q - of_nat (Suc j)) ` {..t}" "k \<noteq> q"
        using that unfolding atMost_Suc_eq_insert_0 image_insert image_image by simp_all
      then show ?thesis using r(9) vm [of k] unfolding g by simp
    qed
    ultimately show ?thesis using e r(1,2,7,8) r(3) [folded g] hm
      by (intro exI [of _ pb'] exI [of _ s'] exI [of _ "Suc t"]) (simp only: mark_fields Suc_less_eq simp_thms, blast)
  qed
qed simp

subsection \<open>One frame\<close>

lemma seq_range_back:
  fixes q k :: u16
  shows "k \<in> set (seq_range (q - of_nat t) (t + 1)) \<longleftrightarrow> k \<in> (\<lambda>j. q - of_nat j) ` {..t}"
proof
  assume "k \<in> set (seq_range (q - of_nat t) (t + 1))"
  then obtain j where j: "j \<le> t" "k = q - of_nat t + of_nat j" by (auto simp: seq_range_map less_Suc_eq_le simp del: upt_Suc)
  then have "k = q - of_nat (t - j)" by (simp add: of_nat_diff)
  then show "k \<in> (\<lambda>j. q - of_nat j) ` {..t}" using j(1) by (intro image_eqI [of _ _ "t - j"]) simp_all
next
  assume "k \<in> (\<lambda>j. q - of_nat j) ` {..t}"
  then obtain j where j: "j \<le> t" "k = q - of_nat j" by auto
  then have "k = q - of_nat t + of_nat (t - j)" by (simp add: of_nat_diff)
  then show "k \<in> set (seq_range (q - of_nat t) (t + 1))" unfolding seq_range_map set_map set_upt
    by (intro image_eqI [of _ _ "t - j"]) simp_all
qed

lemma create_frame_returns:
  assumes ok: "pb_ok pb" and m: "missing_ok pb" "near pb q" and t: "t < pb_size pb" "sc_start_seq_num s = q - of_nat t"
    and h: "\<And>j. j \<le> t \<Longrightarrow> \<exists>p. held pb (q - of_nat j) = Some p \<and> payload_ok p"
    and fs: "sc_frame_size s = (\<Sum>j \<le> t. size_at pb (q - of_nat j))"
  shows "\<exists>pb' fr. create_frame pb q s = Some (pb', fr) \<and> frame_numbers fr = seq_range (q - of_nat t) (t + 1) \<and>
    (\<forall>k. view pb' k = (if k \<in> (\<lambda>j. q - of_nat j) ` {..t} then None else view pb k))"
proof -
  let ?f = "q - of_nat t" and ?n = "pb_size pb"
  obtain a b where ub: "upper_bound id (missing_packets pb) q = Some (a, b)" using near_upper_bound [OF m] by blast
  let ?x = "pb\<lparr>missing_packets := b\<rparr>"
  have okx: "pb_ok ?x" using ok by (simp add: pb_ok_def slot_def)
  have hx: "held ?x k = held pb k" "slot ?x k = slot pb k" "view ?x k = view pb k" for k
    by (simp_all add: held_def view_def slot_def Let_def)
  have t32: "t < 32768" using t(1) pb_ok_small [OF ok] by simp
  note bn = back_numbers [OF t32 refl, of q]
  have fwd: "?f + of_nat j = q - of_nat (t - j)" if "j \<le> t" for j using that by (simp add: of_nat_diff)
  have sl: "(slot pb ?f + j) mod ?n = slot pb (q - of_nat (t - j))" if "j \<le> t" for j
    using slot_add [OF ok, of ?f j] fwd [OF that] by simp
  have used: "used (sequence_buffer pb ! slot pb (q - of_nat j)) \<and> ci_seq_num (sequence_buffer pb ! slot pb (q - of_nat j)) = q - of_nat j \<and>
      payload_ok (data_buffer pb ! slot pb (q - of_nat j))" if "j \<le> t" for j
    using h [OF that] by (auto simp: held_def Let_def split: if_splits)
  have "(slot pb ?f + (t + 1)) mod ?n = slot pb (q + 1)" by (simp only: bn(3) slot_add [OF ok])
  then have e: "(slot pb ?f + (t + 1)) mod ?n = (unat q + 1) mod ?n"
    unfolding slot_Suc [OF ok] by (simp add: slot_def mod_simps)
  have "(\<Sum>j < t + 1. size_at pb (q - of_nat (t - j))) = (\<Sum>j \<le> t. size_at pb (q - of_nat j))"
    using sum.nat_diff_reindex [of "\<lambda>j. size_at pb (q - of_nat j)" "t + 1"] by (simp add: lessThan_Suc_atMost)
  moreover have "(\<Sum>j < t + 1. pk_sizeBytes (data_buffer pb ! ((slot pb ?f + j) mod ?n))) =
      (\<Sum>j < t + 1. size_at pb (q - of_nat (t - j)))"
    by (rule sum.cong) (simp_all add: size_at_def sl)
  ultimately have sum: "(\<Sum>j < t + 1. pk_sizeBytes (data_buffer pb ! ((slot pb ?f + j) mod ?n))) = sc_frame_size s"
    using fs by (simp only:)
  have at: "used (sequence_buffer pb ! ((slot pb ?f + j) mod ?n)) \<and> payload_ok (data_buffer pb ! ((slot pb ?f + j) mod ?n))"
    if "j < t + 1" for j
  proof -
    have "j \<le> t" using that by simp
    then show ?thesis unfolding sl [OF \<open>j \<le> t\<close>] using used [OF diff_le_self, of j] by blast
  qed
  have "image_loop ?n ?x (slot pb ?f) ((unat q + 1) mod ?n) (sc_frame_size s) [] \<noteq> None"
    by (rule image_loop_returns [OF okx, of _ "t + 1"])
      (use t e at sum in \<open>simp_all add: pb_ok_slot [OF ok] del: sum.lessThan_Suc\<close>)
  then obtain img where img: "GetEncodedImageBuffer ?x (sc_frame_size s) ?f q = Some img"
    by (auto simp: GetEncodedImageBuffer_def slot_def)
  have "ci_seq_num (sequence_buffer ?x ! slot ?x (?f + of_nat j)) = ?f + of_nat j" if "j < t + 1" for j
  proof -
    have j: "j \<le> t" using that by simp
    have "sequence_buffer ?x = sequence_buffer pb" by simp
    then show ?thesis unfolding hx(2) fwd [OF j] using used [OF diff_le_self, of j] by (simp only:)
  qed
  from clear_interval_returns [OF okx this] obtain pb' where p: "clear_interval_loop (t + 1) ?f ?x = Some pb'"
    "\<forall>k. view pb' k = (if k \<in> set (seq_range ?f (t + 1)) then None else view ?x k)" by blast
  then have c: "ClearInterval ?x ?f q = Some pb'" using bn(2) t(1) by (simp add: ClearInterval_def dcheck_def)
  obtain p1 p2 where "GetPacket ?x ?f = Some (Some p1)" "GetPacket ?x q = Some (Some p2)"
    using h [of t] h [of 0] hx(1) by (auto simp: GetPacket_held [OF okx])
  then obtain fr where "create_frame pb q s = Some (pb', fr)" "fr_first_seq_num fr = ?f" "fr_last_seq_num fr = q"
    using ub img c t(2) by (auto simp: create_frame_def)
  moreover from this have "frame_numbers fr = seq_range ?f (t + 1)" using bn(1) by (simp add: frame_numbers_def)
  ultimately show ?thesis using p(2) seq_range_back [of _ q t] hx(3) by auto
qed

end
