(* ===== verification/Packet_Progress.thy ===== *)
theory Packet_Progress
  imports Packet_Search
begin

text \<open>
  The buffer on a stream without H.264: operations whose arguments meet \<open>stream_op_ok\<close> (and \<open>clear_near\<close>, for \<open>ClearTo\<close>)
  return, and no complete frame stays behind. The conditions are on the arguments: a number is not exactly half the range
  from the newest one, no packet in the buffer is ahead of the newest one, and \<open>ClearTo\<close> does not cut a frame.

  The invariant \<open>stream_inv\<close> says of each packet in the buffer that it is \<open>continuous\<close> exactly when it is
  the first of its frame or the packet before it is continuous and of the same frame, and
  that the last packet of a frame is never continuous: it would have been handed out.
\<close>

subsection \<open>The invariant\<close>

definition packet_ok :: "'x vcm_packet \<Rightarrow> bool" where
  "packet_ok p \<longleftrightarrow> pk_codec p \<noteq> kVideoCodecH264 \<and> payload_ok p"

definition follows :: "'x packet_buffer \<Rightarrow> u16 \<Rightarrow> 'x vcm_packet \<Rightarrow> bool" where
  "follows pb k p \<longleftrightarrow> (case view pb (k - 1) of None \<Rightarrow> False
     | Some (d, r) \<Rightarrow> continuous d \<and> pk_timestamp r = pk_timestamp p)"

definition entry_fine :: "continuity_info \<Rightarrow> 'x vcm_packet \<Rightarrow> bool" where
  "entry_fine c p \<longleftrightarrow> packet_ok p \<and> \<not> frame_created c \<and> frame_begin c = pk_first_in_frame p \<and>
     frame_end c = pk_last_in_frame p \<and> \<not> (continuous c \<and> frame_end c)"

definition stream_except :: "u16 option \<Rightarrow> 'x packet_buffer \<Rightarrow> bool" where
  "stream_except e pb \<longleftrightarrow> (\<forall>k c p. view pb k = Some (c, p) \<longrightarrow> entry_fine c p \<and>
     (continuous c \<longrightarrow> frame_begin c \<or> follows pb k p) \<and>
     (e \<noteq> Some k \<longrightarrow> frame_begin c \<or> follows pb k p \<longrightarrow> continuous c))"

definition stream_inv :: "'x packet_buffer \<Rightarrow> bool" where
  "stream_inv pb \<longleftrightarrow> pb_inv pb \<and> stream_except None pb"

lemma stream_exceptD:
  assumes "stream_except e pb" "view pb k = Some (c, p)"
  shows "entry_fine c p" "continuous c \<Longrightarrow> frame_begin c \<or> follows pb k p"
    "e \<noteq> Some k \<Longrightarrow> frame_begin c \<or> follows pb k p \<Longrightarrow> continuous c"
  using assms unfolding stream_except_def by blast+

lemma follows_iff:
  "follows pb k p \<longleftrightarrow> (\<exists>d r. view pb (k - 1) = Some (d, r) \<and> continuous d \<and> pk_timestamp r = pk_timestamp p)"
  by (auto simp: follows_def split: option.splits)

lemma follows_cong: "view pb' (k - 1) = view pb (k - 1) \<Longrightarrow> follows pb' k p = follows pb k p"
  by (simp add: follows_def)

lemma stream_except_view: "(\<And>k. view pb' k = view pb k) \<Longrightarrow> stream_except e pb' = stream_except e pb"
  by (simp add: stream_except_def follows_def)

lemma stream_chained: "stream_except e pb \<Longrightarrow> chained pb"
  unfolding chained_def using stream_exceptD(2) by (fastforce simp: follows_def split: option.splits)

lemma PotentialNewFrame_eq:
  assumes "pb_ok pb"
  shows "PotentialNewFrame pb q = Some (case view pb q of None \<Rightarrow> False
    | Some (c, p) \<Rightarrow> \<not> frame_created c \<and> (frame_begin c \<or>
        (case view pb (q - 1) of None \<Rightarrow> False
         | Some (d, r) \<Rightarrow> \<not> frame_created d \<and> pk_timestamp r = pk_timestamp p \<and> continuous d)))"
proof -
  note v = vget_slot [OF assms, of q] vget_slot [OF assms, of "q - 1"] and p = slot_prev [OF assms, of q]
  show ?thesis unfolding PotentialNewFrame_def Let_def p
    by (auto simp: v view_def Let_def)
qed

lemma PotentialNewFrame_stream:
  assumes "pb_ok pb" "stream_except e pb"
  shows "PotentialNewFrame pb q = Some (case view pb q of None \<Rightarrow> False
    | Some (c, p) \<Rightarrow> frame_begin c \<or> follows pb q p)"
  unfolding PotentialNewFrame_eq [OF assms(1)] follows_def
  using stream_exceptD(1) [OF assms(2), of q] stream_exceptD(1) [OF assms(2), of "q - 1"]
  by (fastforce simp: entry_fine_def split: option.splits)

subsection \<open>One step of the search\<close>

lemma view_set_continuous:
  assumes "pb_ok pb" "view pb q = Some (c, p)"
  shows "view (set_continuous (slot pb q) pb) k = (if k = q then Some (c\<lparr>continuous := True\<rparr>, p) else view pb k)"
  unfolding set_continuous_def using view_slot [OF assms(2)] by (subst view_flag [OF assms]) simp_all

lemma stream_set_continuous:
  assumes s: "stream_except (Some q) pb" and v: "view pb q = Some (c, p)" "frame_begin c \<or> follows pb q p" "\<not> frame_end c"
    and w: "\<And>k. view x k = (if k = q then Some (c\<lparr>continuous := True\<rparr>, p) else view pb k)"
  shows "stream_except (Some (q + 1)) x"
  unfolding stream_except_def
proof (intro allI impI)
  fix k d r assume a: "view x k = Some (d, r)"
  have f: "follows x k r = follows pb k r" if "k \<noteq> q + 1" for k r
  proof (rule follows_cong)
    have "k - 1 \<noteq> q" using that by auto
    then show "view x (k - 1) = view pb (k - 1)" using w by simp
  qed
  show "entry_fine d r \<and> (continuous d \<longrightarrow> frame_begin d \<or> follows x k r) \<and>
      (Some (q + 1) \<noteq> Some k \<longrightarrow> frame_begin d \<or> follows x k r \<longrightarrow> continuous d)"
  proof (cases "k = q")
    case True
    then have "d = c\<lparr>continuous := True\<rparr>" "r = p" using a w by auto
    moreover have "q \<noteq> q + 1" by simp
    ultimately show ?thesis using True v f [of q p] stream_exceptD(1) [OF s v(1)] by (simp add: entry_fine_def)
  next
    case False
    then have b: "view pb k = Some (d, r)" using a w by simp
    show ?thesis
    proof (cases "k = q + 1")
      case True
      then have "follows pb k r \<Longrightarrow> follows x k r" using v(1) w by (simp add: follows_def)
      then show ?thesis using True stream_exceptD [OF s b] False by blast
    next
      case ne: False
      then show ?thesis using f [OF ne] stream_exceptD [OF s b] False by simp
    qed
  qed
qed

lemma interval_next:
  fixes q k :: u16
  assumes "k - 1 \<in> (\<lambda>j. q - of_nat j) ` {..t}" "k \<notin> (\<lambda>j. q - of_nat j) ` {..t}"
  shows "k = q + 1"
proof -
  obtain j where j: "j \<le> t" "k - 1 = q - of_nat j" using assms(1) by auto
  have k: "k = q - of_nat j + 1" using j(2) by (metis diff_add_cancel)
  show ?thesis
  proof (cases j)
    case (Suc i)
    then have "k = q - of_nat i" using k by simp
    with assms(2) Suc j(1) show ?thesis by auto
  qed (use k in simp)
qed

lemma stream_release:
  assumes s: "stream_except (Some q) pb" and v: "view pb q = Some (c, p)" "frame_end c"
    and w: "\<And>k. view x k = (if k \<in> (\<lambda>j. q - of_nat j) ` {..t} then None else view pb k)"
  shows "stream_except (Some (q + 1)) x"
  unfolding stream_except_def
proof (intro allI impI)
  let ?I = "(\<lambda>j. q - of_nat j) ` {..t}"
  fix k d r assume a: "view x k = Some (d, r)"
  then have k: "k \<notin> ?I" and b: "view pb k = Some (d, r)" using w [of k] by (auto split: if_splits)
  have "q - of_nat 0 \<in> ?I" by (rule imageI) simp
  then have ne: "k \<noteq> q" using k by auto
  have f: "follows x k r = follows pb k r" if "k - 1 \<notin> ?I" using w [of "k - 1"] that by (intro follows_cong) simp
  have g: "\<not> follows x k r" if "k - 1 \<in> ?I" using w [of "k - 1"] that by (simp add: follows_def)
  have "\<not> follows pb (q + 1) r" for r
    using v stream_exceptD(1) [OF s v(1)] by (auto simp: follows_def entry_fine_def)
  then have h: "\<not> follows pb k r" if "k - 1 \<in> ?I" using interval_next [OF that k] by simp
  show "entry_fine d r \<and> (continuous d \<longrightarrow> frame_begin d \<or> follows x k r) \<and>
      (Some (q + 1) \<noteq> Some k \<longrightarrow> frame_begin d \<or> follows x k r \<longrightarrow> continuous d)"
    using stream_exceptD [OF s b] ne f g h by (cases "k - 1 \<in> ?I") auto
qed

text \<open>The buffer is never filled by one unfinished frame that goes further back.\<close>

lemma full_chain:
  assumes ok: "pb_ok pb" and ch: "chained pb" and t: "Suc t = pb_size pb" "view pb q \<noteq> None"
    "view pb (q - of_nat t) \<noteq> None" "continuous (fst (the (view pb (q - of_nat t))))"
  shows "frame_begin (fst (the (view pb (q - of_nat t))))"
proof (rule ccontr)
  assume "\<not> frame_begin (fst (the (view pb (q - of_nat t))))"
  with ch t obtain d r where d: "view pb (q - of_nat t - 1) = Some (d, r)" unfolding chained_def by fastforce
  let ?k = "q - of_nat t - 1"
  have q: "q = ?k + of_nat (Suc t)" by simp
  have "slot pb q = (slot pb ?k + Suc t) mod pb_size pb" by (subst q) (rule slot_add [OF ok])
  then have "slot pb ?k = slot pb q" using t(1) pb_ok_slot [OF ok, of ?k] by simp
  moreover have "?k \<noteq> q"
  proof
    assume "?k = q"
    then have z: "(of_nat (Suc t) :: u16) = 0" using q by (metis add_cancel_left_right)
    have "unat (of_nat (Suc t) :: u16) = Suc t mod 65536" by (simp only: unat_of_nat) simp
    then have "Suc t mod 65536 = 0" unfolding z by simp
    then show False using t(1) pb_ok_small [OF ok] by simp
  qed
  ultimately show False using view_other [OF t(2)] d by simp
qed

lemma frame_at_stream:
  assumes inv: "pb_inv pb" and n: "near pb q" and ch: "chained pb"
    and pk: "\<And>k c p. view pb k = Some (c, p) \<Longrightarrow> packet_ok p" and v: "view pb q = Some (c, p)" "continuous c"
  shows "\<exists>pb' fr t. frame_at pb q = Some (pb', [fr], True) \<and> frame_numbers fr = seq_range (q - of_nat t) (t + 1) \<and>
    (\<exists>d r. view pb (q - of_nat t) = Some (d, r) \<and> frame_begin d) \<and>
    (\<forall>k. view pb' k = (if k \<in> (\<lambda>j. q - of_nat j) ` {..t} then None else view pb k))"
proof -
  have ok: "pb_ok pb" "missing_ok pb" using inv by (simp_all add: pb_inv_def)
  let ?s = "scan_init p q (slot pb q)"
  have p: "vget (data_buffer pb) (slot pb q) = Some p" "pk_codec p \<noteq> kVideoCodecH264"
    using vget_slot [OF ok(1), of q] view_slot [OF v(1)] pk [OF v(1)] by (simp_all add: packet_ok_def)
  have i: "sc_start_index ?s = slot pb q" "sc_start_seq_num ?s = q" "sc_frame_size ?s = 0" by (simp_all add: scan_init_def)
  obtain x s t where x: "scan_back (pb_size pb) False (pk_timestamp p) pb ?s = Some (x, s, True)" "t < pb_size pb"
    "sc_start_seq_num s = q - of_nat t" "\<forall>j \<le> t. view pb (q - of_nat j) \<noteq> None \<and>
      continuous (fst (the (view pb (q - of_nat j))))"
    "sc_frame_size s = (\<Sum>j \<le> t. size_at pb (q - of_nat j))" "data_buffer x = data_buffer pb"
    "\<forall>k. held x k = held pb k" "\<forall>k. k \<notin> (\<lambda>j. q - of_nat j) ` {..t} \<longrightarrow> view x k = view pb k"
    "frame_begin (fst (the (view pb (q - of_nat t)))) \<or> Suc t = pb_size pb"
    using scan_back_returns [OF ok(1) ch v pb_ok_size [OF ok(1)] i(1,2), of "pk_timestamp p"]
    unfolding i(3) add_0 by blast
  have kx: "keeps_slots pb x" by (rule sl.R_scan_back [OF x(1)])
  have px: "prunes pb x" by (rule mp.R_scan_back [OF x(1)])
  have okx: "pb_ok x" "missing_ok x" using keeps_ok [OF kx ok(1)] missing_ok_prunes [OF px ok(2)] .
  have nx: "near x q" using n px by (simp add: near_def prunes_def)
  have sx: "pb_size x = pb_size pb" "slot x k = slot pb k" for k using kx by (simp_all add: keeps_slots_def slot_def)
  have "\<exists>r. held x (q - of_nat j) = Some r \<and> payload_ok r" if j: "j \<le> t" for j
  proof -
    obtain d r where "view pb (q - of_nat j) = Some (d, r)" using x(4) j by fastforce
    then show ?thesis using x(7) pk by (auto simp: held_view packet_ok_def)
  qed
  from create_frame_returns [OF okx nx _ x(3) this] x(2,5,6) sx obtain pb' fr where
    f: "create_frame x q s = Some (pb', fr)" "frame_numbers fr = seq_range (q - of_nat t) (t + 1)"
    "\<forall>k. view pb' k = (if k \<in> (\<lambda>j. q - of_nat j) ` {..t} then None else view x k)"
    by (auto simp: size_at_def)
  have "frame_at pb q = Some (pb', [fr], True)" using p x(1) f(1) by (simp add: frame_at_def Let_def)
  moreover have "frame_begin (fst (the (view pb (q - of_nat t))))"
    using x(9) by (elim disjE) (use full_chain [OF ok(1) ch, of t q] x(4) v(1) in auto)
  then have "\<exists>d r. view pb (q - of_nat t) = Some (d, r) \<and> frame_begin d" using x(4) by fastforce
  moreover have "view pb' k = (if k \<in> (\<lambda>j. q - of_nat j) ` {..t} then None else view pb k)" for k
    using f(3) x(8) by simp
  ultimately show ?thesis using f(2) by blast
qed

subsection \<open>The whole search\<close>

text \<open>What the frames handed out from \<open>pb\<close> are, and what is left: the packets that are not in them. Each frame
  starts with a first packet and ends with a last one.\<close>

definition whole_frame :: "(u16 \<Rightarrow> 'x vcm_packet option) \<Rightarrow> 'x rtp_frame \<Rightarrow> bool" where
  "whole_frame lookup fr \<longleftrightarrow>
     (case lookup (hd (frame_numbers fr)) of None \<Rightarrow> False | Some p \<Rightarrow> pk_first_in_frame p) \<and>
     (case lookup (last (frame_numbers fr)) of None \<Rightarrow> False | Some p \<Rightarrow> pk_last_in_frame p)"

definition frames_taken :: "'x packet_buffer \<Rightarrow> 'x packet_buffer \<Rightarrow> 'x rtp_frame list \<Rightarrow> bool" where
  "frames_taken pb pb' frs \<longleftrightarrow> list_all (whole_frame (held pb)) frs \<and>
     (\<forall>k. held pb' k = (if k \<in> set (concat (map frame_numbers frs)) then None else held pb k))"

lemma frames_taken_append:
  assumes "frames_taken pb x fs" "frames_taken x pb' gs"
  shows "frames_taken pb pb' (fs @ gs)"
proof -
  have "held pb k = Some p" if "held x k = Some p" for k p
    using assms(1) that by (auto simp: frames_taken_def split: if_splits)
  then have "whole_frame (held pb) fr" if "whole_frame (held x) fr" for fr
    using that by (auto simp: whole_frame_def split: option.splits)
  then show ?thesis using assms by (auto simp: frames_taken_def list_all_iff)
qed

lemma seq_range_ends: "hd (seq_range f (t + 1)) = f" "last (seq_range f (t + 1)) = f + of_nat t"
proof -
  show "last (seq_range f (t + 1)) = f + of_nat t" unfolding seq_range_map by (simp add: last_map)
qed simp

lemma frame_taken:
  assumes f: "frame_numbers fr = seq_range (q - of_nat t) (t + 1)"
    and v: "\<And>k. view x k = (if k \<in> (\<lambda>j. q - of_nat j) ` {..t} then None else view pb k)"
    and b: "view pb (q - of_nat t) = Some (c, p)" "pk_first_in_frame p" "view pb q = Some (d, r)" "pk_last_in_frame r"
  shows "frames_taken pb x [fr]"
proof -
  have "hd (frame_numbers fr) = q - of_nat t" "last (frame_numbers fr) = q" using f seq_range_ends by simp_all
  then have "whole_frame (held pb) fr" using b by (simp add: whole_frame_def held_view)
  moreover have "held x k = (if k \<in> set (frame_numbers fr) then None else held pb k)" for k
    unfolding f seq_range_back using v [of k] by (simp add: held_view)
  ultimately show ?thesis by (simp add: frames_taken_def)
qed

lemma frames_taken_held:
  assumes "\<And>k. held pb k = held y k" "frames_taken pb pb' frs"
  shows "frames_taken y pb' frs"
proof -
  have "held pb = held y" using assms(1) by auto
  then show ?thesis using assms(2) by (simp add: frames_taken_def)
qed

lemma frames_taken_view:
  assumes "\<And>k. view pb k \<noteq> None \<Longrightarrow> near pb k" "prunes pb x" "frames_taken pb x fs" "view x k \<noteq> None"
  shows "near x k"
proof -
  have "held x k \<noteq> None" using assms(4) by (simp add: held_view)
  then have "held pb k \<noteq> None" using assms(3) by (auto simp: frames_taken_def split: if_splits)
  then have "near pb k" using assms(1) by (simp add: held_view)
  then show ?thesis using assms(2) by (simp add: near_def prunes_def)
qed

lemma search_step:
  assumes inv: "pb_inv pb" and s: "stream_except (Some q) pb" and n: "\<And>k. view pb k \<noteq> None \<Longrightarrow> near pb k"
    and v: "view pb q = Some (c, p)" "frame_begin c \<or> follows pb q p"
  shows "\<exists>x fs. (if frame_end c then frame_at (set_continuous (slot pb q) pb) q
      else Some (set_continuous (slot pb q) pb, [], True)) = Some (x, fs, True) \<and>
    pb_inv x \<and> stream_except (Some (q + 1)) x \<and> frames_taken pb x fs \<and> prunes pb x"
proof -
  let ?x = "set_continuous (slot pb q) pb" and ?c = "c\<lparr>continuous := True\<rparr>"
  have ok: "pb_ok pb" using inv by (simp add: pb_inv_def)
  note w = view_set_continuous [OF ok v(1)]
  have invx: "pb_inv ?x" by (rule inv_both [OF sl.R_continuous mp.R_continuous inv])
  have px: "prunes pb ?x" by (rule mp.R_continuous)
  have hx: "held ?x k = held pb k" for k using w [of k] v(1) by (simp add: held_view)
  show ?thesis
  proof (cases "frame_end c")
    case False
    have "stream_except (Some (q + 1)) ?x" by (rule stream_set_continuous [OF s v False w])
    then show ?thesis using False invx px hx by (simp add: frames_taken_def)
  next
    case True
    have "chained ?x" unfolding chained_def w
    proof (intro allI impI)
      fix k d r
      assume a: "(if k = q then Some (?c, p) else view pb k) = Some (d, r)" "continuous d" "\<not> frame_begin d"
      show "\<exists>d r. (if k - 1 = q then Some (?c, p) else view pb (k - 1)) = Some (d, r) \<and> continuous d"
      proof (cases "k = q")
        case True
        then have "follows pb q p" using a v(2) by auto
        then show ?thesis using True by (auto simp: follows_def split: option.splits)
      next
        case False
        then have "view pb k = Some (d, r)" using a(1) by simp
        from stream_exceptD(2) [OF s this a(2)] a(3) show ?thesis by (auto simp: follows_def split: option.splits)
      qed
    qed
    moreover have "packet_ok r" if "view ?x k = Some (d, r)" for k d r
      using that w [of k] v(1) stream_exceptD(1) [OF s, of k] by (auto simp: entry_fine_def split: if_splits)
    moreover have "near ?x q" using n [of q] v(1) px by (simp add: near_def prunes_def)
    ultimately obtain x fr t where x: "frame_at ?x q = Some (x, [fr], True)" "frame_numbers fr = seq_range (q - of_nat t) (t + 1)"
      "\<exists>d r. view ?x (q - of_nat t) = Some (d, r) \<and> frame_begin d"
      and vx: "\<And>k. view x k = (if k \<in> (\<lambda>j. q - of_nat j) ` {..t} then None else view ?x k)"
      using frame_at_stream [OF invx, of q ?c p] w [of q] by auto
    have "q = q - of_nat 0" by simp
    then have "q \<in> (\<lambda>j. q - of_nat j) ` {..t}" by (metis atMost_iff image_eqI le0)
    then have vp: "view x k = (if k \<in> (\<lambda>j. q - of_nat j) ` {..t} then None else view pb k)" for k
      using vx [of k] w [of k] by auto
    obtain d r where d: "view pb (q - of_nat t) = Some (d, r)" "frame_begin d"
      using x(3) w [of "q - of_nat t"] v(1) by (auto split: if_splits)
    then have "frames_taken pb x [fr]"
      using frame_taken [OF x(2) vp d(1) _ v(1)] True stream_exceptD(1) [OF s d(1)] stream_exceptD(1) [OF s v(1)]
      by (simp add: entry_fine_def)
    moreover have "pb_inv x" by (rule inv_both [OF sl.R_frame_at [OF x(1)] mp.R_frame_at [OF x(1)] invx])
    moreover have "prunes pb x" by (rule mp.R_trans [OF px mp.R_frame_at [OF x(1)]])
    ultimately show ?thesis using True x(1) stream_release [OF s v(1) True vp] by auto
  qed
qed

lemma search_returns:
  assumes "pb_inv pb" "stream_except (Some q) pb" "\<And>k. view pb k \<noteq> None \<Longrightarrow> near pb k"
    and "view pb (q + of_nat n) = None"
  shows "\<exists>pb' frs. find_frames_loop n pb q = Some (pb', frs) \<and> pb_inv pb' \<and> stream_except None pb' \<and>
    frames_taken pb pb' frs"
  using assms
proof (induction n arbitrary: pb q)
  case 0
  then have "view pb q = None" by simp
  then have "stream_except None pb" using 0(2) unfolding stream_except_def by (metis option.distinct(1) option.inject)
  then show ?case using 0(1) by (simp add: frames_taken_def)
next
  case (Suc n)
  have ok: "pb_ok pb" using Suc.prems(1) by (simp add: pb_inv_def)
  note new = PotentialNewFrame_stream [OF ok Suc.prems(2), of q]
  show ?case
  proof (cases "case view pb q of None \<Rightarrow> False | Some (c, p) \<Rightarrow> frame_begin c \<or> follows pb q p")
    case False
    then have "find_frames_loop (Suc n) pb q = Some (pb, [])" using new by simp
    moreover have "stream_except None pb"
      using Suc.prems(2) False unfolding stream_except_def by (fastforce split: option.splits prod.splits)
    ultimately show ?thesis using Suc.prems(1) by (simp add: frames_taken_def)
  next
    case True
    then obtain c p where v: "view pb q = Some (c, p)" "frame_begin c \<or> follows pb q p" by (auto split: option.splits)
    from search_step [OF Suc.prems(1-3) v] obtain x fs where
      x: "(if frame_end c then frame_at (set_continuous (slot pb q) pb) q
        else Some (set_continuous (slot pb q) pb, [], True)) = Some (x, fs, True)"
      "pb_inv x" "stream_except (Some (q + 1)) x" "frames_taken pb x fs" "prunes pb x" by blast
    have nx: "near x k" if "view x k \<noteq> None" for k
      by (rule frames_taken_view [OF Suc.prems(3) x(5,4) that])
    have "held x (q + 1 + of_nat n) = None"
      using x(4) Suc.prems(4) by (simp add: frames_taken_def held_view add.assoc)
    then have "view x (q + 1 + of_nat n) = None" by (simp add: held_view)
    from Suc.IH [OF x(2,3) nx this] obtain pb' gs where g: "find_frames_loop n x (q + 1) = Some (pb', gs)" "pb_inv pb'"
      "stream_except None pb'" "frames_taken x pb' gs" by blast
    have "vget (sequence_buffer (set_continuous (slot pb q) pb)) (slot pb q) =
        Some (c\<lparr>continuous := True\<rparr>)"
      using vget_slot(1) [OF ok, of q] view_slot [OF v(1)] by (auto simp: vget_def set_continuous_def split: if_splits)
    then have "find_frames_loop (Suc n) pb q = Some (pb', fs @ gs)"
      using new True x(1) g(1) by (simp add: Let_def)
    then show ?thesis using g(2,3) frames_taken_append [OF x(4) g(4)] by blast
  qed
qed

lemma FindFrames_returns:
  assumes "pb_inv pb" "stream_except (Some q) pb" "\<And>k. view pb k \<noteq> None \<Longrightarrow> near pb k"
  shows "\<exists>pb' frs. FindFrames pb q = Some (pb', frs) \<and> pb_inv pb' \<and> stream_except None pb' \<and> frames_taken pb pb' frs"
proof (cases "view pb q")
  case None
  have ok: "pb_ok pb" using assms(1) by (simp add: pb_inv_def)
  have "PotentialNewFrame pb q = Some False" using PotentialNewFrame_eq [OF ok, of q] None by simp
  then have "FindFrames pb q = Some (pb, [])" using pb_ok_size [OF ok] by (cases "pb_size pb") (simp_all add: FindFrames_def)
  moreover have "stream_except None pb"
    using assms(2) None unfolding stream_except_def by (metis option.distinct(1) option.inject)
  ultimately show ?thesis using assms(1) by (simp add: frames_taken_def)
next
  case (Some e)
  have ok: "pb_ok pb" using assms(1) by (simp add: pb_inv_def)
  have "slot pb (q + of_nat (pb_size pb)) = slot pb q"
    using slot_add [OF ok, of q "pb_size pb"] pb_ok_slot [OF ok, of q] by simp
  moreover have "q + of_nat (pb_size pb) \<noteq> q"
  proof
    assume "q + of_nat (pb_size pb) = q"
    then have "(of_nat (pb_size pb) :: u16) = 0" by simp
    moreover have "unat (of_nat (pb_size pb) :: u16) = pb_size pb mod 65536" by (simp only: unat_of_nat) simp
    ultimately show False using pb_ok_size [OF ok] pb_ok_small [OF ok] by simp
  qed
  ultimately have "view pb (q + of_nat (pb_size pb)) = None" using view_other [of pb q] Some by simp
  with search_returns [OF assms(1,2) assms(3), of "pb_size pb"] show ?thesis by (simp add: FindFrames_def)
qed

subsection \<open>The operations\<close>

text \<open>The newest number after \<open>s\<close> has arrived. No packet in the buffer may be ahead of it, as one would be that has
  stayed there for half a round of the sequence numbers.\<close>

definition newest_after :: "'x packet_buffer \<Rightarrow> u16 \<Rightarrow> u16" where
  "newest_after pb s = (case newest_inserted_seq_num pb of None \<Rightarrow> s | Some n \<Rightarrow> if AheadOf16 s n then s else n)"

definition recent :: "'x packet_buffer \<Rightarrow> u16 \<Rightarrow> bool" where
  "recent pb s \<longleftrightarrow> list_all (\<lambda>c. used c \<longrightarrow> \<not> AheadOf16 (ci_seq_num c) (newest_after pb s)) (sequence_buffer pb)"

lemma recent_view:
  assumes "pb_ok pb" "recent pb s" "view pb k \<noteq> None"
  shows "\<not> AheadOf16 k (newest_after pb s)"
proof -
  obtain c p where "view pb k = Some (c, p)" using assms(3) by auto
  from view_slot [OF this] have "used c" "ci_seq_num c = k" "sequence_buffer pb ! slot pb k = c" by simp_all
  moreover have "slot pb k < length (sequence_buffer pb)" using pb_ok_slot [OF assms(1), of k] assms(1) by (simp add: pb_ok_def)
  ultimately show ?thesis using assms(2) nth_mem [of "slot pb k" "sequence_buffer pb"]
    by (auto simp: recent_def list_all_iff)
qed

lemma UpdateMissing_shape:
  assumes "missing_ok pb" "jump_ok pb s"
  shows "\<exists>ms. UpdateMissingPackets pb s = Some (pb\<lparr>newest_inserted_seq_num := Some (newest_after pb s), missing_packets := ms\<rparr>) \<and>
    missing_ok (pb\<lparr>newest_inserted_seq_num := Some (newest_after pb s), missing_packets := ms\<rparr>)"
proof -
  obtain pb' where p: "UpdateMissingPackets pb s = Some pb'" "missing_ok pb'" using UpdateMissingPackets_ok [OF assms] by blast
  have "\<exists>ms. pb' = pb\<lparr>newest_inserted_seq_num := Some (newest_after pb s), missing_packets := ms\<rparr>"
  proof (cases "newest_inserted_seq_num pb")
    case None
    then show ?thesis using UpdateMissingPackets_first [OF assms(1) None, of s] p(1) by (auto simp: newest_after_def)
  next
    case (Some n)
    show ?thesis
    proof (cases "AheadOf16 s n")
      case True
      have "s - n \<noteq> 0x8000" using assms(2) Some by (simp add: jump_ok_def)
      then have "pos n s \<noteq> 32768"
        using unsigned_word_eqI [of "s - n" "0x8000 :: u16", where ?'a = nat] by (auto simp: pos_def)
      from UpdateMissingPackets_ahead [OF assms(1) Some True this] show ?thesis using p(1) Some True
        by (auto simp: newest_after_def)
    next
      case False
      then show ?thesis using UpdateMissingPackets_behind [OF assms(1) Some False] p(1) Some by (auto simp: newest_after_def)
    qed
  qed
  with p show ?thesis by auto
qed

lemma search_after_update:
  assumes inv: "pb_inv pb" and s: "stream_except (Some q) pb" and j: "jump_ok pb s"
    and r: "\<And>k. view pb k \<noteq> None \<Longrightarrow> \<not> AheadOf16 k (newest_after pb s)"
    and u: "UpdateMissingPackets pb s = Some u"
  shows "\<exists>pb' frs. FindFrames (u\<lparr>last_received_packet_ms := a, last_received_keyframe_packet_ms := b\<rparr>) q = Some (pb', frs) \<and>
    stream_inv pb' \<and> frames_taken pb pb' frs"
proof -
  let ?u = "u\<lparr>last_received_packet_ms := a, last_received_keyframe_packet_ms := b\<rparr>"
  obtain ms where ms: "u = pb\<lparr>newest_inserted_seq_num := Some (newest_after pb s), missing_packets := ms\<rparr>"
    using UpdateMissing_shape [of pb s] inv j u by (auto simp: pb_inv_def)
  have v: "view ?u k = view pb k" "held ?u k = held pb k" for k by (simp_all add: ms view_def held_def slot_def Let_def)
  have "near ?u k" if "view ?u k \<noteq> None" for k using r [of k] that v(1) by (simp add: near_def ms)
  moreover have "pb_inv ?u" using inv_UpdateMissing [OF inv j u] inv_times by blast
  moreover have "stream_except (Some q) ?u" using s stream_except_view [of ?u pb] v(1) by blast
  ultimately obtain pb' frs where "FindFrames ?u q = Some (pb', frs)" "pb_inv pb'" "stream_except None pb'" "frames_taken ?u pb' frs"
    using FindFrames_returns [of ?u q] by blast
  then show ?thesis using frames_taken_held [of ?u pb] v(2) by (auto simp: stream_inv_def)
qed

lemma stream_weaken: "stream_except None pb \<Longrightarrow> stream_except e pb"
  by (simp add: stream_except_def)

lemma padding_returns:
  assumes "stream_inv pb" "jump_ok pb s" "recent pb s"
  shows "\<exists>pb' frs. PaddingReceived pb s = Some (pb', frs) \<and> stream_inv pb' \<and> frames_taken pb pb' frs"
proof -
  have i: "pb_inv pb" "pb_ok pb" "missing_ok pb" "stream_except (Some (s + 1)) pb"
    using assms(1) stream_weaken by (auto simp: stream_inv_def pb_inv_def)
  obtain u where u: "UpdateMissingPackets pb s = Some u" using UpdateMissingPackets_ok [OF i(3) assms(2)] by blast
  have "u\<lparr>last_received_packet_ms := last_received_packet_ms u,
      last_received_keyframe_packet_ms := last_received_keyframe_packet_ms u\<rparr> = u" by simp
  with search_after_update [OF i(1,4) assms(2) recent_view [OF i(2) assms(3)] u,
      of "last_received_keyframe_packet_ms u" "last_received_packet_ms u"] u
  show ?thesis by (simp add: PaddingReceived_def)
qed

lemma view_store:
  assumes "pb_ok y" "\<not> used (sequence_buffer y ! slot y (pk_seqNum p))"
  shows "view (store_packet y p) k = (if k = pk_seqNum p then
      Some (\<lparr>ci_seq_num = k, frame_begin = pk_first_in_frame p, frame_end = pk_last_in_frame p, used = True,
        continuous = False, frame_created = False\<rparr>, p) else view y k)"
proof (cases "k = pk_seqNum p")
  case True
  then show ?thesis using held_store_packet [OF assms, of k]
    by (cases "view (store_packet y p) k") (auto simp: held_view info_view)
next
  case False
  then show ?thesis using held_store_packet [OF assms, of k] view_by_parts [of "store_packet y p" k y] by simp
qed

lemma stream_store:
  assumes "pb_ok y" "\<not> used (sequence_buffer y ! slot y (pk_seqNum p))" "packet_ok p" "stream_except None y"
  shows "stream_except (Some (pk_seqNum p)) (store_packet y p)"
  unfolding stream_except_def
proof (intro allI impI)
  let ?q = "pk_seqNum p" and ?x = "store_packet y p"
  note v = view_store [OF assms(1,2)]
  fix k d r assume a: "view ?x k = Some (d, r)"
  show "entry_fine d r \<and> (continuous d \<longrightarrow> frame_begin d \<or> follows ?x k r) \<and>
      (Some ?q \<noteq> Some k \<longrightarrow> frame_begin d \<or> follows ?x k r \<longrightarrow> continuous d)"
  proof (cases "k = ?q")
    case True
    then have "r = p" "frame_begin d = pk_first_in_frame p" "frame_end d = pk_last_in_frame p" "\<not> continuous d" "\<not> frame_created d"
      using a v [of k] by auto
    then show ?thesis using True assms(3) by (simp add: entry_fine_def)
  next
    case False
    then have b: "view y k = Some (d, r)" using a v [of k] by simp
    have "view y ?q = None" using assms(2) by (simp add: view_def Let_def)
    then have "follows ?x k r = follows y k r" using v [of "k - 1"] by (auto simp: follows_def)
    then show ?thesis using stream_exceptD [OF assms(4) b] by simp
  qed
qed

lemma insert_returns:
  assumes s: "stream_inv pb" and b: "pk_seqNum blank = 0" and p: "packet_ok p" "jump_ok pb (pk_seqNum p)" "recent pb (pk_seqNum p)"
  shows "\<exists>pb' frs acc. InsertPacket blank pb p now = Some (pb', frs, acc) \<and> stream_inv pb' \<and>
    list_all (whole_frame (\<lambda>k. if k = pk_seqNum p then Some p else held pb k)) frs \<and>
    (acc \<longrightarrow> (\<forall>k x. held pb k = Some x \<longrightarrow> k \<in> set (concat (map frame_numbers frs)) \<or> held pb' k = Some x))"
proof -
  let ?q = "pk_seqNum p"
  have i: "pb_inv pb" "pb_ok pb" "missing_ok pb" "history_ok pb" "stream_except None pb"
    using s by (auto simp: stream_inv_def pb_inv_def)
  from InsertPacket_outcome [OF i(2,4) b, of p now] obtain y where y: "pb_ok y" "same_view pb y" "history_ok y"
    and c: "InsertPacket blank pb p now = Some (y, [], True) \<or>
      InsertPacket blank pb p now = Some (PacketBuffer_Clear y, [], False) \<or>
      \<not> used (sequence_buffer y ! slot y ?q) \<and> InsertPacket blank pb p now = insert_at y p now" by blast
  have invy: "pb_inv y" by (rule view_inv [OF y(2,1,3) i(3)])
  have vy: "view y k = view pb k" "held y k = held pb k" for k using y(2) view_by_parts [of y k pb] by (auto simp: same_view_def)
  have sy: "stream_inv y" using invy i(5) stream_except_view [of y pb] vy(1) by (auto simp: stream_inv_def)
  from c show ?thesis
  proof (elim disjE conjE)
    assume "InsertPacket blank pb p now = Some (y, [], True)"
    then show ?thesis using sy vy(2) by (intro exI [of _ y] exI [of _ "[]"] exI [of _ True]) simp
  next
    assume "InsertPacket blank pb p now = Some (PacketBuffer_Clear y, [], False)"
    moreover have "view (PacketBuffer_Clear y) k = None" for k using held_Clear [OF y(1), of k] by (simp add: held_view)
    then have "stream_inv (PacketBuffer_Clear y)" using inv_Clear [OF invy] by (simp add: stream_inv_def stream_except_def)
    ultimately show ?thesis by (intro exI [of _ "PacketBuffer_Clear y"] exI [of _ "[]"] exI [of _ False]) simp
  next
    assume free: "\<not> used (sequence_buffer y ! slot y ?q)" and e: "InsertPacket blank pb p now = insert_at y p now"
    let ?x = "store_packet y p"
    have sx: "stream_except (Some ?q) ?x" using stream_store [OF y(1) free p(1)] sy by (simp add: stream_inv_def)
    have jx: "jump_ok ?x ?q" using p(2) view_jump [OF y(2)] by simp
    have nw: "newest_after ?x ?q = newest_after pb ?q"
      using store_packet_log [of y p] y(2) by (simp add: newest_after_def same_log_def same_view_def)
    have "\<not> AheadOf16 k (newest_after ?x ?q)" if "view ?x k \<noteq> None" for k
    proof (cases "k = ?q")
      case True
      then show ?thesis unfolding nw by (auto simp: newest_after_def AheadOf16_def split: option.split)
    next
      case False
      then show ?thesis using recent_view [OF i(2) p(3), of k] that view_store [OF y(1) free, of k] vy(1) nw by simp
    qed
    moreover obtain u where u: "UpdateMissingPackets ?x ?q = Some u"
      using UpdateMissingPackets_ok [of ?x ?q] inv_store [OF invy] jx by (auto simp: pb_inv_def)
    ultimately obtain pb' frs where f: "FindFrames (u\<lparr>last_received_packet_ms := Some now, last_received_keyframe_packet_ms :=
          (if pk_frame_type p = kVideoFrameKey then Some now else last_received_keyframe_packet_ms u)\<rparr>) ?q = Some (pb', frs)"
      "stream_inv pb'" "frames_taken ?x pb' frs"
      using search_after_update [OF inv_store [OF invy] sx jx] by blast
    then have "InsertPacket blank pb p now = Some (pb', frs, True)" using e u by (simp add: insert_at_def Let_def)
    moreover have h: "held ?x = (\<lambda>k. if k = ?q then Some p else held pb k)"
      using held_store_packet(1) [OF y(1) free] vy(2) by auto
    moreover have "held pb ?q = None" using free vy(2) [of ?q] by (simp add: held_def Let_def)
    ultimately show ?thesis using f(2,3) by (auto simp: frames_taken_def)
  qed
qed

subsection \<open>Reachable states\<close>

text \<open>\<open>ClearTo\<close> must not cut a frame that is being received: with a packet it releases the one behind it, unless that
  starts a frame or its frame has a gap.\<close>

definition cut_ok :: "'x packet_buffer \<Rightarrow> u16 \<Rightarrow> bool" where
  "cut_ok pb s \<longleftrightarrow>
     list_all (\<lambda>c. used c \<and> continuous c \<and> \<not> frame_begin c \<and> releases pb s (ci_seq_num c - 1) \<longrightarrow>
       releases pb s (ci_seq_num c)) (sequence_buffer pb)"

fun stream_op_ok :: "'x packet_buffer \<Rightarrow> 'x pb_op \<Rightarrow> bool" where
  "stream_op_ok pb (Insert p now) = (packet_ok p \<and> jump_ok pb (pk_seqNum p) \<and> recent pb (pk_seqNum p))"
| "stream_op_ok pb (Padding s) = (jump_ok pb s \<and> recent pb s)"
| "stream_op_ok pb (Clear_to s) = cut_ok pb s"
| "stream_op_ok pb Clear_all = True"

text \<open>The numbers \<open>ClearTo\<close> can look up in the ordered set of missing numbers.\<close>

fun clear_near :: "'x packet_buffer \<Rightarrow> 'x pb_op \<Rightarrow> bool" where
  "clear_near pb (Clear_to s) = near pb (s + 1)"
| "clear_near pb oper = True"

inductive stream_reach :: "'x vcm_packet \<Rightarrow> 'x packet_buffer \<Rightarrow> bool" for blank where
  start: "PacketBuffer_init blank (2 ^ a) (2 ^ b) trial = Some pb \<Longrightarrow> b \<le> 15 \<Longrightarrow> stream_reach blank pb"
| step: "stream_reach blank pb \<Longrightarrow> stream_op_ok pb oper \<Longrightarrow> pb_apply blank pb oper = Some (pb', frames) \<Longrightarrow>
    stream_reach blank pb'"

lemma clear_to_view:
  "pb_ok pb \<Longrightarrow> clear_to_loop n q pb = Some pb' \<Longrightarrow> view pb' k = Some e \<Longrightarrow> view pb k = Some e"
proof (induction n arbitrary: pb)
  case (Suc n)
  let ?i = "slot pb (first_seq_num pb)"
  from Suc.prems(2) consider x where "x = free_slot ?i pb \<or> x = pb"
    "clear_to_loop n q (x\<lparr>first_seq_num := first_seq_num x + 1\<rparr>) = Some pb'"
    by (auto simp: bind_eq_Some_conv dcheck_bind_Some Let_def split: if_splits)
  then show ?case
  proof cases
    case (1 x)
    then have "pb_ok (x\<lparr>first_seq_num := first_seq_num x + 1\<rparr>)" using Suc.prems(1) pb_ok_free by auto
    from Suc.IH [OF this 1(2) Suc.prems(3)] have "view x k = Some e" by (simp add: view_def slot_def Let_def split: if_splits)
    then show ?thesis using 1(1) view_free_slot [OF Suc.prems(1), of ?i k] by (auto split: if_splits)
  qed
qed simp

lemma ClearTo_view:
  assumes "pb_ok pb" "ClearTo pb s = Some pb'" "view pb' k = Some e"
  shows "view pb k = Some e"
proof (cases "is_cleared_to_first_seq_num pb \<and> AheadOf16 (first_seq_num pb) s \<or> \<not> first_packet_received pb")
  case True
  with assms(2,3) show ?thesis by (auto simp: ClearTo_def split: if_splits)
next
  case False
  then obtain x ms where x: "clear_to_loop (min (unat (ForwardDiff (first_seq_num pb) (s + 1))) (pb_size pb)) (s + 1) pb = Some x"
    "pb' = x\<lparr>first_seq_num := s + 1, is_cleared_to_first_seq_num := True, missing_packets := ms\<rparr>"
    using assms(2) by (auto simp: ClearTo_def bind_eq_Some_conv Let_def)
  then have "view x k = Some e" using assms(3) by (simp add: view_def slot_def Let_def split: if_splits)
  then show ?thesis by (rule clear_to_view [OF assms(1) x(1)])
qed

lemma clear_to_keeps_stream:
  assumes "stream_inv pb" "cut_ok pb s" "ClearTo pb s = Some pb'"
  shows "stream_inv pb'"
proof -
  have i: "pb_inv pb" "pb_ok pb" "stream_except None pb" using assms(1) by (auto simp: stream_inv_def pb_inv_def)
  have inv: "pb_inv pb'" by (rule inv_both [OF sl.R_ClearTo [OF assms(3)] mp.R_ClearTo [OF assms(3)] i(1)])
  then have ok: "pb_ok pb'" by (simp add: pb_inv_def)
  note v = ClearTo_view [OF i(2) assms(3)] and rel = ClearTo_releases [OF i(2) assms(3)]
  have "entry_fine c p \<and> (continuous c \<longrightarrow> frame_begin c \<or> follows pb' k p) \<and>
      (frame_begin c \<or> follows pb' k p \<longrightarrow> continuous c)" if a: "view pb' k = Some (c, p)" for k c p
  proof -
    note b = stream_exceptD [OF i(3) v [OF a]]
    have "follows pb k p" if "follows pb' k p"
      using that v [of "k - 1"] unfolding follows_iff by blast
    moreover have "follows pb' k p" if cb: "continuous c" "\<not> frame_begin c"
    proof -
      have w: "sequence_buffer pb ! slot pb k = c" "used c" "ci_seq_num c = k" using view_slot [OF v [OF a]] by simp_all
      have "slot pb k < length (sequence_buffer pb)" using pb_ok_slot [OF i(2), of k] i(2) by (simp add: pb_ok_def)
      from nth_mem [OF this] have "c \<in> set (sequence_buffer pb)" unfolding w(1) .
      moreover have "\<not> releases pb s k" using rel [of k] a by (auto simp: held_view)
      ultimately have "\<not> releases pb s (k - 1)" using assms(2) cb w(2,3) unfolding cut_ok_def list_all_iff by blast
      moreover obtain d r where d: "view pb (k - 1) = Some (d, r)" "continuous d" "pk_timestamp r = pk_timestamp p"
        using b(2) cb by (auto simp: follows_iff)
      ultimately have "view pb' (k - 1) \<noteq> None" using rel [of "k - 1"] by (auto simp: held_view)
      then obtain e where e: "view pb' (k - 1) = Some e" by blast
      with v [OF e] d show ?thesis by (auto simp: follows_iff)
    qed
    ultimately show ?thesis using b by blast
  qed
  then show ?thesis using inv by (simp add: stream_inv_def stream_except_def)
qed

lemma stream_apply:
  assumes "stream_inv pb" "pk_seqNum blank = 0" "stream_op_ok pb oper" "clear_near pb oper"
  shows "\<exists>pb' frs. pb_apply blank pb oper = Some (pb', frs) \<and> stream_inv pb'"
proof (cases oper)
  case (Insert p now)
  then show ?thesis using insert_returns [OF assms(1,2), of p now] assms(3) by auto
next
  case (Padding s)
  then show ?thesis using padding_returns [OF assms(1), of s] assms(3) by auto
next
  case (Clear_to s)
  then obtain pb' where "ClearTo pb s = Some pb'"
    using ClearTo_returns [of pb s] assms(1,4) by (auto simp: stream_inv_def)
  then show ?thesis using Clear_to clear_to_keeps_stream [OF assms(1)] assms(3) by simp
next
  case Clear_all
  have i: "pb_inv pb" "pb_ok pb" using assms(1) by (auto simp: stream_inv_def pb_inv_def)
  have "view (PacketBuffer_Clear pb) k = None" for k using held_Clear [OF i(2), of k] by (simp add: held_view)
  then show ?thesis using Clear_all inv_Clear [OF i(1)] by (simp add: stream_inv_def stream_except_def)
qed

lemma stream_reach_inv: "stream_reach blank pb \<Longrightarrow> pk_seqNum blank = 0 \<Longrightarrow> stream_inv pb"
proof (induction rule: stream_reach.induct)
  case (start a b trial pb)
  have "sequence_buffer pb = replicate (2 ^ a) ContinuityInfo_init" "pb_size pb = 2 ^ a"
    using start(1) by (auto simp: PacketBuffer_init_def bind_eq_Some_conv dcheck_Some_iff)
  then have "view pb k = None" for k by (simp add: view_def slot_def ContinuityInfo_init_def)
  then show ?case using init_inv [OF start] by (simp add: stream_inv_def stream_except_def)
next
  case (step pb oper pb' frames)
  then have inv: "stream_inv pb" by simp
  show ?case
  proof (cases oper)
    case (Clear_to s)
    then obtain "ClearTo pb s = Some pb'" "cut_ok pb s" using step(2,3) by (auto simp: bind_eq_Some_conv)
    then show ?thesis using clear_to_keeps_stream [OF inv] by blast
  qed (use step inv stream_apply [of pb blank oper] in auto)
qed

text \<open>A complete frame of \<open>t + 1\<close> packets from number \<open>a\<close> on.\<close>

definition complete :: "(u16 \<Rightarrow> 'x vcm_packet option) \<Rightarrow> u16 \<Rightarrow> nat \<Rightarrow> bool" where
  "complete lookup a t \<longleftrightarrow>
     list_all (\<lambda>j. lookup (a + of_nat j) \<noteq> None \<and>
       pk_timestamp (the (lookup (a + of_nat j))) = pk_timestamp (the (lookup a))) [0..<Suc t] \<and>
     pk_first_in_frame (the (lookup a)) \<and> pk_last_in_frame (the (lookup (a + of_nat t)))"

lemma stream_not_complete:
  assumes "stream_inv pb"
  shows "\<not> complete (held pb) a t"
proof
  assume a: "complete (held pb) a t"
  have s: "stream_except None pb" using assms by (simp add: stream_inv_def)
  have e: "held pb (a + of_nat j) \<noteq> None" "pk_timestamp (the (held pb (a + of_nat j))) = pk_timestamp (the (held pb a))"
    if "j \<le> t" for j using a that by (simp_all add: complete_def list_all_iff del: upt_Suc)
  have "\<exists>c p. view pb (a + of_nat j) = Some (c, p) \<and> continuous c" if "j \<le> t" for j
    using that
  proof (induction j)
    case 0
    obtain c p where v: "view pb a = Some (c, p)" using e(1) [of 0] by (auto simp: held_view)
    then have "frame_begin c" using a stream_exceptD(1) [OF s v] by (simp add: complete_def entry_fine_def held_view)
    then show ?case using stream_exceptD(3) [OF s v] v by simp
  next
    case (Suc j)
    then obtain c p where c: "view pb (a + of_nat j) = Some (c, p)" "continuous c" by auto
    obtain d r where d: "view pb (a + of_nat (Suc j)) = Some (d, r)" using e(1) [OF Suc.prems] by (auto simp: held_view)
    have "a + of_nat (Suc j) - 1 = a + of_nat j" by simp
    moreover have "pk_timestamp p = pk_timestamp r" using e(2) [OF Suc.prems] e(2) [of j] Suc.prems c d by (simp add: held_view)
    ultimately have "follows pb (a + of_nat (Suc j)) r" using c by (simp add: follows_def)
    then show ?case using stream_exceptD(3) [OF s d] d by blast
  qed
  from this [of t] obtain c p where v: "view pb (a + of_nat t) = Some (c, p)" "continuous c" by auto
  have "frame_end c" using a stream_exceptD(1) [OF s v(1)] v(1) by (simp add: complete_def entry_fine_def held_view)
  then show False using stream_exceptD(1) [OF s v(1)] v(2) by (simp add: entry_fine_def)
qed

end
