(* ===== verification/Packet_Theorems.thy ===== *)
theory Packet_Theorems
  imports Packet_Progress
begin

text \<open>
  The properties of \<open>PacketBuffer\<close>, each with a run of the buffer on which it applies.
\<close>

subsection \<open>Example\<close>

definition example_packet :: "u16 \<Rightarrow> u32 \<Rightarrow> bool \<Rightarrow> bool \<Rightarrow> bytes \<Rightarrow> unit vcm_packet" where
  "example_packet s ts b e payload =
     \<lparr>pk_timestamp = ts, pk_seqNum = s, pk_dataPtr = Some payload, pk_sizeBytes = length payload,
      pk_markerBit = e, pk_timesNacked = 0, pk_receive_time_ms = 0, pk_frame_type = kVideoFrameDelta,
      pk_first_in_frame = b, pk_last_in_frame = e, pk_codec = kVideoCodecVP8, pk_temporal_id = 0,
      pk_nalus = None, pk_rest = ()\<rparr>"

definition example_blank :: "unit vcm_packet" where
  "example_blank = (example_packet 0 0 False False [])\<lparr>pk_dataPtr := None\<rparr>"

definition example_start :: "unit packet_buffer" where
  "example_start = the (PacketBuffer_init example_blank 2 4 False)"

definition example_first :: "unit packet_buffer" where
  "example_first = fst (the (pb_apply example_blank example_start (Insert (example_packet 65535 7 True False [1, 2]) 10)))"

lemma example_blank_number: "pk_seqNum example_blank = 0"
  by (simp add: example_blank_def example_packet_def)

lemma example_start_reach: "pb_reach example_blank example_start"
proof (rule pb_reach.start [where a = 1 and b = 2 and trial = False])
  show "PacketBuffer_init example_blank (2 ^ 1) (2 ^ 2) False = Some example_start" by code_simp
qed simp

lemma example_first_reach: "pb_reach example_blank example_first"
proof (rule pb_reach.step [OF example_start_reach])
  show "pb_op_ok example_start (Insert (example_packet 65535 7 True False [1, 2]) 10)" by code_simp
  show "pb_apply example_blank example_start (Insert (example_packet 65535 7 True False [1, 2]) 10) = Some (example_first, [])"
    by code_simp
qed

subsection \<open>Lemmas\<close>

lemma reach_ok:
  assumes "pb_reach blank pb" "pk_seqNum blank = 0"
  shows "pb_ok pb" "missing_ok pb" "history_ok pb"
  using pb_reach_inv [OF assms] by (simp_all add: pb_inv_def)

lemma held_number: "pb_ok pb \<Longrightarrow> held pb s = Some p \<Longrightarrow> pk_seqNum p = s"
  using pb_ok_slot [of pb s] by (auto simp: held_def Let_def pb_ok_def split: if_splits)

lemma insert_frames_from:
  assumes ok: "pb_ok pb" "history_ok pb" "pk_seqNum blank = 0"
    and i: "InsertPacket blank pb p now = Some (pb', frs, done)"
  shows "list_all (frame_from (\<lambda>k. if k = pk_seqNum p then Some p else held pb k)) frs \<and>
    (\<forall>k \<in> set (concat (map frame_numbers frs)). held pb' k = None) \<and> distinct (concat (map frame_numbers frs))"
proof -
  from InsertPacket_outcome [OF ok, of p now] obtain y where y: "pb_ok y" "same_view pb y"
    and c: "InsertPacket blank pb p now = Some (y, [], True) \<or>
      InsertPacket blank pb p now = Some (PacketBuffer_Clear y, [], False) \<or>
      \<not> used (sequence_buffer y ! slot y (pk_seqNum p)) \<and> InsertPacket blank pb p now = insert_at y p now" by blast
  from c i consider "frs = []"
    | "\<not> used (sequence_buffer y ! slot y (pk_seqNum p))" "insert_at y p now = Some (pb', frs, done)" by auto
  then show ?thesis
  proof cases
    case 2
    from 2(2) show ?thesis
    proof (rule insert_at_cases)
      fix u assume u: "UpdateMissingPackets (store_packet y p) (pk_seqNum p) = Some u"
        and "\<exists>a b. FindFrames (u\<lparr>last_received_packet_ms := a, last_received_keyframe_packet_ms := b\<rparr>) (pk_seqNum p) =
          Some (pb', frs)"
      then obtain a b where
        f: "FindFrames (u\<lparr>last_received_packet_ms := a, last_received_keyframe_packet_ms := b\<rparr>) (pk_seqNum p) = Some (pb', frs)"
        by blast
      let ?u = "u\<lparr>last_received_packet_ms := a, last_received_keyframe_packet_ms := b\<rparr>"
      have k: "keeps_slots (store_packet y p) ?u" using keeps_UpdateMissing [OF u] by simp
      have oks: "pb_ok (store_packet y p)" by (rule store_packet_ok [OF y(1)])
      have "frames_from (store_packet y p) pb' frs"
        by (rule frames_from_keeps [OF k oks FindFrames_frames [OF keeps_ok [OF k oks] f]])
      moreover have "held (store_packet y p) = (\<lambda>k. if k = pk_seqNum p then Some p else held pb k)"
        using held_store_packet(1) [OF y(1) 2(1)] y(2) by (auto simp: same_view_def)
      ultimately show ?thesis by (simp add: frames_from_def)
    qed
  qed simp
qed

lemma missing_behind:
  assumes "pos (n - 1000) k < 1000"
  shows "unat (n - k) = 1000 - pos (n - 1000) k"
  using pos_shift [of "n - 1000" k n] assms pos_1000 [of n] by (simp add: pos_def)

lemma still_missing:
  assumes "pos (n - 1000) k < 1000" "pos n s < 32768"
  shows "pos n s \<le> pos (n - 1000) k \<longleftrightarrow> unat (s - k) \<le> 1000"
proof -
  have "pos k n = 1000 - pos (n - 1000) k" using missing_behind [OF assms(1)] by (simp only: pos_def)
  moreover from this have "pos k s = pos k n + pos n s" using assms by (intro pos_back) linarith
  ultimately have "pos k s = 1000 - pos (n - 1000) k + pos n s" by linarith
  then have "pos n s \<le> pos (n - 1000) k \<longleftrightarrow> pos k s \<le> 1000" using assms by linarith
  then show ?thesis by (simp only: pos_def)
qed

lemma seq_range_before:
  fixes s k :: u16
  assumes "0 < m" "m \<le> 1000"
  shows "k \<in> set (seq_range (s - of_nat m + 1) (m - 1)) \<longleftrightarrow> 0 < unat (s - k) \<and> unat (s - k) < m"
proof
  assume "k \<in> set (seq_range (s - of_nat m + 1) (m - 1))"
  then obtain j where j: "j < m - 1" "k = s - of_nat m + 1 + of_nat j" by (auto simp: seq_range_map)
  then have "s - k = of_nat (m - 1 - j)" using assms by (simp add: of_nat_diff)
  then have "unat (s - k) = (m - 1 - j) mod 65536" by (simp only: unat_of_nat) simp
  then show "0 < unat (s - k) \<and> unat (s - k) < m" using j(1) assms by simp
next
  assume a: "0 < unat (s - k) \<and> unat (s - k) < m"
  define j where "j = m - 1 - unat (s - k)"
  have "of_nat j = (of_nat m - 1 - (s - k) :: u16)" using a by (simp add: j_def of_nat_diff)
  then have "k = s - of_nat m + 1 + of_nat j" by simp
  moreover have "j < m - 1" using a by (auto simp: j_def)
  ultimately show "k \<in> set (seq_range (s - of_nat m + 1) (m - 1))" by (auto simp: seq_range_map)
qed

text \<open>The loop of \<open>ClearTo\<close> comes by every slot of the numbers it is to release.\<close>

lemma visited_slot:
  assumes "pb_ok pb" "pos f k < d"
  shows "\<exists>j < min d (pb_size pb). slot pb (f + of_nat j) = slot pb k"
proof (intro exI conjI)
  let ?j = "pos f k mod pb_size pb"
  have k: "k = f + of_nat (pos f k)" by (simp add: pos_def)
  have "slot pb k = (slot pb f + pos f k) mod pb_size pb" using slot_add [OF assms(1), of f "pos f k"] k by simp
  then show "slot pb (f + of_nat ?j) = slot pb k" using slot_add [OF assms(1), of f ?j] by (simp add: mod_simps)
  show "?j < min d (pb_size pb)"
    using assms(2) pb_ok_size [OF assms(1)] le_less_trans [OF mod_less_eq_dividend] by simp
qed

lemma not_ahead_next:
  assumes "AheadOf16 k s" "k - s \<noteq> 0x8000"
  shows "\<not> AheadOf16 (s + 1) k"
proof (cases "k = s + 1")
  case False
  have "pos s k < 32768" "0 < pos s k"
  proof -
    have "pos s k \<noteq> 32768" using assms(2) unsigned_word_eqI [of "k - s" "0x8000 :: u16", where ?'a = nat] by (auto simp: pos_def)
    then show "0 < pos s k" "pos s k < 32768"
      using assms(1) by (auto simp: AheadOf16_spec ahead_spec_def pos_def unat_gt_0)
  qed
  moreover have "pos s (s + 1) = 1" by (simp add: pos_def)
  ultimately show ?thesis using AheadOf_window [of s "s + 1" k] by simp
qed (simp add: AheadOf16_def)

subsection \<open>Properties\<close>

text \<open>C7: the frames handed out by \<open>InsertPacket\<close> are assembled from the packets in the buffer and the new
  one. The sequence numbers of a frame are consecutive, each is the number of such a packet, and
  the image is the payloads in the order of the numbers. No packet is in two frames, and
  those of a frame have left the buffer.\<close>

theorem insert_hands_out_frames:
  assumes "pb_reach blank pb" "pk_seqNum blank = 0" "InsertPacket blank pb p now = Some (pb', frs, done)"
  shows "list_all (frame_from (\<lambda>k. if k = pk_seqNum p then Some p else held pb k)) frs \<and>
    (\<forall>k \<in> set (concat (map frame_numbers frs)). held pb' k = None) \<and> distinct (concat (map frame_numbers frs))"
  by (rule insert_frames_from [OF reach_ok(1,3) [OF assms(1,2)] assms(2,3)])

definition example_second :: "unit packet_buffer \<times> unit rtp_frame list \<times> bool" where
  "example_second = the (InsertPacket example_blank example_first (example_packet 0 7 False True [3]) 11)"

theorem insert_hands_out_frames_witness:
  "\<exists>pb' fr. InsertPacket example_blank example_first (example_packet 0 7 False True [3]) 11 = Some (pb', [fr], True) \<and>
     frame_from (\<lambda>k. if k = 0 then Some (example_packet 0 7 False True [3]) else held example_first k) fr \<and>
     frame_numbers fr = [65535, 0] \<and> fr_image fr = [1, 2, 3] \<and> held pb' 65535 = None \<and> held pb' 0 = None"
proof -
  let ?p = "example_packet 0 7 False True [3]"
  obtain pb' fr where e: "example_second = (pb', [fr], True)" "frame_numbers fr = [65535, 0]" "fr_image fr = [1, 2, 3]"
  proof -
    have c: "snd (snd example_second)" "length (fst (snd example_second)) = 1"
      "frame_numbers (hd (fst (snd example_second))) = [65535, 0]" "fr_image (hd (fst (snd example_second))) = [1, 2, 3]"
      by code_simp+
    obtain a b d where e: "example_second = (a, b, d)" by (cases example_second)
    show thesis using that [of a "hd b"] c [unfolded e fst_conv snd_conv] e by (cases b) auto
  qed
  have i: "InsertPacket example_blank example_first ?p 11 = Some (pb', [fr], True)"
  proof -
    have "InsertPacket example_blank example_first ?p 11 \<noteq> None" by code_simp
    then show ?thesis using e(1) by (auto simp: example_second_def)
  qed
  have n: "pk_seqNum ?p = 0" by (simp add: example_packet_def)
  from insert_hands_out_frames [OF example_first_reach example_blank_number i] e(2,3) i n
  show ?thesis by (auto simp: frame_from_def)
qed

text \<open>C13: in every reachable state both vectors have \<open>size_\<close> slots, a power of two up to
  \<open>max_size_\<close>, agree on the number in each slot, and a used slot is the one its number belongs to. \<open>GetPacket\<close>
  is defined for every number, and a packet it returns has that number.\<close>

theorem buffer_well_formed:
  assumes "pb_reach blank pb" "pk_seqNum blank = 0"
  shows "pb_ok pb \<and> GetPacket pb s \<noteq> None \<and> (\<forall>p. GetPacket pb s = Some (Some p) \<longrightarrow> pk_seqNum p = s)"
  using reach_ok(1) [OF assms] by (auto simp: GetPacket_held held_number)

theorem buffer_well_formed_witness:
  "pb_ok example_first \<and> (\<exists>p. GetPacket example_first 65535 = Some (Some p) \<and> pk_seqNum p = 65535)"
proof -
  have "\<exists>p. GetPacket example_first 65535 = Some (Some p)"
  proof (cases "GetPacket example_first 65535 \<bind> id")
    case None
    moreover have "GetPacket example_first 65535 \<bind> id \<noteq> None" by code_simp
    ultimately show ?thesis by simp
  qed (auto simp: bind_eq_Some_conv)
  then show ?thesis using buffer_well_formed [OF example_first_reach example_blank_number, of 65535] by blast
qed

text \<open>C12: growing the buffer loses no packet and invents none: \<open>GetPacket\<close> answers as before for every
  number. It grows, doubling its size, unless it is at \<open>max_size_\<close>.\<close>

theorem growing_keeps_packets:
  assumes "pb_reach blank pb" "pk_seqNum blank = 0" "ExpandBufferSize blank pb = (pb', grown)"
  shows "GetPacket pb' s = GetPacket pb s \<and> (grown \<longleftrightarrow> pb_size pb \<noteq> pb_max_size pb) \<and>
    pb_size pb' = (if grown then 2 * pb_size pb else pb_size pb)"
proof -
  note ok = reach_ok(1) [OF assms(1,2)]
  have "GetPacket pb' s = GetPacket pb s"
    using ExpandBufferSize_ok [OF ok assms(2,3)] by (simp add: GetPacket_held ok)
  then show ?thesis using expand_slots(1) [OF ok _ assms(3)] assms(3)
    by (cases "pb_size pb = pb_max_size pb") (auto simp: ExpandBufferSize_def)
qed

theorem growing_keeps_packets_witness:
  "GetPacket (fst (ExpandBufferSize example_blank example_first)) 65535 = GetPacket example_first 65535 \<and>
     pb_size (fst (ExpandBufferSize example_blank example_first)) = 4"
proof -
  have "pb_size example_first = 2" "snd (ExpandBufferSize example_blank example_first)" by code_simp+
  then show ?thesis
    using growing_keeps_packets [OF example_first_reach example_blank_number surjective_pairing, of 65535] by simp
qed

text \<open>C35: the loop of \<open>InsertPacket\<close> that grows the buffer while the slot of the new packet is taken ends:
  \<open>max_size_ + 1\<close> rounds are enough from every reachable state, and then the slot is free or the buffer is as large as it may get.\<close>

theorem growing_ends:
  assumes "pb_reach blank pb" "pk_seqNum blank = 0" "used (sequence_buffer pb ! slot pb s)"
  shows "\<exists>pb'. expand_while (Suc (pb_max_size pb)) blank pb s = Some pb' \<and>
    (\<not> used (sequence_buffer pb' ! slot pb' s) \<or> pb_size pb' = pb_max_size pb')"
  using expand_while_ok [OF reach_ok(1) [OF assms(1,2)] assms(2) le_imp_less_Suc [OF diff_le_self] assms(3)] by blast

theorem growing_ends_witness:
  "\<exists>pb'. expand_while 5 example_blank example_first 1 = Some pb' \<and>
    (\<not> used (sequence_buffer pb' ! slot pb' 1) \<or> pb_size pb' = pb_max_size pb')"
proof -
  have "used (sequence_buffer example_first ! slot example_first 1)" "Suc (pb_max_size example_first) = 5" by code_simp+
  then show ?thesis using growing_ends [OF example_first_reach example_blank_number, of 1] by metis
qed

text \<open>C20: a packet that finds its slot taken by another number in a buffer that cannot grow is refused:
  \<open>InsertPacket\<close> returns false, hands out nothing and leaves the buffer empty.\<close>

theorem full_buffer_is_cleared:
  assumes "pb_reach blank pb" "pk_seqNum blank = 0" "pb_size pb = pb_max_size pb"
    and "used (sequence_buffer pb ! slot pb (pk_seqNum p))" "held pb (pk_seqNum p) = None"
    and "\<not> (is_cleared_to_first_seq_num pb \<and> AheadOf16 (first_seq_num pb) (pk_seqNum p))"
  shows "\<exists>pb'. InsertPacket blank pb p now = Some (pb', [], False) \<and> (\<forall>k. held pb' k = None) \<and>
    missing_packets pb' = [] \<and> newest_inserted_seq_num pb' = None \<and> \<not> first_packet_received pb'"
proof -
  let ?s = "pk_seqNum p"
  note ok = reach_ok [OF assms(1,2)]
  obtain x where x: "OnTimestampReceived pb (pk_timestamp p) = Some x" using OnTimestampReceived_ok [OF ok(3)] by blast
  note fx = OnTimestamp_fields [OF x]
  define z where "z = admit x ?s"
  have z: "pb_ok z" "pb_size z = pb_max_size z" "used (sequence_buffer z ! slot z ?s)"
    using fx assms(3,4) pb_ok_by_fields [OF ok(1), of z] by (auto simp: z_def slot_def)
  have "pk_seqNum (data_buffer z ! slot z ?s) = ci_seq_num (sequence_buffer z ! slot z ?s)"
    using z(1) pb_ok_slot [OF z(1)] by (simp add: pb_ok_def)
  moreover have "ci_seq_num (sequence_buffer z ! slot z ?s) \<noteq> ?s"
    using assms(4,5) fx by (auto simp: held_def Let_def z_def slot_def split: if_splits)
  ultimately have ne: "pk_seqNum (data_buffer z ! slot z ?s) \<noteq> ?s" by simp
  have e: "expand_while (Suc (pb_max_size z)) blank z ?s = Some z" using z(2) by (simp add: ExpandBufferSize_def)
  have "InsertPacket blank pb p now = Some (PacketBuffer_Clear z, [], False)"
    using InsertPacket_eq [OF x ok(1), of blank now, folded z_def] e ne z(3) assms(6) fx
    by (auto simp add: vget_slot [OF z(1)] simp del: expand_while.simps)
  then show ?thesis using held_Clear [OF z(1)] by (simp add: PacketBuffer_Clear_def)
qed

definition example_full :: "unit packet_buffer" where
  "example_full = fst (the (pb_apply example_blank (the (PacketBuffer_init example_blank 2 2 False))
     (Insert (example_packet 1 7 True False [1]) 10)))"

lemma example_full_reach: "pb_reach example_blank example_full"
proof (rule pb_reach.step [where pb = "the (PacketBuffer_init example_blank 2 2 False)" and frames = "[]"])
  show "pb_reach example_blank (the (PacketBuffer_init example_blank 2 2 False))"
  proof (rule pb_reach.start [where a = 1 and b = 1 and trial = False])
    show "PacketBuffer_init example_blank (2 ^ 1) (2 ^ 1) False = Some (the (PacketBuffer_init example_blank 2 2 False))"
      by code_simp
  qed simp
  show "pb_op_ok (the (PacketBuffer_init example_blank 2 2 False)) (Insert (example_packet 1 7 True False [1]) 10)"
    by code_simp
  show "pb_apply example_blank (the (PacketBuffer_init example_blank 2 2 False))
      (Insert (example_packet 1 7 True False [1]) 10) = Some (example_full, [])" by code_simp
qed

theorem full_buffer_is_cleared_witness:
  "\<exists>pb'. InsertPacket example_blank example_full (example_packet 3 8 True False [2]) 20 = Some (pb', [], False) \<and>
     held pb' 1 = None \<and> missing_packets pb' = []"
proof -
  let ?p = "example_packet 3 8 True False [2]"
  have "pb_size example_full = pb_max_size example_full" "used (sequence_buffer example_full ! slot example_full (pk_seqNum ?p))"
    "held example_full (pk_seqNum ?p) = None"
    "\<not> (is_cleared_to_first_seq_num example_full \<and> AheadOf16 (first_seq_num example_full) (pk_seqNum ?p))" by code_simp+
  from full_buffer_is_cleared [OF example_full_reach example_blank_number this] show ?thesis by blast
qed

text \<open>C23: the numbers recorded as missing are at most 1000, all different, and each is 1 to 1000
  behind the newest number; the history has at most 1000 timestamps, all different.\<close>

theorem missing_packets_bounds:
  assumes "pb_reach blank pb" "pk_seqNum blank = 0"
  shows "length (missing_packets pb) \<le> 1000 \<and> distinct (missing_packets pb) \<and>
    list_all (\<lambda>k. case newest_inserted_seq_num pb of None \<Rightarrow> False
      | Some n \<Rightarrow> 1 \<le> unat (n - k) \<and> unat (n - k) \<le> 1000) (missing_packets pb) \<and>
    length (timestamps_history_queue pb) \<le> 1000 \<and> distinct (timestamps_history_queue pb)"
proof -
  note ok = reach_ok [OF assms]
  have "distinct (missing_packets pb)"
    using ok(2) windowed_distinct [of id _ "missing_packets pb"] by (auto simp: missing_ok_def split: option.splits)
  moreover have "list_all (\<lambda>k. case newest_inserted_seq_num pb of None \<Rightarrow> False
      | Some n \<Rightarrow> 1 \<le> unat (n - k) \<and> unat (n - k) \<le> 1000) (missing_packets pb)"
    using ok(2) by (auto simp: missing_ok_def list_all_iff missing_behind split: option.splits)
  ultimately show ?thesis using missing_ok_length [OF ok(2)] ok(3) by (simp add: history_ok_def)
qed

definition example_gap :: "unit packet_buffer" where
  "example_gap = fst (the (pb_apply example_blank example_first (Insert (example_packet 2 8 True False [4]) 12)))"

lemma example_gap_reach: "pb_reach example_blank example_gap"
proof (rule pb_reach.step [OF example_first_reach])
  show "pb_op_ok example_first (Insert (example_packet 2 8 True False [4]) 12)" by code_simp
  show "pb_apply example_blank example_first (Insert (example_packet 2 8 True False [4]) 12) = Some (example_gap, [])"
    by code_simp
qed

theorem missing_packets_bounds_witness:
  "missing_packets example_gap = [0, 1] \<and> unat (2 - 0 :: u16) \<le> 1000 \<and> length (missing_packets example_gap) \<le> 1000"
proof -
  have "missing_packets example_gap = [0, 1]" "newest_inserted_seq_num example_gap = Some 2" by code_simp+
  then show ?thesis using missing_packets_bounds [OF example_gap_reach example_blank_number] by simp
qed

text \<open>C22: a number ahead of the newest one makes missing exactly what it skips, capped at the last 999; of the
  numbers missing before, those at most 1000 behind it stay so.\<close>

theorem skipped_numbers_are_missing:
  assumes "pb_reach blank pb" "pk_seqNum blank = 0" "newest_inserted_seq_num pb = Some n" "AheadOf16 s n" "s - n \<noteq> 0x8000"
  shows "\<exists>pb'. UpdateMissingPackets pb s = Some pb' \<and> newest_inserted_seq_num pb' = Some s \<and>
    set (missing_packets pb') = {k \<in> set (missing_packets pb). unat (s - k) \<le> 1000} \<union>
      {k. 0 < unat (s - k) \<and> unat (s - k) < min (unat (s - n)) 1000}"
proof -
  note ok = reach_ok(2) [OF assms(1,2)]
  define d where "d = pos n s"
  have d32: "d \<noteq> 32768" using assms(5) unsigned_word_eqI [of "s - n" "0x8000 :: u16", where ?'a = nat]
    by (auto simp: d_def pos_def)
  then have d: "0 < d" "d < 32768" using assms(4) by (auto simp: d_def pos_def AheadOf16_spec ahead_spec_def unat_gt_0)
  let ?m = "min d 1000"
  let ?ms = "filter (\<lambda>k. d \<le> pos (n - 1000) k) (missing_packets pb) @ seq_range (s - of_nat ?m + 1) (?m - 1)"
  have u: "UpdateMissingPackets pb s = Some (pb\<lparr>newest_inserted_seq_num := Some s, missing_packets := ?ms\<rparr>)"
    using UpdateMissingPackets_ahead [OF ok assms(3,4)] d32 by (simp add: d_def)
  have old: "d \<le> pos (n - 1000) k \<longleftrightarrow> unat (s - k) \<le> 1000" if "k \<in> set (missing_packets pb)" for k
    using ok assms(3) that d(2) still_missing unfolding d_def by (simp add: missing_ok_def)
  have new: "k \<in> set (seq_range (s - of_nat ?m + 1) (?m - 1)) \<longleftrightarrow> 0 < unat (s - k) \<and> unat (s - k) < ?m" for k
    by (rule seq_range_before) (use d in auto)
  have "set ?ms = {k \<in> set (missing_packets pb). unat (s - k) \<le> 1000} \<union> {k. 0 < unat (s - k) \<and> unat (s - k) < ?m}"
    using old new by auto
  then show ?thesis using u by (simp add: d_def pos_def)
qed

theorem skipped_numbers_are_missing_witness:
  "\<exists>pb'. UpdateMissingPackets example_gap 5 = Some pb' \<and>
     set (missing_packets pb') = {k \<in> {0, 1}. unat (5 - k) \<le> 1000} \<union> {k. 0 < unat (5 - k) \<and> unat (5 - k) < 3}"
proof -
  have e: "newest_inserted_seq_num example_gap = Some 2" "AheadOf16 5 2" "(5 :: u16) - 2 \<noteq> 0x8000"
    "set (missing_packets example_gap) = {0, 1}" by code_simp+
  have "min (unat (5 - 2 :: u16)) 1000 = 3" by simp
  with skipped_numbers_are_missing [OF example_gap_reach example_blank_number e(1-3)] e(4) show ?thesis by fastforce
qed

text \<open>C21: \<open>ClearTo\<close> releases every packet from the first number up to \<open>seq_num\<close>, when that is less than half
  the range away, and keeps every packet ahead of \<open>seq_num\<close>; afterwards the first number is the one behind.\<close>

theorem clear_to_releases:
  assumes "pb_reach blank pb" "pk_seqNum blank = 0" "near pb (s + 1)" "first_packet_received pb"
    and "\<not> (is_cleared_to_first_seq_num pb \<and> AheadOf16 (first_seq_num pb) s)"
    and "unat (s - first_seq_num pb) < 32767"
  shows "\<exists>pb'. ClearTo pb s = Some pb' \<and> first_seq_num pb' = s + 1 \<and>
    (\<forall>k. unat (k - first_seq_num pb) \<le> unat (s - first_seq_num pb) \<longrightarrow> held pb' k = None) \<and>
    (\<forall>k. AheadOf16 k s \<longrightarrow> k - s \<noteq> 0x8000 \<longrightarrow> held pb' k = held pb k)"
proof -
  let ?f = "first_seq_num pb"
  note inv = pb_reach_inv [OF assms(1,2)] and ok = reach_ok(1) [OF assms(1,2)]
  have d: "pos ?f (s + 1) = pos ?f s + 1" using pos_back [of ?f s "s + 1"] assms(6) by (simp add: pos_def)
  from ClearTo_held [OF inv assms(3-5)] obtain pb' where p: "ClearTo pb s = Some pb'" "first_seq_num pb' = s + 1"
    and h: "\<And>k. held pb' k = (if AheadOf16 (s + 1) k \<and> (\<exists>j < min (pos ?f (s + 1)) (pb_size pb).
      slot pb (?f + of_nat j) = slot pb k) then None else held pb k)" by blast
  have "held pb' k = None" if k: "unat (k - ?f) \<le> unat (s - ?f)" for k
  proof -
    have "pos ?f k < pos ?f (s + 1)" "pos ?f (s + 1) < 32768" using k d assms(6) by (auto simp: pos_def)
    then have "AheadOf16 (s + 1) k" using AheadOf_window by simp
    moreover have "\<exists>j < min (pos ?f (s + 1)) (pb_size pb). slot pb (?f + of_nat j) = slot pb k"
      by (rule visited_slot [OF ok]) (use k d in \<open>simp add: pos_def\<close>)
    ultimately show ?thesis using h by simp
  qed
  moreover have "held pb' k = held pb k" if "AheadOf16 k s" "k - s \<noteq> 0x8000" for k
    using h [of k] not_ahead_next [OF that] by simp
  ultimately show ?thesis using p by blast
qed

theorem clear_to_releases_witness:
  "\<exists>pb'. ClearTo example_gap 0 = Some pb' \<and> held pb' 65535 = None \<and> held pb' 2 = held example_gap 2"
proof -
  have e: "near example_gap (0 + 1)" "first_packet_received example_gap"
    "\<not> (is_cleared_to_first_seq_num example_gap \<and> AheadOf16 (first_seq_num example_gap) 0)"
    "unat (0 - first_seq_num example_gap) < 32767" "first_seq_num example_gap = 65535" "AheadOf16 2 0" by code_simp+
  have n: "(2 :: u16) - 0 \<noteq> 0x8000" by simp
  from clear_to_releases [OF example_gap_reach example_blank_number e(1-4)] e(5,6) n show ?thesis by fastforce
qed

text \<open>C34: \<open>OnTimestampReceived\<close> implements a window of the last 1000 different timestamps and counts those that
  are new to it.\<close>

theorem timestamp_history_refines:
  assumes "pb_reach blank pb" "pk_seqNum blank = 0"
  shows "\<exists>pb'. OnTimestampReceived pb ts = Some pb' \<and>
    timestamps_history_queue pb' = remember ts (timestamps_history_queue pb) \<and>
    set (timestamps_history_set pb') = set (timestamps_history_queue pb') \<and>
    unique_frames_seen pb' = unique_frames_seen pb + (if ts \<in> set (timestamps_history_queue pb) then 0 else 1)"
  using OnTimestampReceived_ok [OF reach_ok(3) [OF assms], of ts] by (auto simp: history_ok_def)

theorem timestamp_history_refines_witness:
  "\<exists>pb'. OnTimestampReceived example_gap 9 = Some pb' \<and> timestamps_history_queue pb' = remember 9 [7, 8] \<and>
     unique_frames_seen pb' = 3"
proof -
  have "timestamps_history_queue example_gap = [7, 8]" "unique_frames_seen example_gap = 2" by code_simp+
  with timestamp_history_refines [OF example_gap_reach example_blank_number, of 9] show ?thesis by auto
qed

subsection \<open>Streams without H.264\<close>

text \<open>C9: from every state that a stream without H.264 reaches, these operations return: an insertion or padding whose number is
  not exactly half the range from the newest one and leaves no packet in the buffer ahead of the newest; \<open>ClearTo\<close> of a
  number that the ordered set of missing numbers can look up and that does not cut a frame of which
  consecutive packets are there; and \<open>Clear\<close>. No assertion fails, no loop runs on and no pointer that may be null is
  followed, and the same holds of the state after it. What cutting a frame does is shown in \<open>Packet_Faults\<close>.\<close>

theorem stream_is_safe:
  assumes "stream_reach blank pb" "pk_seqNum blank = 0" "stream_op_ok pb oper" "clear_near pb oper"
  shows "\<exists>pb' frs. pb_apply blank pb oper = Some (pb', frs) \<and> stream_reach blank pb'"
  using stream_apply [OF stream_reach_inv [OF assms(1,2)] assms(2-4)] stream_reach.step [OF assms(1,3)] by blast

lemma example_stream_start: "stream_reach example_blank example_start"
proof (rule stream_reach.start [where a = 1 and b = 2 and trial = False])
  show "PacketBuffer_init example_blank (2 ^ 1) (2 ^ 2) False = Some example_start" by code_simp
qed simp

lemma example_stream_first: "stream_reach example_blank example_first"
proof (rule stream_reach.step [OF example_stream_start])
  show "stream_op_ok example_start (Insert (example_packet 65535 7 True False [1, 2]) 10)" by code_simp
  show "pb_apply example_blank example_start (Insert (example_packet 65535 7 True False [1, 2]) 10) = Some (example_first, [])"
    by code_simp
qed

theorem stream_is_safe_witness:
  "(\<exists>pb' frs. pb_apply example_blank example_first (Insert (example_packet 0 7 False True [3]) 11) = Some (pb', frs) \<and>
     stream_reach example_blank pb') \<and>
   (\<exists>pb' frs. pb_apply example_blank example_first (Clear_to 65535) = Some (pb', frs) \<and> stream_reach example_blank pb')"
proof -
  note safe = stream_is_safe [OF example_stream_first example_blank_number]
  have "stream_op_ok example_first (Insert (example_packet 0 7 False True [3]) 11)" "stream_op_ok example_first (Clear_to 65535)"
    "clear_near example_first (Insert (example_packet 0 7 False True [3]) 11)" "clear_near example_first (Clear_to 65535)"
    by code_simp+
  then show ?thesis using safe by blast
qed

text \<open>C8: on such a stream, where \<open>ClearTo\<close> has not cut a frame, \<open>InsertPacket\<close> returns for a packet that is not exactly half
  the range from the newest one and leaves no packet in the buffer ahead of the newest. Every frame it hands out starts with a first and ends with a
  last packet of a frame, and, unless it reports a full buffer, each packet that was in the
  buffer is in one of these frames or still there.\<close>

theorem insert_loses_nothing:
  assumes "stream_reach blank pb" "pk_seqNum blank = 0" "packet_ok p" "jump_ok pb (pk_seqNum p)" "recent pb (pk_seqNum p)"
  shows "\<exists>pb' frs acc. InsertPacket blank pb p now = Some (pb', frs, acc) \<and>
    list_all (whole_frame (\<lambda>k. if k = pk_seqNum p then Some p else held pb k)) frs \<and>
    (acc \<longrightarrow> (\<forall>k x. held pb k = Some x \<longrightarrow> k \<in> set (concat (map frame_numbers frs)) \<or> held pb' k = Some x))"
  using insert_returns [OF stream_reach_inv [OF assms(1,2)] assms(2-5)] by blast

theorem insert_loses_nothing_witness:
  "InsertPacket example_blank example_first (example_packet 2 8 True False [4]) 12 = Some (example_gap, [], True) \<and>
     held example_gap 65535 = Some (example_packet 65535 7 True False [1, 2])"
proof -
  let ?p = "example_packet 2 8 True False [4]"
  have "packet_ok ?p" "jump_ok example_first (pk_seqNum ?p)" "recent example_first (pk_seqNum ?p)" by code_simp+
  note safe = insert_loses_nothing [OF example_stream_first example_blank_number this, of 12]
  have "InsertPacket example_blank example_first ?p 12 = Some (example_gap, [], True)"
    "held example_first 65535 = Some (example_packet 65535 7 True False [1, 2])" by code_simp+
  with safe show ?thesis by auto
qed

text \<open>C6: on a stream as above no complete frame waits in the buffer. In no state is there a run of packets of one timestamp
  from a first to a last packet of a frame: it has been handed out.\<close>

theorem no_complete_frame_waits:
  assumes "stream_reach blank pb" "pk_seqNum blank = 0"
  shows "\<not> complete (held pb) a t"
  by (rule stream_not_complete [OF stream_reach_inv [OF assms]])

theorem no_complete_frame_waits_witness:
  "complete (\<lambda>k. if k = 0 then Some (example_packet 0 7 False True [3]) else held example_first k) 65535 1 \<and>
     \<not> complete (held (fst example_second)) 65535 1"
proof
  show "complete (\<lambda>k. if k = 0 then Some (example_packet 0 7 False True [3]) else held example_first k) 65535 1"
    by code_simp
  have "stream_reach example_blank (fst example_second)"
  proof (rule stream_reach.step [OF example_stream_first])
    show "stream_op_ok example_first (Insert (example_packet 0 7 False True [3]) 11)" by code_simp
    show "pb_apply example_blank example_first (Insert (example_packet 0 7 False True [3]) 11) =
        Some (fst example_second, fst (snd example_second))" by code_simp
  qed
  then show "\<not> complete (held (fst example_second)) 65535 1" by (rule no_complete_frame_waits [OF _ example_blank_number])
qed

end
