(* ===== verification/Packet_Faults.thy ===== *)
theory Packet_Faults
  imports Packet_Theorems
begin

text \<open>
  Where \<open>InsertPacket\<close> follows a null pointer. The backward search of \<open>FindFrames\<close> does not check that the slots it
  goes through hold the numbers it counts down; when the number it ends at is not in the buffer, \<open>GetPacket\<close> returns
  null for the first packet of the frame, which is dereferenced. Two ways to get there are shown in general: a frame of
  which \<open>ClearTo\<close> has released the first packets, and an H.264 packet of the same frame \<open>size_\<close> numbers away.
\<close>

subsection \<open>What an insertion does\<close>

definition fresh_info :: "'x vcm_packet \<Rightarrow> continuity_info" where
  "fresh_info p = \<lparr>ci_seq_num = pk_seqNum p, frame_begin = pk_first_in_frame p, frame_end = pk_last_in_frame p,
     used = True, continuous = False, frame_created = False\<rparr>"

text \<open>\<open>inserted pb p u\<close>: \<open>u\<close> has the slots of \<open>pb\<close>, with \<open>p\<close> in its slot.\<close>

definition inserted :: "'x packet_buffer \<Rightarrow> 'x vcm_packet \<Rightarrow> 'x packet_buffer \<Rightarrow> bool" where
  "inserted pb p u \<longleftrightarrow> pb_size u = pb_size pb \<and> pb_max_size u = pb_max_size pb \<and>
     sps_pps_idr_is_h264_keyframe u = sps_pps_idr_is_h264_keyframe pb \<and>
     sequence_buffer u = (sequence_buffer pb)[slot pb (pk_seqNum p) := fresh_info p] \<and>
     data_buffer u = (data_buffer pb)[slot pb (pk_seqNum p) := p]"

lemma UpdateMissing_slots:
  "UpdateMissingPackets pb q = Some u \<Longrightarrow> pb_size u = pb_size pb \<and> pb_max_size u = pb_max_size pb \<and>
     sps_pps_idr_is_h264_keyframe u = sps_pps_idr_is_h264_keyframe pb \<and>
     sequence_buffer u = sequence_buffer pb \<and> data_buffer u = data_buffer pb"
  by (auto simp: UpdateMissingPackets_def bind_eq_Some_conv Let_def split: if_splits)

lemma OnTimestamp_slots:
  "\<exists>y. OnTimestampReceived pb ts = Some y \<and> pb_size y = pb_size pb \<and> pb_max_size y = pb_max_size pb \<and>
     sps_pps_idr_is_h264_keyframe y = sps_pps_idr_is_h264_keyframe pb \<and>
     sequence_buffer y = sequence_buffer pb \<and> data_buffer y = data_buffer pb \<and>
     first_packet_received y = first_packet_received pb \<and> first_seq_num y = first_seq_num pb \<and>
     is_cleared_to_first_seq_num y = is_cleared_to_first_seq_num pb"
  by (cases "timestamps_history_queue pb") (auto simp: OnTimestampReceived_def Let_def)

lemma insert_at_faults:
  assumes "\<And>u. inserted y p u \<Longrightarrow> FindFrames u (pk_seqNum p) = None"
  shows "insert_at y p now = None"
proof (cases "UpdateMissingPackets (store_packet y p) (pk_seqNum p)")
  case (Some u)
  have "inserted y p (u\<lparr>last_received_packet_ms := a, last_received_keyframe_packet_ms := b\<rparr>)" for a b
    using UpdateMissing_slots [OF Some] by (simp add: inserted_def store_packet_def fresh_info_def Let_def)
  then show ?thesis using Some assms by (simp add: insert_at_def Let_def)
qed (simp add: insert_at_def)

text \<open>A packet that is not refused and whose slot is free.\<close>

definition accepted :: "'x packet_buffer \<Rightarrow> u16 \<Rightarrow> bool" where
  "accepted pb q \<longleftrightarrow> \<not> used (sequence_buffer pb ! slot pb q) \<and>
     \<not> (first_packet_received pb \<and> is_cleared_to_first_seq_num pb \<and> AheadOf16 (first_seq_num pb) q)"

lemma InsertPacket_faults:
  assumes "pb_ok pb" "accepted pb (pk_seqNum p)" "\<And>u. inserted pb p u \<Longrightarrow> FindFrames u (pk_seqNum p) = None"
  shows "InsertPacket blank pb p now = None"
proof -
  let ?q = "pk_seqNum p"
  obtain y where y: "OnTimestampReceived pb (pk_timestamp p) = Some y" "pb_size y = pb_size pb"
    "pb_max_size y = pb_max_size pb" "sps_pps_idr_is_h264_keyframe y = sps_pps_idr_is_h264_keyframe pb"
    "sequence_buffer y = sequence_buffer pb" "data_buffer y = data_buffer pb"
    "first_packet_received y = first_packet_received pb" "first_seq_num y = first_seq_num pb"
    "is_cleared_to_first_seq_num y = is_cleared_to_first_seq_num pb" using OnTimestamp_slots [of pb "pk_timestamp p"] by blast
  define z where "z = (if \<not> first_packet_received y then y\<lparr>first_seq_num := ?q, first_packet_received := True\<rparr>
    else if AheadOf16 (first_seq_num y) ?q then y\<lparr>first_seq_num := ?q\<rparr> else y)"
  have z: "pb_size z = pb_size pb" "sequence_buffer z = sequence_buffer pb" "data_buffer z = data_buffer pb"
    "pb_max_size z = pb_max_size pb" "sps_pps_idr_is_h264_keyframe z = sps_pps_idr_is_h264_keyframe pb"
    using y by (simp_all add: z_def)
  have sl: "slot z ?q = slot pb ?q" using z(1) by (simp add: slot_def)
  have "\<And>u. inserted z p u \<Longrightarrow> inserted pb p u" using z sl by (simp add: inserted_def)
  then have "insert_at z p now = None" using insert_at_faults assms(3) by blast
  moreover have g: "\<not> (first_packet_received y \<and> AheadOf16 (first_seq_num y) ?q \<and> is_cleared_to_first_seq_num y)"
    using y assms(2) by (auto simp: accepted_def)
  have v: "vget (sequence_buffer z) (slot z ?q) = Some (sequence_buffer pb ! slot pb ?q)"
    "vget (data_buffer z) (slot z ?q) = Some (data_buffer pb ! slot pb ?q)" "\<not> used (sequence_buffer pb ! slot pb ?q)"
    using vget_slot [OF assms(1), of ?q] z sl assms(2) by (simp_all add: accepted_def)
  have "InsertPacket blank pb p now = insert_at z p now"
    by (simp only: InsertPacket_def y(1) bind.bind_lunit Let_def if_not_P [OF g] z_def [symmetric] v not_False_eq_True if_True)
  ultimately show ?thesis by simp
qed

lemma inserted_ok: "pb_ok pb \<Longrightarrow> inserted pb p u \<Longrightarrow> pb_ok u"
  by (rule pb_ok_by_fields [OF store_packet_ok [of pb p]])
    (simp_all add: inserted_def store_packet_def fresh_info_def Let_def)

lemma inserted_slot: "inserted pb p u \<Longrightarrow> slot u k = slot pb k"
  by (simp add: inserted_def slot_def)

lemma inserted_view:
  assumes "pb_ok pb" "\<not> used (sequence_buffer pb ! slot pb (pk_seqNum p))" "inserted pb p u"
  shows "view u k = (if k = pk_seqNum p then Some (fresh_info p, p) else view pb k)"
proof -
  have "view u k = view (store_packet pb p) k"
    using assms(3) by (simp add: inserted_def view_def store_packet_def fresh_info_def slot_def Let_def)
  then show ?thesis using view_store [OF assms(1,2), of k] by (simp add: fresh_info_def)
qed

text \<open>The search starts when the packet is the last of a frame that continues the one before.\<close>

lemma FindFrames_faults:
  assumes "pb_ok u" "PotentialNewFrame u q = Some True" "frame_end (sequence_buffer u ! slot u q)"
    "frame_at (set_continuous (slot u q) u) q = None"
  shows "FindFrames u q = None"
proof -
  obtain n where n: "pb_size u = Suc n" using pb_ok_size [OF assms(1)] gr0_implies_Suc by blast
  have l: "slot u q < length (sequence_buffer u)" using pb_ok_slot [OF assms(1), of q] assms(1) by (simp add: pb_ok_def)
  then have "vget (sequence_buffer (set_continuous (slot u q) u)) (slot u q) =
      Some ((sequence_buffer u ! slot u q)\<lparr>continuous := True\<rparr>)" by (simp add: set_continuous_def vget_def)
  then show ?thesis using assms(2-4) by (simp add: FindFrames_def n Let_def)
qed

lemma create_frame_null:
  assumes "pb_ok pb" "held pb (sc_start_seq_num s) = None"
  shows "create_frame pb q s = None"
proof -
  have "GetPacket (pb\<lparr>missing_packets := m\<rparr>) (sc_start_seq_num s) = Some None" for m
  proof -
    let ?x = "pb\<lparr>missing_packets := m\<rparr>"
    have "pb_ok ?x" by (rule pb_ok_by_fields [OF assms(1)]) simp_all
    moreover have "held ?x (sc_start_seq_num s) = held pb (sc_start_seq_num s)" by (simp add: held_def slot_def Let_def)
    ultimately show ?thesis using assms(2) by (simp add: GetPacket_held)
  qed
  then show ?thesis by (cases "upper_bound id (missing_packets pb) q") (auto simp: create_frame_def)
qed

subsection \<open>A frame whose first packets were released\<close>

lemma held_mark: "held (mark_created b i pb) k = held pb k"
  by (simp add: held_def mark_created_def slot_def Let_def nth_update_field [of used] nth_update_field [of ci_seq_num])

lemma begin_mark: "frame_begin (sequence_buffer (mark_created b i pb) ! j) = frame_begin (sequence_buffer pb ! j)"
  unfolding mark_created_def by (simp add: nth_update_field [of frame_begin])

text \<open>Except for H.264 the search goes back to a slot with \<open>frame_begin\<close>, used or not.\<close>

lemma scan_back_to_begin:
  assumes "pb_ok pb" "t < n" "\<And>j. j < t \<Longrightarrow> \<not> frame_begin (sequence_buffer pb ! slot pb (q - of_nat j))"
    "frame_begin (sequence_buffer pb ! slot pb (q - of_nat t))" "sc_start_index s = slot pb q" "sc_start_seq_num s = q"
  shows "\<exists>pb' s'. scan_back n False ts pb s = Some (pb', s', True) \<and> sc_start_seq_num s' = q - of_nat t \<and>
    pb_ok pb' \<and> (\<forall>k. held pb' k = held pb k)"
  using assms
proof (induction t arbitrary: n pb q s)
  case 0
  then obtain m where "n = Suc m" by (cases n) auto
  then have "scan_back n False ts pb s = Some (mark_created True (slot pb q) pb, scan_packet (data_buffer pb ! slot pb q) s, True)"
    using 0 vget_slot [OF 0(1), of q] by (simp add: Let_def)
  then show ?case using 0 held_mark pb_ok_mark by (auto simp: scan_packet_def)
next
  case (Suc t)
  obtain m where m: "n = Suc m" "t < m" using Suc.prems(2) by (cases n) auto
  let ?x = "mark_created True (slot pb q) pb"
  let ?s = "(scan_packet (data_buffer pb ! slot pb q) s)\<lparr>sc_start_index := slot pb (q - 1), sc_start_seq_num := q - 1\<rparr>"
  note ok = Suc.prems(1) and okx = pb_ok_mark [OF Suc.prems(1), of True "slot pb q"]
  have nb: "\<not> frame_begin (sequence_buffer pb ! slot pb q)" using Suc.prems(3) [of 0] by simp
  have v: "vget (data_buffer ?x) (slot pb (q - 1)) \<noteq> None" "vget (sequence_buffer ?x) (slot pb (q - 1)) \<noteq> None"
    using vget_slot [OF okx, of "q - 1"] by simp_all
  have e: "scan_back n False ts pb s = scan_back m False ts ?x ?s"
    using m vget_slot [OF ok, of q] v nb Suc.prems(5,6) slot_prev [OF ok, of q] by (auto simp: Let_def scan_packet_def)
  have g: "q - 1 - of_nat j = q - of_nat (Suc j)" for j by (simp add: algebra_simps)
  have "\<exists>pb' s'. scan_back m False ts ?x ?s = Some (pb', s', True) \<and> sc_start_seq_num s' = q - 1 - of_nat t \<and>
    pb_ok pb' \<and> (\<forall>k. held pb' k = held ?x k)"
  proof (rule Suc.IH [OF okx m(2)])
    show "\<not> frame_begin (sequence_buffer ?x ! slot ?x (q - 1 - of_nat j))" if "j < t" for j
      using Suc.prems(3) [of "Suc j"] that unfolding begin_mark mark_fields g by simp
    show "frame_begin (sequence_buffer ?x ! slot ?x (q - 1 - of_nat t))"
      using Suc.prems(4) unfolding begin_mark mark_fields g .
  qed simp_all
  then show ?case unfolding e g held_mark .
qed

lemma clear_to_loop_flags:
  "clear_to_loop n q pb = Some pb' \<Longrightarrow> pb_size pb' = pb_size pb \<and>
     frame_begin (sequence_buffer pb' ! i) = frame_begin (sequence_buffer pb ! i)"
proof (induction n arbitrary: pb)
  case (Suc n)
  let ?i = "slot pb (first_seq_num pb)"
  from Suc.prems obtain x where x: "x = free_slot ?i pb \<or> x = pb"
    "clear_to_loop n q (x\<lparr>first_seq_num := first_seq_num x + 1\<rparr>) = Some pb'"
    by (auto simp: bind_eq_Some_conv dcheck_bind_Some Let_def split: if_splits)
  from x(1) have "pb_size x = pb_size pb \<and> frame_begin (sequence_buffer x ! i) = frame_begin (sequence_buffer pb ! i)"
    by (auto simp: free_slot_def nth_update_field [of frame_begin])
  then show ?case using Suc.IH [OF x(2)] by simp
qed simp

lemma ClearTo_flags:
  assumes "ClearTo pb s = Some pb'"
  shows "pb_size pb' = pb_size pb" "frame_begin (sequence_buffer pb' ! i) = frame_begin (sequence_buffer pb ! i)"
proof -
  consider "pb' = pb" | n x where "clear_to_loop n (s + 1) pb = Some x" "pb_size pb' = pb_size x"
    "sequence_buffer pb' = sequence_buffer x"
  proof (cases "is_cleared_to_first_seq_num pb \<and> AheadOf16 (first_seq_num pb) s \<or> \<not> first_packet_received pb")
    case True
    then show ?thesis using assms that(1) by (auto simp: ClearTo_def split: if_splits)
  next
    case False
    then obtain x ms where
      "clear_to_loop (min (unat (ForwardDiff (first_seq_num pb) (s + 1))) (pb_size pb)) (s + 1) pb = Some x"
      "pb' = x\<lparr>first_seq_num := s + 1, is_cleared_to_first_seq_num := True, missing_packets := ms\<rparr>"
      using assms by (auto simp: ClearTo_def bind_eq_Some_conv Let_def)
    then show ?thesis using that(2) by simp
  qed
  then have "pb_size pb' = pb_size pb \<and> frame_begin (sequence_buffer pb' ! i) = frame_begin (sequence_buffer pb ! i)"
  proof cases
    case 2
    from clear_to_loop_flags [OF 2(1), of i] show ?thesis unfolding 2(2,3) .
  qed simp
  then show "pb_size pb' = pb_size pb" "frame_begin (sequence_buffer pb' ! i) = frame_begin (sequence_buffer pb ! i)" by blast+
qed

lemma slot_differs:
  assumes "pb_ok pb" "0 < j" "j < pb_size pb"
  shows "slot pb (q - of_nat j) \<noteq> slot pb q"
proof
  assume e: "slot pb (q - of_nat j) = slot pb q"
  have "slot pb q = (slot pb (q - of_nat j) + j) mod pb_size pb" using slot_add [OF assms(1), of "q - of_nat j" j] by simp
  with e have m: "(slot pb q + j) mod pb_size pb = slot pb q" by simp
  note l = pb_ok_slot [OF assms(1), of q]
  show False
  proof (cases "slot pb q + j < pb_size pb")
    case False
    then have "(slot pb q + j) mod pb_size pb = slot pb q + j - pb_size pb" using l assms(3) by (simp add: le_mod_geq)
    then show False using m False assms(3) by linarith
  qed (use m assms(2) in simp)
qed

text \<open>The packets behind the first one of a frame are continuous.\<close>

lemma run_continuous:
  assumes "stream_inv pb" "\<And>i. i < t \<Longrightarrow> \<exists>r. held pb (a + of_nat i) = Some r \<and> pk_timestamp r = ts \<and> (pk_first_in_frame r \<longleftrightarrow> i = 0)"
    and "j < t"
  shows "\<exists>c r. view pb (a + of_nat j) = Some (c, r) \<and> continuous c \<and> \<not> frame_created c \<and> pk_timestamp r = ts \<and>
    (frame_begin c \<longleftrightarrow> j = 0)"
  using assms(3)
proof (induction j)
  case 0
  then obtain c r where v: "view pb a = Some (c, r)" "pk_timestamp r = ts" "pk_first_in_frame r"
    using assms(2) [of 0] by (auto simp: held_view)
  have s: "stream_except None pb" using assms(1) by (simp add: stream_inv_def)
  from stream_exceptD [OF s v(1)] v show ?case by (auto simp: entry_fine_def)
next
  case (Suc j)
  then obtain d q where d: "view pb (a + of_nat j) = Some (d, q)" "continuous d" "pk_timestamp q = ts" by auto
  obtain c r where v: "view pb (a + of_nat (Suc j)) = Some (c, r)" "pk_timestamp r = ts" "\<not> pk_first_in_frame r"
    using assms(2) [OF Suc.prems] by (auto simp: held_view)
  have s: "stream_except None pb" using assms(1) by (simp add: stream_inv_def)
  have "a + of_nat (Suc j) - 1 = a + of_nat j" by simp
  then have "follows pb (a + of_nat (Suc j)) r" using d v(2) by (simp add: follows_def)
  then show ?case using stream_exceptD [OF s v(1)] v by (auto simp: entry_fine_def)
qed

lemma frame_at_cut:
  assumes "pb_ok u" "t < pb_size u" "pk_codec (data_buffer u ! slot u q) \<noteq> kVideoCodecH264"
    "\<And>j. j < t \<Longrightarrow> \<not> frame_begin (sequence_buffer u ! slot u (q - of_nat j))"
    "frame_begin (sequence_buffer u ! slot u (q - of_nat t))" "held u (q - of_nat t) = None"
  shows "frame_at u q = None"
proof -
  let ?p = "data_buffer u ! slot u q"
  obtain x s where x: "scan_back (pb_size u) False (pk_timestamp ?p) u (scan_init ?p q (slot u q)) = Some (x, s, True)"
    "sc_start_seq_num s = q - of_nat t" "pb_ok x" "\<forall>k. held x k = held u k"
    using scan_back_to_begin [OF assms(1,2,4,5), of "scan_init ?p q (slot u q)" "pk_timestamp ?p"]
    by (fastforce simp: scan_init_def)
  have "create_frame x q s = None" by (rule create_frame_null [OF x(3)]) (use x assms(6) in simp)
  then show ?thesis using x(1) assms(3) vget_slot [OF assms(1), of q] by (simp add: frame_at_def Let_def)
qed

text \<open>
  A last packet that continues the one before it, where the slot \<open>t\<close> before it is the nearest with \<open>frame_begin\<close> and does
  not hold its number.
\<close>

lemma insert_after_cut:
  assumes ok: "pb_ok pb" and t: "0 < t" "t < pb_size pb"
    and p: "pk_seqNum p = q" "pk_codec p \<noteq> kVideoCodecH264" "\<not> pk_first_in_frame p" "pk_last_in_frame p" "accepted pb q"
    and prev: "view pb (q - 1) = Some (c, r)" "continuous c" "\<not> frame_created c" "pk_timestamp r = pk_timestamp p"
    and flags: "\<And>j. 0 < j \<Longrightarrow> j \<le> t \<Longrightarrow> frame_begin (sequence_buffer pb ! slot pb (q - of_nat j)) \<longleftrightarrow> j = t"
    and null: "held pb (q - of_nat t) = None"
  shows "InsertPacket blank pb p now = None"
proof (rule InsertPacket_faults [OF ok])
  show "accepted pb (pk_seqNum p)" using p(1,5) by simp
  fix u assume u: "inserted pb p u"
  let ?x = "set_continuous (slot u q) u"
  have oku: "pb_ok u" by (rule inserted_ok [OF ok u])
  have nu: "\<not> used (sequence_buffer pb ! slot pb (pk_seqNum p))" using p(1,5) by (simp add: accepted_def)
  note vu = inserted_view [OF ok nu u, unfolded p(1)]
  have su: "sequence_buffer u = (sequence_buffer pb)[slot pb q := fresh_info p]"
    "data_buffer u = (data_buffer pb)[slot pb q := p]" "pb_size u = pb_size pb" using u p(1) by (simp_all add: inserted_def)
  have l: "slot pb q < length (sequence_buffer pb)" "slot pb q < length (data_buffer pb)"
    using pb_ok_slot [OF ok, of q] ok by (simp_all add: pb_ok_def)
  have x: "slot ?x k = slot pb k" "data_buffer ?x = data_buffer u" "pb_size ?x = pb_size pb" "held ?x k = held u k"
    "frame_begin (sequence_buffer ?x ! i) = frame_begin (sequence_buffer u ! i)" for k i
    using inserted_slot [OF u] su(3) by (simp_all add: set_continuous_def slot_def held_def Let_def
        nth_update_field [of frame_begin] nth_update_field [of used] nth_update_field [of ci_seq_num])
  have other: "frame_begin (sequence_buffer ?x ! slot ?x (q - of_nat j)) \<longleftrightarrow> j = t" if "0 < j" "j \<le> t" for j
    using flags [OF that] slot_differs [OF ok that(1), of q] that(2) t(2) unfolding x su(1) by simp
  have "q - of_nat t \<noteq> q" using slot_differs [OF ok t, of q] by metis
  then have gone: "held ?x (q - of_nat t) = None" using null vu [of "q - of_nat t"] x(4) by (simp add: held_view)
  have "frame_at ?x q = None"
  proof (rule frame_at_cut [OF keeps_ok [OF sl.R_continuous oku], where t = t])
    show "\<not> frame_begin (sequence_buffer ?x ! slot ?x (q - of_nat j))" if "j < t" for j
    proof (cases "j = 0")
      case True
      then show ?thesis unfolding x su(1) using l p(3) by (simp add: fresh_info_def)
    qed (use other that in simp)
    show "frame_begin (sequence_buffer ?x ! slot ?x (q - of_nat t))" using other [of t] t(1) by simp
    show "pk_codec (data_buffer ?x ! slot ?x q) \<noteq> kVideoCodecH264" unfolding x su(2) using l p(2) by simp
  qed (use t x(3) gone in simp_all)
  moreover have "PotentialNewFrame u q = Some True"
    unfolding PotentialNewFrame_eq [OF oku] vu using prev by (simp add: fresh_info_def)
  moreover have "frame_end (sequence_buffer u ! slot u q)"
    using su(1) l p(4) inserted_slot [OF u] by (simp add: fresh_info_def)
  ultimately show "FindFrames u (pk_seqNum p) = None" unfolding p(1) by (intro FindFrames_faults [OF oku])
qed

text \<open>\<open>ClearTo\<close> in the middle of a frame makes a later \<open>InsertPacket\<close> follow a null pointer, for every codec but H.264. When
  the packets of a frame but the last are in the buffer, \<open>ClearTo\<close> releases the first of them and keeps the one
  before the last, and then the last packet arrives and is stored, the search ends at the slot of the released
  first packet, whose \<open>frame_begin\<close> is still set, and the packet is dereferenced although \<open>GetPacket\<close> returned null.\<close>

lemma cut_frame_faults:
  assumes "stream_reach blank pb" "pk_seqNum blank = 0" "0 < t" "t < pb_size pb"
    and run: "\<And>j. j < t \<Longrightarrow> \<exists>r. held pb (a + of_nat j) = Some r \<and> pk_timestamp r = pk_timestamp p \<and>
      (pk_first_in_frame r \<longleftrightarrow> j = 0)"
    and cut: "ClearTo pb s = Some pb'" "held pb' a = None" "held pb' (a + of_nat t - 1) \<noteq> None"
    and p: "pk_seqNum p = a + of_nat t" "pk_codec p \<noteq> kVideoCodecH264" "\<not> pk_first_in_frame p" "pk_last_in_frame p"
    and free: "accepted pb' (a + of_nat t)"
  shows "InsertPacket blank pb' p now = None"
proof -
  let ?q = "a + of_nat t :: u16"
  have inv: "stream_inv pb" by (rule stream_reach_inv [OF assms(1,2)])
  then have ok: "pb_ok pb" "pb_inv pb" by (simp_all add: stream_inv_def pb_inv_def)
  have ok': "pb_ok pb'" using inv_both [OF sl.R_ClearTo [OF cut(1)] mp.R_ClearTo [OF cut(1)] ok(2)] by (simp add: pb_inv_def)
  note sz = ClearTo_flags(1) [OF cut(1)] and fb = ClearTo_flags(2) [OF cut(1)]
  have sl': "slot pb' k = slot pb k" for k using sz by (simp add: slot_def)
  have rc: "\<exists>c r. view pb (a + of_nat j) = Some (c, r) \<and> continuous c \<and> \<not> frame_created c \<and>
      pk_timestamp r = pk_timestamp p \<and> (frame_begin c \<longleftrightarrow> j = 0)" if "j < t" for j
    using run by (rule run_continuous [OF inv _ that])
  have bk: "?q - of_nat j = a + of_nat (t - j)" if "j \<le> t" for j using that by (simp add: of_nat_diff)
  have flags: "frame_begin (sequence_buffer pb' ! slot pb' (?q - of_nat j)) \<longleftrightarrow> j = t" if "0 < j" "j \<le> t" for j
  proof -
    have "t - j < t" using that by simp
    from rc [OF this] obtain c r where c: "view pb (a + of_nat (t - j)) = Some (c, r)" "frame_begin c \<longleftrightarrow> t - j = 0" by auto
    from view_slot [OF c(1)] c(2) that show ?thesis unfolding fb sl' bk [OF that(2)] by auto
  qed
  have "?q - 1 = a + of_nat (t - 1)" using bk [of 1] assms(3) by simp
  then obtain c r where c: "view pb (?q - 1) = Some (c, r)" "continuous c" "\<not> frame_created c" "pk_timestamp r = pk_timestamp p"
    using rc [of "t - 1"] assms(3) by (metis diff_less zero_less_one)
  have "view pb' (?q - 1) \<noteq> None" using cut(3) by (auto simp: held_view)
  then have "view pb' (?q - 1) = Some (c, r)" using ClearTo_view [OF ok(1) cut(1)] c(1) by fastforce
  moreover have "held pb' (?q - of_nat t) = None" using cut(2) by simp
  ultimately show ?thesis using insert_after_cut [OF ok' assms(3), of p ?q] assms(4) sz p free c(2-4) flags by simp
qed

text \<open>Packets 1 and 2 of a frame of three, \<open>ClearTo (1)\<close>, then packet 3.\<close>

definition cut_start :: "unit packet_buffer" where
  "cut_start = the (PacketBuffer_init example_blank 4 4 False)"

definition cut_one :: "unit packet_buffer" where
  "cut_one = fst (the (pb_apply example_blank cut_start (Insert (example_packet 1 7 True False [1]) 10)))"

definition cut_two :: "unit packet_buffer" where
  "cut_two = fst (the (pb_apply example_blank cut_one (Insert (example_packet 2 7 False False [2]) 11)))"

lemma cut_two_reach: "stream_reach example_blank cut_two"
proof (rule stream_reach.step [where frames = "[]"])
  show "stream_reach example_blank cut_one"
  proof (rule stream_reach.step [where frames = "[]"])
    show "stream_reach example_blank cut_start"
    proof (rule stream_reach.start [where a = 2 and b = 2 and trial = False])
      show "PacketBuffer_init example_blank (2 ^ 2) (2 ^ 2) False = Some cut_start" by code_simp
    qed simp
    show "stream_op_ok cut_start (Insert (example_packet 1 7 True False [1]) 10)" by code_simp
    show "pb_apply example_blank cut_start (Insert (example_packet 1 7 True False [1]) 10) = Some (cut_one, [])" by code_simp
  qed
  show "stream_op_ok cut_one (Insert (example_packet 2 7 False False [2]) 11)" by code_simp
  show "pb_apply example_blank cut_one (Insert (example_packet 2 7 False False [2]) 11) = Some (cut_two, [])" by code_simp
qed

subsection \<open>H.264 packets a buffer size apart\<close>

text \<open>Whether the types of the units make a frame a key frame.\<close>

definition key_nalus :: "bool \<Rightarrow> u8 list \<Rightarrow> bool" where
  "key_nalus trial ts \<longleftrightarrow> kNaluIdr \<in> set ts \<and> (trial \<longrightarrow> kNaluSps \<in> set ts \<and> kNaluPps \<in> set ts)"

lemma scan_nalus_flags:
  "has_h264_sps (scan_nalus ts s) \<longleftrightarrow> has_h264_sps s \<or> kNaluSps \<in> set ts"
  "has_h264_pps (scan_nalus ts s) \<longleftrightarrow> has_h264_pps s \<or> kNaluPps \<in> set ts"
  "has_h264_idr (scan_nalus ts s) \<longleftrightarrow> has_h264_idr s \<or> kNaluIdr \<in> set ts"
  "is_h264_keyframe (scan_nalus ts s) = is_h264_keyframe s" "sc_start_seq_num (scan_nalus ts s) = sc_start_seq_num s"
  by (induction ts s rule: scan_nalus.induct) (auto simp: kNaluSps_def kNaluPps_def kNaluIdr_def)

lemma scan_h264_key:
  assumes "pk_nalus p = Some ts" "length ts < kMaxNalusPerPacket"
  shows "\<exists>s'. scan_h264 trial p s = (s', True) \<and> sc_start_seq_num s' = sc_start_seq_num s \<and>
    (is_h264_keyframe s \<or> key_nalus trial ts \<longrightarrow> is_h264_keyframe s')"
  using assms by (auto simp: scan_h264_def Let_def scan_nalus_flags key_nalus_def)

text \<open>One step of the search, at the slot of \<open>q\<close>.\<close>

lemma scan_back_h264:
  assumes ok: "pb_ok pb" and p: "data_buffer pb ! slot pb q = p" "pk_nalus p = Some us" "length us < kMaxNalusPerPacket"
    and s: "sc_start_index s = slot pb q" "0 < n" "is_h264_keyframe s \<or> key_nalus (sps_pps_idr_is_h264_keyframe pb) us"
  shows "\<exists>s'. is_h264_keyframe s' \<and> sc_start_seq_num s' = sc_start_seq_num s \<and> sc_start_index s' = slot pb (q - 1) \<and>
    scan_back (Suc n) True ts pb s =
      (if \<not> used (sequence_buffer (mark_created True (slot pb q) pb) ! slot pb (q - 1)) \<or>
          pk_timestamp (data_buffer pb ! slot pb (q - 1)) \<noteq> ts
       then Some (mark_created True (slot pb q) pb, s', True)
       else scan_back n True ts (mark_created True (slot pb q) pb) (s'\<lparr>sc_start_seq_num := sc_start_seq_num s - 1\<rparr>))"
proof -
  let ?x = "mark_created True (slot pb q) pb"
  obtain s1 where s1: "scan_h264 (sps_pps_idr_is_h264_keyframe pb) p (scan_packet p s) = (s1, True)"
    "sc_start_seq_num s1 = sc_start_seq_num s" "is_h264_keyframe s1"
    using scan_h264_key [OF p(2,3), of "sps_pps_idr_is_h264_keyframe pb" "scan_packet p s"] s(3) by (auto simp: scan_packet_def)
  have trial: "sps_pps_idr_is_h264_keyframe ?x = sps_pps_idr_is_h264_keyframe pb" by (simp add: mark_created_def)
  note v = vget_slot [OF ok, of q] vget_slot [OF pb_ok_mark [OF ok], of True "slot pb q" "q - 1"]
  show ?thesis
    by (rule exI [of _ "s1\<lparr>sc_start_index := slot pb (q - 1)\<rparr>"])
      (use s(1,2) p(1) s1 trial v slot_prev [OF ok, of q] in \<open>simp add: Let_def scan_packet_def\<close>)
qed

lemma used_mark: "used (sequence_buffer (mark_created b i pb) ! j) = used (sequence_buffer pb ! j)"
  unfolding mark_created_def by (simp add: nth_update_field [of used])

lemma frame_at_h264_null:
  assumes ok: "pb_ok u" and n: "pb_size u = Suc (Suc n)" "0 < n"
    and p: "data_buffer u ! slot u q = p" "pk_codec p = kVideoCodecH264" "pk_nalus p = Some us" "length us < kMaxNalusPerPacket"
      "key_nalus (sps_pps_idr_is_h264_keyframe u) us"
    and old: "used (sequence_buffer u ! slot u (q - 1))" "data_buffer u ! slot u (q - 1) = old" "pk_timestamp old = pk_timestamp p"
      "pk_nalus old = Some vs" "length vs < kMaxNalusPerPacket" "held u (q - 1) = None"
    and before: "\<not> used (sequence_buffer u ! slot u (q - 2)) \<or> pk_timestamp (data_buffer u ! slot u (q - 2)) \<noteq> pk_timestamp p"
  shows "frame_at u q = None"
proof -
  let ?x = "mark_created True (slot u q) u" and ?s = "scan_init p q (slot u q)"
  let ?y = "mark_created True (slot u (q - 1)) ?x"
  have e: "q - 1 - 1 = q - 2" by simp
  have okx: "pb_ok ?x" "pb_ok ?y" by (intro pb_ok_mark ok)+
  obtain s1 where s1: "is_h264_keyframe s1" "sc_start_seq_num s1 = q" "sc_start_index s1 = slot u (q - 1)"
    "scan_back (Suc (Suc n)) True (pk_timestamp p) u ?s = scan_back (Suc n) True (pk_timestamp p) ?x (s1\<lparr>sc_start_seq_num := q - 1\<rparr>)"
    using scan_back_h264 [OF ok p(1,3,4), of ?s "Suc n" "pk_timestamp p"] p(5) old(1-3) by (auto simp: scan_init_def used_mark)
  obtain s2 where s2: "is_h264_keyframe s2" "sc_start_seq_num s2 = q - 1" "sc_start_index s2 = slot u (q - 2)"
    "scan_back (Suc n) True (pk_timestamp p) ?x (s1\<lparr>sc_start_seq_num := q - 1\<rparr>) = Some (?y, s2, True)"
    using scan_back_h264 [OF okx(1), of "q - 1" old vs "s1\<lparr>sc_start_seq_num := q - 1\<rparr>" n "pk_timestamp p"] old s1 n(2) before
    by (auto simp: used_mark e)
  have h: "h264_frame ?y (slot u q) s2 = Some (set_frame_type (slot u (q - 1)) kVideoFrameKey ?y, True)"
  proof -
    have "slot u (q - 1) < pb_size u" by (rule pb_ok_slot [OF ok])
    moreover have "vget (data_buffer (set_frame_type (slot u (q - 1)) kVideoFrameKey ?y)) (slot u (q - 2)) \<noteq> None"
      using vget_slot [OF keeps_ok [OF sl.R_frame_type okx(2)], of "slot u (q - 1)" kVideoFrameKey "q - 2"]
      by (simp add: set_frame_type_def slot_def)
    ultimately show ?thesis using s2(1-3) by (auto simp: h264_frame_def Let_def dcheck_def)
  qed
  have "create_frame (set_frame_type (slot u (q - 1)) kVideoFrameKey ?y) q s2 = None"
  proof (rule create_frame_null [OF keeps_ok [OF sl.R_frame_type okx(2)]])
    have "held ?y (q - 1) = None" using old(6) by (simp add: held_mark)
    then show "held (set_frame_type (slot u (q - 1)) kVideoFrameKey ?y) (sc_start_seq_num s2) = None"
      using s2(2) by (auto simp: held_def set_frame_type_def slot_def Let_def split: if_splits)
  qed
  moreover have "scan_back (pb_size u) True (pk_timestamp p) u ?s = Some (?y, s2, True)" by (simp only: n(1) s1(4) s2(4))
  ultimately show ?thesis using h p(1,2) vget_slot [OF ok, of q] by (simp add: frame_at_def Let_def)
qed

text \<open>Slots other than that of the new packet, when the search starts.\<close>

lemma continued_slots:
  assumes "pb_ok pb" "inserted pb p u" "pk_seqNum p = q" "0 < j" "j < pb_size pb"
  defines "x \<equiv> set_continuous (slot u q) u"
  shows "used (sequence_buffer x ! slot x (q - of_nat j)) = used (sequence_buffer pb ! slot pb (q - of_nat j))"
    "data_buffer x ! slot x (q - of_nat j) = data_buffer pb ! slot pb (q - of_nat j)"
    "held x (q - of_nat j) = held pb (q - of_nat j)"
proof -
  note n = slot_differs [OF assms(1,4,5), of q]
  have x: "slot x k = slot pb k" "data_buffer x = (data_buffer pb)[slot pb q := p]"
    "sequence_buffer x = (sequence_buffer pb)[slot pb q := fresh_info p, slot pb q := (sequence_buffer u ! slot pb q)\<lparr>continuous := True\<rparr>]" for k
    using assms(2,3) by (simp_all add: x_def set_continuous_def inserted_def slot_def)
  show "used (sequence_buffer x ! slot x (q - of_nat j)) = used (sequence_buffer pb ! slot pb (q - of_nat j))"
    "data_buffer x ! slot x (q - of_nat j) = data_buffer pb ! slot pb (q - of_nat j)"
    "held x (q - of_nat j) = held pb (q - of_nat j)" using n by (simp_all add: x held_def Let_def)
qed

text \<open>A packet \<open>size_\<close> numbers older is in the slot of \<open>k\<close>, which is not in the buffer then.\<close>

lemma older_in_slot:
  assumes ok: "pb_ok pb" and "held pb (k - of_nat (pb_size pb)) = Some old"
  shows "used (sequence_buffer pb ! slot pb k)" "data_buffer pb ! slot pb k = old" "held pb k = None"
proof -
  let ?N = "pb_size pb"
  have "slot pb k = (slot pb (k - of_nat ?N) + ?N) mod ?N" using slot_add [OF ok, of "k - of_nat ?N" ?N] by simp
  then have sl: "slot pb (k - of_nat ?N) = slot pb k" using pb_ok_slot [OF ok] by simp
  have "unat (of_nat ?N :: u16) = ?N" unfolding unat_of_nat using pb_ok_small [OF ok] by (simp add: take_bit_nat_eq_self)
  then have "(of_nat ?N :: u16) \<noteq> 0" using pb_ok_size [OF ok] by (metis less_numeral_extra(3) unat_0)
  then have "k - of_nat ?N \<noteq> k" by simp
  then show "used (sequence_buffer pb ! slot pb k)" "data_buffer pb ! slot pb k = old" "held pb k = None"
    using assms(2) unfolding held_def Let_def sl by (auto split: if_splits)
qed

lemma other_frame_in_slot:
  assumes ok: "pb_ok pb" and o: "\<And>k r. held pb k = Some r \<Longrightarrow> slot pb k = slot pb s \<Longrightarrow> pk_timestamp r \<noteq> ts"
  shows "\<not> used (sequence_buffer pb ! slot pb s) \<or> pk_timestamp (data_buffer pb ! slot pb s) \<noteq> ts"
proof (cases "used (sequence_buffer pb ! slot pb s)")
  case u: True
  let ?k = "ci_seq_num (sequence_buffer pb ! slot pb s)"
  have k: "slot pb ?k = slot pb s" using ok u pb_ok_slot [OF ok, of s] by (simp add: pb_ok_def)
  then have "held pb ?k = Some (data_buffer pb ! slot pb s)" using u by (simp add: held_def)
  then show ?thesis using o k by blast
qed simp

text \<open>For H.264 the search goes back as long as the slot before is used and has the same timestamp; it does not look at
  the number in the slot. When a key frame packet \<open>q\<close> that starts and ends a frame is stored, packet \<open>q - 1\<close> is missing, its
  slot holds a packet of the same timestamp that is \<open>size_\<close> numbers older, and the slot before that has
  none of this timestamp, then \<open>GetPacket (q - 1)\<close> returns null for the start of the frame, and it is dereferenced.\<close>

lemma h264_colliding_packet_faults:
  assumes "pb_reach blank pb" "pk_seqNum blank = 0" "2 < pb_size pb" "accepted pb (pk_seqNum p)"
    and p: "pk_codec p = kVideoCodecH264" "pk_first_in_frame p" "pk_last_in_frame p" "pk_nalus p = Some us"
      "length us < kMaxNalusPerPacket" "key_nalus (sps_pps_idr_is_h264_keyframe pb) us"
    and old: "held pb (pk_seqNum p - 1 - of_nat (pb_size pb)) = Some old" "pk_timestamp old = pk_timestamp p"
      "pk_nalus old = Some vs" "length vs < kMaxNalusPerPacket"
    and before: "\<And>k r. held pb k = Some r \<Longrightarrow> slot pb k = slot pb (pk_seqNum p - 2) \<Longrightarrow> pk_timestamp r \<noteq> pk_timestamp p"
  shows "InsertPacket blank pb p now = None"
proof -
  define q where "q = pk_seqNum p"
  have ok: "pb_ok pb" using pb_reach_inv [OF assms(1,2)] by (simp add: pb_inv_def)
  note o = older_in_slot [OF ok old(1), folded q_def] and b = other_frame_in_slot [OF ok before, folded q_def]
  obtain n where n: "pb_size pb = Suc (Suc n)" "0 < n" using assms(3) by (metis Suc_lessD Suc_less_eq gr0_implies_Suc numeral_2_eq_2 zero_less_Suc)
  show ?thesis
  proof (rule InsertPacket_faults [OF ok assms(4)], unfold q_def [symmetric])
    fix u assume u: "inserted pb p u"
    let ?x = "set_continuous (slot u q) u"
    have oku: "pb_ok u" by (rule inserted_ok [OF ok u])
    have l: "slot pb q < length (sequence_buffer pb)" "slot pb q < length (data_buffer pb)"
      using pb_ok_slot [OF ok, of q] ok by (simp_all add: pb_ok_def)
    note c1 = continued_slots [OF ok u q_def [symmetric], of 1] and c2 = continued_slots [OF ok u q_def [symmetric], of 2]
    have "frame_at ?x q = None"
    proof (rule frame_at_h264_null [OF keeps_ok [OF sl.R_continuous oku], where n = n and p = p and us = us and old = old and vs = vs])
      show "pb_size ?x = Suc (Suc n)" "key_nalus (sps_pps_idr_is_h264_keyframe ?x) us"
        using u n(1) p(6) by (simp_all add: set_continuous_def inserted_def)
      show "data_buffer ?x ! slot ?x q = p" using u l by (simp add: set_continuous_def inserted_def slot_def q_def)
      show "\<not> used (sequence_buffer ?x ! slot ?x (q - 2)) \<or> pk_timestamp (data_buffer ?x ! slot ?x (q - 2)) \<noteq> pk_timestamp p"
        using b c2 assms(3) by simp
    qed (use n(2) p old o c1 assms(3) in simp_all)
    moreover have "PotentialNewFrame u q = Some True" "frame_end (sequence_buffer u ! slot u q)"
      using inserted_view [OF ok _ u, of q] assms(4) p(2,3) u l
      by (simp_all add: PotentialNewFrame_eq [OF oku] accepted_def fresh_info_def inserted_def slot_def q_def)
    ultimately show "FindFrames u q = None" by (intro FindFrames_faults [OF oku])
  qed
qed

text \<open>Packet 0 in a buffer of four, then packet 5 of the same timestamp.\<close>

definition h264_packet :: "u16 \<Rightarrow> bool \<Rightarrow> bool \<Rightarrow> u8 \<Rightarrow> unit vcm_packet" where
  "h264_packet s b e nalu = (example_packet s 7 b e [1])\<lparr>pk_codec := kVideoCodecH264, pk_nalus := Some [nalu]\<rparr>"

definition h264_buffer :: "unit packet_buffer" where
  "h264_buffer = fst (the (pb_apply example_blank cut_start (Insert (h264_packet 0 False False 1) 10)))"

lemma h264_buffer_reach: "pb_reach example_blank h264_buffer"
proof (rule pb_reach.step [where frames = "[]"])
  show "pb_reach example_blank cut_start"
  proof (rule pb_reach.start [where a = 2 and b = 2 and trial = False])
    show "PacketBuffer_init example_blank (2 ^ 2) (2 ^ 2) False = Some cut_start" by code_simp
  qed simp
  show "pb_op_ok cut_start (Insert (h264_packet 0 False False 1) 10)" by code_simp
  show "pb_apply example_blank cut_start (Insert (h264_packet 0 False False 1) 10) = Some (h264_buffer, [])" by code_simp
qed

lemma cut_two_facts:
  "j < 2 \<Longrightarrow> \<exists>r. held cut_two (1 + of_nat j) = Some r \<and> pk_timestamp r = pk_timestamp (example_packet 3 7 False True [3]) \<and>
     (pk_first_in_frame r \<longleftrightarrow> j = 0)"
proof -
  assume "j < 2"
  then consider "j = 0" | "j = 1" by linarith
  moreover have "held cut_two 1 = Some (example_packet 1 7 True False [1])" "held cut_two 2 = Some (example_packet 2 7 False False [2])"
    by code_simp+
  ultimately show ?thesis by cases (simp_all add: example_packet_def)
qed

lemma h264_slot_free:
  assumes "held h264_buffer k = Some r" "slot h264_buffer k = slot h264_buffer (pk_seqNum (h264_packet 5 True True 5) - 2)"
  shows "pk_timestamp r \<noteq> pk_timestamp (h264_packet 5 True True 5)"
proof -
  have "\<not> used (sequence_buffer h264_buffer ! slot h264_buffer (pk_seqNum (h264_packet 5 True True 5) - 2))" by code_simp
  with assms show ?thesis by (simp add: held_def Let_def split: if_splits)
qed

subsection \<open>Properties\<close>

text \<open>The states in which the last packet of a frame is about to arrive, after \<open>ClearTo\<close> has released the first packet of the
  frame (number \<open>a\<close>, of \<open>t + 1\<close>) and kept the one before the last.\<close>

definition cut_frame :: "'x vcm_packet \<Rightarrow> 'x packet_buffer \<Rightarrow> 'x vcm_packet \<Rightarrow> bool" where
  "cut_frame blank pb p \<longleftrightarrow> (\<exists>pb0 s a t. stream_reach blank pb0 \<and> ClearTo pb0 s = Some pb \<and> 0 < t \<and> t < pb_size pb0 \<and>
     (\<forall>j < t. \<exists>r. held pb0 (a + of_nat j) = Some r \<and> pk_timestamp r = pk_timestamp p \<and> (pk_first_in_frame r \<longleftrightarrow> j = 0)) \<and>
     held pb a = None \<and> held pb (a + of_nat t - 1) \<noteq> None \<and>
     pk_seqNum p = a + of_nat t \<and> pk_codec p \<noteq> kVideoCodecH264 \<and> \<not> pk_first_in_frame p \<and> pk_last_in_frame p)"

text \<open>The states in which an H.264 key frame of one packet is about to arrive and the slot of the number before it holds a packet of
  the same timestamp that is \<open>size_\<close> numbers older; the slot before that has none of this timestamp.\<close>

definition h264_collision :: "'x vcm_packet \<Rightarrow> 'x packet_buffer \<Rightarrow> 'x vcm_packet \<Rightarrow> bool" where
  "h264_collision blank pb p \<longleftrightarrow> pb_reach blank pb \<and> 2 < pb_size pb \<and>
     pk_codec p = kVideoCodecH264 \<and> pk_first_in_frame p \<and> pk_last_in_frame p \<and>
     (\<exists>us. pk_nalus p = Some us \<and> length us < kMaxNalusPerPacket \<and> key_nalus (sps_pps_idr_is_h264_keyframe pb) us) \<and>
     (\<exists>r vs. held pb (pk_seqNum p - 1 - of_nat (pb_size pb)) = Some r \<and> pk_timestamp r = pk_timestamp p \<and>
       pk_nalus r = Some vs \<and> length vs < kMaxNalusPerPacket) \<and>
     (\<forall>k r. held pb k = Some r \<longrightarrow> slot pb k = slot pb (pk_seqNum p - 2) \<longrightarrow> pk_timestamp r \<noteq> pk_timestamp p)"

text \<open>C37: \<open>InsertPacket\<close> follows a null pointer when the search for the start of a frame ends at a number that is not in the
  buffer. For every codec but H.264 this happens when \<open>ClearTo\<close> has cut off the beginning of a frame: the slot of the
  released first packet still has \<open>frame_begin\<close> set, and the search stops there. For H.264 it happens when
  a packet of the same timestamp that is \<open>size_\<close> numbers older stands in the slot of a lost one: the search looks at the timestamp and
  not at the number. In both cases the insertion faults when the packet is accepted,
  whatever else the buffer holds.\<close>

theorem insert_follows_null:
  assumes "pk_seqNum blank = 0" "accepted pb (pk_seqNum p)" "cut_frame blank pb p \<or> h264_collision blank pb p"
  shows "InsertPacket blank pb p now = None"
  using assms(3)
proof
  assume "cut_frame blank pb p"
  then show ?thesis unfolding cut_frame_def using cut_frame_faults [OF _ assms(1)] assms(2) by metis
next
  assume "h264_collision blank pb p"
  then show ?thesis unfolding h264_collision_def using h264_colliding_packet_faults [OF _ assms(1) _ assms(2)] by blast
qed

theorem insert_follows_null_witness:
  "InsertPacket example_blank (the (ClearTo cut_two 1)) (example_packet 3 7 False True [3]) 12 = None \<and>
   InsertPacket example_blank h264_buffer (h264_packet 5 True True 5) 20 = None"
proof
  let ?p = "example_packet 3 7 False True [3]" and ?b = "the (ClearTo cut_two 1)"
  have e: "ClearTo cut_two 1 = Some ?b" "held ?b 1 = None" "held ?b (1 + of_nat 2 - 1) \<noteq> None" "2 < pb_size cut_two"
    "accepted ?b (pk_seqNum ?p)" by code_simp+
  have "cut_frame example_blank ?b ?p"
    unfolding cut_frame_def using cut_two_reach cut_two_facts e
    by (intro exI [of _ cut_two] exI [of _ 1] exI [of _ 2]) (simp add: example_packet_def)
  then show "InsertPacket example_blank ?b ?p 12 = None" by (intro insert_follows_null [OF example_blank_number e(5)] disjI1)
next
  let ?p = "h264_packet 5 True True 5"
  have e: "accepted h264_buffer (pk_seqNum ?p)" "2 < pb_size h264_buffer" "key_nalus (sps_pps_idr_is_h264_keyframe h264_buffer) [5]"
    "held h264_buffer (pk_seqNum ?p - 1 - of_nat (pb_size h264_buffer)) = Some (h264_packet 0 False False 1)" by code_simp+
  have "h264_collision example_blank h264_buffer ?p"
    unfolding h264_collision_def using h264_buffer_reach e(2-4) h264_slot_free
    by (simp add: h264_packet_def example_packet_def kMaxNalusPerPacket_def)
  then show "InsertPacket example_blank h264_buffer ?p 20 = None" by (intro insert_follows_null [OF example_blank_number e(1)] disjI2)
qed

end
