(* ===== verification/H264_Common.thy ===== *)
theory H264_Common
  imports Rtc_Prelude "HOL-Library.Code_Target_Nat"
begin

text \<open>
  The byte stream format of H.264: \<open>src/src/myrtc/video/h264_common.{h,cc}\<close>. \<open>FindNaluIndices\<close> finds the units in a
  stream, \<open>WriteRbsp\<close> and \<open>ParseRbsp\<close> insert and remove the bytes that keep a payload from looking like
  the start of a unit.
\<close>

subsection \<open>The model\<close>

definition kNaluShortStartSequenceSize :: nat where "kNaluShortStartSequenceSize = 3"
definition kNaluTypeMask :: u8 where "kNaluTypeMask = 0x1F"

record nalu_index =
  start_offset :: nat
  payload_start_offset :: nat
  payload_size :: nat

text \<open>The assignment through \<open>rbegin()\<close>, if there is an entry.\<close>

definition update_last :: "nalu_index list \<Rightarrow> nat \<Rightarrow> nalu_index list" where
  "update_last sequences stop =
     (if sequences = [] then []
      else butlast sequences @
        [(last sequences)\<lparr>payload_size := size_t_sub stop (payload_start_offset (last sequences))\<rparr>])"

function find_nalu_loop :: "bytes \<Rightarrow> nat \<Rightarrow> nat \<Rightarrow> nalu_index list \<Rightarrow> nalu_index list option" where
  "find_nalu_loop buffer stop i sequences =
     (if i < stop then
        do { third \<leftarrow> get_byte buffer (i + 2);
             if third > 1 then find_nalu_loop buffer stop (i + 3) sequences
             else do {
               second \<leftarrow> get_byte buffer (i + 1);
               first \<leftarrow> get_byte buffer i;
               if third = 1 \<and> second = 0 \<and> first = 0 then do {
                 offset \<leftarrow> (if i > 0 then do { b \<leftarrow> get_byte buffer (i - 1); Some (if b = 0 then i - 1 else i) } else Some i);
                 find_nalu_loop buffer stop (i + 3)
                   (update_last sequences offset @
                    [\<lparr>start_offset = offset, payload_start_offset = i + 3, payload_size = 0\<rparr>]) }
               else find_nalu_loop buffer stop (i + 1) sequences } }
      else Some sequences)"
  by pat_completeness auto
termination by (relation "measure (\<lambda>(buffer, stop, i, sequences). stop - i)") auto

declare find_nalu_loop.simps [simp del]

definition FindNaluIndices :: "bytes \<Rightarrow> nat \<Rightarrow> nalu_index list option" where
  "FindNaluIndices buffer buffer_size =
     (if buffer_size < kNaluShortStartSequenceSize then Some []
      else do {
        sequences \<leftarrow> find_nalu_loop buffer (buffer_size - kNaluShortStartSequenceSize) 0 [];
        Some (update_last sequences buffer_size) })"

definition ParseNaluType :: "u8 \<Rightarrow> u8" where
  "ParseNaluType data = data AND kNaluTypeMask"

text \<open>The loops run over the bytes from position \<open>i\<close> on.\<close>

fun parse_rbsp_loop :: "bytes \<Rightarrow> bytes" where
  "parse_rbsp_loop (a # b # c # rest) =
     (if a = 0 \<and> b = 0 \<and> c = 3 then a # b # parse_rbsp_loop rest else a # parse_rbsp_loop (b # c # rest))"
| "parse_rbsp_loop (a # rest) = a # parse_rbsp_loop rest"
| "parse_rbsp_loop [] = []"

definition ParseRbsp :: "bytes \<Rightarrow> nat \<Rightarrow> bytes option" where
  "ParseRbsp data n = do { bs \<leftarrow> get_bytes data 0 n; Some (parse_rbsp_loop bs) }"

fun write_rbsp_loop :: "nat \<Rightarrow> bytes \<Rightarrow> bytes" where
  "write_rbsp_loop num_consecutive_zeros [] = []"
| "write_rbsp_loop num_consecutive_zeros (byte # bs) =
     (if byte \<le> 3 \<and> num_consecutive_zeros \<ge> 2
      then 3 # byte # write_rbsp_loop (if byte = 0 then 1 else 0) bs
      else byte # write_rbsp_loop (if byte = 0 then num_consecutive_zeros + 1 else 0) bs)"

definition WriteRbsp :: "bytes \<Rightarrow> nat \<Rightarrow> bytes \<Rightarrow> bytes option" where
  "WriteRbsp data n destination =
     do { bs \<leftarrow> get_bytes data 0 n; Some (destination @ write_rbsp_loop 0 bs) }"

subsection \<open>Escaping\<close>

lemma parse_write_loop:
  assumes "z \<le> 2"
  shows "parse_rbsp_loop (replicate z 0 @ write_rbsp_loop z bs) = replicate z 0 @ bs"
  using assms
proof (induction bs arbitrary: z)
  case Nil
  then consider "z = 0" | "z = 1" | "z = 2" by linarith
  then show ?case by cases (simp_all add: numeral_2_eq_2)
next
  case (Cons b bs)
  have skip: "parse_rbsp_loop (b # r) = b # parse_rbsp_loop r" if "b \<noteq> 0" for r
    using that by (cases r; cases "tl r") auto
  note IH0 = Cons.IH [of 0] and IH1 = Cons.IH [of 1] and IH2 = Cons.IH [of 2]
  from Cons.prems consider "z = 0" | "z = 1" | "z = 2" by linarith
  then show ?case
  proof cases
    case 1
    then show ?thesis using IH0 IH1 skip by simp
  next
    case 2
    then show ?thesis using IH0 IH2 skip by (cases "b = 0"; cases "write_rbsp_loop 0 bs") (simp_all add: numeral_2_eq_2)
  next
    case 3
    show ?thesis
    proof (cases "b \<le> 3")
      case True
      then show ?thesis using 3 IH0 IH1 skip by (cases "b = 0") (simp_all add: numeral_2_eq_2)
    next
      case False
      then have "b \<noteq> 0" "b \<noteq> 3" by auto
      then show ?thesis using 3 False IH0 skip by (cases "write_rbsp_loop 0 bs") (simp_all add: numeral_2_eq_2)
    qed
  qed
qed

text \<open>No three bytes in a row are \<open>0, 0, b\<close> with \<open>b\<close> at most 2: neither a start sequence nor the beginning of one.\<close>

fun start_free :: "bytes \<Rightarrow> bool" where
  "start_free (a # b # c # rest) = (\<not> (a = 0 \<and> b = 0 \<and> c \<le> 2) \<and> start_free (b # c # rest))"
| "start_free bs = True"

lemma start_free_skip: "a \<noteq> 0 \<Longrightarrow> start_free (a # r) = start_free r"
  by (cases r; cases "tl r") auto

lemma start_free_skip2: "b \<noteq> 0 \<Longrightarrow> start_free (a # b # r) = start_free r"
  by (cases r) (auto simp: start_free_skip)

lemma write_loop_start_free:
  assumes "z \<le> 2"
  shows "start_free (replicate z 0 @ write_rbsp_loop z bs)"
  using assms
proof (induction bs arbitrary: z)
  case Nil
  then consider "z = 0" | "z = 1" | "z = 2" by linarith
  then show ?case by cases (simp_all add: numeral_2_eq_2)
next
  case (Cons b bs)
  note IH0 = Cons.IH [of 0] and IH1 = Cons.IH [of 1] and IH2 = Cons.IH [of 2]
  from Cons.prems consider "z = 0" | "z = 1" | "z = 2" by linarith
  then show ?case
  proof cases
    case 1
    then show ?thesis using IH0 IH1 by (cases "b = 0") (simp_all add: start_free_skip)
  next
    case 2
    then show ?thesis using IH0 IH2 by (cases "b = 0") (simp_all add: start_free_skip2 numeral_2_eq_2)
  next
    case 3
    have "\<not> (3 :: u8) \<le> 2" "(3 :: u8) \<noteq> 0" by simp_all
    moreover have "\<not> b \<le> 2" if "\<not> b \<le> 3" using that order_trans [of b 2 3] by auto
    ultimately show ?thesis using 3 IH0 IH1
      by (cases "b \<le> 3"; cases "b = 0") (auto simp: start_free_skip start_free_skip2 numeral_2_eq_2)
  qed
qed

text \<open>C38: what \<open>WriteRbsp\<close> appends for a payload contains no start sequence, and \<open>ParseRbsp\<close> gives the payload back.\<close>

theorem rbsp_roundtrip:
  "\<exists>out. WriteRbsp data (length data) destination = Some (destination @ out) \<and> start_free out \<and>
     ParseRbsp out (length out) = Some data"
  using parse_write_loop [of 0 data] write_loop_start_free [of 0 data]
  by (simp add: WriteRbsp_def ParseRbsp_def get_bytes_def)

subsection \<open>Finding the units\<close>

definition nalu_at :: "bytes \<Rightarrow> nat \<Rightarrow> bool" where
  "nalu_at buffer i \<longleftrightarrow> buffer ! i = 0 \<and> buffer ! (i + 1) = 0 \<and> buffer ! (i + 2) = 1"

definition nalu_starts :: "bytes \<Rightarrow> nat list" where
  "nalu_starts buffer = filter (nalu_at buffer) [0..<length buffer - 3]"

text \<open>A unit starts a byte earlier when there is one more zero.\<close>

definition nalu_offset :: "bytes \<Rightarrow> nat \<Rightarrow> nat" where
  "nalu_offset buffer i = (if i > 0 \<and> buffer ! (i - 1) = 0 then i - 1 else i)"

fun nalu_units :: "bytes \<Rightarrow> nat list \<Rightarrow> nalu_index list" where
  "nalu_units buffer [] = []"
| "nalu_units buffer [i] =
     [\<lparr>start_offset = nalu_offset buffer i, payload_start_offset = i + 3, payload_size = length buffer - (i + 3)\<rparr>]"
| "nalu_units buffer (i # j # js) =
     \<lparr>start_offset = nalu_offset buffer i, payload_start_offset = i + 3,
      payload_size = nalu_offset buffer j - (i + 3)\<rparr> # nalu_units buffer (j # js)"

fun extend :: "bytes \<Rightarrow> nalu_index list \<Rightarrow> nat list \<Rightarrow> nalu_index list" where
  "extend buffer acc [] = acc"
| "extend buffer acc (j # js) =
     extend buffer (update_last acc (nalu_offset buffer j) @
       [\<lparr>start_offset = nalu_offset buffer j, payload_start_offset = j + 3, payload_size = 0\<rparr>]) js"

lemma filter_skip: "(\<And>k. i \<le> k \<Longrightarrow> k < j \<Longrightarrow> \<not> P k) \<Longrightarrow> filter P [i..<n] = filter P [j..<n]" if "i \<le> j"
proof (cases "j \<le> n")
  case True
  assume a: "\<And>k. i \<le> k \<Longrightarrow> k < j \<Longrightarrow> \<not> P k"
  have "[i..<n] = [i..<j] @ [j..<n]" using upt_add_eq_append [OF that, of "n - j"] True by simp
  moreover have "filter P [i..<j] = []" using a by (auto simp: filter_empty_conv)
  ultimately show ?thesis by simp
next
  case False
  assume a: "\<And>k. i \<le> k \<Longrightarrow> k < j \<Longrightarrow> \<not> P k"
  then have "filter P [i..<n] = []" using False by (auto simp: filter_empty_conv)
  then show ?thesis using False by simp
qed

lemma find_loop_reference:
  assumes "stop + 3 = length buffer"
  shows "find_nalu_loop buffer stop i acc = Some (extend buffer acc (filter (nalu_at buffer) [i..<stop]))"
  using assms
proof (induction buffer stop i acc rule: find_nalu_loop.induct)
  case (1 buffer stop i acc)
  show ?case
  proof (cases "i < stop")
    case True
    have g: "get_byte buffer (i + 2) = Some (buffer ! (i + 2))" "get_byte buffer (i + 1) = Some (buffer ! (i + 1))"
      "get_byte buffer i = Some (buffer ! i)" "get_byte buffer (i - 1) = Some (buffer ! (i - 1))"
      using True "1.prems" by (simp_all add: get_byte_def)
    have skip3: "filter (nalu_at buffer) [i + 1..<stop] = filter (nalu_at buffer) [i + 3..<stop]" if "buffer ! (i + 2) \<noteq> 0"
    proof (rule filter_skip)
      fix k assume "i + 1 \<le> k" "k < i + 3"
      then have "k = i + 1 \<or> k = i + 2" by auto
      then show "\<not> nalu_at buffer k" using that by (auto simp: nalu_at_def)
    qed simp
    have up: "filter (nalu_at buffer) [i..<stop] =
        (if nalu_at buffer i then i # filter (nalu_at buffer) [i + 1..<stop] else filter (nalu_at buffer) [i + 1..<stop])"
      using True by (simp add: upt_conv_Cons)
    consider "buffer ! (i + 2) > 1" | "\<not> buffer ! (i + 2) > 1" "nalu_at buffer i"
      | "\<not> buffer ! (i + 2) > 1" "\<not> nalu_at buffer i" by blast
    then show ?thesis
    proof cases
      case c: 1
      then have "\<not> nalu_at buffer i" "buffer ! (i + 2) \<noteq> 0" by (auto simp: nalu_at_def)
      then show ?thesis using True g c up skip3 "1.IH"(1) [OF True g(1) c "1.prems"]
        by (subst find_nalu_loop.simps) simp
    next
      case c: 2
      then have b: "buffer ! (i + 2) = 1 \<and> buffer ! (i + 1) = 0 \<and> buffer ! i = 0" by (simp add: nalu_at_def)
      define off where "off = nalu_offset buffer i"
      have o: "(if i > 0 then do { b \<leftarrow> get_byte buffer (i - 1); Some (if b = 0 then i - 1 else i) } else Some i) = Some off"
        using g(4) by (simp add: off_def nalu_offset_def)
      have "find_nalu_loop buffer stop i acc = find_nalu_loop buffer stop (i + 3)
          (update_last acc off @ [\<lparr>start_offset = off, payload_start_offset = i + 3, payload_size = 0\<rparr>])"
        using True g b o by (subst find_nalu_loop.simps) simp
      also have "\<dots> = Some (extend buffer (update_last acc off @
          [\<lparr>start_offset = off, payload_start_offset = i + 3, payload_size = 0\<rparr>]) (filter (nalu_at buffer) [i + 3..<stop]))"
        using "1.IH"(2) [OF True g(1) c(1) g(2,3) b o "1.prems"] .
      finally show ?thesis using c(2) up skip3 b by (simp add: off_def)
    next
      case c: 3
      then have b: "\<not> (buffer ! (i + 2) = 1 \<and> buffer ! (i + 1) = 0 \<and> buffer ! i = 0)" unfolding nalu_at_def by blast
      have "find_nalu_loop buffer stop i acc = find_nalu_loop buffer stop (i + 1) acc"
        using True g b c(1) by (subst find_nalu_loop.simps) auto
      then show ?thesis using "1.IH"(3) [OF True g(1) c(1) g(2,3) b "1.prems"] c(2) up by simp
    qed
  next
    case False
    then show ?thesis by (subst find_nalu_loop.simps) simp
  qed
qed

lemma offset_after:
  assumes "nalu_at buffer i" "nalu_at buffer j" "i < j"
  shows "i + 3 \<le> nalu_offset buffer j"
proof -
  have "j \<noteq> i + 1" "j \<noteq> i + 2" using assms by (auto simp: nalu_at_def)
  then have "i + 3 \<le> j" using assms(3) by linarith
  moreover have "buffer ! (j - 1) \<noteq> 0" if "j = i + 3" using assms(1) that by (simp add: nalu_at_def numeral_3_eq_3)
  ultimately show ?thesis by (cases "j = i + 3") (auto simp: nalu_offset_def)
qed

lemma extend_units:
  assumes "\<forall>k \<in> set (i # js). nalu_at buffer k \<and> k + 3 \<le> length buffer" "sorted_wrt (<) (i # js)"
  shows "update_last (extend buffer (xs @ [\<lparr>start_offset = nalu_offset buffer i, payload_start_offset = i + 3,
    payload_size = 0\<rparr>]) js) (length buffer) = xs @ nalu_units buffer (i # js)"
  using assms
proof (induction js arbitrary: i xs)
  case Nil
  then show ?case by (simp add: update_last_def size_t_sub_def)
next
  case (Cons j js)
  have "i + 3 \<le> nalu_offset buffer j" by (rule offset_after) (use Cons.prems in auto)
  then have "update_last (xs @ [\<lparr>start_offset = nalu_offset buffer i, payload_start_offset = i + 3, payload_size = 0\<rparr>])
      (nalu_offset buffer j) = xs @ [\<lparr>start_offset = nalu_offset buffer i, payload_start_offset = i + 3,
        payload_size = nalu_offset buffer j - (i + 3)\<rparr>]"
    by (simp add: update_last_def size_t_sub_def)
  then show ?case using Cons.IH [of j "xs @ [\<lparr>start_offset = nalu_offset buffer i, payload_start_offset = i + 3,
        payload_size = nalu_offset buffer j - (i + 3)\<rparr>]"] Cons.prems by simp
qed

text \<open>C39: \<open>FindNaluIndices\<close>, which skips three bytes where it can, finds exactly the positions of the bytes \<open>0, 0, 1\<close>
  that are followed by another byte. Each unit reaches to the start of the next one or to the end of the buffer; it reads no byte
  outside the buffer and no length wraps around.\<close>

theorem find_nalu_indices_reference:
  "FindNaluIndices buffer (length buffer) = Some (nalu_units buffer (nalu_starts buffer))"
proof (cases "length buffer < 3")
  case True
  then show ?thesis by (simp add: FindNaluIndices_def kNaluShortStartSequenceSize_def nalu_starts_def)
next
  case False
  let ?stop = "length buffer - 3"
  have f: "FindNaluIndices buffer (length buffer) = Some (update_last (extend buffer [] (nalu_starts buffer)) (length buffer))"
    using False find_loop_reference [of ?stop buffer 0 "[]"]
    by (simp add: FindNaluIndices_def kNaluShortStartSequenceSize_def nalu_starts_def)
  have s: "sorted_wrt (<) (nalu_starts buffer)" "\<forall>k \<in> set (nalu_starts buffer). nalu_at buffer k \<and> k + 3 \<le> length buffer"
    by (auto simp: nalu_starts_def sorted_wrt_filter)
  show ?thesis
  proof (cases "nalu_starts buffer")
    case Nil
    then show ?thesis using f by (simp add: update_last_def)
  next
    case (Cons i js)
    then show ?thesis using f s extend_units [of i js buffer "[]"] by (simp add: update_last_def)
  qed
qed

end
