(* ===== verification/Decoded_History.thy ===== *)
theory Decoded_History
  imports Rtc_Prelude "HOL-Library.Signed_Division" "HOL-Library.Code_Target_Nat"
begin

text \<open>
  Which frames have been decoded: class \<open>DecodedFramesHistory\<close> of
  \<open>src/src/myrtc/video/decoded_frames_history.{h,cc}\<close>. A cyclic vector of bits per spatial layer
  implements the set of the frames decoded in the last \<open>window_size\<close> picture ids.
\<close>

subsection \<open>The model\<close>

record layer_frame_id =
  picture_id :: int
  spatial_layer :: u8

record layer_history =
  lh_buffer :: "bool list"
  last_picture_id :: "int option"

record frames_history =
  window_size :: int
  layers :: "layer_history list"
  last_decoded_frame :: "layer_frame_id option"
  last_decoded_frame_timestamp :: "u32 option"

definition LayerHistory_init :: layer_history where
  "LayerHistory_init = \<lparr>lh_buffer = [], last_picture_id = None\<rparr>"

definition DecodedFramesHistory_init :: "int \<Rightarrow> frames_history" where
  "DecodedFramesHistory_init n =
     \<lparr>window_size = n, layers = [], last_decoded_frame = None, last_decoded_frame_timestamp = None\<rparr>"

text \<open>The remainder of the source takes the sign of the picture id.\<close>

definition PictureIdToIndex :: "frames_history \<Rightarrow> int \<Rightarrow> int option" where
  "PictureIdToIndex h frame_id =
     (if window_size h = 0 then None
      else let m = frame_id smod window_size h in Some (if m \<ge> 0 then m else m + window_size h))"

text \<open>\<open>std::fill\<close> between two positions of a vector.\<close>

definition fill :: "bool list \<Rightarrow> int \<Rightarrow> int \<Rightarrow> bool \<Rightarrow> bool list option" where
  "fill xs start until b =
     (if 0 \<le> start \<and> start \<le> until \<and> until \<le> int (length xs)
      then Some (take (nat start) xs @ replicate (nat (until - start)) b @ drop (nat until) xs) else None)"

definition set_bit_at :: "bool list \<Rightarrow> int \<Rightarrow> bool list option" where
  "set_bit_at xs i = (if 0 \<le> i \<and> i < int (length xs) then Some (xs[nat i := True]) else None)"

definition clear_expired :: "frames_history \<Rightarrow> layer_history \<Rightarrow> int \<Rightarrow> int \<Rightarrow> bool list option" where
  "clear_expired h history pid new_index =
     (case last_picture_id history of
        None \<Rightarrow> Some (lh_buffer history)
      | Some last_id \<Rightarrow> do {
          let buffer = lh_buffer history;
          id_jump \<leftarrow> i64 (pid - last_id);
          last_index \<leftarrow> PictureIdToIndex h last_id;
          if id_jump \<ge> window_size h then fill buffer 0 (int (length buffer)) False
          else if new_index > last_index then fill buffer (last_index + 1) new_index False
          else do {
            buffer \<leftarrow> fill buffer (last_index + 1) (int (length buffer)) False;
            fill buffer 0 new_index False } })"

definition InsertDecoded :: "frames_history \<Rightarrow> layer_frame_id \<Rightarrow> u32 \<Rightarrow> frames_history option" where
  "InsertDecoded h frameid timestamp =
     do { let h = h\<lparr>last_decoded_frame := Some frameid, last_decoded_frame_timestamp := Some timestamp\<rparr>;
          let layer = unat (spatial_layer frameid);
          let old_size = length (layers h);
          new_index \<leftarrow> PictureIdToIndex h (picture_id frameid);
          if old_size < layer + 1 then do {
            let fresh = LayerHistory_init\<lparr>lh_buffer := replicate (nat (window_size h)) False\<rparr>;
            let ls = layers h @ replicate (layer + 1 - old_size) fresh;
            buffer \<leftarrow> set_bit_at (lh_buffer (ls ! layer)) new_index;
            Some (h\<lparr>layers := ls[layer := \<lparr>lh_buffer = buffer, last_picture_id = Some (picture_id frameid)\<rparr>]\<rparr>) }
          else do {
            let history = layers h ! layer;
            dcheck (case last_picture_id history of None \<Rightarrow> True | Some n \<Rightarrow> n < picture_id frameid);
            buffer \<leftarrow> clear_expired h history (picture_id frameid) new_index;
            buffer \<leftarrow> set_bit_at buffer new_index;
            Some (h\<lparr>layers := (layers h)[layer := \<lparr>lh_buffer = buffer, last_picture_id = Some (picture_id frameid)\<rparr>]\<rparr>) } }"

definition WasDecoded :: "frames_history \<Rightarrow> layer_frame_id \<Rightarrow> bool option" where
  "WasDecoded h frameid =
     (let layer = unat (spatial_layer frameid)
      in if length (layers h) < layer + 1 then Some False
         else case last_picture_id (layers h ! layer) of
                None \<Rightarrow> Some False
              | Some last_id \<Rightarrow> do {
                  oldest \<leftarrow> i64 (last_id - window_size h);
                  if picture_id frameid \<le> oldest then Some False
                  else if picture_id frameid > last_id then Some False
                  else do {
                    i \<leftarrow> PictureIdToIndex h (picture_id frameid);
                    if i < int (length (lh_buffer (layers h ! layer)))
                    then Some (lh_buffer (layers h ! layer) ! nat i) else None } })"

definition DecodedFramesHistory_Clear :: "frames_history \<Rightarrow> frames_history" where
  "DecodedFramesHistory_Clear h =
     h\<lparr>layers := [], last_decoded_frame_timestamp := None, last_decoded_frame := None\<rparr>"

subsection \<open>Positions in the cyclic vector\<close>

lemma PictureIdToIndex_mod: "0 < window_size h \<Longrightarrow> PictureIdToIndex h k = Some (k mod window_size h)"
  unfolding PictureIdToIndex_def
proof -
  assume w: "0 < window_size h"
  let ?w = "window_size h"
  have "(if k smod ?w \<ge> 0 then k smod ?w else k smod ?w + ?w) = k mod ?w"
  proof (cases "0 \<le> k")
    case True
    then show ?thesis using w by (cases "k = 0") (simp_all add: signed_modulo_int_def)
  next
    case False
    define r where "r = (- k) mod ?w"
    have "k smod ?w = - r" using w False by (simp add: signed_modulo_int_def r_def)
    moreover have "k mod ?w = (if r = 0 then 0 else ?w - r)" using zmod_zminus1_eq_if [of "- k" ?w] by (simp add: r_def)
    moreover have "0 \<le> r" "r < ?w" using w by (simp_all add: r_def)
    ultimately show ?thesis by (cases "r = 0") simp_all
  qed
  then show "(if ?w = 0 then None else let m = k smod ?w in Some (if m \<ge> 0 then m else m + ?w)) = Some (k mod ?w)"
    using w by (simp add: Let_def)
qed

lemma mod_forward:
  fixes n d w :: int
  assumes "0 \<le> d" "d < w"
  shows "(n + d) mod w = (if n mod w + d < w then n mod w + d else n mod w + d - w)"
proof -
  define r where "r = n mod w"
  have r: "0 \<le> r" "r < w" using assms by (auto simp: r_def)
  have e: "(n + d) mod w = (r + d) mod w" unfolding r_def by (simp add: mod_add_left_eq)
  show ?thesis
  proof (cases "r + d < w")
    case True
    then show ?thesis unfolding e r_def [symmetric] using r assms by (simp add: mod_pos_pos_trivial)
  next
    case False
    have "(r + d) mod w = (r + d - w) mod w" by (rule minus_mod_self2 [symmetric])
    also have "\<dots> = r + d - w" by (rule mod_pos_pos_trivial) (use False r assms in linarith)+
    finally show ?thesis unfolding e r_def [symmetric] using False by simp
  qed
qed

lemma mod_backward:
  fixes n d w :: int
  assumes "0 \<le> d" "d < w"
  shows "(n - d) mod w = (if d \<le> n mod w then n mod w - d else n mod w - d + w)"
proof -
  define r where "r = n mod w"
  have r: "0 \<le> r" "r < w" using assms by (auto simp: r_def)
  have e: "(n - d) mod w = (r - d) mod w" unfolding r_def by (simp add: mod_diff_left_eq)
  show ?thesis
  proof (cases "d \<le> r")
    case True
    then show ?thesis unfolding e r_def [symmetric] using r assms by (simp add: mod_pos_pos_trivial)
  next
    case False
    have "(r - d) mod w = (r - d + w) mod w" by simp
    also have "\<dots> = r - d + w" by (rule mod_pos_pos_trivial) (use False r assms in linarith)+
    finally show ?thesis unfolding e r_def [symmetric] using False by simp
  qed
qed

lemma fill_nth:
  assumes "fill xs a b v = Some ys"
  shows "length ys = length xs" "i < length xs \<Longrightarrow> ys ! i = (if a \<le> int i \<and> int i < b then v else xs ! i)"
proof -
  have ab: "0 \<le> a" "a \<le> b" "b \<le> int (length xs)" and y: "ys = take (nat a) xs @ replicate (nat (b - a)) v @ drop (nat b) xs"
    using assms by (auto simp: fill_def split: if_splits)
  show "length ys = length xs" using ab y by (simp add: nat_diff_distrib)
  assume i: "i < length xs"
  show "ys ! i = (if a \<le> int i \<and> int i < b then v else xs ! i)"
    using ab i unfolding y by (auto simp: nth_append min_def nat_diff_distrib intro!: arg_cong [of _ _ "(!) xs"])
qed

subsection \<open>One layer\<close>

text \<open>The bits of the last \<open>w\<close> picture ids tell which of them are in the set.\<close>

definition layer_ok :: "int \<Rightarrow> int set \<Rightarrow> layer_history \<Rightarrow> bool" where
  "layer_ok w ids lh \<longleftrightarrow> int (length (lh_buffer lh)) = w \<and>
     (case last_picture_id lh of
        None \<Rightarrow> ids = {} \<and> (\<forall>i < length (lh_buffer lh). \<not> lh_buffer lh ! i)
      | Some n \<Rightarrow> n \<in> ids \<and> (\<forall>k \<in> ids. k \<le> n) \<and>
          (\<forall>k. n - w < k \<longrightarrow> k \<le> n \<longrightarrow> lh_buffer lh ! nat (k mod w) = (k \<in> ids)))"

text \<open>Picture ids are 64-bit numbers; those of a stream stay far from the ends, so that their differences
  are defined.\<close>

definition id_fits :: "int \<Rightarrow> bool" where "id_fits k \<longleftrightarrow> \<bar>k\<bar> < 2 ^ 62"

lemma id_fits_diff: "id_fits a \<Longrightarrow> id_fits b \<Longrightarrow> i64 (a - b) = Some (a - b)"
  by (auto simp: id_fits_def i64_def abs_less_iff)

lemma clear_expired_bits:
  assumes w: "0 < w" "window_size h = w" and ok: "layer_ok w ids lh"
    and new: "\<forall>k \<in> ids. k < p" and fits: "\<forall>k \<in> insert p ids. id_fits k"
  shows "\<exists>b. clear_expired h lh p (p mod w) = Some b \<and> int (length b) = w \<and>
    (\<forall>k. p - w < k \<longrightarrow> k < p \<longrightarrow> b ! nat (k mod w) = (k \<in> ids))"
proof (cases "last_picture_id lh")
  case None
  have m: "nat (k mod w) < length (lh_buffer lh)" for k using w(1) ok by (simp add: layer_ok_def nat_less_iff)
  then show ?thesis using ok None m by (simp add: clear_expired_def layer_ok_def)
next
  case (Some n)
  let ?b = "lh_buffer lh"
  have l: "int (length ?b) = w" "n \<in> ids" "\<forall>k \<in> ids. k \<le> n"
    and bits: "\<And>k. n - w < k \<Longrightarrow> k \<le> n \<Longrightarrow> ?b ! nat (k mod w) = (k \<in> ids)"
    using ok Some by (auto simp: layer_ok_def)
  have np: "n < p" using new l(2) by blast
  have m: "0 \<le> k mod w" "k mod w < w" "nat (k mod w) < length ?b" for k using w(1) l(1) by (auto simp: nat_less_iff)
  let ?a = "n mod w" and ?c = "p mod w"
  have "i64 (p - n) = Some (p - n)" using fits l(2) by (intro id_fits_diff) simp_all
  then have idx: "PictureIdToIndex h n = Some ?a" "i64 (p - n) = Some (p - n)"
    using PictureIdToIndex_mod [of h n] w by simp_all
  show ?thesis
  proof (cases "p - n \<ge> w")
    case True
    obtain b where b: "fill ?b 0 (int (length ?b)) False = Some b" by (simp add: fill_def)
    then have "\<not> b ! nat (k mod w)" for k using fill_nth(2) [OF b m(3)] m(1,2) l(1) by simp
    moreover have "k \<notin> ids" if "p - w < k" for k using that True l(3) by auto
    ultimately show ?thesis using b True Some idx w l(1) fill_nth(1) [OF b]
      by (intro exI [of _ b]) (simp add: clear_expired_def Let_def)
  next
    case False
    define d where "d = p - n"
    have d: "0 < d" "d < w" "p = n + d" using False np by (auto simp: d_def)
    have c: "?c = (if ?a + d < w then ?a + d else ?a + d - w)" using mod_forward [of d w n] d by simp
    have kept: "?b ! nat (k mod w) = (k \<in> ids)" if "p - w < k" "k \<le> n" for k using bits that np by simp
    have later: "k \<notin> ids" if "n < k" for k using that l(3) by auto
    have after: "k mod w = (if ?a + (k - n) < w then ?a + (k - n) else ?a + (k - n) - w)" if "n < k" "k < p" for k
      using mod_forward [of "k - n" w n] that d by simp
    have before: "k mod w = (if n - k \<le> ?a then ?a - (n - k) else ?a - (n - k) + w)" if "p - w < k" "k \<le> n" for k
      using mod_backward [of "n - k" w n] that d by simp
    show ?thesis
    proof (cases "?c > ?a")
      case True
      obtain b where b: "fill ?b (?a + 1) ?c False = Some b" using True m(1,2) [of n] m(1,2) [of p] l(1) by (simp add: fill_def)
      have "b ! nat (k mod w) = (k \<in> ids)" if k: "p - w < k" "k < p" for k
      proof (cases "n < k")
        case later': True
        then have "?a + 1 \<le> k mod w \<and> k mod w < ?c" using after [OF later' k(2)] c True d m(1,2) [of n] k by (auto split: if_splits)
        then show ?thesis using fill_nth(2) [OF b m(3)] m(1) later [OF later'] by simp
      next
        case False
        then have "\<not> (?a + 1 \<le> k mod w \<and> k mod w < ?c)" using before [of k] c True d m(1,2) [of n] k by (auto split: if_splits)
        then show ?thesis using fill_nth(2) [OF b m(3)] m(1) kept [of k] k False by auto
      qed
      then show ?thesis using b True False Some idx w l(1) fill_nth(1) [OF b]
        by (intro exI [of _ b]) (simp add: clear_expired_def Let_def)
    next
      case wrap: False
      obtain b1 where b1: "fill ?b (?a + 1) (int (length ?b)) False = Some b1" using m(1,2) [of n] l(1) by (simp add: fill_def)
      have l1: "length b1 = length ?b" by (rule fill_nth(1) [OF b1])
      obtain b where b: "fill b1 0 ?c False = Some b" using m(1,2) [of p] l(1) l1 by (simp add: fill_def)
      have bn: "b ! nat (k mod w) = (if k mod w < ?c \<or> ?a + 1 \<le> k mod w then False else ?b ! nat (k mod w))" for k
        using fill_nth(2) [OF b, of "nat (k mod w)"] fill_nth(2) [OF b1 m(3)] m [of k] l1 l(1) by auto
      have "b ! nat (k mod w) = (k \<in> ids)" if k: "p - w < k" "k < p" for k
      proof (cases "n < k")
        case later': True
        then have "k mod w < ?c \<or> ?a + 1 \<le> k mod w" using after [OF later' k(2)] c wrap d k by (auto split: if_splits)
        then show ?thesis using bn later [OF later'] by auto
      next
        case False
        then have "\<not> (k mod w < ?c \<or> ?a + 1 \<le> k mod w)" using before [of k] c wrap d m(1,2) [of n] k by (auto split: if_splits)
        then show ?thesis using bn [of k] kept [of k] k False by auto
      qed
      then show ?thesis using b1 b wrap False Some idx w l(1) l1 fill_nth(1) [OF b]
        by (intro exI [of _ b]) (simp add: clear_expired_def Let_def)
    qed
  qed
qed

lemma set_bit_layer:
  assumes w: "0 < w" and b: "int (length b) = w" "\<forall>k. p - w < k \<longrightarrow> k < p \<longrightarrow> b ! nat (k mod w) = (k \<in> ids)"
    and new: "\<forall>k \<in> ids. k < p"
  shows "\<exists>b'. set_bit_at b (p mod w) = Some b' \<and> layer_ok w (insert p ids) \<lparr>lh_buffer = b', last_picture_id = Some p\<rparr>"
proof -
  have m: "0 \<le> k mod w" "k mod w < w" for k using w by auto
  have "b[nat (p mod w) := True] ! nat (k mod w) = (k \<in> insert p ids)" if k: "p - w < k" "k \<le> p" for k
  proof (cases "k = p")
    case True
    then show ?thesis using b(1) m(2) [of p] m(1) [of p] by (simp add: nat_less_iff)
  next
    case False
    then have "0 < p - k" "p - k < w" using k by auto
    then have "p mod w \<noteq> k mod w" using mod_forward [of "p - k" w k] m(1,2) [of k] by (auto split: if_splits)
    then have "nat (p mod w) \<noteq> nat (k mod w)" using m(1) [of p] m(1) [of k] by (simp add: eq_nat_nat_iff)
    then show ?thesis using b(2) k False by simp
  qed
  then show ?thesis using b(1) m new by (auto simp: set_bit_at_def layer_ok_def)
qed

subsection \<open>The history\<close>

definition ids_of :: "layer_frame_id list \<Rightarrow> nat \<Rightarrow> int set" where
  "ids_of fs l = picture_id ` {f \<in> set fs. unat (spatial_layer f) = l}"

definition decoded_ok :: "int \<Rightarrow> frames_history \<Rightarrow> layer_frame_id list \<Rightarrow> bool" where
  "decoded_ok w h fs \<longleftrightarrow> window_size h = w \<and> id_fits w \<and>
     (\<forall>f \<in> set fs. unat (spatial_layer f) < length (layers h) \<and> id_fits (picture_id f)) \<and>
     (\<forall>l < length (layers h). layer_ok w (ids_of fs l) (layers h ! l))"

inductive decoded_reach :: "int \<Rightarrow> frames_history \<Rightarrow> layer_frame_id list \<Rightarrow> bool" for w where
  start: "decoded_reach w (DecodedFramesHistory_init w) []"
| insert: "decoded_reach w h fs \<Longrightarrow> id_fits (picture_id f) \<Longrightarrow> InsertDecoded h f ts = Some h' \<Longrightarrow> decoded_reach w h' (f # fs)"
| clear: "decoded_reach w h fs \<Longrightarrow> decoded_reach w (DecodedFramesHistory_Clear h) []"

lemma ids_of_Cons: "ids_of (f # fs) l = (if unat (spatial_layer f) = l then insert (picture_id f) (ids_of fs l) else ids_of fs l)"
  by (auto simp: ids_of_def)

lemma InsertDecoded_new_layer:
  assumes "0 < w" "decoded_ok w h fs" "length (layers h) < unat (spatial_layer f) + 1" "id_fits (picture_id f)"
  shows "\<exists>h'. InsertDecoded h f ts = Some h' \<and> decoded_ok w h' (f # fs)"
proof -
  let ?l = "unat (spatial_layer f)" and ?p = "picture_id f"
  let ?fresh = "LayerHistory_init\<lparr>lh_buffer := replicate (nat w) False\<rparr>"
  let ?ls = "layers h @ replicate (?l + 1 - length (layers h)) ?fresh"
  have wh: "window_size h = w" using assms(2) by (simp add: decoded_ok_def)
  have none: "ids_of fs l = {}" if "length (layers h) \<le> l" for l using assms(2) that by (auto simp: decoded_ok_def ids_of_def)
  have n: "?ls ! ?l = ?fresh" using assms(3) by (simp add: nth_append)
  have m: "nat (k mod w) < nat w" for k using assms(1) by simp
  have "\<exists>b'. set_bit_at (replicate (nat w) False) (?p mod w) = Some b' \<and>
      layer_ok w (insert ?p {}) \<lparr>lh_buffer = b', last_picture_id = Some ?p\<rparr>"
    by (rule set_bit_layer [OF assms(1)]) (use assms(1) m in simp_all)
  then obtain b where b: "set_bit_at (replicate (nat w) False) (?p mod w) = Some b"
    "layer_ok w {?p} \<lparr>lh_buffer = b, last_picture_id = Some ?p\<rparr>" by auto
  let ?new = "?ls[?l := \<lparr>lh_buffer = b, last_picture_id = Some ?p\<rparr>]"
  have "InsertDecoded h f ts = Some (h\<lparr>last_decoded_frame := Some f, last_decoded_frame_timestamp := Some ts, layers := ?new\<rparr>)"
    using assms(1,3) wh n b(1) PictureIdToIndex_mod
      [of "h\<lparr>last_decoded_frame := Some f, last_decoded_frame_timestamp := Some ts\<rparr>" ?p]
    by (simp add: InsertDecoded_def Let_def)
  moreover have "layer_ok w (ids_of (f # fs) l) (?new ! l)" if l: "l < ?l + 1" for l
  proof (cases "l = ?l")
    case True
    then show ?thesis using b(2) none [of ?l] assms(3) by (simp add: ids_of_Cons)
  next
    case False
    then show ?thesis using l assms none [of l]
      by (auto simp: ids_of_Cons nth_append decoded_ok_def layer_ok_def LayerHistory_init_def)
  qed
  ultimately show ?thesis using wh assms(2,3,4) by (auto simp: decoded_ok_def)
qed

lemma InsertDecoded_old_layer:
  assumes "0 < w" "decoded_ok w h fs" "unat (spatial_layer f) < length (layers h)" "id_fits (picture_id f)"
    and new: "\<forall>k \<in> ids_of fs (unat (spatial_layer f)). k < picture_id f"
  shows "\<exists>h'. InsertDecoded h f ts = Some h' \<and> decoded_ok w h' (f # fs)"
proof -
  let ?l = "unat (spatial_layer f)" and ?p = "picture_id f"
  let ?h = "h\<lparr>last_decoded_frame := Some f, last_decoded_frame_timestamp := Some ts\<rparr>"
  have wh: "window_size h = w" and ok: "layer_ok w (ids_of fs ?l) (layers h ! ?l)"
    using assms(2,3) by (simp_all add: decoded_ok_def)
  have fits: "\<forall>k \<in> insert ?p (ids_of fs ?l). id_fits k" using assms(2,4) by (auto simp: decoded_ok_def ids_of_def)
  obtain b where b: "clear_expired ?h (layers h ! ?l) ?p (?p mod w) = Some b" "int (length b) = w"
    "\<forall>k. ?p - w < k \<longrightarrow> k < ?p \<longrightarrow> b ! nat (k mod w) = (k \<in> ids_of fs ?l)"
    using clear_expired_bits [OF assms(1) _ ok new fits, of ?h] wh by auto
  obtain b' where b': "set_bit_at b (?p mod w) = Some b'"
    "layer_ok w (insert ?p (ids_of fs ?l)) \<lparr>lh_buffer = b', last_picture_id = Some ?p\<rparr>"
    using set_bit_layer [OF assms(1) b(2,3) new] by blast
  have c: "case last_picture_id (layers h ! ?l) of None \<Rightarrow> True | Some n \<Rightarrow> n < ?p"
    using ok new by (auto simp: layer_ok_def split: option.splits)
  have "InsertDecoded h f ts = Some (?h\<lparr>layers := (layers h)[?l := \<lparr>lh_buffer = b', last_picture_id = Some ?p\<rparr>]\<rparr>)"
    using assms(1,3) wh c b(1) b'(1) PictureIdToIndex_mod [of ?h ?p] by (simp add: InsertDecoded_def Let_def)
  moreover have "layer_ok w (ids_of (f # fs) l) ((layers h)[?l := \<lparr>lh_buffer = b', last_picture_id = Some ?p\<rparr>] ! l)"
    if "l < length (layers h)" for l
    using that b'(2) assms(2) by (cases "l = ?l") (auto simp: ids_of_Cons decoded_ok_def)
  ultimately show ?thesis using wh assms(2,3,4) by (auto simp: decoded_ok_def)
qed

lemma InsertDecoded_increasing:
  assumes "0 < w" "decoded_ok w h fs" "InsertDecoded h f ts = Some h'"
  shows "\<forall>k \<in> ids_of fs (unat (spatial_layer f)). k < picture_id f"
proof (cases "unat (spatial_layer f) < length (layers h)")
  case True
  then have ok: "layer_ok w (ids_of fs (unat (spatial_layer f))) (layers h ! unat (spatial_layer f))"
    using assms(2) by (simp add: decoded_ok_def)
  have "case last_picture_id (layers h ! unat (spatial_layer f)) of None \<Rightarrow> True | Some n \<Rightarrow> n < picture_id f"
    using assms(3) True by (auto simp: InsertDecoded_def Let_def bind_eq_Some_conv dcheck_def split: if_splits)
  then show ?thesis using ok by (fastforce simp: layer_ok_def split: option.splits)
next
  case False
  then show ?thesis using assms(2) by (auto simp: decoded_ok_def ids_of_def)
qed

lemma InsertDecoded_ok:
  assumes "0 < w" "decoded_ok w h fs" "id_fits (picture_id f)"
    and "\<forall>k \<in> ids_of fs (unat (spatial_layer f)). k < picture_id f"
  shows "\<exists>h'. InsertDecoded h f ts = Some h' \<and> decoded_ok w h' (f # fs)"
  using InsertDecoded_new_layer [OF assms(1,2) _ assms(3), of ts] InsertDecoded_old_layer [OF assms(1,2) _ assms(3,4), of ts]
  by (cases "unat (spatial_layer f) < length (layers h)") simp_all

lemma decoded_reach_ok: "decoded_reach w h fs \<Longrightarrow> 0 < w \<Longrightarrow> id_fits w \<Longrightarrow> decoded_ok w h fs"
proof (induction rule: decoded_reach.induct)
  case (insert h fs f ts h')
  then have "decoded_ok w h fs" by simp
  then show ?case using InsertDecoded_ok [OF insert.prems(1), of h fs f ts]
      InsertDecoded_increasing [OF insert.prems(1), of h fs f ts h'] insert.hyps(2,3) by auto
qed (auto simp: decoded_ok_def DecodedFramesHistory_init_def DecodedFramesHistory_Clear_def)

lemma WasDecoded_ids:
  assumes "0 < w" "decoded_ok w h fs"
  defines "l f \<equiv> unat (spatial_layer f)"
  shows "WasDecoded h f = Some (picture_id f \<in> ids_of fs (l f) \<and> (\<forall>k \<in> ids_of fs (l f). k < picture_id f + w))"
proof (cases "l f < length (layers h)")
  case True
  then have ok: "layer_ok w (ids_of fs (l f)) (layers h ! l f)" and wh: "window_size h = w" using assms(2) by (simp_all add: decoded_ok_def)
  have m: "picture_id f mod w < w" using assms(1) by simp
  show ?thesis
  proof (cases "last_picture_id (layers h ! l f)")
    case None
    then show ?thesis using True ok by (simp add: WasDecoded_def Let_def l_def layer_ok_def)
  next
    case (Some n)
    have o: "n \<in> ids_of fs (l f)" "\<forall>k \<in> ids_of fs (l f). k \<le> n" "int (length (lh_buffer (layers h ! l f))) = w"
      "\<And>k. n - w < k \<Longrightarrow> k \<le> n \<Longrightarrow> lh_buffer (layers h ! l f) ! nat (k mod w) = (k \<in> ids_of fs (l f))"
      using ok Some by (auto simp: layer_ok_def)
    have "i64 (n - w) = Some (n - w)" using assms(2) o(1) by (intro id_fits_diff) (auto simp: decoded_ok_def ids_of_def)
    then have "WasDecoded h f = (if picture_id f \<le> n - w then Some False else if picture_id f > n then Some False
        else Some (lh_buffer (layers h ! l f) ! nat (picture_id f mod w)))"
      using True Some wh o(3) m assms(1) PictureIdToIndex_mod [of h "picture_id f"] by (simp add: WasDecoded_def Let_def l_def)
    moreover have "(\<forall>k \<in> ids_of fs (l f). k < picture_id f + w) \<longleftrightarrow> n - w < picture_id f"
    proof
      assume "\<forall>k \<in> ids_of fs (l f). k < picture_id f + w"
      with o(1) show "n - w < picture_id f" by force
    next
      assume "n - w < picture_id f"
      with o(2) show "\<forall>k \<in> ids_of fs (l f). k < picture_id f + w" by force
    qed
    moreover have "picture_id f \<notin> ids_of fs (l f)" if "n < picture_id f" using o(2) that by force
    ultimately show ?thesis using o(4) [of "picture_id f"] by auto
  qed
next
  case False
  then have "ids_of fs (l f) = {}" using assms(2) by (auto simp: decoded_ok_def ids_of_def l_def)
  then show ?thesis using False by (simp add: WasDecoded_def Let_def l_def)
qed

lemma layer_inject: "unat a = unat b \<longleftrightarrow> a = b" for a b :: u8
  using unsigned_word_eqI [of a b, where ?'a = nat] by auto

lemma ids_of_same_layer: "picture_id f \<in> ids_of fs (unat (spatial_layer f)) \<longleftrightarrow> f \<in> set fs"
proof
  assume "picture_id f \<in> ids_of fs (unat (spatial_layer f))"
  then obtain g where "g \<in> set fs" "unat (spatial_layer g) = unat (spatial_layer f)" "picture_id g = picture_id f"
    by (auto simp: ids_of_def)
  moreover from this have "spatial_layer g = spatial_layer f" by (simp add: layer_inject)
  ultimately have "g = f" by (intro layer_frame_id.equality) simp_all
  with \<open>g \<in> set fs\<close> show "f \<in> set fs" by simp
qed (auto simp: ids_of_def)

text \<open>C40: the cyclic bit vectors implement the set of decoded frames. After any sequence of operations \<open>WasDecoded\<close>
  is true of exactly the frames inserted since the last \<open>Clear\<close> whose picture id is less than
  \<open>window_size\<close> behind every one of their layer, and \<open>InsertDecoded\<close> returns exactly for picture ids that
  increase strictly within the layer: an equal one fails its check, although the comment in the header file allows
  it. The window is the \<open>int\<close> of the class, picture ids keep clear of the ends of
  \<open>int64_t\<close>.\<close>

theorem decoded_history_refines:
  assumes "decoded_reach w h fs" "0 < w" "w < 2 ^ 31" "\<bar>picture_id f\<bar> < 2 ^ 62"
  shows "WasDecoded h f = Some (f \<in> set fs \<and>
      (\<forall>g \<in> set fs. spatial_layer g = spatial_layer f \<longrightarrow> picture_id g < picture_id f + w)) \<and>
    ((\<exists>h'. InsertDecoded h f ts = Some h') \<longleftrightarrow>
      (\<forall>g \<in> set fs. spatial_layer g = spatial_layer f \<longrightarrow> picture_id g < picture_id f))"
proof -
  have ok: "decoded_ok w h fs" using assms(2,3) by (intro decoded_reach_ok [OF assms(1)]) (auto simp: id_fits_def)
  have fits: "id_fits (picture_id f)" using assms(4) by (simp add: id_fits_def)
  have all: "(\<forall>k \<in> ids_of fs (unat (spatial_layer f)). P k) \<longleftrightarrow>
      (\<forall>g \<in> set fs. spatial_layer g = spatial_layer f \<longrightarrow> P (picture_id g))" for P
    by (auto simp: ids_of_def layer_inject)
  have "(\<exists>h'. InsertDecoded h f ts = Some h') \<longleftrightarrow> (\<forall>k \<in> ids_of fs (unat (spatial_layer f)). k < picture_id f)"
    using InsertDecoded_ok [OF assms(2) ok fits, of ts] InsertDecoded_increasing [OF assms(2) ok, of f ts] by blast
  then show ?thesis using WasDecoded_ids [OF assms(2) ok, of f] ids_of_same_layer [of f fs] unfolding all by simp
qed

definition example_frame :: "int \<Rightarrow> layer_frame_id" where
  "example_frame p = \<lparr>picture_id = p, spatial_layer = 0\<rparr>"

definition example_history :: frames_history where
  "example_history = the (InsertDecoded (the (InsertDecoded (DecodedFramesHistory_init 4) (example_frame 3) 7)) (example_frame 6) 8)"

theorem decoded_history_refines_witness:
  "WasDecoded example_history (example_frame 3) = Some True \<and> WasDecoded example_history (example_frame 5) = Some False \<and>
     InsertDecoded example_history (example_frame 6) 9 = None"
proof -
  let ?h = "the (InsertDecoded (DecodedFramesHistory_init 4) (example_frame 3) 7)"
  have "decoded_reach 4 ?h [example_frame 3]"
  proof (rule decoded_reach.insert [OF decoded_reach.start])
    show "InsertDecoded (DecodedFramesHistory_init 4) (example_frame 3) 7 = Some ?h" by code_simp
    show "id_fits (picture_id (example_frame 3))" by code_simp
  qed
  then have r: "decoded_reach 4 example_history [example_frame 6, example_frame 3]"
  proof (rule decoded_reach.insert)
    show "InsertDecoded ?h (example_frame 6) 8 = Some example_history" by code_simp
    show "id_fits (picture_id (example_frame 6))" by code_simp
  qed
  note spec = decoded_history_refines [OF r]
  show ?thesis using spec [of "example_frame 3"] spec [of "example_frame 5"] spec [of "example_frame 6" 9]
    by (auto simp: example_frame_def)
qed

end
