(* ===== verification/Remote_Proxy.thy ===== *)
theory Remote_Proxy
  imports Feedback_Wire "HOL-Library.Code_Target_Nat"
begin

text \<open>
  The receiver's side of transport-wide congestion control: class \<open>RemoteEstimatorProxy\<close> of
  \<open>src/src/myrtc/remote_bitrate_estimator/remote_estimator_proxy.{h,cc}\<close>. It records when packets arrive and
  sends \<open>TransportFeedback\<close> messages about them, periodically or on request.

  The arrival times are a \<open>std::map\<close>: a list of pairs in the order of the keys, in which an iterator is the list
  that starts at it. What the object sends is a result of the operation that sends it. The feedback sender is never
  null. The network state estimator is not part of the repository: its presence is a field, the estimate it returns
  an argument of \<open>Process\<close>, of any type. Unwrapped sequence numbers and times are integers.
\<close>

subsection \<open>The model\<close>

definition kMaxNumberOfPackets :: int where "kMaxNumberOfPackets = 2 ^ 15"
definition kMaxTimeMs :: int where "kMaxTimeMs = (2 ^ 63 - 1) div 1000"
definition kAbsSendTimeFraction :: nat where "kAbsSendTimeFraction = 18"

type_synonym arrival_map = "(int \<times> int) list"

record feedback_request =
  request_include_timestamps :: bool
  sequence_count :: int

record rtp_header_extension =
  hasAbsoluteSendTime :: bool
  absoluteSendTime :: u32
  hasTransportSequenceNumber :: bool
  transportSequenceNumber :: u16
  ext_feedback_request :: "feedback_request option"

record rtp_header =
  hdr_ssrc :: u32
  headerLength :: nat
  extension :: rtp_header_extension

record feedback_config =
  back_window_ms :: int
  min_interval_ms :: int
  max_interval_ms :: int
  default_interval_ms :: int

record packet_result =
  receive_time :: int
  send_time :: int
  pr_size :: nat
  pr_sequence_number :: int

record estimator_proxy =
  send_config :: feedback_config
  last_process_time_ms :: int
  has_estimator :: bool
  proxy_media_ssrc :: u32
  feedback_packet_count :: u8
  proxy_unwrapper :: "u16 seq_num_unwrapper"
  periodic_window_start_seq :: "int option"
  packet_arrival_times :: arrival_map
  send_interval_ms :: int
  send_periodic_feedback :: bool
  previous_abs_send_time :: u32
  abs_send_timestamp :: int

definition RemoteEstimatorProxy_init :: "feedback_config \<Rightarrow> bool \<Rightarrow> int \<Rightarrow> estimator_proxy" where
  "RemoteEstimatorProxy_init config estimator now =
     \<lparr>send_config = config, last_process_time_ms = -1, has_estimator = estimator, proxy_media_ssrc = 0,
      feedback_packet_count = 0, proxy_unwrapper = SeqNumUnwrapper_init, periodic_window_start_seq = None,
      packet_arrival_times = [], send_interval_ms = default_interval_ms config, send_periodic_feedback = True,
      previous_abs_send_time = 0, abs_send_timestamp = now\<rparr>"

text \<open>The operations of the map.\<close>

definition arrivals_from :: "arrival_map \<Rightarrow> int \<Rightarrow> arrival_map" where
  "arrivals_from m k = dropWhile (\<lambda>a. fst a < k) m"

definition put_arrival :: "arrival_map \<Rightarrow> int \<Rightarrow> int \<Rightarrow> arrival_map" where
  "put_arrival m k t = takeWhile (\<lambda>a. fst a < k) m @ (k, t) # arrivals_from m k"

text \<open>The loop of \<open>BuildFeedbackPacket\<close>; \<open>first\<close> tells that \<open>it\<close> is still \<open>begin_iterator\<close>.\<close>

fun add_arrivals ::
  "bool \<Rightarrow> transport_feedback \<Rightarrow> int \<Rightarrow> arrival_map \<Rightarrow> (transport_feedback \<times> int) option" where
  "add_arrivals first tf next_sequence_number [] = Some (tf, next_sequence_number)"
| "add_arrivals first tf next_sequence_number ((seq, t) # arrivals) =
     do { (tf, ok) \<leftarrow> AddReceivedPacket tf (of_int seq) (t * 1000);
          if ok then add_arrivals False tf (seq + 1) arrivals
          else do { dcheck (\<not> first); Some (tf, next_sequence_number) } }"

definition BuildFeedbackPacket ::
  "u8 \<Rightarrow> u32 \<Rightarrow> int \<Rightarrow> arrival_map \<Rightarrow> transport_feedback \<Rightarrow> (transport_feedback \<times> int) option" where
  "BuildFeedbackPacket count ssrc base_sequence_number arrivals feedback_packet =
     do { dcheck (arrivals \<noteq> []);
          let tf = feedback_packet\<lparr>media_ssrc := ssrc\<rparr>;
          tf \<leftarrow> SetBase tf (of_int base_sequence_number) (snd (hd arrivals) * 1000);
          let tf = SetFeedbackSequenceNumber tf count;
          add_arrivals True tf base_sequence_number arrivals }"

text \<open>The loop of \<open>SendPeriodicFeedbacks\<close>. Each message sent is a feedback packet, the first one behind the
  estimate, if there is one.\<close>

partial_function (option) send_feedbacks ::
  "estimator_proxy \<Rightarrow> 'e option \<Rightarrow> (estimator_proxy \<times> ('e option \<times> transport_feedback) list) option" where
  "send_feedbacks p estimate =
     do { start \<leftarrow> periodic_window_start_seq p;
          let arrivals = arrivals_from (packet_arrival_times p) start;
          if arrivals = [] then Some (p, [])
          else do {
            (tf, next_start) \<leftarrow> BuildFeedbackPacket (feedback_packet_count p) (proxy_media_ssrc p) start arrivals
              (TransportFeedback_init True False);
            (p, sent) \<leftarrow> send_feedbacks (p\<lparr>feedback_packet_count := feedback_packet_count p + 1,
              periodic_window_start_seq := Some next_start\<rparr>) None;
            Some (p, (estimate, tf) # sent) } }"

declare send_feedbacks.simps [code]

definition SendPeriodicFeedbacks ::
  "estimator_proxy \<Rightarrow> 'e option \<Rightarrow> (estimator_proxy \<times> ('e option \<times> transport_feedback) list) option" where
  "SendPeriodicFeedbacks p current_estimate =
     (if periodic_window_start_seq p = None then Some (p, [])
      else send_feedbacks p (if has_estimator p then current_estimate else None))"

definition SendFeedbackOnRequest ::
  "estimator_proxy \<Rightarrow> int \<Rightarrow> feedback_request \<Rightarrow> (estimator_proxy \<times> transport_feedback list) option" where
  "SendFeedbackOnRequest p seq request =
     (if sequence_count request = 0 then Some (p, [])
      else do {
        let first_seq = seq - sequence_count request + 1;
        let rest = arrivals_from (packet_arrival_times p) first_seq;
        (tf, _) \<leftarrow> BuildFeedbackPacket (feedback_packet_count p) (proxy_media_ssrc p) first_seq
          (takeWhile (\<lambda>a. fst a \<le> seq) rest)
          (TransportFeedback_init (request_include_timestamps request) False);
        Some (p\<lparr>feedback_packet_count := feedback_packet_count p + 1, packet_arrival_times := rest\<rparr>, [tf]) })"

text \<open>What \<open>IncomingPacket\<close> does before it looks for the packet: cull what is old when a new feedback
  packet starts, and move the start of the window back.\<close>

definition start_window :: "estimator_proxy \<Rightarrow> int \<Rightarrow> int \<Rightarrow> estimator_proxy" where
  "start_window p arrival_time_ms seq =
     (if send_periodic_feedback p then
        let p = (case periodic_window_start_seq p of
                   None \<Rightarrow> p
                 | Some start \<Rightarrow>
                     if arrivals_from (packet_arrival_times p) start = []
                     then p\<lparr>packet_arrival_times :=
                       dropWhile (\<lambda>a. fst a < seq \<and> arrival_time_ms - snd a \<ge> back_window_ms (send_config p))
                         (packet_arrival_times p)\<rparr>
                     else p)
        in if (case periodic_window_start_seq p of None \<Rightarrow> True | Some start \<Rightarrow> seq < start)
           then p\<lparr>periodic_window_start_seq := Some seq\<rparr> else p
      else p)"

text \<open>What it does for a packet that is not in the map: insert it and limit the range of the numbers.\<close>

definition add_arrival :: "estimator_proxy \<Rightarrow> int \<Rightarrow> int \<Rightarrow> estimator_proxy" where
  "add_arrival p arrival_time_ms seq =
     (let arrivals = put_arrival (packet_arrival_times p) seq arrival_time_ms;
          kept = arrivals_from arrivals (fst (last arrivals) - kMaxNumberOfPackets);
          p = p\<lparr>packet_arrival_times := kept\<rparr>
      in if length kept < length arrivals \<and> send_periodic_feedback p
         then p\<lparr>periodic_window_start_seq := Some (fst (hd kept))\<rparr> else p)"

definition GetAbsoluteSendTimeDelta :: "rtp_header_extension \<Rightarrow> u32 \<Rightarrow> int option" where
  "GetAbsoluteSendTimeDelta ext previous_sendtime =
     do { dcheck (hasAbsoluteSendTime ext);
          dcheck (absoluteSendTime ext < 2 ^ 24);
          dcheck (previous_sendtime < 2 ^ 24);
          let delta = sint (signed_drop_bit 8 (push_bit 8 (absoluteSendTime ext - previous_sendtime)));
          Some ((delta * 1000000) sdiv 2 ^ kAbsSendTimeFraction) }"

text \<open>What it tells the network state estimator.\<close>

definition notify_estimator ::
  "estimator_proxy \<Rightarrow> int \<Rightarrow> nat \<Rightarrow> rtp_header \<Rightarrow> int \<Rightarrow> (estimator_proxy \<times> packet_result option) option" where
  "notify_estimator p arrival_time_ms payload_size header seq =
     (if has_estimator p \<and> hasAbsoluteSendTime (extension header) then do {
        delta \<leftarrow> GetAbsoluteSendTimeDelta (extension header) (previous_abs_send_time p);
        let p = p\<lparr>abs_send_timestamp := abs_send_timestamp p + max delta 0,
                 previous_abs_send_time := absoluteSendTime (extension header)\<rparr>;
        Some (p, Some \<lparr>receive_time = arrival_time_ms * 1000, send_time = abs_send_timestamp p,
                       pr_size = headerLength header + payload_size, pr_sequence_number = seq\<rparr>) }
      else Some (p, None))"

definition IncomingPacket ::
  "estimator_proxy \<Rightarrow> int \<Rightarrow> nat \<Rightarrow> rtp_header \<Rightarrow>
   (estimator_proxy \<times> transport_feedback list \<times> packet_result option) option" where
  "IncomingPacket p arrival_time_ms payload_size header =
     (if arrival_time_ms < 0 \<or> arrival_time_ms > kMaxTimeMs then Some (p, [], None)
      else
        let p = p\<lparr>proxy_media_ssrc := hdr_ssrc header\<rparr>;
            ext = extension header
        in if hasTransportSequenceNumber ext then
             let (unwrapper, seq) = SeqNumUnwrapper_Unwrap (proxy_unwrapper p) (transportSequenceNumber ext);
                 p = start_window (p\<lparr>proxy_unwrapper := unwrapper\<rparr>) arrival_time_ms seq
             in if list_ex (\<lambda>a. fst a = seq) (packet_arrival_times p) then Some (p, [], None)
                else do {
                  let p = add_arrival p arrival_time_ms seq;
                  (p, sent) \<leftarrow> (case ext_feedback_request ext of
                     None \<Rightarrow> Some (p, [])
                   | Some request \<Rightarrow> SendFeedbackOnRequest p seq request);
                  (p, result) \<leftarrow> notify_estimator p arrival_time_ms payload_size header seq;
                  Some (p, sent, result) }
           else do {
             (p, result) \<leftarrow> notify_estimator p arrival_time_ms payload_size header 0;
             Some (p, [], result) })"

definition Proxy_TimeUntilNextProcess :: "estimator_proxy \<Rightarrow> int \<Rightarrow> int" where
  "Proxy_TimeUntilNextProcess p now =
     (if \<not> send_periodic_feedback p then 24 * 60 * 60 * 1000
      else if last_process_time_ms p \<noteq> -1 \<and> now - last_process_time_ms p < send_interval_ms p
      then last_process_time_ms p + send_interval_ms p - now
      else 0)"

definition Proxy_Process ::
  "estimator_proxy \<Rightarrow> int \<Rightarrow> 'e option \<Rightarrow> (estimator_proxy \<times> ('e option \<times> transport_feedback) list) option" where
  "Proxy_Process p now current_estimate =
     (if \<not> send_periodic_feedback p then Some (p, [])
      else SendPeriodicFeedbacks (p\<lparr>last_process_time_ms := now\<rparr>) current_estimate)"

text \<open>The interval is a quotient of two \<open>double\<close>s; the function that computes it is an argument.\<close>

definition OnBitrateChanged :: "(feedback_config \<Rightarrow> int \<Rightarrow> int) \<Rightarrow> estimator_proxy \<Rightarrow> int \<Rightarrow> estimator_proxy" where
  "OnBitrateChanged interval_for p bitrate_bps = p\<lparr>send_interval_ms := interval_for (send_config p) bitrate_bps\<rparr>"

definition SetSendPeriodicFeedback :: "estimator_proxy \<Rightarrow> bool \<Rightarrow> estimator_proxy" where
  "SetSendPeriodicFeedback p on = p\<lparr>send_periodic_feedback := on\<rparr>"

end
