(* ===== verification/Proxy_Feedback.thy ===== *)
theory Proxy_Feedback
  imports Remote_Proxy
begin

text \<open>
  The messages the proxy builds: a fresh message takes its first packet when the packet follows the base number, a
  message reports a prefix of the arrivals it is given, and the loop of \<open>SendPeriodicFeedbacks\<close> reports all of them.
\<close>

subsection \<open>Room in a message\<close>

lemma AddDeltaSize_size: "AddDeltaSize tf d = Some (tf', True) \<Longrightarrow> size_bytes tf' \<le> size_bytes tf + 2"
  by (auto simp: AddDeltaSize_def tf_consts bind_eq_Some_conv Let_def split: if_splits)

lemma AddDeltaSize_room:
  assumes "unat (num_seq_no tf) \<noteq> 0xffff" "size_bytes tf + unat d + 2 \<le> 2 ^ 18"
  shows "AddDeltaSize tf d \<noteq> Some (tf', False)"
  using assms by (auto simp: AddDeltaSize_def tf_consts bind_eq_Some_conv Let_def split: if_splits)

lemma add_lost_room:
  assumes "tf_ok tf st" "next_seq_no = base_seq_no tf + num_seq_no tf"
    and "unat (num_seq_no tf) + unat (seq - next_seq_no) \<le> 0xffff" "size_bytes tf + 2 * unat (seq - next_seq_no) \<le> 2 ^ 18"
  shows "\<exists>tf'. add_lost tf next_seq_no seq = Some (tf', True) \<and>
    size_bytes tf' \<le> size_bytes tf + 2 * unat (seq - next_seq_no)"
  using assms
proof (induction tf next_seq_no seq arbitrary: st rule: add_lost.induct)
  case (1 tf next_seq_no seq)
  show ?case
  proof (cases "next_seq_no = seq")
    case True
    then show ?thesis by (subst add_lost.simps) simp
  next
    case False
    then have pos: "0 < unat (seq - next_seq_no)" by (simp add: unat_gt_0)
    then have suc: "unat (seq - next_seq_no) = Suc (unat (seq - (next_seq_no + 1)))"
      unfolding diff_diff_add [symmetric] using unat_sub_if' [of "seq - next_seq_no" 1] by simp
    have "AddDeltaSize tf 0 \<noteq> Some (tf, False)"
      using "1.prems"(3,4) pos by (intro AddDeltaSize_room) auto
    with AddDeltaSize_lost [OF "1.prems"(1)] obtain tf' where tf': "AddDeltaSize tf 0 = Some (tf', True)"
      "tf_ok tf' (st @ [None])" "tf_frame tf tf'" "num_seq_no tf' = num_seq_no tf + 1" by blast
    have n: "next_seq_no + 1 = base_seq_no tf' + num_seq_no tf'"
      using "1.prems"(2) tf'(3,4) by (simp add: tf_frame_def)
    have "unat (num_seq_no tf) \<noteq> 0xffff" using "1.prems"(3) pos by simp
    then have u: "unat (num_seq_no tf') = unat (num_seq_no tf) + 1" using tf'(4) unat_Suc_u16 by simp
    have "\<exists>tf''. add_lost tf' (next_seq_no + 1) seq = Some (tf'', True) \<and>
        size_bytes tf'' \<le> size_bytes tf' + 2 * unat (seq - (next_seq_no + 1))"
      by (rule "1.IH" [OF False tf'(1) refl TrueI tf'(2) n])
        (use "1.prems"(3,4) suc u AddDeltaSize_size [OF tf'(1)] in simp_all)
    with False tf'(1) suc AddDeltaSize_size [OF tf'(1)] show ?thesis
      by (subst add_lost.simps) auto
  qed
qed

subsection \<open>The first packet of a message\<close>

lemma SetBase_time:
  assumes "0 \<le> t" "SetBase tf seq t = Some tf'"
  shows "last_timestamp_us tf' = t mod kTimeWrapPeriodUs div 64000 * 64000"
    and "size_bytes tf' = size_bytes tf" "num_seq_no tf' = 0"
proof -
  define q where "q = t mod kTimeWrapPeriodUs div 64000"
  have P: "kTimeWrapPeriodUs = 2 ^ 24 * 64000" by (simp add: tf_consts)
  have r: "0 \<le> t mod kTimeWrapPeriodUs" "t mod kTimeWrapPeriodUs < 2 ^ 24 * 64000" by (simp_all add: P)
  then have q: "0 \<le> q" "q < 2 ^ 24" by (auto simp: q_def div_less_iff_less_mult pos_imp_zdiv_nonneg_iff)
  have "(t smod kTimeWrapPeriodUs) sdiv kBaseScaleFactor = q"
    using assms(1) r(1) trunc_nonneg [of t kTimeWrapPeriodUs] trunc_nonneg [of "t mod kTimeWrapPeriodUs" 64000]
    by (simp add: q_def tf_consts)
  moreover have "sint (of_int q :: u32) = q"
    using q by (simp add: sint_sbintrunc' signed_take_bit_int_eq_self)
  ultimately have "last_timestamp_us tf' = q * 64000 \<and> size_bytes tf' = size_bytes tf \<and> num_seq_no tf' = 0"
    using assms(2) by (auto simp: SetBase_def dcheck_def Let_def GetBaseTimeUs_def kBaseScaleFactor_def kDeltaScaleFactor_def
        split: if_splits)
  then show "last_timestamp_us tf' = t mod kTimeWrapPeriodUs div 64000 * 64000"
    "size_bytes tf' = size_bytes tf" "num_seq_no tf' = 0" by (simp_all add: q_def)
qed

lemma first_delta:
  assumes "0 \<le> t" "t < 2 ^ 62" "last_timestamp_us tf = t mod kTimeWrapPeriodUs div 64000 * 64000"
  shows "\<exists>d. full_delta tf t = Some d \<and> 0 \<le> d \<and> d \<le> 256"
proof -
  let ?P = kTimeWrapPeriodUs
  have P: "?P = 1073741824000" by (simp add: tf_consts)
  define m where "m = t mod ?P"
  define r where "r = m mod 64000"
  have r: "0 \<le> r" "r < 64000" by (simp_all add: r_def)
  have last: "last_timestamp_us tf = m - r" using assms(3) by (simp add: m_def r_def minus_mod_eq_div_mult)
  have mt: "0 \<le> m" "m \<le> t" using assms(1) by (simp_all add: m_def P zmod_le_nonneg_dividend)
  have "r \<le> m" using mt(1) by (simp add: r_def zmod_le_nonneg_dividend)
  with mt assms(1,2) r have i: "i64 (t - (m - r)) = Some (t - (m - r))" and pos: "0 \<le> t - (m - r)" by (auto simp: i64_def)
  have "(t - (m - r)) mod ?P = ((t - m) mod ?P + r) mod ?P"
    unfolding mod_add_left_eq by (rule arg_cong [of _ _ "\<lambda>x. x mod ?P"]) simp
  also have "(t - m) mod ?P = 0" by (simp add: m_def minus_mod_eq_mult_div)
  also have "(0 + r) mod ?P = r" using r by (simp add: P)
  finally have s: "(t - (m - r)) smod ?P = r" using trunc_nonneg(2) [OF pos, of ?P] by (simp add: P)
  have "?P sdiv 2 = 536870912000" using trunc_nonneg(1) [of ?P 2] by (simp add: P)
  then have "full_delta tf t = Some ((r + 125) sdiv 250)"
    using r i s trunc_nonneg(1) [of 250 2] by (simp add: full_delta_def last Let_def kDeltaScaleFactor_def)
  then show ?thesis using r trunc_nonneg(1) [of "r + 125" 250] by auto
qed

lemma AddReceivedPacket_first:
  assumes "tf_ok tf []" "include_timestamps tf" "size_bytes tf = 20" "0 \<le> t" "t < 2 ^ 62"
    and "last_timestamp_us tf = t mod kTimeWrapPeriodUs div 64000 * 64000" "IsNewerSequenceNumber seq (base_seq_no tf - 1)"
  shows "\<exists>tf'. AddReceivedPacket tf seq t = Some (tf', True)"
proof -
  let ?n = "unat (seq - base_seq_no tf)"
  have num: "num_seq_no tf = 0" using tf_ok_num [OF assms(1)] by simp
  obtain d where d: "full_delta tf t = Some d" "0 \<le> d" "d \<le> 256" using first_delta [OF assms(4-6)] by blast
  then have fits: "sint (of_int d :: u16) = d" by (simp add: sint_sbintrunc' signed_take_bit_int_eq_self)
  have "unat (seq - (base_seq_no tf - 1)) \<le> 2 ^ 15" "seq \<noteq> base_seq_no tf - 1"
    using assms(7) by (auto simp: IsNewerSequenceNumber_spec ahead_spec_def)
  moreover have "unat (seq - (base_seq_no tf - 1)) = ?n + 1"
  proof -
    have e: "seq - (base_seq_no tf - 1) = seq - base_seq_no tf + 1" by simp
    have "seq - base_seq_no tf + 1 \<noteq> 0" using \<open>seq \<noteq> _\<close> by (simp add: algebra_simps)
    then have "unat (seq - base_seq_no tf) \<noteq> unat (0xffff :: u16)"
      using unsigned_word_eqI [of "seq - base_seq_no tf" "0xffff", where ?'a = nat] by auto
    then show ?thesis unfolding e by (intro unat_Suc_u16) simp
  qed
  ultimately have n: "?n < 2 ^ 15" by simp
  obtain tf1 where a: "add_lost tf (base_seq_no tf) seq = Some (tf1, True)" "size_bytes tf1 \<le> 20 + 2 * ?n"
    using add_lost_room [OF assms(1), of "base_seq_no tf" seq] n num assms(3) by auto
  then have "tf_ok tf1 (replicate ?n None)" using add_lost_spec [OF assms(1), of "base_seq_no tf" seq] num by auto
  then have "unat (num_seq_no tf1) = ?n" by (simp add: tf_ok_def)
  then have room: "AddDeltaSize tf1 (delta_size_of (of_int d)) \<noteq> Some (x, False)" for x
    using n a(2) by (intro AddDeltaSize_room) (auto simp: delta_size_of_def)
  have "add_lost tf (base_seq_no tf) seq = Some (tf, True)" if "seq = base_seq_no tf"
    using that by (subst add_lost.simps) simp
  then have "AddReceivedPacket tf seq t \<noteq> Some (x, False)" for x
    using a(1) room [of x] d(1) fits assms(2,7) num
    by (auto simp: AddReceivedPacket_def Let_def bind_eq_Some_conv split: if_splits)
  then show ?thesis using AddReceivedPacket_spec [OF assms(1), of t seq] assms(4,5) by (metis (full_types) abs_of_nonneg)
qed

subsection \<open>A message reports a prefix of the arrivals\<close>

definition wire_arrivals :: "arrival_map \<Rightarrow> (u16 \<times> int) list" where
  "wire_arrivals arrivals = map (\<lambda>(seq, t). (of_int seq, t * 1000)) arrivals"

text \<open>The map as \<open>IncomingPacket\<close> keeps it: the keys increase, the times are far from the end of
  \<open>int64_t\<close>.\<close>

definition arrivals_ok :: "arrival_map \<Rightarrow> bool" where
  "arrivals_ok m \<longleftrightarrow> sorted_wrt (<) (map fst m) \<and> list_all (\<lambda>a. 0 \<le> snd a \<and> snd a < 2 ^ 52) m"

lemma arrivals_ok_append: "arrivals_ok (a @ b) \<Longrightarrow> arrivals_ok a \<and> arrivals_ok b"
  by (simp add: arrivals_ok_def sorted_wrt_append)

lemma arrivals_ok_times: "arrivals_ok m \<Longrightarrow> times_ok (wire_arrivals m)"
  by (auto simp: arrivals_ok_def times_ok_def wire_arrivals_def list_all_iff)

lemma add_arrivals_prefix:
  assumes "tf_ok tf st" "times_ok (wire_arrivals arrivals)"
  shows "\<exists>chunk rest tf1 tf'. arrivals = chunk @ rest \<and> feedback_run tf (wire_arrivals chunk) = Some (tf1, True) \<and>
    add_arrivals False tf n arrivals = Some (tf', if chunk = [] then n else fst (last chunk) + 1) \<and>
    tf_frame tf1 tf' \<and> received_packets tf' = received_packets tf1 \<and> (\<exists>st'. tf_ok tf' st')"
  using assms
proof (induction arrivals arbitrary: tf st n)
  case Nil
  then show ?case by (auto simp: wire_arrivals_def)
next
  case (Cons a arrivals)
  obtain seq t where a: "a = (seq, t)" by (cases a)
  have t: "\<bar>t * 1000\<bar> < 2 ^ 62" "times_ok (wire_arrivals arrivals)"
    using Cons.prems(2) by (simp_all add: a wire_arrivals_def times_ok_def)
  obtain tf1 ok st1 where r: "AddReceivedPacket tf (of_int seq) (t * 1000) = Some (tf1, ok)" "tf_ok tf1 st1" "tf_frame tf tf1"
    "\<not> ok \<Longrightarrow> \<exists>k. st1 = st @ replicate k None"
    using AddReceivedPacket_spec [OF Cons.prems(1) t(1), of "of_int seq"] by fastforce
  show ?case
  proof (cases ok)
    case True
    obtain chunk rest tf2 tf' where c: "arrivals = chunk @ rest" "feedback_run tf1 (wire_arrivals chunk) = Some (tf2, True)"
      "add_arrivals False tf1 (seq + 1) arrivals = Some (tf', if chunk = [] then seq + 1 else fst (last chunk) + 1)"
      "tf_frame tf2 tf'" "received_packets tf' = received_packets tf2" "\<exists>st'. tf_ok tf' st'"
      using Cons.IH [OF r(2) t(2), of "seq + 1"] by blast
    have "feedback_run tf (wire_arrivals (a # chunk)) = Some (tf2, True)" using r(1) True c(2) by (simp add: a wire_arrivals_def)
    moreover have "add_arrivals False tf n (a # arrivals) =
        Some (tf', if a # chunk = [] then n else fst (last (a # chunk)) + 1)" using r(1) True c(3) by (simp add: a)
    ultimately show ?thesis using c(1,4-6) by (intro exI [of _ "a # chunk"] exI [of _ rest]) auto
  next
    case False
    then obtain k where "st1 = st @ replicate k None" using r(4) by blast
    then have "received_packets tf1 = received_packets tf"
      using tf_ok_packets [OF r(2)] tf_ok_packets [OF Cons.prems(1)] r(3) by (simp add: tf_frame_def status_packets_append)
    moreover have "add_arrivals False tf n (a # arrivals) = Some (tf1, n)" using r(1) False by (simp add: a dcheck_def)
    ultimately show ?thesis using r(2,3) by (intro exI [of _ "[]"] exI [of _ "a # arrivals"]) (auto simp: wire_arrivals_def)
  qed
qed

text \<open>The number of the first arrival follows the number before the base, so that the message can take it.\<close>

definition follows :: "int \<Rightarrow> int \<Rightarrow> bool" where
  "follows a b \<longleftrightarrow> b < a \<and> a - b \<le> 2 ^ 15 \<and> IsNewerSequenceNumber (of_int a) (of_int b)"

lemma BuildFeedbackPacket_reports:
  assumes "arrivals_ok arrivals" "arrivals \<noteq> []" "follows (fst (hd arrivals)) (base - 1)"
  shows "\<exists>chunk rest tf. arrivals = chunk @ rest \<and> chunk \<noteq> [] \<and>
    BuildFeedbackPacket count ssrc base arrivals (TransportFeedback_init True False) = Some (tf, fst (last chunk) + 1) \<and>
    delivers tf (wire_arrivals chunk) \<and> feedback_seq tf = count \<and> media_ssrc tf = ssrc"
proof -
  obtain seq t more_arrivals where arr: "arrivals = (seq, t) # more_arrivals" using assms(2) by (cases arrivals) auto
  let ?T = "t * 1000" and ?init = "(TransportFeedback_init True False)\<lparr>media_ssrc := ssrc\<rparr>"
  have t: "0 \<le> ?T" "?T < 2 ^ 62" "times_ok (wire_arrivals more_arrivals)"
    using assms(1) arrivals_ok_times [of more_arrivals] by (auto simp: arr arrivals_ok_def)
  have "tf_ok ?init []" using tf_ok_init [of True False]
    by (simp add: tf_ok_def tf_sizes_def tf_chunks_def GetBaseTimeUs_def)
  from SetBase_spec [OF this t(1), of "of_int base"]
  obtain tf0 where b: "SetBase ?init (of_int base) ?T = Some tf0" "tf_ok tf0 []" "base_seq_no tf0 = of_int base"
    "include_timestamps tf0" "received_packets tf0 = []" by (auto simp: TransportFeedback_init_def)
  let ?tf = "SetFeedbackSequenceNumber tf0 count"
  have ok: "tf_ok ?tf []" using b(2) by (simp add: SetFeedbackSequenceNumber_def tf_ok_def tf_sizes_def tf_chunks_def GetBaseTimeUs_def)
  have m: "media_ssrc tf0 = ssrc" using b(1) by (auto simp: SetBase_def dcheck_def Let_def split: if_splits)
  have new: "IsNewerSequenceNumber (of_int seq) (base_seq_no ?tf - 1)"
    using assms(3) b(3) by (simp add: follows_def arr SetFeedbackSequenceNumber_def)
  obtain tf1 where tf1: "AddReceivedPacket ?tf (of_int seq) ?T = Some (tf1, True)"
    using AddReceivedPacket_first [OF ok _ _ t(1,2) _ new] b(4) SetBase_time [OF t(1) b(1)]
    by (auto simp: SetFeedbackSequenceNumber_def TransportFeedback_init_def tf_consts)
  then obtain st1 where "tf_ok tf1 st1" using AddReceivedPacket_ok [OF ok _ tf1] t(1,2) by auto
  from add_arrivals_prefix [OF this t(3), of "seq + 1"]
  obtain chunk rest tf2 tf' st' where c: "more_arrivals = chunk @ rest" "feedback_run tf1 (wire_arrivals chunk) = Some (tf2, True)"
    "add_arrivals False tf1 (seq + 1) more_arrivals = Some (tf', if chunk = [] then seq + 1 else fst (last chunk) + 1)"
    "tf_frame tf2 tf'" "received_packets tf' = received_packets tf2" "tf_ok tf' st'" by blast
  let ?chunk = "(seq, t) # chunk"
  have run: "feedback_run ?tf (wire_arrivals ?chunk) = Some (tf2, True)" using tf1 c(2) by (simp add: wire_arrivals_def)
  have "times_ok (wire_arrivals ?chunk)" using assms(1) arrivals_ok_append [of ?chunk rest] arrivals_ok_times
    by (simp add: arr c(1))
  from feedback_run_reports [OF ok this run] b(4,5) obtain ps where r: "tf_frame ?tf tf2" "received_packets tf2 = ps"
    "map sequence_number ps = map fst (wire_arrivals ?chunk)"
    "list_all2 (\<lambda>(seq, t) u. time_error t u 125) (wire_arrivals ?chunk) (packet_times (last_timestamp_us ?tf) ps)"
    by (auto simp: SetFeedbackSequenceNumber_def)
  have frame: "tf_frame ?tf tf'" by (rule tf_frame_trans [OF r(1) c(4)])
  have "last_timestamp_us ?tf = GetBaseTimeUs tf'" using tf_ok_time [OF ok] tf_frame_base_time [OF frame] by simp
  then have "delivers tf' (wire_arrivals ?chunk)" using r(2-4) c(5) by (intro tf_delivers [OF c(6)]) (simp_all add: wire_arrivals_def)
  moreover have "BuildFeedbackPacket count ssrc base arrivals (TransportFeedback_init True False) = Some (tf', fst (last ?chunk) + 1)"
    using b(1) tf1 c(3) by (simp add: BuildFeedbackPacket_def arr dcheck_def Let_def)
  ultimately show ?thesis using frame m c(1)
    by (intro exI [of _ ?chunk] exI [of _ rest]) (auto simp: arr tf_frame_def SetFeedbackSequenceNumber_def)
qed

subsection \<open>Periodic feedback\<close>

text \<open>The messages of one call: each reports its share of the arrivals, they are numbered from \<open>count\<close> on, and the
  estimate is in front of the first.\<close>

fun reports :: "u8 \<Rightarrow> u32 \<Rightarrow> 'e option \<Rightarrow> arrival_map list \<Rightarrow> ('e option \<times> transport_feedback) list \<Rightarrow> bool" where
  "reports count ssrc estimate [] [] \<longleftrightarrow> True"
| "reports count ssrc estimate (c # cs) ((e, tf) # sent) \<longleftrightarrow> c \<noteq> [] \<and> delivers tf (wire_arrivals c) \<and>
     feedback_seq tf = count \<and> media_ssrc tf = ssrc \<and> e = estimate \<and> reports (count + 1) ssrc None cs sent"
| "reports count ssrc estimate _ _ \<longleftrightarrow> False"

definition linked :: "arrival_map \<Rightarrow> bool" where
  "linked m \<longleftrightarrow> successively (\<lambda>a b. follows b a) (map fst m)"

lemma arrivals_from_split:
  assumes "\<forall>a \<in> set xs. fst a < k" "ys = [] \<or> k \<le> fst (hd ys)"
  shows "arrivals_from (xs @ ys) k = ys"
  using assms by (cases ys) (auto simp: arrivals_from_def dropWhile_append)

lemma arrivals_from_Cons: "arrivals_from m k = a # as \<Longrightarrow> k \<le> fst a"
  unfolding arrivals_from_def using hd_dropWhile [of "\<lambda>a. fst a < k" m] by auto

lemma arrivals_from_suffix: "\<exists>xs. m = xs @ arrivals_from m k \<and> (\<forall>a \<in> set xs. fst a < k)"
  unfolding arrivals_from_def by (intro exI [of _ "takeWhile (\<lambda>a. fst a < k) m"]) (auto dest: set_takeWhileD)

text \<open>After a message that ends with the arrivals \<open>chunk\<close> the others are left.\<close>

lemma arrivals_from_next:
  assumes "arrivals_ok m" "arrivals_from m k = chunk @ rest" "chunk \<noteq> []"
  shows "arrivals_from m (fst (last chunk) + 1) = rest"
proof -
  obtain xs where m: "m = (xs @ chunk) @ rest" using arrivals_from_suffix [of m k] assms(2) by auto
  have s: "sorted_wrt (<) (map fst xs @ map fst chunk @ map fst rest)" using assms(1) m by (simp add: arrivals_ok_def)
  have le: "fst a \<le> fst (last chunk)" if "a \<in> set (xs @ chunk)" for a
  proof (cases "a \<in> set chunk")
    case True
    then show ?thesis using s assms(3) by (induction chunk) (auto simp: sorted_wrt_append intro: less_imp_le)
  next
    case False
    then have "fst a \<in> fst ` set xs" "fst (last chunk) \<in> fst ` set chunk" using that assms(3) by auto
    moreover have "\<forall>x \<in> fst ` set xs. \<forall>y \<in> fst ` set chunk. x < y" using s by (auto simp: sorted_wrt_append)
    ultimately have "fst a < fst (last chunk)" by blast
    then show ?thesis by simp
  qed
  have "\<forall>a \<in> set (xs @ chunk). fst a < fst (last chunk) + 1" using le zle_add1_eq_le by blast
  moreover have "rest = [] \<or> fst (last chunk) + 1 \<le> fst (hd rest)"
    using s last_in_set [OF assms(3)] by (cases rest) (auto simp: sorted_wrt_append)
  ultimately show ?thesis unfolding m by (intro arrivals_from_split)
qed

lemma linked_append:
  "linked (a @ b) \<longleftrightarrow> linked a \<and> linked b \<and> (a = [] \<or> b = [] \<or> follows (fst (hd b)) (fst (last a)))"
  by (cases b; cases "a = []") (auto simp: linked_def successively_append_iff last_map)

lemma send_feedbacks_reports:
  fixes e :: "'e option"
  assumes "arrivals_ok (packet_arrival_times p)" "periodic_window_start_seq p = Some s"
    and "linked (arrivals_from (packet_arrival_times p) s)"
    and "arrivals_from (packet_arrival_times p) s \<noteq> [] \<Longrightarrow>
      follows (fst (hd (arrivals_from (packet_arrival_times p) s))) (s - 1)"
  defines "pending \<equiv> arrivals_from (packet_arrival_times p) s"
  shows "\<exists>sent chunks. send_feedbacks p e = Some (p\<lparr>feedback_packet_count := feedback_packet_count p + of_nat (length sent),
      periodic_window_start_seq := Some (if pending = [] then s else fst (last pending) + 1)\<rparr>, sent) \<and>
    concat chunks = pending \<and> reports (feedback_packet_count p) (proxy_media_ssrc p) e chunks sent"
  using assms(1-4) unfolding pending_def
proof (induction "length (arrivals_from (packet_arrival_times p) s)" arbitrary: p s e rule: less_induct)
  case less
  let ?M = "packet_arrival_times p" and ?c = "feedback_packet_count p"
  show ?case
  proof (cases "arrivals_from ?M s = []")
    case True
    then have "send_feedbacks p e = Some (p, [])" using less.prems(2) by (subst send_feedbacks.simps) simp
    with True less.prems(2) show ?thesis by (intro exI [of _ "[]"]) simp
  next
    case False
    have "arrivals_ok (arrivals_from ?M s)" using arrivals_from_suffix [of ?M s] arrivals_ok_append less.prems(1) by metis
    from BuildFeedbackPacket_reports [OF this False less.prems(4) [OF False], of ?c "proxy_media_ssrc p"]
    obtain chunk rest tf where b: "arrivals_from ?M s = chunk @ rest" "chunk \<noteq> []"
      "BuildFeedbackPacket ?c (proxy_media_ssrc p) s (arrivals_from ?M s) (TransportFeedback_init True False)
        = Some (tf, fst (last chunk) + 1)"
      "delivers tf (wire_arrivals chunk)" "feedback_seq tf = ?c" "media_ssrc tf = proxy_media_ssrc p" by blast
    let ?p = "p\<lparr>feedback_packet_count := ?c + 1, periodic_window_start_seq := Some (fst (last chunk) + 1)\<rparr>"
    have rest: "arrivals_from ?M (fst (last chunk) + 1) = rest" by (rule arrivals_from_next [OF less.prems(1) b(1,2)])
    have link: "linked rest" "rest \<noteq> [] \<Longrightarrow> follows (fst (hd rest)) (fst (last chunk) + 1 - 1)"
      using less.prems(3) b(1,2) by (auto simp: linked_append)
    have rest': "arrivals_from (packet_arrival_times ?p) (fst (last chunk) + 1) = rest" using rest by simp
    have "\<exists>sent chunks. send_feedbacks ?p (None :: 'e option) = Some (?p\<lparr>feedback_packet_count := feedback_packet_count ?p + of_nat (length sent),
        periodic_window_start_seq := Some (if rest = [] then fst (last chunk) + 1 else fst (last rest) + 1)\<rparr>, sent) \<and>
      concat chunks = rest \<and> reports (feedback_packet_count ?p) (proxy_media_ssrc ?p) None chunks sent"
      by (rule less.hyps [of ?p "fst (last chunk) + 1" None, unfolded rest', OF _ _ _ link(1)])
        (use less.prems(1) b(1,2) link(2) in simp_all)
    then obtain sent chunks where r:
      "send_feedbacks ?p (None :: 'e option) = Some (?p\<lparr>feedback_packet_count := feedback_packet_count ?p + of_nat (length sent),
        periodic_window_start_seq := Some (if rest = [] then fst (last chunk) + 1 else fst (last rest) + 1)\<rparr>, sent)"
      "concat chunks = rest" "reports (feedback_packet_count ?p) (proxy_media_ssrc ?p) None chunks sent"
      by (elim exE conjE) (rule that)
    have "send_feedbacks p e = Some (p\<lparr>feedback_packet_count := ?c + of_nat (length ((e, tf) # sent)),
        periodic_window_start_seq := Some (fst (last (arrivals_from ?M s)) + 1)\<rparr>, (e, tf) # sent)"
      using less.prems(2) False b(2,3) r(1) by (subst send_feedbacks.simps) (simp add: b(1) ac_simps)
    then show ?thesis using False b r(2,3) by (intro exI [of _ "(e, tf) # sent"] exI [of _ "chunk # chunks"]) simp
  qed
qed

end
