(* ===== verification/Proxy_Invariant.thy ===== *)
theory Proxy_Invariant
  imports Proxy_Feedback
begin

text \<open>
  The proxy as a whole: an invariant of the arrival times, of the last unwrapped number and of the start of the
  window that makes every message buildable, and the properties that rest on it.
\<close>

subsection \<open>One step of the unwrapper\<close>

definition near_step :: "int \<Rightarrow> int \<Rightarrow> bool" where
  "near_step u x \<longleftrightarrow> x = u \<or> follows x u \<or> follows u x"

lemma follows_near: "b < a \<Longrightarrow> a - b < 2 ^ 15 \<Longrightarrow> follows a b"
  using ahead_spec_of_int16 [of a b] by (simp add: follows_def IsNewerSequenceNumber_spec)

lemma follows_pred [simp]: "follows a (a - 1)"
  by (rule follows_near) simp_all

lemma Unwrap_near:
  assumes "snu_last_value U = Some (of_int (last_unwrapped U))" "SeqNumUnwrapper_Unwrap U v = (U', x)"
  shows "last_unwrapped U' = x" "snu_last_value U' = Some (of_int x)" "near_step (last_unwrapped U) x"
proof -
  let ?u = "last_unwrapped U" and ?c = "of_int (last_unwrapped U) :: u16"
  define d where "d = uint (v - ?c)"
  have x: "x = (if AheadOrAt16 v ?c then ?u + d else ?u + d - 65536)" and U': "last_unwrapped U' = x" "snu_last_value U' = Some v"
    using assms by (auto simp: SeqNumUnwrapper_Unwrap_def ForwardDiff_def Let_def d_def)
  have v: "of_int x = v" by (simp add: x d_def)
  define n where "n = unat (v - ?c)"
  have dn: "d = int n" by (simp add: d_def n_def)
  show "last_unwrapped U' = x" "snu_last_value U' = Some (of_int x)" using U' v by simp_all
  show "near_step ?u x"
  proof (cases "v = ?c")
    case True
    then show ?thesis using x by (simp add: near_step_def AheadOrAt16_iff d_def)
  next
    case False
    then have pos: "0 < n" by (simp add: unat_gt_0 n_def)
    show ?thesis
    proof (cases "ahead_spec v ?c")
      case True
      then have "n \<le> 2 ^ 15" by (auto simp: ahead_spec_def n_def)
      moreover have "x = ?u + d" using True x by (simp add: AheadOrAt16_iff AheadOf16_spec)
      ultimately have "follows x ?u" using True pos dn v by (simp add: follows_def IsNewerSequenceNumber_spec)
      then show ?thesis by (simp add: near_step_def)
    next
      case behind: False
      then have a: "ahead_spec ?c v" using ahead_spec_total [OF False] by simp
      then have "unat (?c - v) \<le> 2 ^ 15" by (auto simp: ahead_spec_def)
      moreover have "unat (?c - v) = 65536 - n" using unat_minus_diff [OF False] by (simp add: n_def)
      moreover have "x = ?u + d - 65536" using behind False x by (simp add: AheadOrAt16_iff AheadOf16_spec)
      moreover have "n < 65536" unfolding n_def by (rule unat_u16_less)
      ultimately have "follows ?u x" using a dn v by (simp add: follows_def IsNewerSequenceNumber_spec)
      then show ?thesis by (simp add: near_step_def)
    qed
  qed
qed

subsection \<open>Inserting an arrival\<close>

abbreviation keys :: "arrival_map \<Rightarrow> int set" where "keys m \<equiv> fst ` set m"
abbreviation newest :: "arrival_map \<Rightarrow> int" where "newest m \<equiv> fst (last m)"

text \<open>The numbers are within reach of the newest one. The last unwrapped number \<open>u\<close> is one of them, or it was too
  old to be kept; then there is one it came down from.\<close>

definition in_reach :: "arrival_map \<Rightarrow> int \<Rightarrow> bool" where
  "in_reach m u \<longleftrightarrow> m \<noteq> [] \<and> (\<forall>k \<in> keys m. newest m - 2 ^ 15 \<le> k) \<and> u \<le> newest m \<and>
     (u \<in> keys m \<or> u < newest m - 2 ^ 15 \<and> (\<exists>k \<in> keys m. k < newest m))"

lemma newest_in_keys: "m \<noteq> [] \<Longrightarrow> newest m \<in> keys m" by simp

lemma arrivals_ok_order: "arrivals_ok (xs @ ys) \<Longrightarrow> a \<in> keys xs \<Longrightarrow> b \<in> keys ys \<Longrightarrow> a < b"
  by (auto simp: arrivals_ok_def sorted_wrt_append)

lemma newest_greatest: "arrivals_ok m \<Longrightarrow> k \<in> keys m \<Longrightarrow> k \<le> newest m"
  by (cases m rule: rev_cases) (auto simp: arrivals_ok_def sorted_wrt_append intro: less_imp_le)

lemma oldest_least: "arrivals_ok (a # m) \<Longrightarrow> k \<in> keys (a # m) \<Longrightarrow> fst a \<le> k"
  by (auto simp: arrivals_ok_def intro: less_imp_le)

lemma put_arrival_split:
  assumes "arrivals_ok m" "x \<notin> keys m"
  shows "\<exists>xs ys. m = xs @ ys \<and> put_arrival m x t = xs @ (x, t) # ys \<and> (\<forall>k \<in> keys xs. k < x) \<and> (\<forall>k \<in> keys ys. x < k)"
proof -
  obtain xs where xs: "m = xs @ arrivals_from m x" "\<forall>a \<in> set xs. fst a < x" using arrivals_from_suffix by blast
  have "takeWhile (\<lambda>a. fst a < x) m = xs"
    using xs(2) arrivals_from_Cons [of m x] by (subst xs(1), cases "arrivals_from m x") auto
  moreover have "x < k" if "k \<in> keys (arrivals_from m x)" for k
  proof -
    obtain a ys where a: "arrivals_from m x = a # ys" using \<open>k \<in> _\<close> by (cases "arrivals_from m x") auto
    have "arrivals_ok (a # ys)" using xs(1) assms(1) arrivals_ok_append [of xs "a # ys"] a by simp
    then have "x \<le> k" using arrivals_from_Cons [OF a] oldest_least [of a ys k] that a by simp
    moreover have "k \<in> keys m" using that xs(1) by (metis image_eqI Un_iff image_Un set_append)
    ultimately show ?thesis using assms(2) by (cases "x = k") auto
  qed
  ultimately show ?thesis using xs
    by (intro exI [of _ xs] exI [of _ "arrivals_from m x"]) (simp add: put_arrival_def)
qed

text \<open>The number follows the one before it and is followed by the next one: the map \<open>culled @ xs @ ys\<close> has lost
  \<open>culled\<close> and gets \<open>x\<close> between \<open>xs\<close> and \<open>ys\<close>.\<close>

lemma insert_follows:
  assumes "arrivals_ok m" "in_reach m u" "near_step u x" "m = culled @ xs @ ys"
    and "\<forall>k \<in> keys (culled @ xs). k < x" "\<forall>k \<in> keys ys. x < k"
  shows "xs \<noteq> [] \<Longrightarrow> follows x (newest xs)"
    and "ys \<noteq> [] \<Longrightarrow> newest m - 2 ^ 15 \<le> x \<Longrightarrow> follows (fst (hd ys)) x"
proof -
  have in_reach: "\<And>k. k \<in> keys m \<Longrightarrow> newest m - 2 ^ 15 \<le> k" "u \<le> newest m"
    "u \<in> keys m \<or> u < newest m - 2 ^ 15 \<and> (\<exists>k \<in> keys m. k < newest m)" using assms(2) by (auto simp: in_reach_def)
  have split: "keys m = keys culled \<union> keys xs \<union> keys ys" by (auto simp: assms(4))
  have ok: "arrivals_ok (culled @ xs @ ys)" "arrivals_ok xs" "arrivals_ok ys"
    using assms(1) arrivals_ok_append [of culled "xs @ ys"] arrivals_ok_append [of xs ys] unfolding assms(4) by auto
  show "follows x (newest xs)" if "xs \<noteq> []"
  proof -
    let ?p = "newest xs"
    have p: "?p \<in> keys xs" "?p < x" "newest m - 2 ^ 15 \<le> ?p" using that newest_in_keys assms(5) in_reach(1) split by auto
    consider "?p < u" | "?p = u" | "u < ?p" by linarith
    then show ?thesis
    proof cases
      case 1
      have "u \<in> keys m" using in_reach(3) 1 p(3) by auto
      moreover have "u \<notin> keys xs" using 1 newest_greatest [OF ok(2), of u] leD by blast
      moreover have "u \<notin> keys culled"
        using 1 arrivals_ok_order [OF ok(1), of u ?p] p(1) by (metis Un_iff image_Un less_asym set_append)
      ultimately have "x < u" using split assms(6) by blast
      then show ?thesis using p(2,3) in_reach(2) by (intro follows_near) linarith+
    next
      case 2
      then show ?thesis using assms(3) p(2) by (auto simp: near_step_def follows_def)
    next
      case 3
      then have "x - u \<le> 2 ^ 15" using assms(3) p(2) by (auto simp: near_step_def follows_def)
      then show ?thesis using p(2) 3 by (intro follows_near) linarith+
    qed
  qed
  show "follows (fst (hd ys)) x" if ys: "ys \<noteq> []" and x: "newest m - 2 ^ 15 \<le> x"
  proof -
    obtain a zs where a: "ys = a # zs" using ys by (cases ys) auto
    let ?q = "fst a"
    have q: "?q \<in> keys m" "x < ?q" using split assms(6) by (simp_all add: a)
    have least: "?q \<le> k" if "k \<in> keys ys" for k using oldest_least [of a zs k] ok(3) that by (simp add: a)
    have le: "?q \<le> newest m" by (rule newest_greatest [OF assms(1) q(1)])
    show ?thesis
    proof (cases "?q - x < 2 ^ 15")
      case True
      then show ?thesis using q(2) by (auto simp: a intro: follows_near)
    next
      case False
      then have e: "?q = newest m" "x = newest m - 2 ^ 15" using le x by linarith+
      have later: "?q \<le> k" if "k \<in> keys m" for k
      proof -
        have "k \<notin> keys (culled @ xs)" using in_reach(1) [OF that] assms(5) e(2) leD by blast
        then have "k \<in> keys ys" using that split by (metis Un_iff image_Un set_append)
        then show ?thesis by (rule least)
      qed
      have "\<not> (\<exists>k \<in> keys m. k < newest m)" using later unfolding e(1) by (meson leD)
      then have "u \<in> keys m" using in_reach(3) by simp
      then have "u = ?q" using later in_reach(2) e(1) by (intro order_antisym) simp_all
      then show ?thesis using assms(3) q(2) by (auto simp: a near_step_def follows_def)
    qed
  qed
qed

lemma arrivals_from_keys:
  assumes "arrivals_ok m"
  shows "keys (arrivals_from m b) = {k \<in> keys m. b \<le> k}"
  using assms
proof (induction m)
  case (Cons a m)
  have "b \<le> k" if "b \<le> fst a" "k \<in> keys (a # m)" for k using oldest_least [OF Cons.prems that(2)] that(1) by simp
  moreover have "arrivals_ok m" using arrivals_ok_append [of "[a]" m] Cons.prems by simp
  ultimately show ?case using Cons.IH by (cases "fst a < b") (force simp: arrivals_from_def)+
qed (simp add: arrivals_from_def)

lemma arrivals_from_all: "m = [] \<or> b \<le> fst (hd m) \<Longrightarrow> arrivals_from m b = m"
  using arrivals_from_split [of "[]" b m] by simp

lemma suffix_ok:
  assumes "arrivals_ok m"
  shows "arrivals_ok (arrivals_from m b)" "linked m \<Longrightarrow> linked (arrivals_from m b)"
    "arrivals_from m b \<noteq> [] \<Longrightarrow> last (arrivals_from m b) = last m"
proof -
  obtain xs where m: "m = xs @ arrivals_from m b" using arrivals_from_suffix by blast
  show "arrivals_ok (arrivals_from m b)" using assms arrivals_ok_append m by metis
  show "linked (arrivals_from m b)" if "linked m" using that linked_append m by metis
  show "last (arrivals_from m b) = last m" if "arrivals_from m b \<noteq> []" using last_appendR [OF that] m by metis
qed

text \<open>A number that is the newest, with everything out of its reach dropped.\<close>

lemma near_newest:
  assumes "arrivals_ok a" "a \<noteq> []" "newest a = x"
  shows "in_reach (arrivals_from a (x - 2 ^ 15)) x"
proof -
  let ?k = "arrivals_from a (x - 2 ^ 15)"
  have keys: "keys ?k = {k \<in> keys a. x - 2 ^ 15 \<le> k}" by (rule arrivals_from_keys [OF assms(1)])
  have x: "x \<in> keys ?k" unfolding keys using newest_in_keys [OF assms(2)] assms(3) by simp
  then have "?k \<noteq> []" by auto
  moreover from this have "newest ?k = x" using suffix_ok(3) [OF assms(1)] assms(3) by simp
  ultimately show ?thesis using x keys by (simp add: in_reach_def)
qed

lemma insert_newest:
  assumes "arrivals_ok (xs @ [(x, t)])" "linked xs" "xs \<noteq> [] \<Longrightarrow> follows x (newest xs)"
  shows "linked (arrivals_from (xs @ [(x, t)]) (x - 2 ^ 15)) \<and> in_reach (arrivals_from (xs @ [(x, t)]) (x - 2 ^ 15)) x"
proof -
  have "linked (xs @ [(x, t)])" using assms(2,3) by (auto simp: linked_append linked_def [of "[_]"])
  then show ?thesis using suffix_ok(2) [OF assms(1)] near_newest [OF assms(1)] by simp
qed

lemma insert_between:
  assumes "arrivals_ok (xs @ (x, t) # ys)" "linked xs" "linked ys" "ys \<noteq> []"
    and "xs \<noteq> [] \<Longrightarrow> follows x (newest xs)" "follows (fst (hd ys)) x" "\<forall>k \<in> keys (xs @ (x, t) # ys). newest ys - 2 ^ 15 \<le> k"
  shows "arrivals_from (xs @ (x, t) # ys) (newest ys - 2 ^ 15) = xs @ (x, t) # ys \<and> linked (xs @ (x, t) # ys) \<and>
    in_reach (xs @ (x, t) # ys) x"
proof -
  let ?a = "xs @ (x, t) # ys"
  have "linked ((xs @ [(x, t)]) @ ys)" using assms(2-6) by (subst linked_append) (auto simp: linked_append linked_def [of "[_]"])
  moreover have "x \<in> keys ?a" "newest ?a = newest ys" using assms(4) by simp_all
  moreover have "fst (hd ?a) \<in> keys ?a" by (cases xs) auto
  then have "arrivals_from ?a (newest ys - 2 ^ 15) = ?a" using assms(7) by (intro arrivals_from_all disjI2) blast
  ultimately show ?thesis using assms(7) newest_greatest [OF assms(1), of x] by (simp add: in_reach_def)
qed

lemma insert_too_old:
  assumes "in_reach m u" "near_step u x" "x < newest m - 2 ^ 15"
  shows "in_reach m x"
proof -
  have "\<exists>k \<in> keys m. k < newest m"
  proof (cases "u \<in> keys m")
    case True
    have "u - x \<le> 2 ^ 15" using assms(2) by (auto simp: near_step_def follows_def)
    then show ?thesis using assms(3) by (intro bexI [OF _ True]) linarith
  next
    case False
    then show ?thesis using assms(1) by (simp add: in_reach_def)
  qed
  with assms(1,3) show ?thesis by (simp add: in_reach_def)
qed

lemma insert_arrival:
  assumes m: "arrivals_ok m" "linked m" "in_reach m u" "near_step u x" "m = culled @ m1"
    and "\<forall>k \<in> keys culled. k < x" "x \<notin> keys m1" "0 \<le> t" "t < 2 ^ 52"
  defines "a \<equiv> put_arrival m1 x t"
  shows "arrivals_ok (arrivals_from a (newest a - 2 ^ 15)) \<and> linked (arrivals_from a (newest a - 2 ^ 15)) \<and>
    in_reach (arrivals_from a (newest a - 2 ^ 15)) x"
proof -
  have "arrivals_ok m1" "linked m1"
    using m(1,2) arrivals_ok_append [of culled m1] linked_append [of culled m1] unfolding m(5) by simp_all
  then obtain xs ys where s: "m1 = xs @ ys" "a = xs @ (x, t) # ys" "\<forall>k \<in> keys xs. k < x" "\<forall>k \<in> keys ys. x < k"
    using put_arrival_split [OF _ assms(7), of t] unfolding a_def by blast
  have ms: "m = culled @ xs @ ys" by (simp add: m(5) s(1))
  have less: "\<forall>k \<in> keys (culled @ xs). k < x" using s(3) assms(6) by auto
  note follow = insert_follows [OF m(1,3,4) ms less s(4)]
  have ok: "arrivals_ok a" using \<open>arrivals_ok m1\<close> s assms(8,9) by (auto simp: arrivals_ok_def sorted_wrt_append)
  have l: "linked xs" "linked ys" using \<open>linked m1\<close> unfolding s(1) linked_append by simp_all
  have reach: "newest m - 2 ^ 15 \<le> k" if "k \<in> keys m" for k using m(3) that unfolding in_reach_def by blast
  consider "ys = []" | "ys \<noteq> []" "newest m - 2 ^ 15 \<le> x" | "ys \<noteq> []" "x < newest m - 2 ^ 15" by linarith
  then show ?thesis
  proof cases
    case 1
    then have "a = xs @ [(x, t)]" "newest a = x" by (simp_all add: s(2))
    then show ?thesis using insert_newest [of xs x t] ok l(1) follow(1) suffix_ok(1) [OF ok] by simp
  next
    case 2
    then have n: "newest a = newest ys" "newest m = newest ys" by (simp_all add: s(2) ms)
    have "newest ys - 2 ^ 15 \<le> k" if "k \<in> keys (xs @ (x, t) # ys)" for k
    proof -
      have "k = x \<or> k \<in> keys m" using that by (auto simp: ms)
      then show ?thesis using reach 2(2) unfolding n(2) by blast
    qed
    with insert_between [of xs x t ys] ok l follow 2 show ?thesis by (simp add: s(2) n)
  next
    case 3
    then have n: "newest a = newest m" by (simp add: s(2) ms)
    have "culled @ xs = []"
    proof (rule ccontr)
      assume "culled @ xs \<noteq> []"
      then obtain k where k: "k \<in> keys (culled @ xs)" by (cases "culled @ xs") auto
      then have "k < x" using less by blast
      moreover have "k \<in> keys m" using k by (auto simp: ms)
      ultimately show False using reach [of k] 3(2) by simp
    qed
    then have "m = ys" "a = [(x, t)] @ ys" by (simp_all add: ms s(2))
    moreover have "fst (hd ys) \<in> keys ys" using 3(1) by simp
    ultimately have "arrivals_from a (newest a - 2 ^ 15) = m"
      using 3(2) reach unfolding n by (metis arrivals_from_split fst_conv list.set(1,2) empty_iff insert_iff)
    then show ?thesis using m(1-3) insert_too_old [OF m(3,4) 3(2)] by simp
  qed
qed

subsection \<open>The start of the window\<close>

text \<open>What is pending can be reported; when nothing is, the last number is before the start.\<close>

definition start_ok :: "arrival_map \<Rightarrow> int \<Rightarrow> int \<Rightarrow> bool" where
  "start_ok m u s \<longleftrightarrow>
     (if arrivals_from m s = [] then u < s else follows (fst (hd (arrivals_from m s))) (s - 1))"

lemma start_ok_Cons: "arrivals_from m s = a # r \<Longrightarrow> follows (fst a) (s - 1) \<Longrightarrow> start_ok m u s"
  by (simp add: start_ok_def)

lemma arrivals_from_append:
  "arrivals_from xs s \<noteq> [] \<Longrightarrow> arrivals_from (xs @ ys) s = arrivals_from xs s @ ys"
  "arrivals_from xs s = [] \<Longrightarrow> arrivals_from (xs @ ys) s = arrivals_from ys s"
  by (auto simp: arrivals_from_def dropWhile_append)

lemma start_insert_pending:
  assumes "start_ok (xs @ ys) u s" "arrivals_from (xs @ ys) s \<noteq> []" "s \<le> x" "\<forall>k \<in> keys ys. x < k"
  shows "start_ok (xs @ (x, t) # ys) x s"
proof (cases "arrivals_from xs s = []")
  case True
  then have f: "arrivals_from (xs @ ys) s = arrivals_from ys s" by (rule arrivals_from_append(2))
  have "arrivals_from [] s = []" by (simp add: arrivals_from_def)
  with assms(2) f have "ys \<noteq> []" by auto
  then have x: "x < fst (hd ys)" using assms(4) by simp
  then have "arrivals_from ys s = ys" using assms(3) by (intro arrivals_from_all) simp
  then have "follows (fst (hd ys)) (s - 1)" using assms(1,2) f by (simp add: start_ok_def)
  then have "follows x (s - 1)" using x assms(3) by (intro follows_near) (simp_all add: follows_def)
  moreover have "arrivals_from (xs @ (x, t) # ys) s = (x, t) # ys"
    unfolding arrivals_from_append(2) [OF True] using assms(3) by (intro arrivals_from_all) simp
  ultimately show ?thesis by (simp add: start_ok_def)
next
  case False
  then show ?thesis using assms(1,2) by (simp add: start_ok_def arrivals_from_append(1))
qed

lemma start_insert_first:
  assumes "arrivals_from xs s = []" "u < s" "near_step u x" "s \<le> x"
  shows "start_ok (xs @ (x, t) # ys) x s"
proof -
  have "follows x u" "x - u \<le> 2 ^ 15" using assms(2-4) by (auto simp: near_step_def follows_def)
  then have "follows x (s - 1)" using assms(2,4) by (cases "u = s - 1") (auto intro: follows_near)
  moreover have "arrivals_from (xs @ (x, t) # ys) s = (x, t) # ys"
    unfolding arrivals_from_append(2) [OF assms(1)] using assms(4) by (intro arrivals_from_all) simp
  ultimately show ?thesis by (simp add: start_ok_def)
qed

lemma start_after_insert:
  assumes "arrivals_ok m" "near_step u x" "start_ok m u s" "m = culled @ m1" "x \<notin> keys m1"
    and "culled \<noteq> [] \<Longrightarrow> arrivals_from m s = []"
  shows "start_ok (put_arrival m1 x t) x (if x < s then x else s)"
proof -
  have "arrivals_ok m1" using assms(1) arrivals_ok_append [of culled m1] unfolding assms(4) by simp
  then obtain xs ys where a: "m1 = xs @ ys" "put_arrival m1 x t = xs @ (x, t) # ys"
    "\<forall>k \<in> keys xs. k < x" "\<forall>k \<in> keys ys. x < k" using put_arrival_split [OF _ assms(5), of t] by blast
  consider "x < s" | "s \<le> x" "arrivals_from m s = []" | "s \<le> x" "arrivals_from m s \<noteq> []" by fastforce
  then show ?thesis
  proof cases
    case 1
    have "arrivals_from (xs @ (x, t) # ys) x = (x, t) # ys" using a(3) by (intro arrivals_from_split) auto
    then show ?thesis using 1 unfolding a(2) by (simp add: start_ok_def)
  next
    case 2
    then have "arrivals_from xs s = []" unfolding assms(4) a(1) by (simp add: arrivals_from_def)
    moreover have "u < s" using assms(3) 2(2) by (simp add: start_ok_def)
    ultimately show ?thesis using 2(1) start_insert_first assms(2) unfolding a(2) by simp
  next
    case 3
    then have m: "m = xs @ ys" using assms(4,6) a(1) by (cases "culled = []") simp_all
    have "start_ok (xs @ (x, t) # ys) x s"
      by (rule start_insert_pending [of xs ys u]) (use assms(3) 3 a(4) in \<open>simp_all add: m\<close>)
    then show ?thesis using 3(1) by (simp add: a(2))
  qed
qed

lemma start_after_duplicate:
  assumes "arrivals_ok m" "start_ok m u s" "m = culled @ m1" "x \<in> keys m1" "culled \<noteq> [] \<Longrightarrow> arrivals_from m s = []"
  shows "start_ok m1 x (if x < s then x else s)"
proof (cases "x < s")
  case True
  have ok: "arrivals_ok m1" using assms(1) arrivals_ok_append [of culled m1] unfolding assms(3) by simp
  have x: "x \<in> keys (arrivals_from m1 x)" using arrivals_from_keys [OF ok] assms(4) by simp
  then obtain a r where a: "arrivals_from m1 x = a # r" by (cases "arrivals_from m1 x") auto
  have "fst a \<le> x" using oldest_least [of a r x] suffix_ok(1) [OF ok, of x] x unfolding a by blast
  then have "fst a = x" using arrivals_from_Cons [OF a] by simp
  then show ?thesis using True start_ok_Cons [OF a] by simp
next
  case False
  have "x \<in> keys m" using assms(4) unfolding assms(3) by (auto simp: image_iff)
  then have "x \<in> keys (arrivals_from m s)" using arrivals_from_keys [OF assms(1)] False by simp
  then have "arrivals_from m s \<noteq> []" by auto
  moreover from this have "m = m1" using assms(3,5) by auto
  ultimately show ?thesis using assms(2) False by (simp add: start_ok_def)
qed

lemma near_duplicate:
  assumes "arrivals_ok m" "in_reach m u" "m = culled @ m1" "x \<in> keys m1"
  shows "in_reach m1 x"
proof -
  have ne: "m1 \<noteq> []" using assms(4) by auto
  then have n: "newest m = newest m1" by (simp add: assms(3))
  have ok: "arrivals_ok m1" using assms(1) arrivals_ok_append [of culled m1] unfolding assms(3) by simp
  have "newest m - 2 ^ 15 \<le> k" if "k \<in> keys m1" for k using that assms(2) by (auto simp: in_reach_def assms(3))
  then show ?thesis using ne assms(4) newest_greatest [OF ok assms(4)] unfolding in_reach_def n by blast
qed

subsection \<open>The invariant of the proxy\<close>

definition proxy_ok :: "estimator_proxy \<Rightarrow> bool" where
  "proxy_ok p \<longleftrightarrow> send_periodic_feedback p \<and> previous_abs_send_time p < 2 ^ 24 \<and>
     (case periodic_window_start_seq p of
        None \<Rightarrow> packet_arrival_times p = [] \<and> snu_last_value (proxy_unwrapper p) = None
      | Some s \<Rightarrow> snu_last_value (proxy_unwrapper p) = Some (of_int (last_unwrapped (proxy_unwrapper p))) \<and>
          arrivals_ok (packet_arrival_times p) \<and> linked (packet_arrival_times p) \<and>
          in_reach (packet_arrival_times p) (last_unwrapped (proxy_unwrapper p)) \<and>
          start_ok (packet_arrival_times p) (last_unwrapped (proxy_unwrapper p)) s)"

text \<open>What is not reported yet.\<close>

definition pending :: "estimator_proxy \<Rightarrow> arrival_map" where
  "pending p = (case periodic_window_start_seq p of None \<Rightarrow> [] | Some s \<Rightarrow> arrivals_from (packet_arrival_times p) s)"

lemma proxy_ok_init: "proxy_ok (RemoteEstimatorProxy_init config estimator now)"
  by (simp add: proxy_ok_def RemoteEstimatorProxy_init_def SeqNumUnwrapper_init_def)

lemma proxy_ok_update [simp]:
  "proxy_ok (p\<lparr>proxy_media_ssrc := ssrc\<rparr>) = proxy_ok p"
  "proxy_ok (p\<lparr>last_process_time_ms := now\<rparr>) = proxy_ok p"
  "proxy_ok (p\<lparr>send_interval_ms := ms\<rparr>) = proxy_ok p"
  "proxy_ok (p\<lparr>feedback_packet_count := c\<rparr>) = proxy_ok p"
  by (simp_all add: proxy_ok_def cong: option.case_cong)

lemma notify_estimator_ok:
  assumes "proxy_ok p" "absoluteSendTime (extension header) < 2 ^ 24"
  shows "\<exists>p' result. notify_estimator p t n header seq = Some (p', result) \<and> proxy_ok p' \<and> pending p' = pending p \<and>
    packet_arrival_times p' = packet_arrival_times p"
  using assms
  by (auto simp: notify_estimator_def GetAbsoluteSendTimeDelta_def dcheck_def Let_def proxy_ok_def pending_def
      cong: option.case_cong)

text \<open>The window when a packet arrives: some old arrivals are culled, the start may move back.\<close>

lemma start_window_cases:
  assumes "send_periodic_feedback p" "periodic_window_start_seq p = Some s"
  shows "\<exists>culled m. packet_arrival_times p = culled @ m \<and> (\<forall>k \<in> keys culled. k < x) \<and>
    (culled \<noteq> [] \<longrightarrow> arrivals_from (packet_arrival_times p) s = []) \<and>
    start_window p t x = p\<lparr>packet_arrival_times := m, periodic_window_start_seq := Some (if x < s then x else s)\<rparr>"
proof (cases "arrivals_from (packet_arrival_times p) s = []")
  case True
  let ?P = "\<lambda>a. fst a < x \<and> t - snd a \<ge> back_window_ms (send_config p)"
  have "\<forall>k \<in> keys (takeWhile ?P (packet_arrival_times p)). k < x" by (auto dest: set_takeWhileD)
  moreover have "start_window p t x = p\<lparr>packet_arrival_times := dropWhile ?P (packet_arrival_times p),
      periodic_window_start_seq := Some (if x < s then x else s)\<rparr>"
    using assms True by (simp add: start_window_def Let_def)
  ultimately show ?thesis using True
    by (intro exI [of _ "takeWhile ?P (packet_arrival_times p)"] exI [of _ "dropWhile ?P (packet_arrival_times p)"] conjI impI)
      (assumption | simp only: takeWhile_dropWhile_id)+
next
  case False
  then have "start_window p t x =
      p\<lparr>packet_arrival_times := packet_arrival_times p, periodic_window_start_seq := Some (if x < s then x else s)\<rparr>"
    using assms by (intro estimator_proxy.equality) (simp_all add: start_window_def Let_def)
  then show ?thesis by (intro exI [of _ "[]"] exI [of _ "packet_arrival_times p"]) simp
qed

lemma add_arrival_cases:
  fixes x t :: int
  assumes "send_periodic_feedback p" "periodic_window_start_seq p = Some s"
  defines "a \<equiv> put_arrival (packet_arrival_times p) x t"
  defines "kept \<equiv> arrivals_from a (newest a - 2 ^ 15)"
  shows "add_arrival p t x = p\<lparr>packet_arrival_times := kept,
    periodic_window_start_seq := Some (if kept = a then s else fst (hd kept))\<rparr>"
proof -
  obtain xs where "a = xs @ kept" using arrivals_from_suffix unfolding kept_def by blast
  then have "length kept < length a \<longleftrightarrow> kept \<noteq> a" by (cases xs) auto
  then show ?thesis using assms(1,2)
    unfolding add_arrival_def Let_def kMaxNumberOfPackets_def a_def [symmetric] kept_def [symmetric]
    by (cases "kept = a") (auto intro!: estimator_proxy.equality)
qed

lemma first_arrival_ok:
  assumes "proxy_ok p" "periodic_window_start_seq p = None" "SeqNumUnwrapper_Unwrap (proxy_unwrapper p) v = (U, x)"
    and "0 \<le> t" "t < 2 ^ 52"
  defines "q \<equiv> start_window (p\<lparr>proxy_unwrapper := U\<rparr>) t x"
  shows "packet_arrival_times q = []" "proxy_ok (add_arrival q t x)"
proof -
  have p: "packet_arrival_times p = []" "snu_last_value (proxy_unwrapper p) = None" "send_periodic_feedback p"
    "previous_abs_send_time p < 2 ^ 24" using assms(1,2) by (simp_all add: proxy_ok_def)
  have U: "last_unwrapped U = x" "snu_last_value U = Some (of_int x)"
    using assms(3) p(2) by (auto simp: SeqNumUnwrapper_Unwrap_def Let_def)
  have q: "q = p\<lparr>proxy_unwrapper := U, periodic_window_start_seq := Some x\<rparr>"
    using assms(2) p(3) by (simp add: q_def start_window_def Let_def)
  show "packet_arrival_times q = []" using p(1) by (simp add: q)
  have "arrivals_from [(x, t)] b = [(x, t)]" if "b \<le> x" for b using that by (intro arrivals_from_all) simp
  then have "add_arrival q t x = q\<lparr>packet_arrival_times := [(x, t)]\<rparr>"
    using p(1) by (simp add: q add_arrival_def put_arrival_def arrivals_from_def kMaxNumberOfPackets_def Let_def)
  moreover have "arrivals_ok [(x, t)]" "linked [(x, t)]" "in_reach [(x, t)] x" "start_ok [(x, t)] x x"
    using assms(4,5) \<open>\<And>b. b \<le> x \<Longrightarrow> _\<close> by (simp_all add: arrivals_ok_def linked_def in_reach_def start_ok_def)
  ultimately show "proxy_ok (add_arrival q t x)" using p U by (simp add: proxy_ok_def q)
qed

lemma arrival_ok:
  assumes "proxy_ok p" "periodic_window_start_seq p = Some s" "SeqNumUnwrapper_Unwrap (proxy_unwrapper p) v = (U, x)"
    and "0 \<le> t" "t < 2 ^ 52"
  defines "q \<equiv> start_window (p\<lparr>proxy_unwrapper := U\<rparr>) t x"
  shows "x \<in> keys (packet_arrival_times q) \<Longrightarrow> proxy_ok q"
    "x \<notin> keys (packet_arrival_times q) \<Longrightarrow> proxy_ok (add_arrival q t x)"
proof -
  let ?M = "packet_arrival_times p" and ?u = "last_unwrapped (proxy_unwrapper p)" and ?s = "if x < s then x else s"
  have p: "send_periodic_feedback p" "previous_abs_send_time p < 2 ^ 24"
    "snu_last_value (proxy_unwrapper p) = Some (of_int ?u)" and m: "arrivals_ok ?M" "linked ?M" "in_reach ?M ?u" "start_ok ?M ?u s"
    using assms(1,2) by (simp_all add: proxy_ok_def)
  note U = Unwrap_near [OF p(3) assms(3)]
  obtain culled m1 where c: "?M = culled @ m1" "\<forall>k \<in> keys culled. k < x" "culled \<noteq> [] \<Longrightarrow> arrivals_from ?M s = []"
    and q: "q = p\<lparr>proxy_unwrapper := U, packet_arrival_times := m1, periodic_window_start_seq := Some ?s\<rparr>"
    using start_window_cases [of "p\<lparr>proxy_unwrapper := U\<rparr>" s x t] p(1) assms(2) by (auto simp: q_def)
  have m1: "packet_arrival_times q = m1" "arrivals_ok m1" "linked m1"
    using m(1,2) arrivals_ok_append [of culled m1] linked_append [of culled m1] unfolding c(1) q by simp_all
  show "proxy_ok q" if "x \<in> keys (packet_arrival_times q)"
  proof -
    have x: "x \<in> keys m1" using that m1(1) by simp
    have "in_reach m1 x" by (rule near_duplicate [OF m(1,3) c(1) x])
    moreover have "start_ok m1 x ?s" by (rule start_after_duplicate [OF m(1,4) c(1) x c(3)])
    ultimately show ?thesis using m1(2,3) p(1,2) U unfolding proxy_ok_def q by simp
  qed
  show "proxy_ok (add_arrival q t x)" if "x \<notin> keys (packet_arrival_times q)"
  proof -
    have x: "x \<notin> keys m1" using that m1(1) by simp
    define a where "a = put_arrival m1 x t"
    define kept where "kept = arrivals_from a (newest a - 2 ^ 15)"
    define s' where "s' = (if kept = a then ?s else fst (hd kept))"
    have k: "arrivals_ok kept" "linked kept" "in_reach kept x"
      using insert_arrival [OF m(1-3) U(3) c(1,2) x assms(4,5)] unfolding kept_def a_def by simp_all
    have "start_ok a x ?s" unfolding a_def by (rule start_after_insert [OF m(1) U(3) m(4) c(1) x c(3)])
    moreover have "start_ok kept x (fst (hd kept))"
      using k(3) arrivals_from_all [of kept "fst (hd kept)"] by (simp add: start_ok_def in_reach_def)
    ultimately have "start_ok kept x s'" by (cases "kept = a") (simp_all add: s'_def)
    moreover have "add_arrival q t x = q\<lparr>packet_arrival_times := kept, periodic_window_start_seq := Some s'\<rparr>"
      using add_arrival_cases [of q ?s t x] p(1) m1(1) unfolding a_def [symmetric] kept_def [symmetric] s'_def
      by (simp add: q kept_def a_def)
    ultimately show ?thesis using k p(1,2) U unfolding proxy_ok_def q by simp
  qed
qed

text \<open>Packets that ask for no feedback, with a send time of 24 bits.\<close>

definition plain_header :: "rtp_header \<Rightarrow> bool" where
  "plain_header header \<longleftrightarrow> absoluteSendTime (extension header) < 2 ^ 24 \<and>
     (case ext_feedback_request (extension header) of None \<Rightarrow> True | Some request \<Rightarrow> sequence_count request = 0)"

lemma IncomingPacket_seq:
  assumes "plain_header header" "0 \<le> t" "t \<le> kMaxTimeMs" "hasTransportSequenceNumber (extension header)"
    and "SeqNumUnwrapper_Unwrap (proxy_unwrapper p) (transportSequenceNumber (extension header)) = (U, x)"
  defines "q \<equiv> start_window (p\<lparr>proxy_media_ssrc := hdr_ssrc header, proxy_unwrapper := U\<rparr>) t x"
  shows "IncomingPacket p t n header =
    (if x \<in> keys (packet_arrival_times q) then Some (q, [], None)
     else do { (p', result) \<leftarrow> notify_estimator (add_arrival q t x) t n header x; Some (p', [], result) })"
proof -
  have in_keys: "list_ex (\<lambda>a. fst a = x) m \<longleftrightarrow> x \<in> keys m" for m :: arrival_map by (auto simp: list_ex_iff image_iff)
  have "(case ext_feedback_request (extension header) of None \<Rightarrow> Some (r, [])
      | Some request \<Rightarrow> SendFeedbackOnRequest r x request) = Some (r, [])" for r
    using assms(1) by (auto simp: plain_header_def SendFeedbackOnRequest_def split: option.splits)
  then show ?thesis using assms(2-5) by (simp add: IncomingPacket_def Let_def q_def [symmetric] in_keys)
qed

lemma IncomingPacket_ok:
  assumes "proxy_ok p" "plain_header header" "t < 2 ^ 52"
  shows "\<exists>p' result. IncomingPacket p t n header = Some (p', [], result) \<and> proxy_ok p'"
proof -
  let ?p = "p\<lparr>proxy_media_ssrc := hdr_ssrc header\<rparr>" and ?ext = "extension header"
  have abs: "absoluteSendTime ?ext < 2 ^ 24" using assms(2) by (simp add: plain_header_def)
  have ok: "proxy_ok ?p" using assms(1) by simp
  consider "t < 0 \<or> t > kMaxTimeMs" | "0 \<le> t" "t \<le> kMaxTimeMs" "\<not> hasTransportSequenceNumber ?ext"
    | "0 \<le> t" "t \<le> kMaxTimeMs" "hasTransportSequenceNumber ?ext" by linarith
  then show ?thesis
  proof cases
    case 1
    then show ?thesis using assms(1) by (auto simp: IncomingPacket_def)
  next
    case 2
    then show ?thesis using notify_estimator_ok [OF ok abs, of t n 0] by (auto simp: IncomingPacket_def Let_def)
  next
    case 3
    obtain U x where U: "SeqNumUnwrapper_Unwrap (proxy_unwrapper ?p) (transportSequenceNumber ?ext) = (U, x)" by fastforce
    let ?q = "start_window (?p\<lparr>proxy_unwrapper := U\<rparr>) t x"
    have q: "x \<in> keys (packet_arrival_times ?q) \<Longrightarrow> proxy_ok ?q" "x \<notin> keys (packet_arrival_times ?q) \<Longrightarrow> proxy_ok (add_arrival ?q t x)"
      using first_arrival_ok [OF ok _ U 3(1) assms(3)] arrival_ok [OF ok _ U 3(1) assms(3)]
      by (cases "periodic_window_start_seq ?p"; simp)+
    show ?thesis
      using IncomingPacket_seq [OF assms(2) 3, of p U x n] U q notify_estimator_ok [OF q(2) abs, of t n x]
      by (cases "x \<in> keys (packet_arrival_times ?q)") auto
  qed
qed

lemma proxy_ok_pending:
  assumes "proxy_ok p" "periodic_window_start_seq p = Some s"
  shows "arrivals_ok (packet_arrival_times p)" "linked (pending p)"
    "pending p \<noteq> [] \<Longrightarrow> follows (fst (hd (pending p))) (s - 1)" "pending p = arrivals_from (packet_arrival_times p) s"
  using assms suffix_ok(2) [of "packet_arrival_times p" s] by (auto simp: proxy_ok_def pending_def start_ok_def)

lemma Proxy_Process_ok:
  assumes "proxy_ok p"
  shows "\<exists>p' sent chunks. Proxy_Process p now estimate = Some (p', sent) \<and> concat chunks = pending p \<and>
    reports (feedback_packet_count p) (proxy_media_ssrc p) (if has_estimator p then estimate else None) chunks sent \<and>
    pending p' = [] \<and> proxy_ok p'"
proof (cases "periodic_window_start_seq p")
  case None
  then have "Proxy_Process p now estimate = Some (p\<lparr>last_process_time_ms := now\<rparr>, [])"
    using assms by (simp add: Proxy_Process_def SendPeriodicFeedbacks_def proxy_ok_def)
  then show ?thesis using None assms
    by (intro exI [of _ "p\<lparr>last_process_time_ms := now\<rparr>"] exI [of _ "[]"]) (simp add: pending_def)
next
  case (Some s)
  let ?p = "p\<lparr>last_process_time_ms := now\<rparr>" and ?e = "if has_estimator p then estimate else None"
  let ?M = "packet_arrival_times p" and ?u = "last_unwrapped (proxy_unwrapper p)"
  note o = proxy_ok_pending [OF assms Some]
  define s' where "s' = (if pending p = [] then s else newest (pending p) + 1)"
  obtain sent chunks where r: "send_feedbacks ?p ?e = Some (?p\<lparr>feedback_packet_count := feedback_packet_count ?p + of_nat (length sent),
      periodic_window_start_seq := Some s'\<rparr>, sent)"
    "concat chunks = pending p" "reports (feedback_packet_count p) (proxy_media_ssrc p) ?e chunks sent"
    using send_feedbacks_reports [of ?p s ?e] Some o unfolding s'_def by auto
  let ?q = "?p\<lparr>feedback_packet_count := feedback_packet_count ?p + of_nat (length sent), periodic_window_start_seq := Some s'\<rparr>"
  have "Proxy_Process p now estimate = Some (?q, sent)"
    using assms Some r(1) by (simp add: Proxy_Process_def SendPeriodicFeedbacks_def proxy_ok_def)
  moreover have none: "arrivals_from ?M s' = []"
    using arrivals_from_next [OF o(1), of s "pending p" "[]"] o(4) by (cases "pending p = []") (simp_all add: s'_def)
  moreover have "?u < s'"
  proof (cases "pending p = []")
    case True
    then show ?thesis using assms Some o(4) by (simp add: proxy_ok_def start_ok_def s'_def)
  next
    case False
    then have "newest (pending p) = newest ?M" using suffix_ok(3) [OF o(1)] o(4) by simp
    moreover have "?u \<le> newest ?M" using assms Some by (simp add: proxy_ok_def in_reach_def)
    ultimately show ?thesis using False by (simp add: s'_def)
  qed
  ultimately show ?thesis using assms Some r(2,3)
    by (intro exI [of _ ?q] exI [of _ sent] exI [of _ chunks]) (simp add: pending_def proxy_ok_def start_ok_def)
qed

text \<open>The states of a proxy that sends periodic feedback and gets no requests. They do not depend on the estimates,
  which are numbers here.\<close>

inductive proxy_reach :: "estimator_proxy \<Rightarrow> bool" where
  start: "proxy_reach (RemoteEstimatorProxy_init config estimator now)"
| packet: "proxy_reach p \<Longrightarrow> plain_header header \<Longrightarrow> t < 2 ^ 52 \<Longrightarrow>
    IncomingPacket p t n header = Some (p', sent, result) \<Longrightarrow> proxy_reach p'"
| feedback: "proxy_reach p \<Longrightarrow> Proxy_Process p now (estimate :: nat option) = Some (p', reported) \<Longrightarrow> proxy_reach p'"
| bitrate: "proxy_reach p \<Longrightarrow> proxy_reach (OnBitrateChanged interval_for p bps)"

lemma proxy_reach_ok: "proxy_reach p \<Longrightarrow> proxy_ok p"
proof (induction rule: proxy_reach.induct)
  case (packet p header t n p' sent result)
  then show ?case using IncomingPacket_ok [of p header t n] by auto
next
  case (feedback p now estimate p' reported)
  then show ?case using Proxy_Process_ok [of p now estimate] by auto
qed (simp_all add: proxy_ok_init OnBitrateChanged_def)

lemma arrivals_from_mem: "b \<in> set m \<Longrightarrow> k \<le> fst b \<Longrightarrow> b \<in> set (arrivals_from m k)"
  using arrivals_from_suffix [of m k] by (metis Un_iff leD set_append)

lemma insert_pending:
  assumes "arrivals_ok m" "x \<notin> keys m" "0 \<le> t" "t < 2 ^ 52" "s \<le> x"
  defines "a \<equiv> put_arrival m x t"
  defines "kept \<equiv> arrivals_from a (newest a - 2 ^ 15)"
  shows "(x, t) \<in> set (arrivals_from kept (if kept = a then s else fst (hd kept))) \<or> x < newest kept - 2 ^ 15"
proof -
  obtain xs ys where "m = xs @ ys" "a = xs @ (x, t) # ys" "\<forall>k \<in> keys xs. k < x" "\<forall>k \<in> keys ys. x < k"
    using put_arrival_split [OF assms(1,2), of t] unfolding a_def by blast
  then have a: "arrivals_ok a" "(x, t) \<in> set a" using assms(1,3,4) by (auto simp: arrivals_ok_def sorted_wrt_append)
  then have "newest a \<in> keys kept" unfolding kept_def arrivals_from_keys [OF a(1)] by (auto intro!: imageI last_in_set)
  then have "kept \<noteq> []" by auto
  then have "newest kept = newest a" using suffix_ok(3) [OF a(1)] unfolding kept_def by simp
  moreover have "(x, t) \<in> set (arrivals_from kept (if kept = a then s else fst (hd kept)))" if "newest a - 2 ^ 15 \<le> x"
  proof -
    have x: "(x, t) \<in> set kept" unfolding kept_def using a(2) that by (intro arrivals_from_mem) simp_all
    have "arrivals_ok kept" unfolding kept_def by (rule suffix_ok(1) [OF a(1)])
    then have "fst (hd kept) \<le> x" using x oldest_least [of "hd kept" "tl kept" x] by (cases kept) force+
    then show ?thesis using assms(5) x by (intro arrivals_from_mem) simp_all
  qed
  ultimately show ?thesis by linarith
qed

lemma arrival_pending:
  fixes t :: int and U :: "u16 seq_num_unwrapper"
  assumes "proxy_ok p" "x \<notin> keys (packet_arrival_times p)" "0 \<le> t" "t < 2 ^ 52"
  defines "q \<equiv> start_window (p\<lparr>proxy_unwrapper := U\<rparr>) t x"
  shows "x \<notin> keys (packet_arrival_times q)"
    "(x, t) \<in> set (pending (add_arrival q t x)) \<or> x < newest (packet_arrival_times (add_arrival q t x)) - 2 ^ 15"
proof -
  obtain culled m s where c: "packet_arrival_times p = culled @ m" "s \<le> x"
    and q: "q = p\<lparr>proxy_unwrapper := U, packet_arrival_times := m, periodic_window_start_seq := Some s\<rparr>"
  proof (cases "periodic_window_start_seq p")
    case None
    then have "q = p\<lparr>proxy_unwrapper := U, packet_arrival_times := packet_arrival_times p, periodic_window_start_seq := Some x\<rparr>"
      using assms(1) by (intro estimator_proxy.equality) (simp_all add: q_def start_window_def Let_def proxy_ok_def)
    then show ?thesis by (intro that [of "[]" "packet_arrival_times p" x]) simp_all
  next
    case (Some s)
    then obtain culled m where "packet_arrival_times p = culled @ m"
      "q = p\<lparr>proxy_unwrapper := U, packet_arrival_times := m, periodic_window_start_seq := Some (if x < s then x else s)\<rparr>"
      using assms(1) start_window_cases [of "p\<lparr>proxy_unwrapper := U\<rparr>" s x t] unfolding q_def proxy_ok_def by auto
    then show ?thesis by (intro that [of culled m "if x < s then x else s"]) simp_all
  qed
  have x: "x \<notin> keys m" using assms(2) by (auto simp: c(1))
  then show "x \<notin> keys (packet_arrival_times q)" by (simp add: q)
  have p: "send_periodic_feedback p" "arrivals_ok (packet_arrival_times p)"
    using assms(1) by (auto simp: proxy_ok_def arrivals_ok_def split: option.splits)
  then have "arrivals_ok m" using arrivals_ok_append [of culled m] by (simp add: c(1))
  note kept = insert_pending [OF this x assms(3,4) c(2)]
  have m: "packet_arrival_times q = m" by (simp add: q)
  have "send_periodic_feedback q" "periodic_window_start_seq q = Some s" using p(1) by (simp_all add: q)
  note add = add_arrival_cases [OF this, of t x, unfolded m]
  show "(x, t) \<in> set (pending (add_arrival q t x)) \<or> x < newest (packet_arrival_times (add_arrival q t x)) - 2 ^ 15"
    using kept unfolding add pending_def by simp
qed

lemma IncomingPacket_pending:
  assumes "proxy_ok p" "plain_header header" "0 \<le> t" "t < 2 ^ 52" "hasTransportSequenceNumber (extension header)"
    and "SeqNumUnwrapper_Unwrap (proxy_unwrapper p) (transportSequenceNumber (extension header)) = (U, x)"
    and "x \<notin> keys (packet_arrival_times p)" "IncomingPacket p t n header = Some (p', sent, result)"
  shows "(x, t) \<in> set (pending p') \<or> x < newest (packet_arrival_times p') - 2 ^ 15"
proof -
  let ?p = "p\<lparr>proxy_media_ssrc := hdr_ssrc header\<rparr>"
  let ?q = "start_window (?p\<lparr>proxy_unwrapper := U\<rparr>) t x"
  have ok: "proxy_ok ?p" using assms(1) by simp
  have U: "SeqNumUnwrapper_Unwrap (proxy_unwrapper ?p) (transportSequenceNumber (extension header)) = (U, x)"
    using assms(6) by simp
  note pend = arrival_pending [OF ok _ assms(3,4), of x U]
  have x: "x \<notin> keys (packet_arrival_times ?q)" using pend(1) assms(7) by simp
  have "proxy_ok (add_arrival ?q t x)"
    using x first_arrival_ok [OF ok _ U assms(3,4)] arrival_ok [OF ok _ U assms(3,4)]
    by (cases "periodic_window_start_seq ?p") simp_all
  moreover have "absoluteSendTime (extension header) < 2 ^ 24" using assms(2) by (simp add: plain_header_def)
  ultimately obtain p1 r where r: "notify_estimator (add_arrival ?q t x) t n header x = Some (p1, r)"
    "pending p1 = pending (add_arrival ?q t x)" "packet_arrival_times p1 = packet_arrival_times (add_arrival ?q t x)"
    using notify_estimator_ok by blast
  have "t \<le> kMaxTimeMs" using assms(4) by (simp add: kMaxTimeMs_def)
  from IncomingPacket_seq [OF assms(2,3) this assms(5,6), of n] have "p' = p1" using assms(8) x r(1) by simp
  then show ?thesis using pend(2) assms(7) r(2,3) by simp
qed

subsection \<open>Properties\<close>

text \<open>C2: every arrival is reported. In every state that a proxy with periodic feedback reaches from packets without
  feedback requests, \<open>Process\<close> returns, and the messages it sends divide the pending arrivals among them, each once
  and in order: from the serialised messages the sender parses exactly these numbers, with times within 125
  microseconds. The messages are numbered without a gap and nothing is pending afterwards.\<close>

theorem periodic_feedback_reports_all:
  assumes "proxy_reach p"
  shows "\<exists>p' sent chunks. Proxy_Process p now estimate = Some (p', sent) \<and> concat chunks = pending p \<and>
    reports (feedback_packet_count p) (proxy_media_ssrc p) (if has_estimator p then estimate else None) chunks sent \<and>
    pending p' = []"
  using Proxy_Process_ok [OF proxy_reach_ok [OF assms], of now estimate] by blast

definition example_header :: "u16 \<Rightarrow> int option \<Rightarrow> rtp_header" where
  "example_header seq count = \<lparr>hdr_ssrc = 1, headerLength = 12, extension =
     \<lparr>hasAbsoluteSendTime = False, absoluteSendTime = 0, hasTransportSequenceNumber = True, transportSequenceNumber = seq,
      ext_feedback_request = map_option (\<lambda>c. \<lparr>request_include_timestamps = True, sequence_count = c\<rparr>) count\<rparr>\<rparr>"

definition proxy_example :: estimator_proxy where
  "proxy_example = RemoteEstimatorProxy_init \<lparr>back_window_ms = 500, min_interval_ms = 50, max_interval_ms = 250, default_interval_ms = 100\<rparr> False 0"

fun example_run :: "estimator_proxy \<Rightarrow> (int \<times> rtp_header) list \<Rightarrow> estimator_proxy option" where
  "example_run p [] = Some p"
| "example_run p ((t, header) # packets) =
     do { (p, _) \<leftarrow> IncomingPacket p t 0 header; example_run p packets }"

lemma example_run_reach:
  "proxy_reach p \<Longrightarrow> list_all (\<lambda>(t, header). t < 2 ^ 52 \<and> plain_header header) packets \<Longrightarrow> example_run p packets = Some p' \<Longrightarrow>
   proxy_reach p'"
proof (induction packets arbitrary: p)
  case (Cons a packets)
  obtain t header where a: "a = (t, header)" by (cases a)
  obtain p1 sent result where i: "IncomingPacket p t 0 header = Some (p1, sent, result)" "example_run p1 packets = Some p'"
    using Cons.prems(3) by (auto simp: a bind_eq_Some_conv)
  have "proxy_reach p1" using Cons.prems(1,2) by (intro proxy_reach.packet [OF _ _ _ i(1)]) (simp_all add: a)
  then show ?case using Cons.IH [of p1] Cons.prems(2) i(2) by simp
qed simp

definition example_packets :: "(int \<times> rtp_header) list" where
  "example_packets = [(10, example_header 65530 None), (20, example_header 3 None), (25, example_header 65533 None)]"

definition example_proxy :: estimator_proxy where
  "example_proxy = the (example_run proxy_example example_packets)"

lemma example_proxy_reach: "proxy_reach example_proxy"
proof (rule example_run_reach)
  show "proxy_reach proxy_example" unfolding proxy_example_def by (rule proxy_reach.start)
  show "list_all (\<lambda>(t, header). t < 2 ^ 52 \<and> plain_header header) example_packets" by code_simp
  show "example_run proxy_example example_packets = Some example_proxy" by code_simp
qed

theorem periodic_feedback_reports_all_witness:
  "\<exists>p' sent chunks. Proxy_Process example_proxy 40 (Some (7 :: nat)) = Some (p', sent) \<and>
     concat chunks = [(65530, 10), (65533, 25), (65539, 20)] \<and> reports 0 1 None chunks sent \<and> pending p' = []"
proof -
  have "pending example_proxy = [(65530, 10), (65533, 25), (65539, 20)]" by code_simp
  moreover have "feedback_packet_count example_proxy = 0" "proxy_media_ssrc example_proxy = 1" "\<not> has_estimator example_proxy"
    by code_simp+
  ultimately show ?thesis
    using periodic_feedback_reports_all [OF example_proxy_reach, of 40 "Some (7 :: nat)"] by simp
qed

text \<open>C4: no arrival is lost before it is reported. In the same states, with periodic feedback on and no feedback
  requests so far, \<open>IncomingPacket\<close> returns for every packet that has no feedback request and an arrival time below
  \<open>2 ^ 52\<close> milliseconds. A packet with a time that is not negative whose number was not in the map is pending afterwards with the time it arrived,
  unless a packet more than \<open>kMaxNumberOfPackets\<close> ahead of it has arrived.\<close>

theorem incoming_packet_is_recorded:
  assumes "proxy_reach p" "plain_header header" "t < 2 ^ 52"
  shows "\<exists>p' result. IncomingPacket p t n header = Some (p', [], result) \<and>
    (\<forall>U x. 0 \<le> t \<longrightarrow> hasTransportSequenceNumber (extension header) \<longrightarrow>
       SeqNumUnwrapper_Unwrap (proxy_unwrapper p) (transportSequenceNumber (extension header)) = (U, x) \<longrightarrow>
       x \<notin> fst ` set (packet_arrival_times p) \<longrightarrow>
       (x, t) \<in> set (pending p') \<or> x < fst (last (packet_arrival_times p')) - kMaxNumberOfPackets)"
proof -
  note ok = proxy_reach_ok [OF assms(1)]
  obtain p' result where "IncomingPacket p t n header = Some (p', [], result)"
    using IncomingPacket_ok [OF ok assms(2,3)] by blast
  with IncomingPacket_pending [OF ok assms(2) _ assms(3) _ _ _ this] show ?thesis
    unfolding kMaxNumberOfPackets_def by (intro exI conjI) auto
qed

theorem incoming_packet_is_recorded_witness:
  "\<exists>p' result. IncomingPacket example_proxy 30 0 (example_header 65535 None) = Some (p', [], result) \<and>
     ((65535, 30) \<in> set (pending p') \<or> 65535 < fst (last (packet_arrival_times p')) - kMaxNumberOfPackets)"
proof -
  let ?h = "example_header 65535 None"
  have h: "plain_header ?h" by code_simp
  have "snd (SeqNumUnwrapper_Unwrap (proxy_unwrapper example_proxy) 65535) = 65535" by code_simp
  then have U: "SeqNumUnwrapper_Unwrap (proxy_unwrapper example_proxy) (transportSequenceNumber (extension ?h)) =
      (fst (SeqNumUnwrapper_Unwrap (proxy_unwrapper example_proxy) 65535), 65535)"
    by (simp add: example_header_def prod_eq_iff)
  have new: "65535 \<notin> fst ` set (packet_arrival_times example_proxy)" "hasTransportSequenceNumber (extension ?h)" by code_simp+
  have "\<exists>p' result. IncomingPacket example_proxy 30 0 ?h = Some (p', [], result) \<and>
      (\<forall>U x. 0 \<le> (30 :: int) \<longrightarrow> hasTransportSequenceNumber (extension ?h) \<longrightarrow>
         SeqNumUnwrapper_Unwrap (proxy_unwrapper example_proxy) (transportSequenceNumber (extension ?h)) = (U, x) \<longrightarrow>
         x \<notin> fst ` set (packet_arrival_times example_proxy) \<longrightarrow>
         (x, 30) \<in> set (pending p') \<or> x < fst (last (packet_arrival_times p')) - kMaxNumberOfPackets)"
    by (rule incoming_packet_is_recorded [OF example_proxy_reach h]) simp
  with U new show ?thesis by fastforce
qed

subsection \<open>Feedback requests\<close>









text \<open>The same happens when periodic feedback is switched off for a while: the range of the map is limited then without
  moving the start of the window.\<close>

lemma switching_aborts_periodic_feedback:
  "do { p \<leftarrow> example_run proxy_example [(10, example_header 0 None)];
        p \<leftarrow> example_run (SetSendPeriodicFeedback p False)
          [(20, example_header 20000 None), (30, example_header 40000 None), (40, example_header 60000 None)];
        let p = SetSendPeriodicFeedback p True;
        Some (periodic_window_start_seq p, packet_arrival_times p, Proxy_Process p 50 (None :: nat option)) }
   = Some (Some 0, [(40000, 30), (60000, 40)], None)"
  by code_simp

text \<open>A request in a packet that is too old to be kept gives \<open>BuildFeedbackPacket\<close> an empty range.\<close>

lemma late_request_faults:
  "do { p \<leftarrow> example_run proxy_example [(10, example_header 40000 None), (20, example_header 20000 None)];
        Some (packet_arrival_times p, IncomingPacket p 30 0 (example_header 0 (Some 1)) = None) }
   = Some ([(20000, 20), (40000, 10)], True)"
  by code_simp

end
