(* ===== verification/Bit_Buffer.thy ===== *)
theory Bit_Buffer
  imports Rtc_Prelude "HOL-Library.Code_Target_Nat"
begin

unbundle bit_operations_syntax

text \<open>
  Reading and writing single bits: classes \<open>BitBuffer\<close> and \<open>BitBufferWriter\<close> of
  \<open>src/src/myrtc/rtc_base/bit_buffer.{h,cc}\<close>. The buffer is a list of bytes; the reference is the list of its bits, the
  highest bit of a byte first.

  Output pointers are never null. An operation that fails returns the buffer with \<open>None\<close> or \<open>False\<close>; \<open>None\<close> for
  the whole result is a failed check, an access outside the buffer or a shift by the width of the shifted type.
\<close>

subsection \<open>The model\<close>

record bit_buffer =
  bb_bytes :: bytes
  byte_count :: nat
  byte_offset :: nat
  bit_offset :: nat

definition LowestBits :: "u8 \<Rightarrow> nat \<Rightarrow> u8 option" where
  "LowestBits byte bit_count = do { dcheck (bit_count \<le> 8); Some (byte AND of_nat (2 ^ bit_count - 1)) }"

definition HighestBits :: "u8 \<Rightarrow> nat \<Rightarrow> u8 option" where
  "HighestBits byte bit_count =
     do { dcheck (bit_count \<le> 8);
          let shift = 8 - bit_count;
          let mask = push_bit shift 0xFF;
          Some (drop_bit shift (byte AND mask)) }"

definition HighestByte :: "u64 \<Rightarrow> u8" where
  "HighestByte val = ucast (drop_bit 56 val)"

definition WritePartialByte :: "u8 \<Rightarrow> nat \<Rightarrow> u8 \<Rightarrow> nat \<Rightarrow> u8 option" where
  "WritePartialByte source source_bit_count target target_bit_offset =
     do { dcheck (target_bit_offset < 8);
          dcheck (source_bit_count < 9);
          dcheck (source_bit_count \<le> 8 - target_bit_offset);
          let mask = drop_bit target_bit_offset (push_bit (8 - source_bit_count) (0xFF :: u8));
          Some ((target AND NOT mask) OR drop_bit target_bit_offset source) }"

function CountBits :: "u64 \<Rightarrow> nat" where
  "CountBits val = (if val \<noteq> 0 then 1 + CountBits (drop_bit 1 val) else 0)"
  by pat_completeness auto
termination
proof (relation "measure unat", simp, goal_cases)
  case (1 val)
  then have "0 < unat val" by (simp add: unat_gt_0)
  then show ?case unfolding in_measure unat_drop_bit_eq by (simp add: drop_bit_eq_div)
qed

declare CountBits.simps [simp del]

definition BitBuffer_init :: "bytes \<Rightarrow> nat \<Rightarrow> bit_buffer option" where
  "BitBuffer_init bytes n =
     do { dcheck (n \<le> 2 ^ 32 - 1);
          Some \<lparr>bb_bytes = bytes, byte_count = n, byte_offset = 0, bit_offset = 0\<rparr> }"

definition RemainingBitCount :: "bit_buffer \<Rightarrow> nat" where
  "RemainingBitCount b = unat ((of_nat (byte_count b) - of_nat (byte_offset b)) * 8 - of_nat (bit_offset b) :: u64)"

text \<open>The bytes behind the first one that \<open>PeekBits\<close> looks at.\<close>

fun peek_rest :: "bytes \<Rightarrow> u32 \<Rightarrow> nat \<Rightarrow> nat \<Rightarrow> u32 option" where
  "peek_rest bytes bits pos bit_count =
     (if bit_count \<ge> 8 then
        do { byte \<leftarrow> get_byte bytes pos;
             peek_rest bytes (push_bit 8 bits OR ucast byte) (pos + 1) (bit_count - 8) }
      else if bit_count > 0 then
        do { byte \<leftarrow> get_byte bytes pos;
             high \<leftarrow> HighestBits byte bit_count;
             Some (push_bit bit_count bits OR ucast high) }
      else Some bits)"

declare peek_rest.simps [simp del]

definition PeekBits :: "bit_buffer \<Rightarrow> nat \<Rightarrow> u32 option option" where
  "PeekBits b bit_count =
     do { dcheck (bit_count > 0);
          if bit_count > RemainingBitCount b \<or> bit_count > 32 then Some None
          else do {
            let remaining_bits_in_current_byte = 8 - bit_offset b;
            byte \<leftarrow> get_byte (bb_bytes b) (byte_offset b);
            bits \<leftarrow> LowestBits byte remaining_bits_in_current_byte;
            if bit_count < remaining_bits_in_current_byte then do {
              val \<leftarrow> HighestBits bits (bit_offset b + bit_count);
              Some (Some (ucast val)) }
            else do {
              val \<leftarrow> peek_rest (bb_bytes b) (ucast bits) (byte_offset b + 1) (bit_count - remaining_bits_in_current_byte);
              Some (Some val) } } }"

definition ConsumeBits :: "bit_buffer \<Rightarrow> nat \<Rightarrow> bit_buffer \<times> bool" where
  "ConsumeBits b bit_count =
     (if bit_count > RemainingBitCount b then (b, False)
      else (b\<lparr>byte_offset := byte_offset b + (bit_offset b + bit_count) div 8,
              bit_offset := (bit_offset b + bit_count) mod 8\<rparr>, True))"

definition ConsumeBytes :: "bit_buffer \<Rightarrow> nat \<Rightarrow> bit_buffer \<times> bool" where
  "ConsumeBytes b n = ConsumeBits b (n * 8 mod 2 ^ 64)"

definition ReadBits :: "bit_buffer \<Rightarrow> nat \<Rightarrow> (bit_buffer \<times> u32 option) option" where
  "ReadBits b bit_count =
     do { val \<leftarrow> PeekBits b bit_count;
          case val of
            None \<Rightarrow> Some (b, None)
          | Some v \<Rightarrow> (let (b, ok) = ConsumeBits b bit_count in Some (b, if ok then Some v else None)) }"

definition ReadUInt8 :: "bit_buffer \<Rightarrow> (bit_buffer \<times> u8 option) option" where
  "ReadUInt8 b =
     do { (b, val) \<leftarrow> ReadBits b 8;
          case val of
            None \<Rightarrow> Some (b, None)
          | Some v \<Rightarrow> do { dcheck (v \<le> 0xFF); Some (b, Some (ucast v)) } }"

definition ReadUInt16 :: "bit_buffer \<Rightarrow> (bit_buffer \<times> u16 option) option" where
  "ReadUInt16 b =
     do { (b, val) \<leftarrow> ReadBits b 16;
          case val of
            None \<Rightarrow> Some (b, None)
          | Some v \<Rightarrow> do { dcheck (v \<le> 0xFFFF); Some (b, Some (ucast v)) } }"

definition ReadUInt32 :: "bit_buffer \<Rightarrow> (bit_buffer \<times> u32 option) option" where
  "ReadUInt32 b = ReadBits b 32"

definition ReadNonSymmetric :: "bit_buffer \<Rightarrow> u32 \<Rightarrow> (bit_buffer \<times> u32 option) option" where
  "ReadNonSymmetric b num_values =
     do { dcheck (num_values > 0);
          dcheck (num_values \<le> 2 ^ 31);
          let count_bits = CountBits (ucast num_values);
          dcheck (count_bits < 32);
          let num_min_bits_values = push_bit count_bits 1 - num_values;
          (b, val) \<leftarrow> ReadBits b (count_bits - 1);
          case val of
            None \<Rightarrow> Some (b, None)
          | Some v \<Rightarrow>
              if v < num_min_bits_values then Some (b, Some v)
              else do {
                (b, extra_bit) \<leftarrow> ReadBits b 1;
                case extra_bit of
                  None \<Rightarrow> Some (b, None)
                | Some e \<Rightarrow> Some (b, Some (push_bit 1 v + e - num_min_bits_values)) } }"

definition GetCurrentOffset :: "bit_buffer \<Rightarrow> nat \<times> nat" where
  "GetCurrentOffset b = (byte_offset b, bit_offset b)"

definition Seek :: "bit_buffer \<Rightarrow> nat \<Rightarrow> nat \<Rightarrow> bit_buffer \<times> bool" where
  "Seek b to_byte to_bit =
     (if to_byte > byte_count b \<or> to_bit > 7 \<or> to_byte = byte_count b \<and> to_bit > 0 then (b, False)
      else (b\<lparr>byte_offset := to_byte, bit_offset := to_bit\<rparr>, True))"

definition bit_position :: "bit_buffer \<Rightarrow> nat" where
  "bit_position b = 8 * byte_offset b + bit_offset b"

lemma RemainingBitCount_word:
  "RemainingBitCount b = unat (of_nat (8 * byte_count b) - of_nat (bit_position b) :: u64)"
  by (simp add: RemainingBitCount_def bit_position_def algebra_simps)

lemma ConsumeBits_position:
  "n \<le> RemainingBitCount b \<Longrightarrow> bit_position (fst (ConsumeBits b n)) = bit_position b + n"
  by (simp add: ConsumeBits_def bit_position_def)

lemma RemainingBitCount_less:
  assumes "PeekBits b 1 = Some (Some v)"
  shows "RemainingBitCount (fst (ConsumeBits b 1)) < RemainingBitCount b"
proof -
  have r: "1 \<le> RemainingBitCount b" using assms by (simp add: PeekBits_def split: if_splits)
  let ?c = "of_nat (8 * byte_count b) - of_nat (bit_position b) :: u64"
  have "byte_count (fst (ConsumeBits b 1)) = byte_count b" by (simp add: ConsumeBits_def)
  then have "RemainingBitCount (fst (ConsumeBits b 1)) = unat (?c - 1)"
    using ConsumeBits_position [OF r] by (simp add: RemainingBitCount_word algebra_simps)
  moreover have "1 \<le> unat ?c" using r by (simp add: RemainingBitCount_word)
  then have "unat (?c - 1) = unat ?c - 1" by (subst unat_sub) (simp_all add: word_le_nat_alt)
  ultimately show ?thesis using \<open>1 \<le> unat ?c\<close> by (simp add: RemainingBitCount_word)
qed

text \<open>The loop of \<open>ReadExponentialGolomb\<close>.\<close>

function count_zeros :: "bit_buffer \<Rightarrow> nat \<Rightarrow> (bit_buffer \<times> nat) option" where
  "count_zeros b zero_bit_count =
     (case PeekBits b 1 of
        None \<Rightarrow> None
      | Some None \<Rightarrow> Some (b, zero_bit_count)
      | Some (Some v) \<Rightarrow>
          if v = 0 then count_zeros (fst (ConsumeBits b 1)) (zero_bit_count + 1) else Some (b, zero_bit_count))"
  by pat_completeness auto
termination by (relation "measure (\<lambda>(b, z). RemainingBitCount b)") (auto dest: RemainingBitCount_less [unfolded One_nat_def])

declare count_zeros.simps [simp del]

definition ReadExponentialGolomb :: "bit_buffer \<Rightarrow> (bit_buffer \<times> u32 option) option" where
  "ReadExponentialGolomb b =
     do { let original = b;
          (b, zero_bit_count) \<leftarrow> count_zeros b 0;
          peeked \<leftarrow> PeekBits b 1;
          dcheck (peeked = None \<or> peeked = Some 1);
          let value_bit_count = zero_bit_count + 1;
          (b, val) \<leftarrow> (if value_bit_count > 32 then Some (b, None) else ReadBits b value_bit_count);
          case val of
            None \<Rightarrow> do { let (b, ok) = Seek b (byte_offset original) (bit_offset original); dcheck ok; Some (b, None) }
          | Some v \<Rightarrow> Some (b, Some (v - 1)) }"

definition ReadSignedExponentialGolomb :: "bit_buffer \<Rightarrow> (bit_buffer \<times> int option) option" where
  "ReadSignedExponentialGolomb b =
     do { (b, val) \<leftarrow> ReadExponentialGolomb b;
          case val of
            None \<Rightarrow> Some (b, None)
          | Some v \<Rightarrow> Some (b, Some (if v AND 1 = 0 then - sint (v div 2) else sint ((v + 1) div 2))) }"

text \<open>The bytes behind the first one that \<open>WriteBits\<close> writes.\<close>

fun write_rest :: "bytes \<Rightarrow> nat \<Rightarrow> u64 \<Rightarrow> nat \<Rightarrow> bytes option" where
  "write_rest bytes pos val bit_count =
     (if bit_count \<ge> 8 then
        do { bytes \<leftarrow> put_byte bytes pos (HighestByte val);
             write_rest bytes (pos + 1) (push_bit 8 val) (bit_count - 8) }
      else if bit_count > 0 then
        do { old \<leftarrow> get_byte bytes pos;
             byte \<leftarrow> WritePartialByte (HighestByte val) bit_count old 0;
             put_byte bytes pos byte }
      else Some bytes)"

declare write_rest.simps [simp del]

definition WriteBits :: "bit_buffer \<Rightarrow> u64 \<Rightarrow> nat \<Rightarrow> (bit_buffer \<times> bool) option" where
  "WriteBits b val bit_count =
     (if bit_count > RemainingBitCount b then Some (b, False)
      else do {
        dcheck (0 < bit_count \<and> bit_count \<le> 64);
        let v = push_bit (64 - bit_count) val;
        let remaining_bits_in_current_byte = 8 - bit_offset b;
        let bits_in_first_byte = min bit_count remaining_bits_in_current_byte;
        old \<leftarrow> get_byte (bb_bytes b) (byte_offset b);
        byte \<leftarrow> WritePartialByte (HighestByte v) bits_in_first_byte old (bit_offset b);
        bytes \<leftarrow> put_byte (bb_bytes b) (byte_offset b) byte;
        if bit_count \<le> remaining_bits_in_current_byte
        then Some (ConsumeBits (b\<lparr>bb_bytes := bytes\<rparr>) bit_count)
        else do {
          bytes \<leftarrow> write_rest bytes (byte_offset b + 1) (push_bit bits_in_first_byte v) (bit_count - bits_in_first_byte);
          Some (ConsumeBits (b\<lparr>bb_bytes := bytes\<rparr>) bit_count) } })"

definition WriteUInt8 :: "bit_buffer \<Rightarrow> u8 \<Rightarrow> (bit_buffer \<times> bool) option" where
  "WriteUInt8 b val = WriteBits b (ucast val) 8"

definition WriteUInt16 :: "bit_buffer \<Rightarrow> u16 \<Rightarrow> (bit_buffer \<times> bool) option" where
  "WriteUInt16 b val = WriteBits b (ucast val) 16"

definition WriteUInt32 :: "bit_buffer \<Rightarrow> u32 \<Rightarrow> (bit_buffer \<times> bool) option" where
  "WriteUInt32 b val = WriteBits b (ucast val) 32"

definition WriteNonSymmetric :: "bit_buffer \<Rightarrow> u32 \<Rightarrow> u32 \<Rightarrow> (bit_buffer \<times> bool) option" where
  "WriteNonSymmetric b val num_values =
     do { dcheck (val < num_values);
          dcheck (num_values \<le> 2 ^ 31);
          let count_bits = CountBits (ucast num_values);
          dcheck (count_bits < 32);
          let num_min_bits_values = push_bit count_bits 1 - num_values;
          if val < num_min_bits_values then WriteBits b (ucast val) (count_bits - 1)
          else WriteBits b (ucast (val + num_min_bits_values)) count_bits }"

definition SizeNonSymmetricBits :: "u32 \<Rightarrow> u32 \<Rightarrow> nat option" where
  "SizeNonSymmetricBits val num_values =
     do { dcheck (val < num_values);
          dcheck (num_values \<le> 2 ^ 31);
          let count_bits = CountBits (ucast num_values);
          dcheck (count_bits < 32);
          let num_min_bits_values = push_bit count_bits 1 - num_values;
          Some (if val < num_min_bits_values then count_bits - 1 else count_bits) }"

definition WriteExponentialGolomb :: "bit_buffer \<Rightarrow> u32 \<Rightarrow> (bit_buffer \<times> bool) option" where
  "WriteExponentialGolomb b val =
     (if val = 0xFFFFFFFF then Some (b, False)
      else let val_to_encode = (ucast val + 1 :: u64) in WriteBits b val_to_encode (CountBits val_to_encode * 2 - 1))"

definition WriteSignedExponentialGolomb :: "bit_buffer \<Rightarrow> int \<Rightarrow> (bit_buffer \<times> bool) option" where
  "WriteSignedExponentialGolomb b val =
     (if val = 0 then WriteExponentialGolomb b 0
      else if val > 0 then WriteExponentialGolomb b (of_int val * 2 - 1)
      else if val = - (2 ^ 31) then Some (b, False)
      else WriteExponentialGolomb b (of_int (- val) * 2))"

end
