(* ===== verification/Bit_Stream.thy ===== *)
theory Bit_Stream
  imports Bit_Buffer
begin

text \<open>
  The bit buffer implements a list of bits: what is read are the bits at the current position, what is written
  replaces them.
\<close>

subsection \<open>Bits of a buffer\<close>

definition bit_at :: "bytes \<Rightarrow> nat \<Rightarrow> bool" where
  "bit_at bytes k = bit (bytes ! (k div 8)) (7 - k mod 8)"

definition bit_list :: "bytes \<Rightarrow> bool list" where
  "bit_list bytes = map (bit_at bytes) [0..<8 * length bytes]"

text \<open>The number a list of bits stands for, the highest bit first, and the lowest \<open>n\<close> bits of a number.\<close>

definition bits_value :: "bool list \<Rightarrow> 'a::len word" where
  "bits_value bs = horner_sum of_bool 2 (rev bs)"

definition value_bits :: "nat \<Rightarrow> 'a::len word \<Rightarrow> bool list" where
  "value_bits n v = map (\<lambda>i. bit v (n - 1 - i)) [0..<n]"

lemma length_bit_list [simp]: "length (bit_list bytes) = 8 * length bytes"
  by (simp add: bit_list_def)

lemma length_value_bits [simp]: "length (value_bits n v) = n"
  by (simp add: value_bits_def)

lemma bit_at_byte: "j < 8 \<Longrightarrow> bit_at bytes (8 * p + j) = bit (bytes ! p) (7 - j)"
  by (simp add: bit_at_def)

lemma bit_bits_value:
  "bit (bits_value bs :: 'a::len word) j \<longleftrightarrow> j < LENGTH('a) \<and> j < length bs \<and> bs ! (length bs - 1 - j)"
  by (auto simp: bits_value_def bit_horner_sum_bit_word_iff rev_nth)

lemma bits_value_eqI:
  assumes "length bs \<le> LENGTH('a::len)" "\<And>j. bit (v :: 'a word) j \<longleftrightarrow> j < length bs \<and> bs ! (length bs - 1 - j)"
  shows "bits_value bs = v"
  by (rule bit_eqI) (use assms in \<open>auto simp: bit_bits_value\<close>)

lemma bit_less: "unat (v :: 'a::len word) < 2 ^ n \<Longrightarrow> bit v j \<Longrightarrow> j < n"
  using bit_take_bit_iff [of n "unat v" j] by (simp add: take_bit_nat_eq_self_iff [THEN iffD2] bit_unsigned_iff)

lemma bits_value_bits:
  assumes "unat (v :: 'a::len word) < 2 ^ n" "n \<le> LENGTH('a)"
  shows "bits_value (value_bits n v) = v"
proof (rule bits_value_eqI)
  show "length (value_bits n v) \<le> LENGTH('a)" using assms(2) by simp
  have "value_bits n v ! (n - 1 - j) = bit v j" if "j < n" for j using that by (simp add: value_bits_def)
  then show "bit v j \<longleftrightarrow> j < length (value_bits n v) \<and> value_bits n v ! (length (value_bits n v) - 1 - j)" for j
    using bit_less [OF assms(1), of j] by (cases "j < n") auto
qed

text \<open>The highest and lowest bits of a byte.\<close>

lemma LowestBits_bits:
  assumes "n \<le> 8"
  shows "\<exists>w. LowestBits c n = Some w \<and> (\<forall>j. bit w j \<longleftrightarrow> j < n \<and> bit c j)"
proof -
  have "of_nat (2 ^ n - 1) = (mask n :: u8)" by (simp add: mask_eq_exp_minus_1 of_nat_diff)
  then show ?thesis using assms by (auto simp: LowestBits_def bit_and_iff bit_mask_iff dest: bit_imp_le_length)
qed

lemma bit_ff: "bit (0xFF :: u8) i \<longleftrightarrow> i < 8"
  using bit_mask_iff [where ?'a = u8, of 8 i] by (simp add: mask_eq_exp_minus_1)

lemma HighestBits_bits:
  assumes "n \<le> 8"
  shows "\<exists>w. HighestBits c n = Some w \<and> (\<forall>j. bit w j \<longleftrightarrow> j < n \<and> bit c (8 - n + j))"
proof (intro exI conjI allI)
  let ?w = "drop_bit (8 - n) (c AND push_bit (8 - n) 0xFF)"
  show "HighestBits c n = Some ?w" using assms by (simp add: HighestBits_def Let_def)
  show "bit ?w j \<longleftrightarrow> j < n \<and> bit c (8 - n + j)" for j
    using assms bit_imp_le_length [of c "8 - n + j"] bit_ff [of j]
    by (auto simp: bit_drop_bit_eq bit_and_iff bit_push_bit_iff)
qed

text \<open>\<open>window bytes e m v\<close>: the lowest \<open>m\<close> bits of \<open>v\<close> are those before position \<open>e\<close>, the others are zero.\<close>

definition window :: "bytes \<Rightarrow> nat \<Rightarrow> nat \<Rightarrow> 'a::len word \<Rightarrow> bool" where
  "window bytes e m v \<longleftrightarrow> m \<le> e \<and> (\<forall>j. bit v j \<longleftrightarrow> j < m \<and> bit_at bytes (e - 1 - j))"

lemma window_value:
  assumes "window bytes (p + n) n (v :: 'a::len word)" "n \<le> LENGTH('a)" "p + n \<le> 8 * length bytes"
  shows "v = bits_value (take n (drop p (bit_list bytes)))"
proof (rule bits_value_eqI [symmetric])
  have len: "length (take n (drop p (bit_list bytes))) = n" using assms(3) by simp
  then show "length (take n (drop p (bit_list bytes))) \<le> LENGTH('a)" using assms(2) by simp
  show "bit v j \<longleftrightarrow> j < length (take n (drop p (bit_list bytes))) \<and>
      take n (drop p (bit_list bytes)) ! (length (take n (drop p (bit_list bytes))) - 1 - j)" for j
  proof -
    have "take n (drop p (bit_list bytes)) ! (n - 1 - j) = bit_at bytes (p + n - 1 - j)" if "j < n"
    proof -
      have "p + (n - 1 - j) = p + n - 1 - j" "p + (n - 1 - j) < 8 * length bytes" using that assms(3) by simp_all
      then show ?thesis using that by (simp add: bit_list_def)
    qed
    then show ?thesis unfolding len using assms(1) by (cases "j < n") (simp_all add: window_def)
  qed
qed

lemma window_append:
  fixes bits :: u32
  assumes "window bytes (8 * p) m bits" "m + n \<le> 32" "n \<le> 8" "\<And>j. bit h j \<longleftrightarrow> j < n \<and> bit (bytes ! p) (8 - n + j)"
  shows "window bytes (8 * p + n) (m + n) (push_bit n bits OR ucast (h :: u8))"
  unfolding window_def
proof (intro conjI allI)
  show "m + n \<le> 8 * p + n" using assms(1) by (simp add: window_def)
  fix j
  have low: "bit_at bytes (8 * p + n - 1 - j) = bit (bytes ! p) (8 - n + j)" if "j < n"
  proof -
    have "8 * p + n - 1 - j = 8 * p + (n - 1 - j)" "7 - (n - 1 - j) = 8 - n + j" "n - 1 - j < 8" using that assms(3) by linarith+
    then show ?thesis using bit_at_byte [of "n - 1 - j" bytes p] by metis
  qed
  have high: "8 * p - 1 - (j - n) = 8 * p + n - 1 - j" if "n \<le> j" using that by simp
  have b: "bit bits (j - n) \<longleftrightarrow> j - n < m \<and> bit_at bytes (8 * p - 1 - (j - n))" using assms(1) by (simp add: window_def)
  have o: "bit (push_bit n bits OR ucast h) j \<longleftrightarrow> j < 32 \<and> (n \<le> j \<and> bit bits (j - n) \<or> bit h j)"
    by (auto simp: bit_or_iff bit_push_bit_iff bit_ucast_iff)
  show "bit (push_bit n bits OR ucast h) j \<longleftrightarrow> j < m + n \<and> bit_at bytes (8 * p + n - 1 - j)"
  proof (cases "j < n")
    case True
    then show ?thesis using o assms(2) assms(4) [of j] low by simp
  next
    case False
    then show ?thesis using o b assms(2) assms(4) [of j] high by auto
  qed
qed

subsection \<open>Reading\<close>

definition bb_ok :: "bit_buffer \<Rightarrow> bool" where
  "bb_ok b \<longleftrightarrow> byte_count b \<le> length (bb_bytes b) \<and> byte_count b < 2 ^ 32 \<and> bit_offset b < 8 \<and>
     bit_position b \<le> 8 * byte_count b"

text \<open>The next \<open>n\<close> bits.\<close>

definition next_bits :: "bit_buffer \<Rightarrow> nat \<Rightarrow> bool list" where
  "next_bits b n = take n (drop (bit_position b) (bit_list (bb_bytes b)))"

lemma RemainingBitCount_ok: "bb_ok b \<Longrightarrow> RemainingBitCount b = 8 * byte_count b - bit_position b"
proof -
  assume ok: "bb_ok b"
  have "of_nat (8 * byte_count b) - of_nat (bit_position b) = (of_nat (8 * byte_count b - bit_position b) :: u64)"
    using ok by (subst of_nat_diff) (simp_all add: bb_ok_def)
  moreover have "byte_count b < 2 ^ 32" using ok by (simp add: bb_ok_def)
  then have "8 * byte_count b - bit_position b < 2 ^ 64" by simp
  ultimately show ?thesis unfolding RemainingBitCount_word by (simp add: unat_of_nat take_bit_nat_eq_self)
qed

lemma ConsumeBits_ok:
  assumes "bb_ok b" "bit_position b + n \<le> 8 * byte_count b"
  shows "\<exists>b'. ConsumeBits b n = (b', True) \<and> bb_ok b' \<and> bit_position b' = bit_position b + n \<and>
    bb_bytes b' = bb_bytes b \<and> byte_count b' = byte_count b"
proof -
  have "n \<le> RemainingBitCount b" using assms RemainingBitCount_ok [OF assms(1)] by simp
  then show ?thesis using assms ConsumeBits_position [of n b] by (auto simp: ConsumeBits_def bb_ok_def)
qed

lemma ConsumeBits_fail: "bb_ok b \<Longrightarrow> 8 * byte_count b < bit_position b + n \<Longrightarrow> ConsumeBits b n = (b, False)"
  using RemainingBitCount_ok [of b] by (auto simp: ConsumeBits_def bb_ok_def)

lemma peek_rest_window:
  assumes "window bytes (8 * p) m bits" "m + n \<le> 32" "8 * p + n \<le> 8 * length bytes"
  shows "\<exists>v. peek_rest bytes bits p n = Some v \<and> window bytes (8 * p + n) (m + n) v"
  using assms
proof (induction n arbitrary: p m bits rule: less_induct)
  case (less n)
  consider "n = 0" | "0 < n" "n < 8" | "8 \<le> n" by linarith
  then show ?case
  proof cases
    case 1
    then show ?thesis using less.prems(1) by (subst peek_rest.simps) simp
  next
    case 2
    obtain h where h: "HighestBits (bytes ! p) n = Some h" "\<And>j. bit h j \<longleftrightarrow> j < n \<and> bit (bytes ! p) (8 - n + j)"
      using HighestBits_bits [of n "bytes ! p"] 2 by auto
    have "p < length bytes" using 2 less.prems(3) by linarith
    then have "peek_rest bytes bits p n = Some (push_bit n bits OR ucast h)"
      using 2 h(1) by (subst peek_rest.simps) (simp add: get_byte_def)
    then show ?thesis using window_append [OF less.prems(1,2) _ h(2)] 2 by simp
  next
    case 3
    let ?bits = "push_bit 8 bits OR ucast (bytes ! p) :: u32"
    have "bit (bytes ! p) j \<longleftrightarrow> j < 8 \<and> bit (bytes ! p) (8 - 8 + j)" for j using bit_imp_le_length [of "bytes ! p" j] by auto
    then have "window bytes (8 * p + 8) (m + 8) ?bits" using window_append [OF less.prems(1), of 8 "bytes ! p"] less.prems(2) 3 by simp
    then have w: "window bytes (8 * (p + 1)) (m + 8) ?bits" by (simp add: algebra_simps)
    have e: "8 * (p + 1) + (n - 8) = 8 * p + n" "m + 8 + (n - 8) = m + n" using 3 by simp_all
    have "\<exists>v. peek_rest bytes ?bits (p + 1) (n - 8) = Some v \<and> window bytes (8 * (p + 1) + (n - 8)) (m + 8 + (n - 8)) v"
    proof (rule less.IH [OF _ w])
      show "n - 8 < n" using 3 by simp
      show "m + 8 + (n - 8) \<le> 32" unfolding e by (rule less.prems(2))
      show "8 * (p + 1) + (n - 8) \<le> 8 * length bytes" unfolding e by (rule less.prems(3))
    qed
    moreover have "p < length bytes" using 3 less.prems(3) by linarith
    ultimately show ?thesis using 3 unfolding e by (subst peek_rest.simps) (simp add: get_byte_def)
  qed
qed

lemma first_bits_window:
  assumes "o8 < 8" "\<And>j. bit w j \<longleftrightarrow> j < 8 - o8 \<and> bit (bytes ! p) j"
  shows "window bytes (8 * (p + 1)) (8 - o8) (ucast (w :: u8) :: u32)"
  unfolding window_def
proof (intro conjI allI)
  fix j
  have "bit_at bytes (8 * (p + 1) - 1 - j) = bit (bytes ! p) j" if "j < 8"
  proof -
    have "8 * (p + 1) - 1 - j = 8 * p + (7 - j)" "7 - (7 - j) = j" using that by arith+
    moreover have "7 - j < 8" by simp
    ultimately show ?thesis using bit_at_byte [of "7 - j" bytes p] by metis
  qed
  moreover have "j < 8 - o8 \<Longrightarrow> j < 8 \<and> j < 32" by arith
  ultimately show "bit (ucast w :: u32) j \<longleftrightarrow> j < 8 - o8 \<and> bit_at bytes (8 * (p + 1) - 1 - j)"
    using assms(2) [of j] by (cases "j < 8 - o8") (simp_all add: bit_ucast_iff)
qed simp

text \<open>Within one byte.\<close>

lemma inner_bits_window:
  assumes "o8 + n \<le> 8" "\<And>j. bit w j \<longleftrightarrow> j < 8 - o8 \<and> bit (bytes ! p) j"
    and "\<And>j. bit h j \<longleftrightarrow> j < o8 + n \<and> bit w (8 - (o8 + n) + j)"
  shows "window bytes (8 * p + o8 + n) n (ucast (h :: u8) :: u32)"
  unfolding window_def
proof (intro conjI allI)
  fix j
  have "bit_at bytes (8 * p + o8 + n - 1 - j) = bit (bytes ! p) (8 - (o8 + n) + j)" if "j < n"
  proof -
    have "8 * p + o8 + n - 1 - j = 8 * p + (o8 + n - 1 - j)" "o8 + n - 1 - j < 8" "7 - (o8 + n - 1 - j) = 8 - (o8 + n) + j"
      using assms(1) that by arith+
    then show ?thesis using bit_at_byte [of "o8 + n - 1 - j" bytes p] by metis
  qed
  moreover have "8 - (o8 + n) + j < 8 - o8 \<longleftrightarrow> j < n" "j < n \<Longrightarrow> j < o8 + n \<and> j < 32" using assms(1) by arith+
  ultimately show "bit (ucast h :: u32) j \<longleftrightarrow> j < n \<and> bit_at bytes (8 * p + o8 + n - 1 - j)"
    using assms(3) [of j] assms(2) [of "8 - (o8 + n) + j"] by (cases "j < n") (simp_all add: bit_ucast_iff)
qed simp

lemma PeekBits_window:
  assumes "bb_ok b" "0 < n" "n \<le> 32" "bit_position b + n \<le> 8 * byte_count b"
  shows "\<exists>v. PeekBits b n = Some (Some v) \<and> window (bb_bytes b) (bit_position b + n) n v"
proof -
  define p o8 where "p = byte_offset b" and "o8 = bit_offset b"
  let ?byte = "bb_bytes b ! p"
  have o: "o8 < 8" and pos: "bit_position b = 8 * p + o8" and len: "byte_count b \<le> length (bb_bytes b)"
    using assms(1) by (simp_all add: bb_ok_def bit_position_def p_def o8_def)
  have p: "p < length (bb_bytes b)" using assms(2,4) pos len by linarith
  have rem: "\<not> (n > RemainingBitCount b \<or> n > 32)" using assms(3,4) RemainingBitCount_ok [OF assms(1)] by simp
  obtain w where w: "LowestBits ?byte (8 - o8) = Some w" "\<And>j. bit w j \<longleftrightarrow> j < 8 - o8 \<and> bit ?byte j"
    using LowestBits_bits [of "8 - o8" ?byte] by auto
  have peek: "PeekBits b n = (if n < 8 - o8 then map_option (\<lambda>v. Some (ucast v)) (HighestBits w (o8 + n))
      else map_option Some (peek_rest (bb_bytes b) (ucast w) (p + 1) (n - (8 - o8))))"
    using rem assms(2) p w(1) unfolding PeekBits_def p_def o8_def
    by (auto simp: get_byte_def Let_def split: bind_splits)
  show ?thesis
  proof (cases "n < 8 - o8")
    case True
    then have le: "o8 + n \<le> 8" by arith
    obtain h where h: "HighestBits w (o8 + n) = Some h" "\<And>j. bit h j \<longleftrightarrow> j < o8 + n \<and> bit w (8 - (o8 + n) + j)"
      using HighestBits_bits [OF le, of w] by blast
    then show ?thesis using True peek inner_bits_window [OF le w(2) h(2)] by (simp add: pos)
  next
    case False
    then have e: "8 - o8 + (n - (8 - o8)) = n" "8 * (p + 1) + (n - (8 - o8)) = bit_position b + n" using pos o by arith+
    have "\<exists>v. peek_rest (bb_bytes b) (ucast w) (p + 1) (n - (8 - o8)) = Some v \<and>
        window (bb_bytes b) (8 * (p + 1) + (n - (8 - o8))) (8 - o8 + (n - (8 - o8))) v"
      by (rule peek_rest_window [OF first_bits_window [OF o w(2)]]) (use assms(3,4) len in \<open>simp_all only: e\<close>)
    then show ?thesis using False peek unfolding e by auto
  qed
qed

lemma PeekBits_eq:
  assumes "bb_ok b" "0 < n" "n \<le> 32"
  shows "PeekBits b n =
    Some (if bit_position b + n \<le> 8 * byte_count b then Some (bits_value (next_bits b n)) else None)"
proof (cases "bit_position b + n \<le> 8 * byte_count b")
  case False
  then show ?thesis using assms RemainingBitCount_ok [OF assms(1)] by (auto simp: PeekBits_def bb_ok_def)
next
  case True
  obtain v where v: "PeekBits b n = Some (Some v)" "window (bb_bytes b) (bit_position b + n) n v"
    using PeekBits_window [OF assms True] by blast
  have "v = bits_value (next_bits b n)" unfolding next_bits_def
    by (rule window_value [OF v(2)]) (use assms True in \<open>simp_all add: bb_ok_def\<close>)
  then show ?thesis using v(1) True by simp
qed

subsection \<open>Writing\<close>

lemma bit_at_update:
  "p < length bytes \<Longrightarrow> bit_at (bytes[p := c]) k = (if k div 8 = p then bit c (7 - k mod 8) else bit_at bytes k)"
  by (simp add: bit_at_def nth_list_update)

lemma byte_range: "k div 8 = p \<longleftrightarrow> 8 * p \<le> k \<and> k < 8 * p + 8" for k p :: nat
  by arith

lemma bit_HighestByte: "bit (HighestByte v) j \<longleftrightarrow> j < 8 \<and> bit v (56 + j)"
  by (auto simp: HighestByte_def bit_ucast_iff bit_drop_bit_eq)

lemma WritePartialByte_bits:
  assumes "off < 8" "off + n \<le> 8" "\<And>i. off \<le> i \<Longrightarrow> i < 8 - n \<Longrightarrow> \<not> bit source i"
  shows "\<exists>c. WritePartialByte source n target off = Some c \<and> (\<forall>i < 8. bit c (7 - i) =
    (if off \<le> i \<and> i < off + n then bit source (off + (7 - i)) else bit target (7 - i)))"
proof (intro exI conjI allI impI)
  let ?mask = "drop_bit off (push_bit (8 - n) (0xFF :: u8))"
  let ?c = "(target AND NOT ?mask) OR drop_bit off source"
  have "n \<le> 8 - off" "n < 9" using assms(2) by arith+
  then show "WritePartialByte source n target off = Some ?c" using assms(1) by (simp add: WritePartialByte_def Let_def)
  fix i :: nat assume i: "i < 8"
  have "bit ?mask (7 - i) \<longleftrightarrow> 8 - n \<le> off + (7 - i) \<and> off + (7 - i) < 8 \<and> off + (7 - i) - (8 - n) < 8"
    using bit_ff [of "off + (7 - i) - (8 - n)"] by (auto simp: bit_drop_bit_eq bit_push_bit_iff)
  also have "\<dots> \<longleftrightarrow> off \<le> i \<and> i < off + n" using i assms(1,2) by arith
  finally have c: "bit ?c (7 - i) \<longleftrightarrow> bit target (7 - i) \<and> \<not> (off \<le> i \<and> i < off + n) \<or> bit source (off + (7 - i))"
    by (auto simp: bit_or_iff bit_and_iff bit_not_iff bit_drop_bit_eq)
  have "\<not> bit source (off + (7 - i))" if out: "\<not> (off \<le> i \<and> i < off + n)"
  proof (cases "i < off")
    case True
    then have "\<not> off + (7 - i) < 8" using i by arith
    then show ?thesis using bit_imp_le_length [of source "off + (7 - i)"] by auto
  next
    case False
    then have "off \<le> off + (7 - i)" "off + (7 - i) < 8 - n" using out i assms(2) by arith+
    then show ?thesis by (rule assms(3))
  qed
  then show "bit ?c (7 - i) = (if off \<le> i \<and> i < off + n then bit source (off + (7 - i)) else bit target (7 - i))"
    using c by auto
qed

lemma WritePartialByte_at:
  assumes "off < 8" "off + n \<le> 8" "p < length bytes" "\<And>i. off \<le> i \<Longrightarrow> i < 8 - n \<Longrightarrow> \<not> bit source i"
  shows "\<exists>c. WritePartialByte source n (bytes ! p) off = Some c \<and> (\<forall>k. bit_at (bytes[p := c]) k =
    (if 8 * p + off \<le> k \<and> k < 8 * p + off + n then bit source (7 - (k - (8 * p + off))) else bit_at bytes k))"
proof -
  obtain c where c: "WritePartialByte source n (bytes ! p) off = Some c" "\<And>i. i < 8 \<Longrightarrow> bit c (7 - i) =
      (if off \<le> i \<and> i < off + n then bit source (off + (7 - i)) else bit (bytes ! p) (7 - i))"
    using WritePartialByte_bits [OF assms(1,2,4)] by blast
  have "bit_at (bytes[p := c]) k =
      (if 8 * p + off \<le> k \<and> k < 8 * p + off + n then bit source (7 - (k - (8 * p + off))) else bit_at bytes k)" for k
  proof (cases "k div 8 = p")
    case False
    then have "\<not> (8 * p + off \<le> k \<and> k < 8 * p + off + n)" using assms(2) byte_range [of k p] by arith
    then show ?thesis using False assms(3) by (simp only: bit_at_update if_False)
  next
    case True
    define i where "i = k mod 8"
    have k: "k = 8 * p + i" "i < 8" using True by (auto simp: i_def)
    have "7 - (k - (8 * p + off)) = off + (7 - i)" if "off \<le> i" using that k by simp
    moreover have "8 * p + off \<le> k \<and> k < 8 * p + off + n \<longleftrightarrow> off \<le> i \<and> i < off + n" using k(1) by simp
    moreover have "bit_at (bytes[p := c]) k = bit c (7 - i)" "bit_at bytes k = bit (bytes ! p) (7 - i)"
      using True assms(3) by (simp_all add: bit_at_update i_def bit_at_def)
    ultimately show ?thesis using c(2) [OF k(2)] by simp
  qed
  with c(1) show ?thesis by blast
qed

lemma write_last_at:
  assumes "0 < n" "n < 8" "p < length bytes" "\<And>i. i < 64 - n \<Longrightarrow> \<not> bit v i"
  shows "\<exists>c. write_rest bytes p v n = Some (bytes[p := c]) \<and>
    (\<forall>k. bit_at (bytes[p := c]) k = (if 8 * p \<le> k \<and> k < 8 * p + n then bit v (63 - (k - 8 * p)) else bit_at bytes k))"
proof -
  have zero: "\<not> bit (HighestByte v) i" if "0 \<le> i" "i < 8 - n" for i
    using assms(4) [of "56 + i"] that assms(2) by (simp add: bit_HighestByte)
  obtain c where c: "WritePartialByte (HighestByte v) n (bytes ! p) 0 = Some c" "\<And>k. bit_at (bytes[p := c]) k =
      (if 8 * p + 0 \<le> k \<and> k < 8 * p + 0 + n then bit (HighestByte v) (7 - (k - (8 * p + 0))) else bit_at bytes k)"
    using WritePartialByte_at [of 0 n p bytes "HighestByte v", OF _ _ assms(3) zero] assms(2) by auto
  have "write_rest bytes p v n = Some (bytes[p := c])"
    using assms(1-3) c(1) by (subst write_rest.simps) (simp add: get_byte_def put_byte_def)
  moreover have "bit (HighestByte v) (7 - (k - 8 * p)) = bit v (63 - (k - 8 * p))" if "8 * p \<le> k" "k < 8 * p + n" for k
  proof -
    have "7 - (k - 8 * p) < 8" "56 + (7 - (k - 8 * p)) = 63 - (k - 8 * p)" using that assms(2) by arith+
    then show ?thesis by (simp only: bit_HighestByte simp_thms)
  qed
  ultimately show ?thesis using c(2) by (intro exI [of _ c]) auto
qed

lemma write_byte_at:
  assumes "8 \<le> n" "n \<le> 64" "p < length bytes"
    and "bit_at bytes' k = (if 8 * (p + 1) \<le> k \<and> k < 8 * p + n
      then bit (push_bit 8 v) (63 - (k - 8 * (p + 1))) else bit_at (bytes[p := HighestByte v]) k)"
  shows "bit_at bytes' k = (if 8 * p \<le> k \<and> k < 8 * p + n then bit v (63 - (k - 8 * p)) else bit_at bytes k)"
proof (cases "8 * p \<le> k \<and> k < 8 * p + n")
  case False
  then have "\<not> (8 * (p + 1) \<le> k \<and> k < 8 * p + n)" "\<not> (8 * p \<le> k \<and> k < 8 * p + 8)" using assms(1) by arith+
  then show ?thesis using assms(3,4) False by (simp only: bit_at_update byte_range if_False)
next
  case True
  then have t: "(if 8 * p \<le> k \<and> k < 8 * p + n then bit v (63 - (k - 8 * p)) else bit_at bytes k) = bit v (63 - (k - 8 * p))"
    by (rule if_P)
  show ?thesis
  proof (cases "k < 8 * p + 8")
    case first: True
    define i where "i = k mod 8"
    have d: "k div 8 = p" using True first byte_range [of k p] by blast
    then have "k = 8 * p + i" "i < 8" by (auto simp: i_def)
    then have a: "7 - i < 8" "56 + (7 - i) = 63 - i" "k - 8 * p = i" by arith+
    have "\<not> (8 * (p + 1) \<le> k \<and> k < 8 * p + n)" using first by arith
    then have "bit_at bytes' k = bit (HighestByte v) (7 - i)"
      using assms(3,4) d by (simp only: if_False bit_at_update i_def if_True simp_thms)
    then have "bit_at bytes' k = bit v (63 - (k - 8 * p))"
      unfolding a(3) using a(1,2) by (simp only: bit_HighestByte simp_thms)
    then show ?thesis unfolding t .
  next
    case later: False
    define j where "j = 63 - (k - 8 * (p + 1))"
    have le: "8 * (p + 1) \<le> k" using later by simp
    then obtain q where q: "k = 8 * (p + 1) + q" using le_Suc_ex by blast
    then have "q < 56" using True assms(2) by simp
    moreover have "k - 8 * (p + 1) = q" "k - 8 * p = q + 8" using q by simp_all
    ultimately have j: "j - 8 = 63 - (k - 8 * p)" "8 \<le> j" "j < 64" unfolding j_def by simp_all
    have "8 * (p + 1) \<le> k \<and> k < 8 * p + n" using True le by blast
    then have "bit_at bytes' k = bit (push_bit 8 v) j" using assms(4) by (simp only: if_True j_def simp_thms)
    also have "\<dots> = bit v (j - 8)" using j(2,3) by (simp add: bit_push_bit_iff)
    finally show ?thesis unfolding t j(1) .
  qed
qed

lemma write_rest_at:
  assumes "n \<le> 64" "8 * p + n \<le> 8 * length bytes" "\<And>i. i < 64 - n \<Longrightarrow> \<not> bit v i"
  shows "\<exists>bytes'. write_rest bytes p v n = Some bytes' \<and> length bytes' = length bytes \<and>
    (\<forall>k. bit_at bytes' k = (if 8 * p \<le> k \<and> k < 8 * p + n then bit v (63 - (k - 8 * p)) else bit_at bytes k))"
  using assms
proof (induction n arbitrary: bytes p v rule: less_induct)
  case (less n)
  consider "n = 0" | "0 < n" "n < 8" | "8 \<le> n" by linarith
  then show ?case
  proof cases
    case 1
    then show ?thesis by (subst write_rest.simps) auto
  next
    case 2
    have "p < length bytes" using 2 less.prems(2) by linarith
    from write_last_at [OF 2 this less.prems(3)] show ?thesis by fastforce
  next
    case 3
    let ?bytes = "bytes[p := HighestByte v]"
    have p: "p < length bytes" using 3 less.prems(2) by linarith
    have e: "8 * (p + 1) + (n - 8) = 8 * p + n" using 3 by simp
    have "\<exists>bytes'. write_rest ?bytes (p + 1) (push_bit 8 v) (n - 8) = Some bytes' \<and> length bytes' = length ?bytes \<and>
        (\<forall>k. bit_at bytes' k = (if 8 * (p + 1) \<le> k \<and> k < 8 * (p + 1) + (n - 8)
          then bit (push_bit 8 v) (63 - (k - 8 * (p + 1))) else bit_at ?bytes k))"
    proof (rule less.IH)
      show "n - 8 < n" "n - 8 \<le> 64" using 3 less.prems(1) by arith+
      show "8 * (p + 1) + (n - 8) \<le> 8 * length ?bytes" unfolding e using less.prems(2) by simp
      show "\<not> bit (push_bit 8 v) i" if "i < 64 - (n - 8)" for i
      proof -
        have "i - 8 < 64 - n \<or> i < 8" using that 3 by arith
        then show ?thesis using less.prems(3) [of "i - 8"] by (auto simp: bit_push_bit_iff)
      qed
    qed
    then obtain bytes' where r: "write_rest ?bytes (p + 1) (push_bit 8 v) (n - 8) = Some bytes'" "length bytes' = length bytes"
      "\<And>k. bit_at bytes' k = (if 8 * (p + 1) \<le> k \<and> k < 8 * p + n
          then bit (push_bit 8 v) (63 - (k - 8 * (p + 1))) else bit_at ?bytes k)" unfolding e length_list_update by blast
    have "write_rest bytes p v n = Some bytes'" using 3 p r(1) by (subst write_rest.simps) (simp add: put_byte_def)
    then show ?thesis using r(2) write_byte_at [OF 3 less.prems(1) p r(3)] by blast
  qed
qed

text \<open>Two writes of \<open>m\<close> and \<open>n - m\<close> bits, from the top of \<open>v\<close>, are one of \<open>n\<close> bits.\<close>

lemma write_two_parts:
  assumes "m \<le> n" "n \<le> 64"
    and "bit_at bytes1 k = (if pos \<le> k \<and> k < pos + m then bit v (63 - (k - pos)) else bit_at bytes k)"
    and "bit_at bytes2 k = (if pos + m \<le> k \<and> k < pos + n then bit (push_bit m v) (63 - (k - (pos + m))) else bit_at bytes1 k)"
  shows "bit_at bytes2 k = (if pos \<le> k \<and> k < pos + n then bit (v :: u64) (63 - (k - pos)) else bit_at bytes k)"
proof (cases "pos + m \<le> k \<and> k < pos + n")
  case True
  then obtain q where q: "k = pos + m + q" using le_Suc_ex by blast
  have "63 - q < 64" "m \<le> 63 - q" "63 - q - m = 63 - (k - pos)" "k - (pos + m) = q" using True q assms(2) by simp_all
  then have "bit (push_bit m v) (63 - (k - (pos + m))) = bit v (63 - (k - pos))" by (simp add: bit_push_bit_iff)
  moreover have "pos \<le> k \<and> k < pos + n" using True by simp
  ultimately show ?thesis using assms(4) True by (simp only: if_True simp_thms)
next
  case False
  then have "bit_at bytes2 k = bit_at bytes1 k" using assms(4) by (simp only: if_False)
  moreover have "(pos \<le> k \<and> k < pos + m) = (pos \<le> k \<and> k < pos + n)" using False assms(1) by auto
  ultimately show ?thesis using assms(3) by (simp only:)
qed

lemma push_zeros: "n \<le> 64 \<Longrightarrow> i < 64 - n \<Longrightarrow> \<not> bit (push_bit (64 - n) (val :: u64)) i"
  by (simp add: bit_push_bit_iff)

lemma push_bits:
  assumes "i < n" "n \<le> 64"
  shows "bit (push_bit (64 - n) (val :: u64)) (63 - i) = bit val (n - 1 - i)"
proof -
  have "63 - i < 64" "64 - n \<le> 63 - i" "63 - i - (64 - n) = n - 1 - i" using assms by arith+
  then show ?thesis by (simp add: bit_push_bit_iff)
qed

lemma first_byte_at:
  assumes "o8 < 8" "n \<le> 64" "p < length bytes" "\<And>i. i < 64 - n \<Longrightarrow> \<not> bit (v :: u64) i"
  defines "m \<equiv> min n (8 - o8)"
  shows "\<exists>c. WritePartialByte (HighestByte v) m (bytes ! p) o8 = Some c \<and> (\<forall>k. bit_at (bytes[p := c]) k =
    (if 8 * p + o8 \<le> k \<and> k < 8 * p + o8 + m then bit v (63 - (k - (8 * p + o8))) else bit_at bytes k))"
proof -
  have zero: "\<not> bit (HighestByte v) i" if "o8 \<le> i" "i < 8 - m" for i
  proof -
    have "56 + i < 64 - n" using that assms(1) unfolding m_def by arith
    then show ?thesis using assms(4) by (simp add: bit_HighestByte)
  qed
  have "o8 + m \<le> 8" using assms(1) unfolding m_def by arith
  then obtain c where c: "WritePartialByte (HighestByte v) m (bytes ! p) o8 = Some c" "\<And>k. bit_at (bytes[p := c]) k =
      (if 8 * p + o8 \<le> k \<and> k < 8 * p + o8 + m then bit (HighestByte v) (7 - (k - (8 * p + o8))) else bit_at bytes k)"
    using WritePartialByte_at [OF assms(1) _ assms(3) zero] by blast
  have top: "bit (HighestByte v) (7 - i) = bit v (63 - i)" if "i < m" for i
  proof -
    have "7 - i < 8" "56 + (7 - i) = 63 - i" using that \<open>o8 + m \<le> 8\<close> by arith+
    then show ?thesis by (simp only: bit_HighestByte simp_thms)
  qed
  have "bit_at (bytes[p := c]) k =
      (if 8 * p + o8 \<le> k \<and> k < 8 * p + o8 + m then bit v (63 - (k - (8 * p + o8))) else bit_at bytes k)" for k
  proof (cases "8 * p + o8 \<le> k \<and> k < 8 * p + o8 + m")
    case True
    then have "k - (8 * p + o8) < m" by arith
    from top [OF this] c(2) [of k] True show ?thesis by (simp only: if_True simp_thms)
  next
    case False
    with c(2) [of k] show ?thesis by (simp only: if_False)
  qed
  with c(1) show ?thesis by blast
qed

lemma write_bytes_at:
  assumes "o8 < 8" "0 < n" "n \<le> 64" "8 * p + o8 + n \<le> 8 * length bytes" "\<And>i. i < 64 - n \<Longrightarrow> \<not> bit (v :: u64) i"
  defines "m \<equiv> min n (8 - o8)"
  shows "\<exists>c bytes'. WritePartialByte (HighestByte v) m (bytes ! p) o8 = Some c \<and>
    (if n \<le> 8 - o8 then Some (bytes[p := c]) else write_rest (bytes[p := c]) (p + 1) (push_bit m v) (n - m)) = Some bytes' \<and>
    length bytes' = length bytes \<and> (\<forall>k. bit_at bytes' k =
      (if 8 * p + o8 \<le> k \<and> k < 8 * p + o8 + n then bit v (63 - (k - (8 * p + o8))) else bit_at bytes k))"
proof -
  have p: "p < length bytes" using assms(2,4) by linarith
  obtain c where c: "WritePartialByte (HighestByte v) m (bytes ! p) o8 = Some c" "\<And>k. bit_at (bytes[p := c]) k =
      (if 8 * p + o8 \<le> k \<and> k < 8 * p + o8 + m then bit v (63 - (k - (8 * p + o8))) else bit_at bytes k)"
    using first_byte_at [OF assms(1,3) p assms(5)] unfolding m_def by blast
  show ?thesis
  proof (cases "n \<le> 8 - o8")
    case True
    then have "m = n" by (simp add: m_def)
    then show ?thesis using c True by (intro exI [of _ c] exI [of _ "bytes[p := c]"]) simp
  next
    case False
    then have m: "m \<le> n" and e: "8 * (p + 1) + (n - m) = 8 * p + o8 + n" "8 * (p + 1) = 8 * p + o8 + m"
      using assms(1) unfolding m_def by arith+
    have "\<exists>bytes'. write_rest (bytes[p := c]) (p + 1) (push_bit m v) (n - m) = Some bytes' \<and> length bytes' = length (bytes[p := c]) \<and>
        (\<forall>k. bit_at bytes' k = (if 8 * (p + 1) \<le> k \<and> k < 8 * (p + 1) + (n - m)
          then bit (push_bit m v) (63 - (k - 8 * (p + 1))) else bit_at (bytes[p := c]) k))"
    proof (rule write_rest_at)
      show "n - m \<le> 64" using assms(3) by simp
      show "8 * (p + 1) + (n - m) \<le> 8 * length (bytes[p := c])" unfolding e(1) using assms(4) by simp
      show "\<not> bit (push_bit m v) i" if "i < 64 - (n - m)" for i
      proof -
        have "i < m \<or> i - m < 64 - n" using that m assms(3) by arith
        then show ?thesis using assms(5) by (auto simp: bit_push_bit_iff)
      qed
    qed
    then obtain bytes' where r: "write_rest (bytes[p := c]) (p + 1) (push_bit m v) (n - m) = Some bytes'" "length bytes' = length bytes"
      "\<And>k. bit_at bytes' k = (if 8 * p + o8 + m \<le> k \<and> k < 8 * p + o8 + n
          then bit (push_bit m v) (63 - (k - (8 * p + o8 + m))) else bit_at (bytes[p := c]) k)"
      unfolding e(1) length_list_update unfolding e(2) by blast
    show ?thesis using False c(1) r(1,2) write_two_parts [OF m assms(3) c(2) r(3)]
      by (intro exI [of _ c] exI [of _ bytes']) simp
  qed
qed

lemma WriteBits_at:
  assumes "bb_ok b" "0 < n" "n \<le> 64" "bit_position b + n \<le> 8 * byte_count b"
  shows "\<exists>b'. WriteBits b val n = Some (b', True) \<and> bb_ok b' \<and> bit_position b' = bit_position b + n \<and>
    byte_count b' = byte_count b \<and> length (bb_bytes b') = length (bb_bytes b) \<and>
    (\<forall>k. bit_at (bb_bytes b') k =
      (if bit_position b \<le> k \<and> k < bit_position b + n then bit val (n - 1 - (k - bit_position b)) else bit_at (bb_bytes b) k))"
proof -
  define p o8 v where "p = byte_offset b" and "o8 = bit_offset b" and "v = push_bit (64 - n) val"
  have o: "o8 < 8" and pos: "bit_position b = 8 * p + o8" and len: "byte_count b \<le> length (bb_bytes b)"
    using assms(1) by (simp_all add: bb_ok_def bit_position_def p_def o8_def)
  have rem: "\<not> n > RemainingBitCount b" using assms(4) RemainingBitCount_ok [OF assms(1)] by simp
  have zero: "\<not> bit v i" if "i < 64 - n" for i unfolding v_def by (rule push_zeros [OF assms(3) that])
  have room: "8 * p + o8 + n \<le> 8 * length (bb_bytes b)" using assms(4) len pos by simp
  obtain c bytes' where w: "WritePartialByte (HighestByte v) (min n (8 - o8)) (bb_bytes b ! p) o8 = Some c"
    "(if n \<le> 8 - o8 then Some ((bb_bytes b)[p := c])
      else write_rest ((bb_bytes b)[p := c]) (p + 1) (push_bit (min n (8 - o8)) v) (n - min n (8 - o8))) = Some bytes'"
    "length bytes' = length (bb_bytes b)" "\<And>k. bit_at bytes' k =
      (if bit_position b \<le> k \<and> k < bit_position b + n then bit v (63 - (k - bit_position b)) else bit_at (bb_bytes b) k)"
    using write_bytes_at [OF o assms(2,3) room zero] unfolding pos by blast
  let ?b = "b\<lparr>bb_bytes := bytes'\<rparr>"
  have "bb_ok ?b" "bit_position ?b = bit_position b" using assms(1) w(3) by (simp_all add: bb_ok_def bit_position_def)
  then obtain b' where b': "ConsumeBits ?b n = (b', True)" "bb_ok b'" "bit_position b' = bit_position b + n"
    "bb_bytes b' = bytes'" "byte_count b' = byte_count b" using ConsumeBits_ok [of ?b n] assms(4) by auto
  have "p < length (bb_bytes b)" using room assms(2) by linarith
  then have "WriteBits b val n = Some (b', True)"
    using rem assms(2,3) w(1,2) b'(1) unfolding WriteBits_def p_def o8_def v_def
    by (cases "n \<le> 8 - bit_offset b") (simp_all add: get_byte_def put_byte_def Let_def)
  moreover have "bit_at (bb_bytes b') k =
      (if bit_position b \<le> k \<and> k < bit_position b + n then bit val (n - 1 - (k - bit_position b)) else bit_at (bb_bytes b) k)" for k
  proof (cases "bit_position b \<le> k \<and> k < bit_position b + n")
    case True
    then have "k - bit_position b < n" by arith
    from push_bits [OF this assms(3), of val] show ?thesis using w(4) [of k] True b'(4) unfolding v_def by (simp only: if_True simp_thms)
  next
    case False
    with w(4) [of k] b'(4) show ?thesis by (simp only: if_False)
  qed
  ultimately show ?thesis using b' w(3) by (intro exI [of _ b']) simp
qed

text \<open>Whether \<open>n\<close> more bits are left.\<close>

definition fits :: "bit_buffer \<Rightarrow> nat \<Rightarrow> bool" where
  "fits b n \<longleftrightarrow> bit_position b + n \<le> 8 * byte_count b"

lemma next_bits_at:
  assumes "bit_position b + n \<le> 8 * length (bb_bytes b)"
  shows "next_bits b n = map (\<lambda>i. bit_at (bb_bytes b) (bit_position b + i)) [0..<n]"
  by (rule nth_equalityI) (use assms in \<open>simp_all add: next_bits_def bit_list_def\<close>)

lemma next_bits_value:
  assumes "bit_position b + n \<le> 8 * length (bb_bytes b)"
    "\<And>i. i < n \<Longrightarrow> bit_at (bb_bytes b) (bit_position b + i) = bit v (n - 1 - i)"
  shows "next_bits b n = value_bits n v"
  unfolding next_bits_at [OF assms(1)] value_bits_def by (rule map_cong) (use assms(2) in auto)

lemma bit_list_overlay:
  assumes "length bytes' = length bytes" "p + n \<le> 8 * length bytes"
    "\<And>k. bit_at bytes' k = (if p \<le> k \<and> k < p + n then bit val (n - 1 - (k - p)) else bit_at bytes k)"
  shows "bit_list bytes' = overlay (bit_list bytes) p (value_bits n val)"
proof (rule nth_equalityI)
  show "length (bit_list bytes') = length (overlay (bit_list bytes) p (value_bits n val))"
    using assms(1,2) by (simp add: overlay_def)
next
  fix k assume "k < length (bit_list bytes')"
  then have k: "k < 8 * length bytes" using assms(1) by simp
  have at: "bit_list bytes' ! k = bit_at bytes' k" "bit_list bytes ! k = bit_at bytes k"
    using k assms(1) by (simp_all add: bit_list_def)
  have p: "min (8 * length bytes) p = p" using assms(2) by simp
  consider (before) "k < p" | (inside) i where "k = p + i" "i < n" | (behind) i where "k = p + n + i"
    using le_Suc_ex [of p k] le_Suc_ex [of "p + n" k] by (metis add_less_cancel_left not_le)
  then show "bit_list bytes' ! k = overlay (bit_list bytes) p (value_bits n val) ! k"
  proof cases
    case before
    then show ?thesis using at assms(3) [of k] p by (simp add: overlay_def nth_append)
  next
    case (inside i)
    then show ?thesis using at(1) assms(3) [of k] p by (simp add: overlay_def nth_append) (simp add: value_bits_def)
  next
    case (behind i)
    then show ?thesis using at assms(2) assms(3) [of k] p by (simp add: overlay_def nth_append)
  qed
qed

lemma ReadBits_eq:
  assumes "bb_ok b" "0 < n" "n \<le> 32"
  shows "\<exists>b'. ReadBits b n = Some (b', if fits b n then Some (bits_value (next_bits b n)) else None) \<and> bb_ok b' \<and>
    bb_bytes b' = bb_bytes b \<and> byte_count b' = byte_count b \<and>
    bit_position b' = (if fits b n then bit_position b + n else bit_position b)"
proof (cases "fits b n")
  case True
  then have "bit_position b + n \<le> 8 * byte_count b" by (simp add: fits_def)
  from ConsumeBits_ok [OF assms(1) this] PeekBits_eq [OF assms] True show ?thesis
    by (auto simp: ReadBits_def fits_def)
next
  case False
  then show ?thesis using PeekBits_eq [OF assms] assms(1) by (auto simp: ReadBits_def fits_def)
qed

lemma WriteBits_fail: "bb_ok b \<Longrightarrow> \<not> fits b n \<Longrightarrow> WriteBits b val n = Some (b, False)"
proof -
  assume "bb_ok b" "\<not> fits b n"
  then have "RemainingBitCount b < n" using RemainingBitCount_ok [of b] by (auto simp: fits_def bb_ok_def)
  then show ?thesis by (simp add: WriteBits_def)
qed

text \<open>C10: The bit buffer refines a list of bits with a position, at every bit offset. Reading 1 to 32 bits returns the
  number that the next bits spell, the highest first, and moves on. Writing 1 to 64 bits replaces exactly the next
  bits by the lowest bits of the value and moves on. Neither has an effect when fewer bits are left.
\<close>

theorem bit_buffer_refines:
  assumes "bb_ok b" "0 < n"
  shows "(n \<le> 32 \<longrightarrow> (\<exists>b'.
      ReadBits b n = Some (b', if fits b n then Some (bits_value (next_bits b n)) else None) \<and> bb_ok b' \<and>
      bit_list (bb_bytes b') = bit_list (bb_bytes b) \<and>
      bit_position b' = (if fits b n then bit_position b + n else bit_position b))) \<and>
    (n \<le> 64 \<longrightarrow> (\<exists>b'. WriteBits b val n = Some (b', fits b n) \<and> bb_ok b' \<and>
      bit_list (bb_bytes b') =
        (if fits b n then overlay (bit_list (bb_bytes b)) (bit_position b) (value_bits n val)
         else bit_list (bb_bytes b)) \<and>
      bit_position b' = (if fits b n then bit_position b + n else bit_position b)))"
proof (intro conjI impI)
  assume "n \<le> 32"
  then show "\<exists>b'. ReadBits b n = Some (b', if fits b n then Some (bits_value (next_bits b n)) else None) \<and> bb_ok b' \<and>
      bit_list (bb_bytes b') = bit_list (bb_bytes b) \<and>
      bit_position b' = (if fits b n then bit_position b + n else bit_position b)"
    using ReadBits_eq [OF assms] by auto
next
  assume n: "n \<le> 64"
  show "\<exists>b'. WriteBits b val n = Some (b', fits b n) \<and> bb_ok b' \<and>
      bit_list (bb_bytes b') =
        (if fits b n then overlay (bit_list (bb_bytes b)) (bit_position b) (value_bits n val)
         else bit_list (bb_bytes b)) \<and>
      bit_position b' = (if fits b n then bit_position b + n else bit_position b)"
  proof (cases "fits b n")
    case True
    then have room: "bit_position b + n \<le> 8 * byte_count b" by (simp add: fits_def)
    then have "bit_position b + n \<le> 8 * length (bb_bytes b)" using assms(1) by (simp add: bb_ok_def)
    with WriteBits_at [OF assms n room, of val] True show ?thesis by (auto intro!: bit_list_overlay)
  next
    case False
    then show ?thesis using WriteBits_fail [OF assms(1) False] assms(1) by auto
  qed
qed

text \<open>Ten bits from the middle of the first of three bytes.\<close>

theorem bit_buffer_refines_witness:
  "\<exists>b'. WriteBits \<lparr>bb_bytes = [0xAB, 0xCD, 0xEF], byte_count = 3, byte_offset = 0, bit_offset = 4\<rparr> 0x155 10 = Some (b', True) \<and>
     bit_position b' = 14"
  using bit_buffer_refines [of "\<lparr>bb_bytes = [0xAB, 0xCD, 0xEF], byte_count = 3, byte_offset = 0, bit_offset = 4\<rparr>" 10 "0x155"]
  by (auto simp: bb_ok_def fits_def bit_position_def)

end
