(* ===== verification/Bit_Codes.thy ===== *)
theory Bit_Codes
  imports Bit_Stream
begin

text \<open>
  The variable-length encodings on top of the bit buffer: what is written in exponential Golomb or non-symmetric
  encoding is read back from the position where it was written.
\<close>

subsection \<open>Counting bits\<close>

lemma CountBits_bounds: "unat v < 2 ^ CountBits v \<and> (v \<noteq> 0 \<longrightarrow> 0 < CountBits v \<and> 2 ^ (CountBits v - 1) \<le> unat v)"
proof (induction v rule: CountBits.induct)
  case (1 v)
  show ?case
  proof (cases "v = 0")
    case True
    then show ?thesis by (simp add: CountBits.simps [of v])
  next
    case False
    let ?w = "drop_bit 1 v"
    have c: "CountBits v = Suc (CountBits ?w)" using False by (simp add: CountBits.simps [of v])
    have w: "unat ?w = unat v div 2" unfolding unat_drop_bit_eq by (simp add: drop_bit_eq_div)
    have ih: "unat ?w < 2 ^ CountBits ?w" "?w \<noteq> 0 \<Longrightarrow> 0 < CountBits ?w \<and> 2 ^ (CountBits ?w - 1) \<le> unat ?w"
      using 1 False by simp_all
    have up: "unat v < 2 ^ CountBits v" using ih(1) w c by simp
    have "2 ^ CountBits ?w \<le> unat v"
    proof (cases "?w = 0")
      case True
      then show ?thesis using False by (simp add: CountBits.simps [of 0] unat_gt_0 Suc_le_eq)
    next
      case False
      then obtain m where "CountBits ?w = Suc m" "2 ^ m \<le> unat v div 2"
        using ih(2) w by (metis diff_Suc_1 gr0_conv_Suc)
      then show ?thesis by simp
    qed
    with up c show ?thesis by simp
  qed
qed

lemma CountBits_less: "unat v < 2 ^ CountBits v"
  using CountBits_bounds by blast

lemma CountBits_pos: "v \<noteq> 0 \<Longrightarrow> 0 < CountBits v"
  using CountBits_bounds by blast

lemma CountBits_le: "v \<noteq> 0 \<Longrightarrow> unat v < 2 ^ n \<Longrightarrow> CountBits v \<le> n"
proof -
  assume "v \<noteq> 0" "unat v < 2 ^ n"
  then have "(2 :: nat) ^ (CountBits v - 1) < 2 ^ n" using CountBits_bounds [of v] by linarith
  then show ?thesis by simp
qed

lemma CountBits_ge: "2 ^ n \<le> unat v \<Longrightarrow> n < CountBits v"
proof -
  assume "2 ^ n \<le> unat v"
  then have "(2 :: nat) ^ n < 2 ^ CountBits v" using CountBits_less [of v] by linarith
  then show ?thesis by simp
qed

lemma CountBits_top: "v \<noteq> 0 \<Longrightarrow> bit v (CountBits v - 1)"
proof -
  assume v: "v \<noteq> 0"
  let ?p = "2 ^ (CountBits v - 1) :: nat"
  have "2 ^ CountBits v = 2 * ?p" using CountBits_pos [OF v] by (cases "CountBits v") simp_all
  then have "?p \<le> unat v" "unat v < 2 * ?p" using CountBits_bounds [of v] v by simp_all
  then have "unat v div ?p = 1" by (intro div_nat_eqI) simp_all
  then have "bit (unat v) (CountBits v - 1)" by (simp add: bit_iff_odd)
  then show ?thesis by (simp add: bit_unsigned_iff)
qed

subsection \<open>Reading back\<close>

text \<open>\<open>spells b n v\<close>: the next \<open>n\<close> bits are there and are the lowest \<open>n\<close> bits of \<open>v\<close>.\<close>

definition spells :: "bit_buffer \<Rightarrow> nat \<Rightarrow> u64 \<Rightarrow> bool" where
  "spells b n v \<longleftrightarrow> bb_ok b \<and> fits b n \<and> (\<forall>i<n. bit_at (bb_bytes b) (bit_position b + i) = bit v (n - 1 - i))"

text \<open>A reader sent back to where a value was written finds it there.\<close>

lemma written_spells:
  assumes "bb_ok b" "0 < n" "n \<le> 64" "fits b n"
  shows "\<exists>b' r. WriteBits b val n = Some (b', True) \<and> Seek b' (byte_offset b) (bit_offset b) = (r, True) \<and>
    spells r n val \<and> bit_position r + n = bit_position b' \<and> bb_bytes r = bb_bytes b' \<and> byte_count r = byte_count b' \<and>
    bb_ok b'"
proof -
  have room: "bit_position b + n \<le> 8 * byte_count b" using assms(4) by (simp add: fits_def)
  obtain b' where b': "WriteBits b val n = Some (b', True)" "bb_ok b'" "bit_position b' = bit_position b + n"
    "byte_count b' = byte_count b" "\<And>k. bit_at (bb_bytes b') k =
      (if bit_position b \<le> k \<and> k < bit_position b + n then bit val (n - 1 - (k - bit_position b)) else bit_at (bb_bytes b) k)"
    using WriteBits_at [OF assms(1-3) room, of val] by blast
  let ?r = "b'\<lparr>byte_offset := byte_offset b, bit_offset := bit_offset b\<rparr>"
  have pos: "bit_position ?r = bit_position b" by (simp add: bit_position_def)
  have "byte_offset b < byte_count b" using room assms(2) by (simp add: bit_position_def)
  then have "Seek b' (byte_offset b) (bit_offset b) = (?r, True)"
    using assms(1) b'(4) by (simp add: Seek_def bb_ok_def)
  moreover have "bb_ok ?r" using b'(2,4) assms(1) pos by (simp add: bb_ok_def)
  moreover have "fits ?r n" using assms(4) b'(4) pos by (simp add: fits_def)
  ultimately show ?thesis using b' pos by (intro exI [of _ b'] exI [of _ ?r]) (simp add: spells_def)
qed

lemma ReadBits_spells:
  assumes "spells b n v" "0 < n" "n \<le> 32" "unat v < 2 ^ n"
  shows "\<exists>b'. ReadBits b n = Some (b', Some (ucast v)) \<and> bb_ok b' \<and> bit_position b' = bit_position b + n \<and>
    bb_bytes b' = bb_bytes b \<and> byte_count b' = byte_count b"
proof -
  have ok: "bb_ok b" "fits b n" using assms(1) by (simp_all add: spells_def)
  have "next_bits b n = value_bits n (ucast v :: u32)"
  proof (rule next_bits_value)
    show "bit_position b + n \<le> 8 * length (bb_bytes b)" using ok by (simp add: fits_def bb_ok_def)
    show "bit_at (bb_bytes b) (bit_position b + i) = bit (ucast v :: u32) (n - 1 - i)" if "i < n" for i
    proof -
      have "n - 1 - i < 32" using that assms(3) by arith
      then show ?thesis using that assms(1) by (simp add: spells_def bit_unsigned_iff)
    qed
  qed
  moreover have "unat (ucast v :: u32) = unat v"
    using assms(3,4) power_increasing [of n 32 "2 :: nat"] by (simp add: unsigned_ucast_eq take_bit_nat_eq_self)
  then have "bits_value (value_bits n (ucast v :: u32)) = (ucast v :: u32)"
    using assms(3,4) by (intro bits_value_bits) simp_all
  ultimately show ?thesis using ReadBits_eq [OF ok(1) assms(2,3)] ok(2) by auto
qed

text \<open>The bits behind the first \<open>m\<close>, and the first \<open>m\<close> of them.\<close>

lemma spells_suffix:
  assumes "spells b (m + n) v" "bb_ok b'" "bb_bytes b' = bb_bytes b" "byte_count b' = byte_count b"
    "bit_position b' = bit_position b + m"
  shows "spells b' n v"
proof -
  have "bit_at (bb_bytes b) (bit_position b + m + i) = bit v (n - 1 - i)" if "i < n" for i
    using assms(1) that unfolding spells_def by (auto dest!: conjunct2 spec [of _ "m + i"] simp: add.assoc)
  then show ?thesis using assms by (simp add: spells_def fits_def)
qed

lemma spells_prefix: "spells b (m + n) v \<Longrightarrow> spells b m (drop_bit n v)"
  by (auto simp: spells_def fits_def bit_drop_bit_eq add.commute [of n m])

subsection \<open>Exponential Golomb encoding\<close>

lemma PeekBits_one:
  assumes "bb_ok b" "fits b 1"
  shows "PeekBits b 1 = Some (Some (if bit_at (bb_bytes b) (bit_position b) then 1 else 0))"
proof -
  have "bit_position b + 1 \<le> 8 * length (bb_bytes b)" using assms by (simp add: fits_def bb_ok_def)
  from next_bits_at [OF this] have "bits_value (next_bits b 1) = (if bit_at (bb_bytes b) (bit_position b) then 1 else 0 :: u32)"
    by (simp add: bits_value_def)
  then show ?thesis using PeekBits_eq [OF assms(1), of 1] assms(2) by (simp add: fits_def)
qed

lemma count_zeros_run:
  assumes "bb_ok b" "fits b (z + 1)" "\<And>i. i < z \<Longrightarrow> \<not> bit_at (bb_bytes b) (bit_position b + i)"
    "bit_at (bb_bytes b) (bit_position b + z)"
  shows "\<exists>b'. count_zeros b n = Some (b', n + z) \<and> bb_ok b' \<and> bit_position b' = bit_position b + z \<and>
    bb_bytes b' = bb_bytes b \<and> byte_count b' = byte_count b"
  using assms
proof (induction z arbitrary: b n)
  case 0
  then have "PeekBits b 1 = Some (Some 1)" using PeekBits_one [of b] by simp
  then show ?case using 0 by (simp add: count_zeros.simps [of b])
next
  case (Suc z)
  have f: "fits b 1" using Suc.prems(2) by (simp add: fits_def)
  have p: "PeekBits b 1 = Some (Some 0)" using PeekBits_one [OF Suc.prems(1) f] Suc.prems(3) [of 0] by simp
  have "bit_position b + 1 \<le> 8 * byte_count b" using f by (simp add: fits_def)
  from ConsumeBits_ok [OF Suc.prems(1) this] obtain c where c: "ConsumeBits b 1 = (c, True)" "bb_ok c"
    "bit_position c = bit_position b + 1" "bb_bytes c = bb_bytes b" "byte_count c = byte_count b" by blast
  have "\<exists>b'. count_zeros c (n + 1) = Some (b', (n + 1) + z) \<and> bb_ok b' \<and> bit_position b' = bit_position c + z \<and>
    bb_bytes b' = bb_bytes c \<and> byte_count b' = byte_count c"
  proof (rule Suc.IH)
    show "fits c (z + 1)" using Suc.prems(2) c by (simp add: fits_def)
    show "\<not> bit_at (bb_bytes c) (bit_position c + i)" if "i < z" for i using Suc.prems(3) [of "Suc i"] that c by simp
    show "bit_at (bb_bytes c) (bit_position c + z)" using Suc.prems(4) c by simp
  qed (rule c(2))
  then show ?case using p c by (simp add: count_zeros.simps [of b])
qed

text \<open>The encoding of \<open>v > 0\<close> that a reader finds at its position: as many zeros as \<open>v\<close> has bits behind its highest.\<close>

lemma ReadExponentialGolomb_spells:
  assumes "v \<noteq> 0" "unat v < 2 ^ 32" "spells b (CountBits v * 2 - 1) v"
  shows "\<exists>b'. ReadExponentialGolomb b = Some (b', Some (ucast v - 1)) \<and> bb_ok b' \<and>
    bit_position b' = bit_position b + (CountBits v * 2 - 1)"
proof -
  obtain z where z: "CountBits v = Suc z" using CountBits_pos [OF assms(1)] by (cases "CountBits v") simp_all
  have z32: "Suc z \<le> 32" using CountBits_le [OF assms(1,2)] z by simp
  have s: "spells b (z + Suc z) v" using assms(3) z by (simp add: mult_2_right)
  have ok: "bb_ok b" "fits b (z + 1)" using s by (simp_all add: spells_def fits_def)
  have at: "bit_at (bb_bytes b) (bit_position b + i) = bit v (z + z - i)" if "i < z + Suc z" for i
    using s that by (simp add: spells_def)
  have "\<not> bit_at (bb_bytes b) (bit_position b + i)" if "i < z" for i
    using at [of i] bit_less [OF CountBits_less, of v "z + z - i"] z that by auto
  moreover have "bit_at (bb_bytes b) (bit_position b + z)" using at [of z] CountBits_top [OF assms(1)] z by simp
  ultimately obtain c where c: "count_zeros b 0 = Some (c, z)" "bb_ok c" "bit_position c = bit_position b + z"
    "bb_bytes c = bb_bytes b" "byte_count c = byte_count b"
    using count_zeros_run [OF ok, of 0] by auto
  have sc: "spells c (Suc z) v" by (rule spells_suffix [OF s c(2,4,5,3)])
  have "fits c 1" using sc by (simp add: spells_def fits_def)
  then have p: "PeekBits c 1 = Some (Some 1)"
    using PeekBits_one [OF c(2)] c(3,4) \<open>bit_at (bb_bytes b) (bit_position b + z)\<close> by simp
  obtain d where d: "ReadBits c (Suc z) = Some (d, Some (ucast v))" "bb_ok d" "bit_position d = bit_position c + Suc z"
    using ReadBits_spells [OF sc _ z32] CountBits_less [of v] z by auto
  have "ReadExponentialGolomb b = Some (d, Some (ucast v - 1))"
    using c(1) p d(1) z32 by (simp add: ReadExponentialGolomb_def)
  then show ?thesis using d c(3) z by (intro exI [of _ d]) simp
qed

definition golomb_bits :: "u32 \<Rightarrow> nat" where
  "golomb_bits val = CountBits (ucast val + 1) * 2 - 1"

lemma golomb_value:
  assumes "val \<noteq> (0xFFFFFFFF :: u32)"
  shows "unat (ucast val + 1 :: u64) = unat val + 1" "unat val + 1 < 2 ^ 32"
proof -
  have "unat val \<noteq> 2 ^ 32 - 1" using assms by (simp add: word_unat_eq_iff)
  moreover have "unat val < 2 ^ 32" using unsigned_less [of val] by simp
  ultimately show *: "unat val + 1 < 2 ^ 32" by simp
  then have "unat (of_nat (unat val + 1) :: u64) = unat val + 1" unfolding unat_of_nat by (simp add: take_bit_nat_eq_self)
  moreover have "ucast val + 1 = (of_nat (unat val + 1) :: u64)" by simp
  ultimately show "unat (ucast val + 1 :: u64) = unat val + 1" by (simp only:)
qed

lemma golomb_roundtrip:
  assumes "bb_ok b" "val \<noteq> 0xFFFFFFFF" "fits b (golomb_bits val)"
  shows "\<exists>b' r r'. WriteExponentialGolomb b val = Some (b', True) \<and> Seek b' (byte_offset b) (bit_offset b) = (r, True) \<and>
    ReadExponentialGolomb r = Some (r', Some val) \<and> bit_position b' = bit_position b + golomb_bits val \<and>
    bit_position r' = bit_position b'"
proof -
  define v n where "v = (ucast val + 1 :: u64)" and "n = CountBits v * 2 - 1"
  have u: "unat v = unat val + 1" "unat v < 2 ^ 32" using golomb_value [OF assms(2)] by (simp_all add: v_def)
  then have nz: "v \<noteq> 0" by (metis Suc_eq_plus1 nat.distinct(1) unat_0)
  have n: "0 < n" "n \<le> 64" "fits b n"
    using CountBits_pos [OF nz] CountBits_le [OF nz u(2)] assms(3) by (auto simp: n_def golomb_bits_def v_def)
  obtain b' r where w: "WriteBits b v n = Some (b', True)" "Seek b' (byte_offset b) (bit_offset b) = (r, True)"
    "spells r n v" "bit_position r + n = bit_position b'" using written_spells [OF assms(1) n] by blast
  obtain r' where r: "ReadExponentialGolomb r = Some (r', Some (ucast v - 1))" "bit_position r' = bit_position r + n"
    using ReadExponentialGolomb_spells [OF nz u(2)] w(3) unfolding n_def by blast
  have "bit_position r = bit_position b" using w(2) by (auto simp: Seek_def bit_position_def split: if_splits)
  moreover have "ucast v = (of_nat (unat v) :: u32)" by simp
  then have "ucast v = val + 1" unfolding u(1) by simp
  ultimately show ?thesis using w r assms(2) by (auto simp: Let_def WriteExponentialGolomb_def golomb_bits_def v_def n_def)
qed

text \<open>The unsigned number that \<open>WriteSignedExponentialGolomb\<close> writes.\<close>

definition zigzag :: "int \<Rightarrow> u32" where
  "zigzag val = (if val > 0 then of_int (2 * val - 1) else of_int (- 2 * val))"

lemma uint_zigzag:
  assumes "- (2 ^ 31) < val" "val < 2 ^ 31"
  shows "uint (zigzag val) = (if val > 0 then 2 * val - 1 else - 2 * val)"
proof -
  have "uint (of_int k :: u32) = k" if "0 \<le> k" "k < 2 ^ 32" for k
    using that by (simp add: uint_word_of_int_eq take_bit_int_eq_self)
  from this [of "2 * val - 1"] this [of "- 2 * val"] show ?thesis
    using assms unfolding zigzag_def by (cases "val > 0") (simp_all only: if_True if_False, simp_all)
qed

lemma zigzag_not_max:
  assumes "- (2 ^ 31) < val" "val < 2 ^ 31"
  shows "zigzag val \<noteq> 0xFFFFFFFF"
proof
  assume "zigzag val = 0xFFFFFFFF"
  then have "uint (zigzag val) = 2 ^ 32 - 1" by simp
  then show False using uint_zigzag [OF assms] assms by (cases "val > 0") (simp_all, presburger)
qed

lemma WriteSigned_zigzag:
  assumes "- (2 ^ 31) < val" "val < 2 ^ 31"
  shows "WriteSignedExponentialGolomb b val = WriteExponentialGolomb b (zigzag val)"
  using assms by (simp add: WriteSignedExponentialGolomb_def zigzag_def mult.commute)

lemma and_one_even: "v AND 1 = 0 \<longleftrightarrow> even (uint (v :: u32))"
  by (simp add: and_one_eq even_iff_mod_2_eq_zero word_uint_eq_iff uint_mod)

lemma sint_small: "uint (v :: u32) < 2 ^ 31 \<Longrightarrow> sint v = uint v"
proof -
  assume v: "uint v < 2 ^ 31"
  have "- (2 ^ 31) \<le> (0 :: int)" "0 \<le> uint v" by simp_all
  then have "- (2 ^ 31) \<le> uint v" by (rule order_trans)
  from signed_take_bit_int_eq_self [OF this v] show ?thesis by (simp add: sint_uint)
qed

lemma zigzag_inverse:
  assumes "- (2 ^ 31) < val" "val < 2 ^ 31"
  defines "v \<equiv> zigzag val"
  shows "(if v AND 1 = 0 then - sint (v div 2) else sint ((v + 1) div 2)) = val"
proof (cases "val > 0")
  case True
  then have u: "uint v = 2 * val - 1" using uint_zigzag [OF assms(1,2)] by (simp add: v_def)
  then have "uint (v + 1) = 2 * val" using assms(2) True by (simp add: uint_word_ariths)
  then have "uint ((v + 1) div 2) = val" by (simp add: uint_div)
  then show ?thesis using u assms(2) sint_small [of "(v + 1) div 2"] by (simp add: and_one_even)
next
  case False
  then have u: "uint v = - 2 * val" using uint_zigzag [OF assms(1,2)] by (simp add: v_def)
  then have "uint (v div 2) = - val" by (simp add: uint_div)
  then show ?thesis using u assms(1) sint_small [of "v div 2"] by (simp add: and_one_even)
qed

lemma WriteExponentialGolomb_fail:
  "bb_ok b \<Longrightarrow> \<not> fits b (golomb_bits val) \<Longrightarrow> WriteExponentialGolomb b val = Some (b, False)"
  by (simp add: WriteExponentialGolomb_def Let_def golomb_bits_def WriteBits_fail)

text \<open>C11: Exponential Golomb encoding can be read back, unsigned and signed, at every bit offset. Every 32-bit number but
  the largest unsigned and the smallest signed one is written when the buffer has room for its encoding; a reader sent
  back to where it was written returns that number and ends up where the writer did. Without room nothing is written.
\<close>

theorem exponential_golomb_roundtrip:
  assumes "bb_ok b"
  shows "(val \<noteq> 0xFFFFFFFF \<longrightarrow>
      (if fits b (golomb_bits val)
       then \<exists>b' r r'. WriteExponentialGolomb b val = Some (b', True) \<and>
         Seek b' (byte_offset b) (bit_offset b) = (r, True) \<and>
         ReadExponentialGolomb r = Some (r', Some val) \<and> bit_position b' = bit_position b + golomb_bits val \<and>
         bit_position r' = bit_position b'
       else WriteExponentialGolomb b val = Some (b, False))) \<and>
    (- (2 ^ 31) < i \<and> i < 2 ^ 31 \<longrightarrow>
      (if fits b (golomb_bits (zigzag i))
       then \<exists>b' r r'. WriteSignedExponentialGolomb b i = Some (b', True) \<and>
         Seek b' (byte_offset b) (bit_offset b) = (r, True) \<and>
         ReadSignedExponentialGolomb r = Some (r', Some i) \<and> bit_position r' = bit_position b'
       else WriteSignedExponentialGolomb b i = Some (b, False)))"
proof (intro conjI impI)
  assume "val \<noteq> 0xFFFFFFFF"
  then show "if fits b (golomb_bits val)
       then \<exists>b' r r'. WriteExponentialGolomb b val = Some (b', True) \<and>
         Seek b' (byte_offset b) (bit_offset b) = (r, True) \<and>
         ReadExponentialGolomb r = Some (r', Some val) \<and> bit_position b' = bit_position b + golomb_bits val \<and>
         bit_position r' = bit_position b'
       else WriteExponentialGolomb b val = Some (b, False)"
    using golomb_roundtrip [OF assms] WriteExponentialGolomb_fail [OF assms] by simp
next
  assume i: "- (2 ^ 31) < i \<and> i < 2 ^ 31"
  note inv = zigzag_inverse [OF conjunct1 [OF i] conjunct2 [OF i]] and max = zigzag_not_max [OF conjunct1 [OF i] conjunct2 [OF i]]
  have w: "WriteSignedExponentialGolomb b i = WriteExponentialGolomb b (zigzag i)" using i by (simp add: WriteSigned_zigzag)
  have rd: "ReadSignedExponentialGolomb r = Some (r', Some i)" if "ReadExponentialGolomb r = Some (r', Some (zigzag i))" for r r'
    using that inv by (simp add: ReadSignedExponentialGolomb_def)
  show "if fits b (golomb_bits (zigzag i))
       then \<exists>b' r r'. WriteSignedExponentialGolomb b i = Some (b', True) \<and>
         Seek b' (byte_offset b) (bit_offset b) = (r, True) \<and>
         ReadSignedExponentialGolomb r = Some (r', Some i) \<and> bit_position r' = bit_position b'
       else WriteSignedExponentialGolomb b i = Some (b, False)"
    using golomb_roundtrip [OF assms max] WriteExponentialGolomb_fail [OF assms, of "zigzag i"] rd
    unfolding w by (cases "fits b (golomb_bits (zigzag i))") (simp_all, blast)
qed

text \<open>Seven bits, for 8 and for -4, behind the third bit of a buffer of two bytes.\<close>

theorem exponential_golomb_roundtrip_witness:
  "\<exists>b' r r'. WriteSignedExponentialGolomb \<lparr>bb_bytes = [0xFF, 0xFF], byte_count = 2, byte_offset = 0, bit_offset = 3\<rparr> (-4) = Some (b', True) \<and>
     Seek b' 0 3 = (r, True) \<and> ReadSignedExponentialGolomb r = Some (r', Some (-4))"
proof -
  have "golomb_bits (zigzag (-4)) = 7" by (simp add: golomb_bits_def zigzag_def CountBits.simps)
  then show ?thesis
    using exponential_golomb_roundtrip [of "\<lparr>bb_bytes = [0xFF, 0xFF], byte_count = 2, byte_offset = 0, bit_offset = 3\<rparr>" 8 "-4"]
    by (auto simp: bb_ok_def fits_def bit_position_def)
qed

subsection \<open>Non-symmetric encoding\<close>

text \<open>
  With \<open>c\<close> the number of bits of \<open>num_values\<close>, the first \<open>2 ^ c - num_values\<close> numbers take \<open>c - 1\<close> bits, the
  others \<open>c\<close>.
\<close>

lemma num_min_bits:
  assumes "2 \<le> nv" "nv < (2 ^ 31 :: u32)"
  defines "c \<equiv> CountBits (ucast nv)" and "m \<equiv> push_bit (CountBits (ucast nv)) 1 - nv"
  shows "2 \<le> c" "c < 32" "unat m + unat nv = 2 ^ c" "unat m \<le> 2 ^ (c - 1)"
proof -
  have u: "unat (ucast nv :: u64) = unat nv" by (simp add: unat_ucast_up)
  have n: "2 \<le> unat nv" "unat nv < 2 ^ 31" using assms(1,2) by (simp_all add: word_le_nat_alt word_less_nat_alt)
  then have nz: "(ucast nv :: u64) \<noteq> 0" using u by (metis not_numeral_le_zero unat_0)
  show c2: "2 \<le> c" using CountBits_ge [of 1 "ucast nv"] n u by (simp add: c_def)
  have c31: "c \<le> 31" unfolding c_def by (rule CountBits_le [OF nz]) (use n u in simp)
  then show c32: "c < 32" by simp
  have b: "unat nv < 2 ^ c" "2 ^ (c - 1) \<le> unat nv" using CountBits_bounds [of "ucast nv"] nz u by (simp_all add: c_def)
  have "unat (push_bit c 1 :: u32) = unat (of_nat (2 ^ c) :: u32)" by (simp add: push_bit_eq_mult)
  also have "\<dots> = 2 ^ c" unfolding unat_of_nat using power_strict_increasing [OF c32, of "2 :: nat"]
    by (intro mod_less) simp
  finally have p: "unat (push_bit c 1 :: u32) = 2 ^ c" .
  have "unat m = 2 ^ c - unat nv"
    unfolding m_def c_def [symmetric] using b(1) p by (subst unat_sub) (simp_all add: word_le_nat_alt)
  then show s: "unat m + unat nv = 2 ^ c" using b(1) by simp
  have "(2 :: nat) ^ c = 2 * 2 ^ (c - 1)" using c2 by (cases c) simp_all
  then show "unat m \<le> 2 ^ (c - 1)" using s b(2) by linarith
qed

lemma spells_last_bit: "spells b 1 v \<Longrightarrow> spells b 1 (v AND 1)"
  by (simp add: spells_def bit_and_iff bit_1_iff)

lemma ucast_back: "ucast (ucast (v :: u32) :: u64) = v"
  by (rule bit_word_eqI) (simp add: bit_simps)

lemma halves: "push_bit 1 (drop_bit 1 v) + (v AND 1) = (v :: u32)"
  using div_mult_mod_eq [of v 2] by (simp add: push_bit_eq_mult drop_bit_eq_div and_one_eq mult.commute)

lemma ReadNonSymmetric_short:
  assumes "2 \<le> nv" "nv < (2 ^ 31 :: u32)" "val < push_bit (CountBits (ucast nv)) 1 - nv"
    "spells b (CountBits (ucast nv) - 1) (ucast val)"
  shows "\<exists>b'. ReadNonSymmetric b nv = Some (b', Some val) \<and> bit_position b' = bit_position b + (CountBits (ucast nv) - 1)"
proof -
  define c where "c = CountBits (ucast nv)"
  note c = num_min_bits [OF assms(1,2), folded c_def]
  have n: "0 < c - 1" "c - 1 \<le> 32" using c(1,2) by simp_all
  have "unat (ucast val :: u64) < 2 ^ (c - 1)"
    using assms(3) c(4) by (simp add: unat_ucast_up word_less_nat_alt c_def)
  from ReadBits_spells [OF assms(4) [folded c_def] n this] obtain b' where
    b': "ReadBits b (c - 1) = Some (b', Some val)" "bit_position b' = bit_position b + (c - 1)"
    unfolding ucast_back by blast
  have "0 < nv" "nv \<le> 2 ^ 31" using assms(1,2) by (simp_all add: word_less_nat_alt word_le_nat_alt)
  then have "ReadNonSymmetric b nv = Some (b', Some val)"
    using c(2) assms(3) b'(1) by (simp add: ReadNonSymmetric_def Let_def c_def)
  then show ?thesis using b'(2) by (simp add: c_def)
qed

lemma ReadNonSymmetric_long:
  assumes "2 \<le> nv" "nv < (2 ^ 31 :: u32)" "val < nv" "\<not> val < push_bit (CountBits (ucast nv)) 1 - nv"
    "spells b (CountBits (ucast nv)) (ucast (val + (push_bit (CountBits (ucast nv)) 1 - nv)))"
  shows "\<exists>b'. ReadNonSymmetric b nv = Some (b', Some val) \<and> bit_position b' = bit_position b + CountBits (ucast nv)"
proof -
  define c m where "c = CountBits (ucast nv)" and "m = push_bit c 1 - nv"
  define w v where "w = val + m" and "v = (ucast w :: u64)"
  note c = num_min_bits [OF assms(1,2), folded c_def, folded m_def]
  have n: "0 < c - 1" "c - 1 \<le> 32" "c = (c - 1) + 1" using c(1,2) by simp_all
  have s: "spells b ((c - 1) + 1) v" using assms(5) n(3) by (simp add: v_def w_def m_def c_def)
  have vm: "unat m \<le> unat val" "unat val < unat nv"
    using assms(3,4) by (simp_all add: word_less_nat_alt m_def c_def)
  have lt: "unat val + unat m < 2 ^ c" using c(3) vm(2) by simp
  have "(2 :: nat) ^ c < 2 ^ 32" using c(2) by (intro power_strict_increasing) simp_all
  then have "unat val + unat m < 2 ^ 32" using lt by linarith
  then have w: "unat w = unat val + unat m" unfolding w_def unat_word_ariths by (intro mod_less) simp
  have d: "unat (drop_bit 1 v) = unat w div 2" unfolding unat_drop_bit_eq by (simp add: drop_bit_eq_div v_def unat_ucast_up)
  have "(2 :: nat) ^ c = 2 * 2 ^ (c - 1)" using c(1) by (cases c) simp_all
  then have "unat (drop_bit 1 v) < 2 ^ (c - 1)" using lt unfolding d w by linarith
  from ReadBits_spells [OF spells_prefix [OF s] n(1,2) this] obtain b1 where b1:
    "ReadBits b (c - 1) = Some (b1, Some (ucast (drop_bit 1 v)))" "bb_ok b1" "bit_position b1 = bit_position b + (c - 1)"
    "bb_bytes b1 = bb_bytes b" "byte_count b1 = byte_count b" by blast
  have x: "ucast (drop_bit 1 v) = drop_bit 1 w" unfolding v_def by (rule bit_word_eqI) (simp add: bit_simps)
  have e: "ucast (v AND 1) = w AND 1" unfolding v_def by (rule bit_word_eqI) (auto simp: bit_simps)
  have "spells b1 1 (v AND 1)" by (intro spells_last_bit spells_suffix [OF s b1(2,4,5,3)])
  from ReadBits_spells [OF this] obtain b2 where b2:
    "ReadBits b1 1 = Some (b2, Some (w AND 1))" "bit_position b2 = bit_position b1 + 1"
    unfolding e by (auto simp: and_one_eq unat_mod)
  have "unat (drop_bit 1 w) = unat w div 2" unfolding unat_drop_bit_eq by (simp add: drop_bit_eq_div)
  then have "\<not> drop_bit 1 w < m" using w vm(1) by (simp add: word_less_nat_alt)
  have "0 < nv" "nv \<le> 2 ^ 31" using assms(1,2) by (simp_all add: word_less_nat_alt word_le_nat_alt)
  then have "ReadNonSymmetric b nv = Some (b2, Some (push_bit 1 (drop_bit 1 w) + (w AND 1) - m))"
    using c(2) \<open>\<not> drop_bit 1 w < m\<close> b1(1) b2(1) unfolding x by (simp add: ReadNonSymmetric_def Let_def c_def m_def)
  then have "ReadNonSymmetric b nv = Some (b2, Some val)" unfolding halves by (simp add: w_def)
  then show ?thesis using b1(3) b2(2) n(3) by (simp add: c_def)
qed

lemma non_symmetric_roundtrip_at:
  assumes "bb_ok b" "2 \<le> nv" "nv < (2 ^ 31 :: u32)" "val < nv" "SizeNonSymmetricBits val nv = Some n"
  shows "if fits b n
    then \<exists>b' r r'. WriteNonSymmetric b val nv = Some (b', True) \<and> Seek b' (byte_offset b) (bit_offset b) = (r, True) \<and>
      ReadNonSymmetric r nv = Some (r', Some val) \<and> bit_position b' = bit_position b + n \<and>
      bit_position r' = bit_position b'
    else WriteNonSymmetric b val nv = Some (b, False)"
proof -
  define c m where "c = CountBits (ucast nv)" and "m = push_bit c 1 - nv"
  define x where "x = (if val < m then val else val + m)"
  note c = num_min_bits [OF assms(2,3), folded c_def]
  have nv: "nv \<le> 2 ^ 31" using assms(3) by simp
  have n: "n = (if val < m then c - 1 else c)"
    using assms(4,5) nv c(2) by (auto simp: SizeNonSymmetricBits_def Let_def c_def m_def split: if_splits)
  then have n64: "0 < n" "n \<le> 64" using c(1,2) by auto
  have wr: "WriteNonSymmetric b val nv = WriteBits b (ucast x) n"
    using assms(4) nv c(2) n by (simp add: WriteNonSymmetric_def Let_def c_def m_def x_def)
  show ?thesis
  proof (cases "fits b n")
    case False
    then show ?thesis using WriteBits_fail [OF assms(1) False] wr by simp
  next
    case True
    obtain b' r where w: "WriteBits b (ucast x) n = Some (b', True)" "Seek b' (byte_offset b) (bit_offset b) = (r, True)"
      "spells r n (ucast x)" "bit_position r + n = bit_position b'"
      using written_spells [OF assms(1) n64 True] by blast
    have "\<exists>r'. ReadNonSymmetric r nv = Some (r', Some val) \<and> bit_position r' = bit_position r + n"
      using ReadNonSymmetric_short [OF assms(2,3), of val r] ReadNonSymmetric_long [OF assms(2-4), of r] w(3)
      unfolding n x_def c_def [symmetric] m_def [symmetric] by (cases "val < m") simp_all
    moreover have "bit_position r = bit_position b"
      using w(2) by (auto simp: Seek_def bit_position_def split: if_splits)
    ultimately show ?thesis using w wr True by auto
  qed
qed

lemma CountBits_edge: "CountBits 1 = 1" "CountBits (2 ^ 31) = 32"
proof -
  show "CountBits 1 = 1" by (simp add: CountBits.simps)
  have "CountBits (2 ^ 31) \<le> 32" by (rule CountBits_le) simp_all
  moreover have "31 < CountBits (2 ^ 31)" by (rule CountBits_ge) simp
  ultimately show "CountBits (2 ^ 31) = 32" by linarith
qed

text \<open>C27: Non-symmetric encoding can be read back for 2 to 2^31 - 1 values: a number below \<open>num_values\<close> takes the number of
  bits that \<open>SizeNonSymmetricBits\<close> gives, is written when they fit, and is returned to a reader sent back there, which
  ends up where the writer did. The two ends of the range that the checks admit are not supported: for one value both
  directions handle zero bits, which trips a check or shifts by 64, and for 2^31 values both shift a 32-bit one by 32.
\<close>

theorem non_symmetric_roundtrip:
  assumes "bb_ok b"
  shows "(2 \<le> nv \<and> nv < 2 ^ 31 \<and> val < nv \<longrightarrow> (\<exists>n. SizeNonSymmetricBits val nv = Some n \<and>
      (if fits b n
       then \<exists>b' r r'. WriteNonSymmetric b val nv = Some (b', True) \<and>
         Seek b' (byte_offset b) (bit_offset b) = (r, True) \<and>
         ReadNonSymmetric r nv = Some (r', Some val) \<and> bit_position b' = bit_position b + n \<and>
         bit_position r' = bit_position b'
       else WriteNonSymmetric b val nv = Some (b, False)))) \<and>
    WriteNonSymmetric b 0 1 = None \<and> ReadNonSymmetric b 1 = None \<and>
    WriteNonSymmetric b val (2 ^ 31) = None \<and> ReadNonSymmetric b (2 ^ 31) = None"
proof (intro conjI impI)
  assume a: "2 \<le> nv \<and> nv < 2 ^ 31 \<and> val < nv"
  then have "nv \<le> 2 ^ 31" by (intro order.strict_implies_order) (elim conjE)
  then have "\<exists>n. SizeNonSymmetricBits val nv = Some n"
    using a num_min_bits(2) [of nv] by (simp add: SizeNonSymmetricBits_def Let_def)
  with a non_symmetric_roundtrip_at [OF assms, of nv val] show "\<exists>n. SizeNonSymmetricBits val nv = Some n \<and>
      (if fits b n
       then \<exists>b' r r'. WriteNonSymmetric b val nv = Some (b', True) \<and>
         Seek b' (byte_offset b) (bit_offset b) = (r, True) \<and>
         ReadNonSymmetric r nv = Some (r', Some val) \<and> bit_position b' = bit_position b + n \<and>
         bit_position r' = bit_position b'
       else WriteNonSymmetric b val nv = Some (b, False))" by blast
qed (use CountBits_edge in \<open>simp_all add: WriteNonSymmetric_def ReadNonSymmetric_def WriteBits_def ReadBits_def PeekBits_def Let_def\<close>)

text \<open>The last of five values takes three bits; here they are the last of the buffer.\<close>

theorem non_symmetric_roundtrip_witness:
  "\<exists>b' r r'. WriteNonSymmetric \<lparr>bb_bytes = [0xFF, 0xFF], byte_count = 2, byte_offset = 1, bit_offset = 5\<rparr> 4 5 = Some (b', True) \<and>
     Seek b' 1 5 = (r, True) \<and> ReadNonSymmetric r 5 = Some (r', Some 4)"
proof -
  have "SizeNonSymmetricBits 4 5 = Some 3" by (simp add: SizeNonSymmetricBits_def CountBits.simps)
  then show ?thesis
    using non_symmetric_roundtrip [of "\<lparr>bb_bytes = [0xFF, 0xFF], byte_count = 2, byte_offset = 1, bit_offset = 5\<rparr>" 5 4]
    by (auto simp: bb_ok_def fits_def bit_position_def)
qed

end
