(* ===== verification/Spec2Isabelle.thy ===== *)
theory Spec2Isabelle
  imports Rtcp_Nack Rtcp_Psfb Rtcp_Misc Rtcp_Tmmb Rtcp_Xr Seq_Num Feedback_Wire Nack_Invariant
    Packet_Faults H264_Common Decoded_History Proxy_Invariant Bit_Codes
begin

text \<open>
  A verification development for the media transport of \<open>src/src/myrtc\<close>: how a receiver of RTP packets puts frames
  together, which lost packets it asks for again, what it tells the sender about arrival times, and the RTCP packets
  that carry all this over the wire.

  \<^bold>\<open>The program.\<close> A packet that arrives is seen by three objects. \<open>PacketBuffer\<close> keeps it until all packets of its
  frame are there and hands the frame out. \<open>NackModule\<close> compares its sequence number with the newest one and asks
  for the numbers in between. \<open>RemoteEstimatorProxy\<close> records its arrival time and reports it in \<open>TransportFeedback\<close>
  messages, periodically or on request. The requests and reports are RTCP packets, each a class with \<open>Parse\<close> and
  \<open>Create\<close>. All of them compute with 16-bit sequence numbers that wrap around. \<open>DecodedFramesHistory\<close> remembers which
  frames were decoded, \<open>h264_common\<close> splits an H.264 stream into its units, \<open>BitBuffer\<close> reads and writes bits.

  \<^bold>\<open>How the model reads.\<close> The definitions keep the names of the sources. A class is a record, a method a function
  from the old object to the new one and its result; an output parameter is part of the result. Integers that wrap
  are words of their width. \<open>None\<close> is a failed \<open>RTC_DCHECK\<close> or \<open>RTC_CHECK\<close>, an access outside a buffer or other
  undefined behaviour: a theorem that an operation is \<open>Some\<close> also says that it does none of this. A result that the
  code signals with \<open>false\<close> or a null pointer is a value inside the \<open>Some\<close>.

  \<^bold>\<open>The theories.\<close>

  \<^item> \<open>Rtc_Prelude\<close>: the integer types, byte buffers, checks, \<open>overlay\<close> (the effect of a run of writes), and
    lemmas on lists and words.

  \<^item> \<open>Byte_Io\<close> (\<open>rtp_rtcp/byte_io.h\<close>): reading and writing integers in both byte orders. What is written is read
    back; the unrolled specialisations equal the generic loops; a signed value survives 24 bits exactly when it fits.

  \<^item> \<open>Rtcp_Header\<close> (\<open>common_header\<close>, \<open>rtcp_packet\<close>): the framing. The locale \<open>rtcp_writer\<close> is the contract of a
    \<open>Create\<close> method, with a function from the object to the bytes it must write; \<open>rtcp_unfragmented\<close> is for packets
    that are never split; \<open>rtcp_codec\<close> adds that \<open>Parse\<close> inverts these bytes. Building and parsing back is
    proved once, in the locales.

  \<^item> \<open>Rtcp_Reports\<close> (sender and receiver reports, report blocks, NTP times), \<open>Rtcp_Nack\<close>, \<open>Rtcp_Psfb\<close> (PLI, FIR,
    REMB, loss notification, rapid resync request), \<open>Rtcp_Misc\<close> (BYE, APP, SDES), \<open>Rtcp_Tmmb\<close> (TMMBR, TMMBN) and
    \<open>Rtcp_Xr\<close> (extended reports): one group of definitions per packet class, and the locales interpreted on it.
    Bit rates come back rounded down to the bits of their mantissa. A NACK list of any size is split into packets
    that together carry exactly its numbers.

  \<^item> \<open>Seq_Num\<close> (\<open>mod_ops.h\<close>, \<open>sequence_number_util.h\<close>, \<open>module_common_types_public.h\<close>): differences, comparisons
    and both unwrappers, which follow a stream that moves by less than half the range at a time. \<open>Seq_Store\<close>: the
    ordered containers over such numbers, which work as long as all keys lie within half the range.

  \<^item> \<open>Last_Chunk\<close>, \<open>Transport_Feedback\<close> (the class), \<open>Feedback_Builder\<close> (adding packets refines appending to a list
    of statuses) and \<open>Feedback_Wire\<close> (the bytes): \<open>transport_feedback.{h,cc}\<close>. A receiver of the message learns
    exactly which packets arrived and, within the resolution of a tick, when; parsing arbitrary bytes is safe.

  \<^item> \<open>Histogram\<close>, \<open>Nack_Module\<close> (the class), \<open>Nack_Lemmas\<close> and \<open>Nack_Invariant\<close> (its reachable states):
    \<open>histogram.{h,cc}\<close> and \<open>nack_module.{h,cc}\<close>. The list of requests is bounded, no operation faults, every gap is
    requested, with one exception: the entry of a recovered packet stays, and suppresses requests for its number, until
    another packet is recovered or the lists are cleared. The histogram is a queue of the last values with their counts.

  \<^item> \<open>Packet_Buffer\<close> (the class) and its lemmas: \<open>Packet_Slots\<close> (what the search keeps, with the locale
    \<open>pb_frame\<close>), \<open>Packet_Lookup\<close> (the buffer as a container), \<open>Packet_Missing\<close>, \<open>Packet_Frames\<close> (what is handed
    out), \<open>Packet_Invariant\<close> (reachable states), \<open>Packet_Clear\<close>, \<open>Packet_Search\<close> and \<open>Packet_Progress\<close> (the search
    returns and leaves no complete frame behind); \<open>Packet_Theorems\<close> has the properties: \<open>packet_buffer.{h,cc}\<close>.
    Frames are in order and made of what was inserted. For streams without H.264 they are complete and every operation
    returns, under conditions on the arguments: a number is not exactly half the range from the newest one, no packet in
    the buffer is ahead of the newest one, and \<open>ClearTo\<close> gets a number that the ordered set of missing numbers can look
    up and does not cut a frame. \<open>Packet_Faults\<close> shows what happens outside of them: when \<open>ClearTo\<close> has cut a frame, and for H.264
    when two packets of a frame are a buffer size apart, an insertion dereferences a null pointer.

  \<^item> \<open>Remote_Proxy\<close> (the class), \<open>Proxy_Feedback\<close> (the messages it builds) and \<open>Proxy_Invariant\<close> (its reachable
    states): \<open>remote_estimator_proxy.{h,cc}\<close>. With periodic feedback and no requests every recorded packet is
    reported, through the bytes of the messages. With requests this fails: after an answer to a request that lies more
    than half the number space ahead of the periodic window, the next periodic feedback ends in a failed check.

  \<^item> \<open>H264_Common\<close> (\<open>h264_common.{h,cc}\<close>): escaping can be undone, and the skipping search for start codes finds
    what a search of every position finds. \<open>Decoded_History\<close> (\<open>decoded_frames_history.{h,cc}\<close>): the cyclic bit
    vectors refine a set of frames within a window, for picture ids that increase strictly within each layer.

  \<^item> \<open>Bit_Buffer\<close> (the classes), \<open>Bit_Stream\<close> (they refine a list of bits) and \<open>Bit_Codes\<close> (exponential Golomb and
    non-symmetric encoding can be read back): \<open>rtc_base/bit_buffer.{h,cc}\<close>. The last theorem also shows the two
    numbers of values that the checks admit and the code does not handle.

  \<^bold>\<open>Bounds and fuel.\<close> Loops are structural recursion or have a termination proof, with these exceptions. In
  \<open>Packet_Buffer\<close>, \<open>scan_back\<close> and \<open>image_loop\<close> have the size of the buffer as fuel, since each step
  visits another slot; \<open>insert_missing\<close> has 65536, the number of sequence numbers; \<open>expand_while\<close> has the
  maximal size plus one, since each step doubles the size. Running out is \<open>None\<close>, and \<open>stream_is_safe\<close>,
  \<open>growing_ends\<close> and the bounds on missing packets show that it does not happen. \<open>send_feedbacks\<close> of
  \<open>Remote_Proxy\<close> is a partial function, \<open>None\<close> when it does not end; \<open>periodic_feedback_reports_all\<close> includes that it
  ends. Sizes and counters that memory limits are natural numbers; 64-bit times are integers, with overflow checked
  where an operand comes from a caller.

  \<^bold>\<open>Parameters.\<close> The clock, the senders of requests and feedback, the network state estimator, and \<open>float\<close> and
  \<open>double\<close> arithmetic are arguments or recorded events; no lemma depends on how numbers are rounded.

  \<^bold>\<open>Not modelled.\<close> Compound packets and the remote estimate in APP packets (virtual methods and function objects
  over all packet classes); the RTCP sender and receiver, RTP packets with their extensions, packetisation, packet
  history, forward error correction and statistics (shared buffers, templates over many types, locks and callbacks
  between modules); the frame buffer, jitter and timing, both sides of bandwidth estimation and pacing (floating
  point filters and schedules); the parsers of H.264 parameter sets; calls, streams, threads, sockets and logging;
  and outside \<open>myrtc\<close> the connection (\<open>erizo\<close>), the media adapters (\<open>owt\<close>), the agent (\<open>wa\<close>) and the
  third-party libraries, which are input and output, library calls and wiring.
\<close>

end
